(* ===== verification/Js_Prelude.thy ===== *)
theory Js_Prelude
  imports "HOL-Library.Word"
begin

text \<open>
  The part of the JavaScript language that the modelled scripts use.

  \<^item> A JavaScript number that holds an integer is an \<open>int\<close>. The bitwise operators first
    convert their operands to 32-bit integers (\<open>to_int32\<close>, \<open>to_uint32\<close>); they are written
    out on \<open>int\<close> and related to \<open>32 word\<close> by the rules collected in \<open>js_w32\<close>.
  \<^item> A JavaScript string is the list of its UTF-16 code units (\<open>jstr\<close>).
  \<^item> A JavaScript array is a list of \<open>option\<close> values: \<open>None\<close> is a hole or an
    \<^verbatim>\<open>undefined\<close> element. Writing beyond the end extends the array with holes;
    reading outside gives \<^verbatim>\<open>undefined\<close>.
\<close>

unbundle bit_operations_syntax

named_theorems js_w32 \<open>a JavaScript bitwise operation read as an operation on 32-bit words\<close>
named_theorems js_arr \<open>reads and writes of JavaScript arrays\<close>

section \<open>Numbers and the bitwise operators\<close>

definition to_int32 :: "int \<Rightarrow> int" where
  "to_int32 x = (x + 2147483648) mod 4294967296 - 2147483648"

definition to_uint32 :: "int \<Rightarrow> int" where
  "to_uint32 x = x mod 4294967296"

definition js_and :: "int \<Rightarrow> int \<Rightarrow> int" where
  "js_and a b = to_int32 a AND to_int32 b"

definition js_or :: "int \<Rightarrow> int \<Rightarrow> int" where
  "js_or a b = to_int32 a OR to_int32 b"

definition js_xor :: "int \<Rightarrow> int \<Rightarrow> int" where
  "js_xor a b = to_int32 a XOR to_int32 b"

definition js_not :: "int \<Rightarrow> int" where
  "js_not a = NOT (to_int32 a)"

text \<open>The shift distance is the right operand modulo 32.\<close>

definition js_shl :: "int \<Rightarrow> int \<Rightarrow> int" where
  "js_shl a n = to_int32 (push_bit (nat (n mod 32)) (to_int32 a))"

definition js_shr :: "int \<Rightarrow> int \<Rightarrow> int" where
  "js_shr a n = drop_bit (nat (n mod 32)) (to_int32 a)"

definition js_ushr :: "int \<Rightarrow> int \<Rightarrow> int" where
  "js_ushr a n = drop_bit (nat (n mod 32)) (to_uint32 a)"

text \<open>The value of an integer as a 32-bit word.\<close>

abbreviation w32 :: "int \<Rightarrow> 32 word" where
  "w32 x \<equiv> word_of_int x"

subsection \<open>The operators on words\<close>

lemma to_int32_signed_take_bit: "to_int32 x = signed_take_bit 31 x"
  by (simp add: to_int32_def signed_take_bit_eq_take_bit_shift take_bit_eq_mod)

lemma to_uint32_take_bit: "to_uint32 x = take_bit 32 x"
  by (simp add: to_uint32_def take_bit_eq_mod)

lemma to_int32_sint: "to_int32 x = sint (w32 x)"
  by (simp add: to_int32_signed_take_bit signed_of_int)

lemma to_uint32_uint: "to_uint32 x = uint (w32 x)"
  by (simp add: to_uint32_take_bit unsigned_of_int)

lemma w32_to_int32 [js_w32]: "w32 (to_int32 x) = w32 x"
  by (simp add: to_int32_sint)

lemma w32_to_uint32 [js_w32]: "w32 (to_uint32 x) = w32 x"
  by (simp add: to_uint32_uint)

lemma w32_and: "w32 (x AND y) = w32 x AND w32 y"
  by (rule of_int_and_eq)

lemma w32_or: "w32 (x OR y) = w32 x OR w32 y"
  by (rule of_int_or_eq)

lemma w32_xor: "w32 (x XOR y) = w32 x XOR w32 y"
  by (rule of_int_xor_eq)

lemma w32_not: "w32 (NOT x) = NOT (w32 x)"
  by (rule of_int_not_eq)

lemma w32_js_and [js_w32]: "w32 (js_and a b) = w32 a AND w32 b"
  by (simp add: js_and_def w32_and w32_to_int32)

lemma w32_js_or [js_w32]: "w32 (js_or a b) = w32 a OR w32 b"
  by (simp add: js_or_def w32_or w32_to_int32)

lemma w32_js_xor [js_w32]: "w32 (js_xor a b) = w32 a XOR w32 b"
  by (simp add: js_xor_def w32_xor w32_to_int32)

lemma w32_js_not [js_w32]: "w32 (js_not a) = NOT (w32 a)"
  by (simp add: js_not_def w32_not w32_to_int32)

lemma w32_push_bit: "w32 (push_bit n x) = push_bit n (w32 x)"
  by (simp add: push_bit_eq_mult)

lemma w32_js_shl [js_w32]: "w32 (js_shl a n) = push_bit (nat (n mod 32)) (w32 a)"
  by (simp add: js_shl_def w32_to_int32 w32_push_bit)

lemma js_ushr_uint: "js_ushr a n = uint (drop_bit (nat (n mod 32)) (w32 a))"
  by (simp add: js_ushr_def to_uint32_uint unsigned_drop_bit_eq bintr_uint)

lemma w32_js_ushr [js_w32]: "w32 (js_ushr a n) = drop_bit (nat (n mod 32)) (w32 a)"
  by (simp add: js_ushr_uint)

lemma js_shr_sint: "js_shr a n = sint (signed_drop_bit (nat (n mod 32)) (w32 a))"
  by (simp add: js_shr_def to_int32_sint sint_signed_drop_bit_eq)

lemma w32_js_shr [js_w32]: "w32 (js_shr a n) = signed_drop_bit (nat (n mod 32)) (w32 a)"
  by (simp add: js_shr_sint)

text \<open>The usual rotate idiom \<^verbatim>\<open>(x << n) | (x >>> (32 - n))\<close>.\<close>

lemma w32_rotate:
  assumes "0 < n" "n < 32"
  shows "push_bit n x OR drop_bit (32 - n) x = word_rotl n (x :: 32 word)"
proof (rule bit_word_eqI)
  fix i :: nat
  assume i: "i < LENGTH(32)"
  have rot: "bit (word_rotl n x) i = bit x ((i + (32 - n)) mod 32)"
    using assms i by (simp add: bit_word_rotl_iff)
  have shifts: "bit (push_bit n x OR drop_bit (32 - n) x) i
      = ((n \<le> i \<and> bit x (i - n)) \<or> bit x (i + (32 - n)))"
    using assms i by (auto simp: bit_or_iff bit_push_bit_iff bit_drop_bit_eq add.commute)
  show "bit (push_bit n x OR drop_bit (32 - n) x) i = bit (word_rotl n x) i"
  proof (cases "n \<le> i")
    case True
    with assms i have "(i + (32 - n)) mod 32 = i - n"
      by (simp add: mod_if)
    moreover have "\<not> bit x (i + (32 - n))"
      using True assms by (auto dest: bit_imp_le_length)
    ultimately show ?thesis
      using True by (simp only: rot shifts) simp
  next
    case False
    with assms i have "(i + (32 - n)) mod 32 = i + (32 - n)"
      by simp
    with False show ?thesis
      by (simp only: rot shifts) simp
  qed
qed

lemma w32_js_rotate:
  assumes "0 < n" "n < 32"
  shows "w32 (js_or (js_shl x n) (js_ushr x (32 - n))) = word_rotl (nat n) (w32 x)"
proof -
  have "n mod 32 = n" "(32 - n) mod 32 = 32 - n"
    using assms by (simp, intro mod_pos_pos_trivial) auto
  moreover have "nat (32 - n) = 32 - nat n"
    using assms by simp
  ultimately show ?thesis
    using w32_rotate [of "nat n" "w32 x"] assms by (simp only: js_w32)
qed

subsection \<open>Ranges and values of the operators\<close>

lemma to_int32_range: "- 2147483648 \<le> to_int32 x" "to_int32 x < 2147483648"
  by (simp_all add: to_int32_def)

lemma to_int32_id [simp]: "- 2147483648 \<le> x \<Longrightarrow> x < 2147483648 \<Longrightarrow> to_int32 x = x"
  by (simp add: to_int32_def)

lemma js_ushr_range: "0 \<le> js_ushr a n" "js_ushr a n < 4294967296"
proof -
  show "0 \<le> js_ushr a n"
    by (simp add: js_ushr_uint)
  show "js_ushr a n < 4294967296"
    using uint_lt2p [of "drop_bit (nat (n mod 32)) (w32 a)"] by (simp add: js_ushr_uint)
qed

text \<open>A mask \<^verbatim>\<open>x & (2^k - 1)\<close> is a remainder, whatever the operand.\<close>

lemma js_and_mask:
  assumes "k \<le> 31"
  shows "js_and a (2 ^ k - 1) = a mod 2 ^ k"
proof -
  have "(2::int) ^ k \<le> 2 ^ 31"
    using assms by (intro power_increasing) auto
  then have "(2::int) ^ k \<le> 2147483648"
    by simp
  moreover have "(0::int) < 2 ^ k"
    by simp
  ultimately have "- 2147483648 \<le> (2::int) ^ k - 1" "(2::int) ^ k - 1 < 2147483648"
    by linarith+
  then have "to_int32 (2 ^ k - 1) = mask k"
    by (simp only: to_int32_id mask_eq_exp_minus_1)
  moreover have "take_bit k (to_int32 a) = take_bit k a"
    using assms by (simp add: to_int32_signed_take_bit take_bit_signed_take_bit)
  ultimately show ?thesis
    by (simp add: js_and_def take_bit_eq_mask [symmetric] take_bit_eq_mod)
qed

lemma js_and_one: "js_and a 1 = a mod 2"
  using js_and_mask [of 1 a] by simp

lemma js_and_bit:
  assumes "k < 31"
  shows "js_and (2 ^ k) x = (if bit x k then 2 ^ k else 0)"
proof -
  have "(2 :: int) ^ k < 2 ^ 31"
    using assms by (intro power_strict_increasing) auto
  then have "to_int32 (2 ^ k) = 2 ^ k"
    by (intro to_int32_id) (auto intro: order_trans [of _ 0])
  moreover have "bit (to_int32 x) k = bit x k"
    using assms by (simp add: to_int32_signed_take_bit bit_simps min_def)
  ultimately show ?thesis
    by (auto simp: js_and_def bit_simps intro!: bit_eqI)
qed

text \<open>Disjoint bits are added.\<close>

lemma js_or_add:
  assumes "0 \<le> a" "a < 2 ^ k" "0 \<le> b" "a + b * 2 ^ k < 2147483648"
  shows "js_or a (b * 2 ^ k) = a + b * 2 ^ k" and "js_or (b * 2 ^ k) a = a + b * 2 ^ k"
proof -
  have nonneg: "0 \<le> b * 2 ^ k"
    using assms by simp
  have "take_bit k a = a"
    using assms by (simp add: take_bit_int_eq_self)
  then have "\<not> bit a n \<or> \<not> bit (push_bit k b) n" for n
    by (metis bit_push_bit_iff bit_take_bit_iff not_le)
  then have "a OR push_bit k b = a + push_bit k b"
    by (intro disjunctive_add [symmetric])
  moreover have "to_int32 a = a" "to_int32 (b * 2 ^ k) = b * 2 ^ k"
    using assms nonneg by (intro to_int32_id; linarith)+
  ultimately show "js_or a (b * 2 ^ k) = a + b * 2 ^ k" and "js_or (b * 2 ^ k) a = a + b * 2 ^ k"
    by (simp_all add: js_or_def push_bit_eq_mult or.commute)
qed

lemma js_and_comm: "js_and a b = js_and b a"
  by (simp add: js_and_def and.commute)

lemma js_xor_comm: "js_xor a b = js_xor b a"
  by (simp add: js_xor_def xor.commute)

lemma js_shr_div:
  assumes "0 \<le> a" "a < 2147483648" "0 \<le> n" "n < 32"
  shows "js_shr a n = a div 2 ^ nat n"
  using assms by (simp add: js_shr_def drop_bit_eq_div)

lemma js_ushr_div:
  assumes "0 \<le> a" "a < 4294967296" "0 \<le> n" "n < 32"
  shows "js_ushr a n = a div 2 ^ nat n"
  using assms by (simp add: js_ushr_def to_uint32_def drop_bit_eq_div)

section \<open>Arrays\<close>

definition arr_get :: "'a option list \<Rightarrow> int \<Rightarrow> 'a option" where
  "arr_get xs i = (if 0 \<le> i \<and> nat i < length xs then xs ! nat i else None)"

text \<open>
  A negative index names an ordinary property, not an element; no modelled script reads
  such a property back, so the write leaves the elements as they are.
\<close>

definition arr_set :: "'a option list \<Rightarrow> int \<Rightarrow> 'a \<Rightarrow> 'a option list" where
  "arr_set xs i v =
     (if i < 0 then xs
      else if nat i < length xs then xs[nat i := Some v]
      else xs @ replicate (nat i - length xs) None @ [Some v])"

text \<open>Writing \<^verbatim>\<open>undefined\<close>, which scripts use to give an array its length.\<close>

definition arr_set_undef :: "'a option list \<Rightarrow> int \<Rightarrow> 'a option list" where
  "arr_set_undef xs i =
     (if i < 0 then xs
      else if nat i < length xs then xs[nat i := None]
      else xs @ replicate (Suc (nat i) - length xs) None)"

text \<open>The operand a bitwise operator sees: \<^verbatim>\<open>undefined\<close> and \<^verbatim>\<open>NaN\<close> count as 0.\<close>

definition bits_of :: "int option \<Rightarrow> int" where
  "bits_of v = (case v of None \<Rightarrow> 0 | Some x \<Rightarrow> x)"

abbreviation arr_bits :: "int option list \<Rightarrow> int \<Rightarrow> int" where
  "arr_bits xs i \<equiv> bits_of (arr_get xs i)"

lemma bits_of_simps [simp]: "bits_of None = 0" "bits_of (Some x) = x"
  by (simp_all add: bits_of_def)

lemma arr_get_arr_set [js_arr]:
  "0 \<le> i \<Longrightarrow> arr_get (arr_set xs i v) j = (if j = i then Some v else arr_get xs j)"
  by (auto simp: arr_get_def arr_set_def nth_append nth_list_update nth_Cons' eq_nat_nat_iff)

lemma length_arr_set [js_arr]:
  "0 \<le> i \<Longrightarrow> length (arr_set xs i v) = max (length xs) (Suc (nat i))"
  by (auto simp: arr_set_def)

lemma arr_set_neg [js_arr]: "i < 0 \<Longrightarrow> arr_set xs i v = xs"
  by (simp add: arr_set_def)

lemma arr_get_Nil [simp]: "arr_get [] i = None"
  by (simp add: arr_get_def)

lemma arr_get_map_Some [js_arr]:
  "arr_get (map Some xs) i = (if 0 \<le> i \<and> nat i < length xs then Some (xs ! nat i) else None)"
  by (simp add: arr_get_def)

lemma arr_get_append1 [js_arr]: "j < length xs \<Longrightarrow> arr_get (xs @ ys) (int j) = arr_get xs (int j)"
  by (simp add: arr_get_def nth_append)

lemma arr_get_append2 [js_arr]: "arr_get (xs @ ys) (int (length xs) + int m) = arr_get ys (int m)"
  by (simp add: arr_get_def nth_append nat_add_distrib)

lemma arr_get_map_upt [js_arr]:
  "arr_get (map f [0..<n]) (int j) = (if j < n then f j else None)"
  by (simp add: arr_get_def)

section \<open>Strings\<close>

type_synonym jstr = "int list"

text \<open>A string literal of the source, as its code units.\<close>

definition str :: "string \<Rightarrow> jstr" where
  "str s = map of_char s"

definition char_at :: "jstr \<Rightarrow> int \<Rightarrow> jstr" where
  "char_at s i = (if 0 \<le> i \<and> nat i < length s then [s ! nat i] else [])"

text \<open>\<^verbatim>\<open>charCodeAt\<close> gives \<^verbatim>\<open>NaN\<close>, here \<open>None\<close>, outside the string.\<close>

definition char_code_at :: "jstr \<Rightarrow> int \<Rightarrow> int option" where
  "char_code_at s i = (if 0 \<le> i \<and> nat i < length s then Some (s ! nat i) else None)"

text \<open>\<^verbatim>\<open>substr(start, length)\<close> for a start that is not negative.\<close>

definition js_substr :: "jstr \<Rightarrow> int \<Rightarrow> int \<Rightarrow> jstr" where
  "js_substr s start len = take (nat len) (drop (nat start) s)"

text \<open>\<^verbatim>\<open>String.fromCharCode\<close> keeps the low 16 bits of its argument.\<close>

definition from_char_code :: "int \<Rightarrow> jstr" where
  "from_char_code c = [c mod 65536]"

text \<open>Every element of a string is a UTF-16 code unit, of a byte string a byte.\<close>

definition code_units :: "jstr \<Rightarrow> bool" where
  "code_units s \<longleftrightarrow> (\<forall>c \<in> set s. 0 \<le> c \<and> c < 65536)"

definition byte_string :: "jstr \<Rightarrow> bool" where
  "byte_string s \<longleftrightarrow> (\<forall>c \<in> set s. 0 \<le> c \<and> c < 256)"

lemma char_code_at_nth [simp]: "i < length s \<Longrightarrow> char_code_at s (int i) = Some (s ! i)"
  by (simp add: char_code_at_def)

lemma byte_string_append [simp]: "byte_string (s @ t) \<longleftrightarrow> byte_string s \<and> byte_string t"
  by (auto simp: byte_string_def)

lemma byte_string_Nil [simp]: "byte_string []"
  by (simp add: byte_string_def)

lemma byte_string_Cons [simp]: "byte_string (c # s) \<longleftrightarrow> 0 \<le> c \<and> c < 256 \<and> byte_string s"
  by (auto simp: byte_string_def)

lemma byte_string_replicate [simp]: "0 \<le> c \<Longrightarrow> c < 256 \<Longrightarrow> byte_string (replicate n c)"
  by (auto simp: byte_string_def)

lemma byte_string_nth: "byte_string s \<Longrightarrow> i < length s \<Longrightarrow> 0 \<le> s ! i \<and> s ! i < 256"
  by (auto simp: byte_string_def)

text \<open>\<^verbatim>\<open>toString(16)\<close> of a number that is not negative.\<close>

definition hex_digits :: jstr where
  "hex_digits = str ''0123456789abcdef''"

fun nat_to_hex :: "nat \<Rightarrow> jstr" where
  "nat_to_hex n = (if n < 16 then [] else nat_to_hex (n div 16)) @ [hex_digits ! (n mod 16)]"

declare nat_to_hex.simps [simp del]

definition js_to_hex :: "int \<Rightarrow> jstr" where
  "js_to_hex n = nat_to_hex (nat n)"

text \<open>The decimal digits of a number that is not negative.\<close>

fun nat_to_dec :: "nat \<Rightarrow> jstr" where
  "nat_to_dec n = (if n < 10 then [] else nat_to_dec (n div 10)) @ [48 + int (n mod 10)]"

declare nat_to_dec.simps [simp del]

lemma nat_to_dec_digits: "c \<in> set (nat_to_dec n) \<Longrightarrow> 48 \<le> c \<and> c < 58"
proof (induction n rule: nat_to_dec.induct)
  case (1 n)
  then show ?case
    by (subst (asm) (2) nat_to_dec.simps) (auto split: if_splits)
qed

lemma nat_to_dec_length: "n < 10 ^ k \<Longrightarrow> 0 < k \<Longrightarrow> length (nat_to_dec n) \<le> k"
proof (induction k arbitrary: n)
  case (Suc k)
  then show ?case
    using less_mult_imp_div_less [of n "10 ^ k" 10]
    by (cases k) (auto simp: nat_to_dec.simps [of n] mult.commute)
qed simp

text \<open>\<^verbatim>\<open>s.replace(/pat/g, rep)\<close> for a literal pattern and replacement: matches from the left, no overlap.\<close>

fun js_replace_all :: "jstr \<Rightarrow> jstr \<Rightarrow> jstr \<Rightarrow> jstr" where
  "js_replace_all pat rep [] = []"
| "js_replace_all pat rep (c # s) =
     (if pat \<noteq> [] \<and> take (length pat) (c # s) = pat
      then rep @ js_replace_all pat rep (drop (length pat - 1) s)
      else c # js_replace_all pat rep s)"

text \<open>
  \<^verbatim>\<open>parseInt\<close> without a radix: leading white space, a sign, \<^verbatim>\<open>0x\<close> for base 16, then the longest run
  of digits; \<open>None\<close> stands for \<^verbatim>\<open>NaN\<close>.
\<close>

definition js_space :: "int \<Rightarrow> bool" where
  "js_space c \<longleftrightarrow> c \<in> {9, 10, 11, 12, 13, 32, 160, 5760, 8232, 8233, 8239, 8287, 12288, 65279} \<or>
     8192 \<le> c \<and> c \<le> 8202"

definition digit_value :: "int \<Rightarrow> int" where
  "digit_value c =
     (if 48 \<le> c \<and> c \<le> 57 then c - 48
      else if 97 \<le> c \<and> c \<le> 122 then c - 87
      else if 65 \<le> c \<and> c \<le> 90 then c - 55
      else 36)"

definition parse_digits :: "int \<Rightarrow> jstr \<Rightarrow> int option" where
  "parse_digits radix s =
     (let ds = takeWhile (\<lambda>d. d < radix) (map digit_value s)
      in if ds = [] then None else Some (foldl (\<lambda>v d. radix * v + d) 0 ds))"

definition parse_int :: "jstr \<Rightarrow> int option" where
  "parse_int s =
     (let s = dropWhile js_space s;
          neg = (s \<noteq> [] \<and> hd s = 45);
          s = (if s \<noteq> [] \<and> (hd s = 45 \<or> hd s = 43) then tl s else s);
          hexp = (take 2 s = str ''0x'' \<or> take 2 s = str ''0X'');
          v = (if hexp then parse_digits 16 (drop 2 s) else parse_digits 10 s)
      in map_option (\<lambda>v. if neg then - v else v) v)"

text \<open>
  \<^verbatim>\<open>toLowerCase\<close> on the ASCII letters. The scripts only compare its result with hexadecimal digits,
  to which no character outside ASCII is lowered.
\<close>

definition ascii_lower :: "jstr \<Rightarrow> jstr" where
  "ascii_lower s = map (\<lambda>c. if 65 \<le> c \<and> c \<le> 90 then c + 32 else c) s"

section \<open>Counting loops\<close>

text \<open>\<open>js_for i n s f x\<close> is \<^verbatim>\<open>for (; i < n; i += s) x = f(i, x)\<close> for a bound that stays the same.\<close>

function js_for :: "int \<Rightarrow> int \<Rightarrow> int \<Rightarrow> (int \<Rightarrow> 'a \<Rightarrow> 'a) \<Rightarrow> 'a \<Rightarrow> 'a" where
  "js_for i n s f x = (if i < n \<and> 0 < s then js_for (i + s) n s f (f i x) else x)"
  by pat_completeness auto
termination
  by (relation "measure (\<lambda>(i, n, s, f, x). nat (n - i))") auto

declare js_for.simps [simp del]

lemma js_for_done [simp]: "n \<le> i \<Longrightarrow> js_for i n s f x = x"
  by (subst js_for.simps) simp

lemma js_for_fold:
  assumes "0 < s"
  shows "js_for (s * int a) (s * int b) s f x = fold (\<lambda>k. f (s * int k)) [a..<b] x"
proof (induction "b - a" arbitrary: a x)
  case 0
  with assms show ?case by simp
next
  case (Suc n)
  then have less: "a < b" by simp
  have step: "s * int a + s = s * int (Suc a)" by (simp add: algebra_simps)
  have "js_for (s * int a) (s * int b) s f x = js_for (s * int (Suc a)) (s * int b) s f (f (s * int a) x)"
    by (subst js_for.simps) (use less assms step in simp)
  also have "\<dots> = fold (\<lambda>k. f (s * int k)) [Suc a..<b] (f (s * int a) x)"
    using Suc.hyps(2) by (intro Suc.hyps(1)) simp
  finally show ?case using less by (simp add: upt_conv_Cons)
qed

text \<open>The invariant rule of a loop from 0 in steps of \<open>s\<close>.\<close>

lemma js_for_inv:
  assumes "0 < s" and "P 0 x"
    and "\<And>k y. k < n \<Longrightarrow> P k y \<Longrightarrow> P (Suc k) (f (s * int k) y)"
  shows "P n (js_for 0 (s * int n) s f x)"
proof -
  have "P m (fold (\<lambda>k. f (s * int k)) [0..<m] x)" if "m \<le> n" for m
    using that by (induction m) (simp_all add: assms)
  then show ?thesis
    using js_for_fold [OF assms(1), of 0 n f x] by simp
qed

lemma js_for_unit:
  "js_for 0 (int n) 1 f x = fold (\<lambda>k. f (int k)) [0..<n] x"
  using js_for_fold [of 1 0 n f x] by simp

text \<open>\<open>js_down i n f x\<close> is \<^verbatim>\<open>for (; i > n; --i) x = f(i, x)\<close>.\<close>

function js_down :: "int \<Rightarrow> int \<Rightarrow> (int \<Rightarrow> 'a \<Rightarrow> 'a) \<Rightarrow> 'a \<Rightarrow> 'a" where
  "js_down i n f x = (if n < i then js_down (i - 1) n f (f i x) else x)"
  by pat_completeness auto
termination
  by (relation "measure (\<lambda>(i, n, f, x). nat (i - n))") auto

declare js_down.simps [simp del]

text \<open>The invariant rule of a loop from \<open>n\<close> down to 1.\<close>

lemma js_down_inv:
  assumes "P n x" and "\<And>k y. k < n \<Longrightarrow> P (Suc k) y \<Longrightarrow> P k (f (int (Suc k)) y)"
  shows "P 0 (js_down (int n) 0 f x)"
  using assms
proof (induction n arbitrary: x)
  case 0
  then show ?case by (subst js_down.simps) simp
next
  case (Suc n)
  have "js_down (int (Suc n)) 0 f x = js_down (int n) 0 f (f (int (Suc n)) x)"
    by (subst js_down.simps) simp
  moreover have "P 0 (js_down (int n) 0 f (f (int (Suc n)) x))"
    using Suc.prems by (intro Suc.IH) auto
  ultimately show ?case by simp
qed

text \<open>A loop over the indices from \<open>n - 1\<close> down to 0.\<close>

lemma js_down_fold: "js_down (int n - 1) (- 1) f x = fold (\<lambda>k. f (int k)) (rev [0..<n]) x"
proof (induction n arbitrary: x)
  case (Suc n)
  have "js_down (int (Suc n) - 1) (- 1) f x = js_down (int n - 1) (- 1) f (f (int n) x)"
    by (subst js_down.simps) simp
  with Suc show ?case by simp
qed (simp add: js_down.simps)

lemma fold_append_concat: "fold (\<lambda>k r. r @ g k) ks r = r @ concat (map g ks)"
  by (induction ks arbitrary: r) simp_all

lemma js_down_concat: "js_down (int n - 1) (- 1) (\<lambda>i r. r @ g i) r = r @ concat (map (\<lambda>k. g (int k)) (rev [0..<n]))"
  by (simp add: js_down_fold fold_append_concat)

text \<open>A finite check by evaluation gives its instances.\<close>

lemma upt_all: "list_all P [0..<n] \<Longrightarrow> k < n \<Longrightarrow> P k"
  by (auto simp: list_all_iff)

section \<open>Text of a number in a radix\<close>

definition radval :: "int \<Rightarrow> jstr \<Rightarrow> int" where
  "radval r s = foldl (\<lambda>v c. r * v + digit_value c) 0 s"

definition radix_string :: "int \<Rightarrow> jstr \<Rightarrow> bool" where
  "radix_string r s \<longleftrightarrow> (\<forall>c \<in> set s. digit_value c < r)"

lemma digit_value_nonneg: "0 \<le> digit_value c"
  by (simp add: digit_value_def)

lemma radix_string_simps [simp]:
  "radix_string r []" "radix_string r (c # s) \<longleftrightarrow> digit_value c < r \<and> radix_string r s"
  "radix_string r (s @ t) \<longleftrightarrow> radix_string r s \<and> radix_string r t"
  by (auto simp: radix_string_def)

lemma radix_string_take_drop [simp]:
  "radix_string r s \<Longrightarrow> radix_string r (take n s)" "radix_string r s \<Longrightarrow> radix_string r (drop n s)"
  by (auto simp: radix_string_def dest: in_set_takeD in_set_dropD)

lemma radval_snoc [simp]: "radval r (s @ [c]) = r * radval r s + digit_value c"
  by (simp add: radval_def)

lemma radval_Nil [simp]: "radval r [] = 0"
  by (simp add: radval_def)

lemma radval_append: "radval r (s @ t) = radval r s * r ^ length t + radval r t"
proof (induction t rule: rev_induct)
  case (snoc c t)
  then show ?case by (simp add: append_assoc [symmetric] algebra_simps del: append_assoc)
qed simp

lemma radval_Cons: "radval r (c # s) = digit_value c * r ^ length s + radval r s"
  using radval_append [of r "[c]" s] radval_snoc [of r "[]" c] by simp

lemma radval_bounds: "radix_string r s \<Longrightarrow> 0 < r \<Longrightarrow> 0 \<le> radval r s \<and> radval r s < r ^ length s"
proof (induction s rule: rev_induct)
  case (snoc c s)
  then have "r * (radval r s + 1) \<le> r * r ^ length s" by (intro mult_left_mono) auto
  with snoc digit_value_nonneg [of c] show ?case by (simp add: distrib_left)
qed simp

section \<open>Arithmetic with undefined operands\<close>

text \<open>
  Arithmetic on a value that may be \<^verbatim>\<open>undefined\<close> or \<^verbatim>\<open>NaN\<close>: both are \<open>None\<close>, the result is \<open>None\<close> when an
  operand is, and an order comparison with \<open>None\<close> is false.
\<close>

definition num_lift :: "(int \<Rightarrow> int \<Rightarrow> int) \<Rightarrow> int option \<Rightarrow> int option \<Rightarrow> int option" where
  "num_lift f a b = (case (a, b) of (Some x, Some y) \<Rightarrow> Some (f x y) | _ \<Rightarrow> None)"

abbreviation num_add :: "int option \<Rightarrow> int option \<Rightarrow> int option" where
  "num_add \<equiv> num_lift (+)"

abbreviation num_sub :: "int option \<Rightarrow> int option \<Rightarrow> int option" where
  "num_sub \<equiv> num_lift (-)"

abbreviation num_mul :: "int option \<Rightarrow> int option \<Rightarrow> int option" where
  "num_mul \<equiv> num_lift (*)"

definition num_less :: "int option \<Rightarrow> int option \<Rightarrow> bool" where
  "num_less a b = (case (a, b) of (Some x, Some y) \<Rightarrow> x < y | _ \<Rightarrow> False)"

lemma num_simps [simp]:
  "num_lift f (Some x) (Some y) = Some (f x y)" "num_lift f None b = None" "num_lift f a None = None"
  "num_less (Some x) (Some y) = (x < y)" "\<not> num_less None b" "\<not> num_less a None"
  by (simp_all add: num_lift_def num_less_def split: option.split)

text \<open>Storing a value that may be \<^verbatim>\<open>undefined\<close>.\<close>

definition arr_put :: "'a option list \<Rightarrow> int \<Rightarrow> 'a option \<Rightarrow> 'a option list" where
  "arr_put xs i v = (case v of None \<Rightarrow> arr_set_undef xs i | Some y \<Rightarrow> arr_set xs i y)"

lemma arr_put_Some [simp]: "arr_put xs i (Some y) = arr_set xs i y"
  by (simp add: arr_put_def)

lemma arr_get_Some_nth [simp]: "i < length xs \<Longrightarrow> arr_get (map Some xs) (int i) = Some (xs ! i)"
  by (simp add: arr_get_def)

lemma arr_set_map_Some [simp]: "i < length xs \<Longrightarrow> arr_set (map Some xs) (int i) v = map Some (xs[i := v])"
  by (simp add: arr_set_def map_update)

end
