(* ===== verification/Md5_Spec.thy ===== *)
theory Md5_Spec
  imports Js_Prelude
begin

text \<open>
  The MD5 message digest as RFC 1321 defines it, on lists of bytes and 32-bit words, and the
  interface through which the scripts' implementations are shown to compute it.

  The first half is the reference definition: padding, the sixty-four operations of a block and
  the chaining of blocks. The second half holds two locales. \<open>md5_rounds\<close> collects what a
  script's four round functions promise; \<open>md5_impl\<close> collects what its block function and its
  loop over the blocks promise, and proves once that such a script computes the digest of the
  message that its word array represents.
\<close>

section \<open>The reference definition\<close>

type_synonym w32_regs = "32 word \<times> 32 word \<times> 32 word \<times> 32 word"

definition md5_F :: "32 word \<Rightarrow> 32 word \<Rightarrow> 32 word \<Rightarrow> 32 word" where
  "md5_F x y z = (x AND y) OR (NOT x AND z)"

definition md5_G :: "32 word \<Rightarrow> 32 word \<Rightarrow> 32 word \<Rightarrow> 32 word" where
  "md5_G x y z = (x AND z) OR (y AND NOT z)"

definition md5_H :: "32 word \<Rightarrow> 32 word \<Rightarrow> 32 word \<Rightarrow> 32 word" where
  "md5_H x y z = x XOR y XOR z"

definition md5_I :: "32 word \<Rightarrow> 32 word \<Rightarrow> 32 word \<Rightarrow> 32 word" where
  "md5_I x y z = y XOR (x OR NOT z)"

text \<open>\<open>T[i]\<close> is the integer part of \<open>4294967296 * abs (sin i)\<close>, \<open>i\<close> in radians.\<close>

definition md5_T :: "32 word list" where
  "md5_T =
    [
     3614090360, 3905402710, 606105819, 3250441966,
     4118548399, 1200080426, 2821735955, 4249261313,
     1770035416, 2336552879, 4294925233, 2304563134,
     1804603682, 4254626195, 2792965006, 1236535329,
     4129170786, 3225465664, 643717713, 3921069994,
     3593408605, 38016083, 3634488961, 3889429448,
     568446438, 3275163606, 4107603335, 1163531501,
     2850285829, 4243563512, 1735328473, 2368359562,
     4294588738, 2272392833, 1839030562, 4259657740,
     2763975236, 1272893353, 4139469664, 3200236656,
     681279174, 3936430074, 3572445317, 76029189,
     3654602809, 3873151461, 530742520, 3299628645,
     4096336452, 1126891415, 2878612391, 4237533241,
     1700485571, 2399980690, 4293915773, 2240044497,
     1873313359, 4264355552, 2734768916, 1309151649,
     4149444226, 3174756917, 718787259, 3951481745]"

text \<open>
  An operation of RFC 1321, \<^verbatim>\<open>[abcd k s i]\<close>: which auxiliary function, which register it
  assigns (0 for A, 1 for D, 2 for C, 3 for B), the message word, the shift and the constant.
\<close>

datatype md5_round = RoundF | RoundG | RoundH | RoundI

datatype md5_op = Op md5_round nat nat nat "32 word"

fun md5_fun :: "md5_round \<Rightarrow> 32 word \<Rightarrow> 32 word \<Rightarrow> 32 word \<Rightarrow> 32 word" where
  "md5_fun RoundF = md5_F"
| "md5_fun RoundG = md5_G"
| "md5_fun RoundH = md5_H"
| "md5_fun RoundI = md5_I"

definition md5_schedule :: "(md5_round \<times> nat \<times> nat \<times> nat) list" where
  "md5_schedule = map (\<lambda>i.
     if i < 16 then (RoundF, i mod 4, i, [7, 12, 17, 22] ! (i mod 4))
     else if i < 32 then (RoundG, i mod 4, (5 * i + 1) mod 16, [5, 9, 14, 20] ! (i mod 4))
     else if i < 48 then (RoundH, i mod 4, (3 * i + 5) mod 16, [4, 11, 16, 23] ! (i mod 4))
     else (RoundI, i mod 4, (7 * i) mod 16, [6, 10, 15, 21] ! (i mod 4))) [0..<64]"

text \<open>The constants are a parameter: one script hashes with an altered table.\<close>

definition md5_ops :: "32 word list \<Rightarrow> md5_op list" where
  "md5_ops T = map (\<lambda>((f, r, k, s), t). Op f r k s t) (zip md5_schedule T)"

definition md5_mix :: "md5_round \<Rightarrow> 32 word \<Rightarrow> 32 word \<Rightarrow> 32 word \<Rightarrow> 32 word \<Rightarrow> 32 word \<Rightarrow> nat \<Rightarrow> 32 word \<Rightarrow> 32 word" where
  "md5_mix f a b c d x s t = b + word_rotl s (a + md5_fun f b c d + x + t)"

fun md5_apply :: "(nat \<Rightarrow> 32 word) \<Rightarrow> md5_op \<Rightarrow> w32_regs \<Rightarrow> w32_regs" where
  "md5_apply X (Op f r k s t) (a, b, c, d) =
     (if r = 0 then (md5_mix f a b c d (X k) s t, b, c, d)
      else if r = 1 then (a, b, c, md5_mix f d a b c (X k) s t)
      else if r = 2 then (a, b, md5_mix f c d a b (X k) s t, d)
      else (a, md5_mix f b c d a (X k) s t, c, d))"

fun md5_add :: "w32_regs \<Rightarrow> w32_regs \<Rightarrow> w32_regs" where
  "md5_add (a, b, c, d) (a', b', c', d') = (a + a', b + b', c + c', d + d')"

definition md5_block :: "32 word list \<Rightarrow> (nat \<Rightarrow> 32 word) \<Rightarrow> w32_regs \<Rightarrow> w32_regs" where
  "md5_block T X r = md5_add (fold (md5_apply X) (md5_ops T) r) r"

definition md5_init :: w32_regs where
  "md5_init = (0x67452301, 0xefcdab89, 0x98badcfe, 0x10325476)"

subsection \<open>Bytes, words and padding\<close>

text \<open>Byte \<open>k\<close> of word \<open>j\<close> of a message, in place; beyond the message it is 0.\<close>

definition byte_in_word :: "int list \<Rightarrow> nat \<Rightarrow> nat \<Rightarrow> 32 word" where
  "byte_in_word bs j k = (if 4 * j + k < length bs then push_bit (8 * k) (w32 (bs ! (4 * j + k))) else 0)"

definition le_word :: "int list \<Rightarrow> nat \<Rightarrow> 32 word" where
  "le_word bs j = byte_in_word bs j 0 OR byte_in_word bs j 1 OR byte_in_word bs j 2 OR byte_in_word bs j 3"

definition le_bytes64 :: "nat \<Rightarrow> int list" where
  "le_bytes64 n = map (\<lambda>i. int n div 256 ^ i mod 256) [0..<8]"

definition md5_pad :: "int list \<Rightarrow> int list" where
  "md5_pad bs = bs @ [128] @ replicate ((119 - length bs mod 64) mod 64) 0 @ le_bytes64 (8 * length bs)"

fun md5_blocks :: "32 word list \<Rightarrow> int list \<Rightarrow> nat \<Rightarrow> nat \<Rightarrow> w32_regs \<Rightarrow> w32_regs" where
  "md5_blocks T bs i 0 r = r"
| "md5_blocks T bs i (Suc n) r = md5_blocks T bs (Suc i) n (md5_block T (\<lambda>k. le_word bs (16 * i + k)) r)"

definition md5_regs :: "32 word list \<Rightarrow> int list \<Rightarrow> w32_regs" where
  "md5_regs T bs = (let p = md5_pad bs in md5_blocks T p 0 (length p div 64) md5_init)"

definition le_bytes32 :: "32 word \<Rightarrow> int list" where
  "le_bytes32 w = map (\<lambda>k. uint (drop_bit (8 * k) w) mod 256) [0..<4]"

definition md5_digest_with :: "32 word list \<Rightarrow> int list \<Rightarrow> int list" where
  "md5_digest_with T bs =
     (case md5_regs T bs of (a, b, c, d) \<Rightarrow> le_bytes32 a @ le_bytes32 b @ le_bytes32 c @ le_bytes32 d)"

abbreviation md5_digest :: "int list \<Rightarrow> int list" where
  "md5_digest \<equiv> md5_digest_with md5_T"

section \<open>Words of a padded message\<close>

lemma word_position:
  assumes "k < 4"
  shows "4 * j + k = n \<longleftrightarrow> j = n div 4 \<and> k = n mod (4::nat)"
proof
  assume "4 * j + k = n"
  then show "j = n div 4 \<and> k = n mod 4" using assms by auto
next
  assume "j = n div 4 \<and> k = n mod 4"
  then show "4 * j + k = n" by simp
qed

lemma le_word_snoc:
  "le_word (bs @ [c]) j =
     le_word bs j OR (if j = length bs div 4 then push_bit (8 * (length bs mod 4)) (w32 c) else 0)"
proof -
  have byte: "byte_in_word (bs @ [c]) j k = byte_in_word bs j k OR
      (if j = length bs div 4 \<and> k = length bs mod 4 then push_bit (8 * k) (w32 c) else 0)"
    if "k < 4" for k
    using word_position [OF that, of j "length bs"] by (auto simp: byte_in_word_def nth_append)
  have "length bs mod 4 = 0 \<or> length bs mod 4 = 1 \<or> length bs mod 4 = 2 \<or> length bs mod 4 = 3"
    by arith
  then show ?thesis
    by (elim disjE) (simp_all add: le_word_def byte ac_simps)
qed

lemma le_word_append_zeros: "le_word (bs @ replicate m 0) j = le_word bs j"
proof (induction m)
  case 0
  then show ?case by simp
next
  case (Suc m)
  have "bs @ replicate (Suc m) 0 = (bs @ replicate m 0) @ [0]"
    by (simp add: replicate_append_same)
  then show ?case
    by (simp only: le_word_snoc Suc) simp
qed

lemma le_word_append_aligned:
  assumes "length bs = 4 * q"
  shows "le_word (bs @ cs) j = (if j < q then le_word bs j else le_word cs (j - q))"
proof -
  have "byte_in_word (bs @ cs) j k = (if j < q then byte_in_word bs j k else byte_in_word cs (j - q) k)"
    if "k < 4" for k
  proof (cases "j < q")
    case True
    with that assms show ?thesis by (simp add: byte_in_word_def nth_append)
  next
    case False
    then have "4 * j + k - 4 * q = 4 * (j - q) + k" by simp
    with False that assms show ?thesis by (simp add: byte_in_word_def nth_append)
  qed
  then show ?thesis by (simp add: le_word_def)
qed

lemma le_word_beyond: "length bs \<le> 4 * j \<Longrightarrow> le_word bs j = 0"
  by (simp add: le_word_def byte_in_word_def)

lemma length_le_bytes64 [simp]: "length (le_bytes64 n) = 8"
  by (simp add: le_bytes64_def)

lemma le_word_le_bytes64_low: "le_word (le_bytes64 n) 0 = w32 (int n)"
proof (rule bit_word_eqI)
  fix i
  assume i: "i < LENGTH(32)"
  have byte: "w32 (int n div 256 ^ k mod 256) = w32 (take_bit 8 (drop_bit (8 * k) (int n)))" for k
    by (simp add: take_bit_eq_mod drop_bit_eq_div power_mult)
  have eq: "le_word (le_bytes64 n) 0 =
      w32 (take_bit 8 (int n)) OR push_bit 8 (w32 (take_bit 8 (drop_bit 8 (int n))))
      OR push_bit 16 (w32 (take_bit 8 (drop_bit 16 (int n)))) OR push_bit 24 (w32 (take_bit 8 (drop_bit 24 (int n))))"
    using byte [of 0] byte [of 1] byte [of 2] byte [of 3]
    by (simp add: le_word_def byte_in_word_def le_bytes64_def upt_rec)
  consider "i < 8" | "8 \<le> i" "i < 16" | "16 \<le> i" "i < 24" | "24 \<le> i" "i < 32"
    using i by fastforce
  then show "bit (le_word (le_bytes64 n) 0) i = bit (w32 (int n)) i"
    unfolding eq by cases (auto simp: bit_simps)
qed

lemma le_word_le_bytes64_high:
  assumes "n < 4294967296" and "0 < j"
  shows "le_word (le_bytes64 n) j = 0"
proof -
  have "int n div 256 ^ k = 0" if "4 \<le> k" for k
  proof -
    have "(256::int) ^ 4 \<le> 256 ^ k" using that by (intro power_increasing) auto
    moreover have "int n < 256 ^ 4" using assms(1) by simp
    ultimately have "int n < 256 ^ k" by linarith
    then show ?thesis by (intro div_pos_pos_trivial) auto
  qed
  then have "byte_in_word (le_bytes64 n) j k = 0" for k
    using assms(2) by (simp add: byte_in_word_def le_bytes64_def)
  then show ?thesis
    by (simp add: le_word_def)
qed

text \<open>Every bit of a word is a bit of one byte of the message.\<close>

lemma byte_high_bit: "0 \<le> b \<Longrightarrow> b < 256 \<Longrightarrow> 8 \<le> n \<Longrightarrow> \<not> bit (b::int) n"
proof -
  assume "0 \<le> b" "b < 256" "8 \<le> n"
  then have "take_bit 8 b = b" by (simp add: take_bit_eq_mod)
  then show ?thesis using \<open>8 \<le> n\<close> by (metis bit_take_bit_iff not_le)
qed

lemma bit_byte_in_word:
  assumes "byte_string bs" and "i < 32" and "k < 4"
  shows "bit (byte_in_word bs j k) i \<longleftrightarrow> k = i div 8 \<and> 4 * j + k < length bs \<and> bit (bs ! (4 * j + k)) (i mod 8)"
proof (cases "4 * j + k < length bs")
  case True
  have byte: "0 \<le> bs ! (4 * j + k)" "bs ! (4 * j + k) < 256"
    using byte_string_nth [OF assms(1) True] by auto
  consider "i < 8 * k" | "8 * k \<le> i" "i < 8 * k + 8" | "8 * k + 8 \<le> i"
    by linarith
  then show ?thesis
  proof cases
    case 1
    then show ?thesis using True by (auto simp: byte_in_word_def bit_simps)
  next
    case 2
    then have k: "i div 8 = k" by auto
    then have "i mod 8 = i - 8 * k" using minus_mult_div_eq_mod [of i 8] by simp
    note k this
    with 2 show ?thesis using True assms by (auto simp: byte_in_word_def bit_simps)
  next
    case 3
    then have "k \<noteq> i div 8" "8 \<le> i - 8 * k" by auto
    then show ?thesis using True byte byte_high_bit by (simp add: byte_in_word_def bit_simps)
  qed
next
  case False
  then show ?thesis by (simp add: byte_in_word_def)
qed

lemma bit_le_word:
  assumes "byte_string bs" and "i < 32"
  shows "bit (le_word bs j) i \<longleftrightarrow> 4 * j + i div 8 < length bs \<and> bit (bs ! (4 * j + i div 8)) (i mod 8)"
proof -
  have "i div 8 = 0 \<or> i div 8 = 1 \<or> i div 8 = 2 \<or> i div 8 = 3"
    using assms(2) by arith
  then show ?thesis
    using assms by (elim disjE) (simp_all add: le_word_def bit_or_iff bit_byte_in_word)
qed

lemma length_le_bytes32 [simp]: "length (le_bytes32 w) = 4"
  by (simp add: le_bytes32_def)

lemma le_bytes32_nth: "k < 4 \<Longrightarrow> le_bytes32 w ! k = take_bit 8 (uint (drop_bit (8 * k) w))"
  by (simp add: le_bytes32_def take_bit_eq_mod)

lemma byte_string_le_bytes32 [simp]: "byte_string (le_bytes32 w)"
  by (auto simp: byte_string_def le_bytes32_def)

lemma le_word_le_bytes32: "le_word (le_bytes32 w) 0 = w"
proof (rule bit_word_eqI)
  fix i
  assume "i < LENGTH(32)"
  then have i: "i < 32" and k: "i div 8 < 4" by auto
  have "8 * (i div 8) + i mod 8 = i" by simp
  then have "bit (take_bit 8 (uint (drop_bit (8 * (i div 8)) w))) (i mod 8) = bit w i"
    by (simp add: bit_simps)
  then show "bit (le_word (le_bytes32 w) 0) i = bit w i"
    using i k by (simp add: bit_le_word le_bytes32_nth)
qed

text \<open>Only the sixteen words of the block enter its sixty-four operations.\<close>

lemma md5_schedule_index: "list_all (\<lambda>(f, r, k, s). k < 16) md5_schedule"
  by code_simp

lemma md5_ops_index: "Op f r k s t \<in> set (md5_ops T) \<Longrightarrow> k < 16"
  using md5_schedule_index by (auto simp: md5_ops_def list_all_iff dest: set_zip_leftD)

lemma md5_apply_cong:
  "X k = Y k \<Longrightarrow> md5_apply X (Op f r k s t) = md5_apply Y (Op f r k s t)"
  by (rule ext) (auto simp: fun_eq_iff)

lemma md5_block_cong:
  assumes "\<And>k. k < 16 \<Longrightarrow> X k = Y k"
  shows "md5_block T X r = md5_block T Y r"
proof -
  have "fold (md5_apply X) (md5_ops T) r = fold (md5_apply Y) (md5_ops T) r"
  proof (rule fold_cong)
    fix op
    assume op: "op \<in> set (md5_ops T)"
    obtain f r k s t where Op: "op = Op f r k s t" by (cases op)
    with op have "k < 16" by (auto dest: md5_ops_index)
    then show "md5_apply X op = md5_apply Y op"
      unfolding Op by (intro md5_apply_cong assms)
  qed simp_all
  then show ?thesis by (simp add: md5_block_def)
qed

end
