(* ===== verification/Md5_Script.thy ===== *)
theory Md5_Script
  imports Md5_Spec
begin

text \<open>
  The interface between RFC 1321 and the scripts that implement it in JavaScript.

  A script keeps its four registers as numbers, updates them by assignment statements
  (\<open>asg_a\<close> to \<open>asg_d\<close> are the four forms that occur) and loops over the word array in steps
  of 16. The locale \<open>md5_rounds\<close> is the contract of a script's round functions, \<open>md5_script\<close>
  the contract of its statements and loop, \<open>md5_core_script\<close> that of its padding.
\<close>

section \<open>Registers and assignment statements of a script\<close>

type_synonym js_regs = "int \<times> int \<times> int \<times> int"

type_synonym round_fun = "int \<Rightarrow> int \<Rightarrow> int \<Rightarrow> int \<Rightarrow> int \<Rightarrow> int \<Rightarrow> int \<Rightarrow> int"

text \<open>\<^verbatim>\<open>a = f(a, b, c, d, x, s, t)\<close> and its three rotations.\<close>

fun asg_a :: "round_fun \<Rightarrow> int \<Rightarrow> int \<Rightarrow> int \<Rightarrow> js_regs \<Rightarrow> js_regs" where
  "asg_a f x s t (a, b, c, d) = (f a b c d x s t, b, c, d)"

fun asg_d :: "round_fun \<Rightarrow> int \<Rightarrow> int \<Rightarrow> int \<Rightarrow> js_regs \<Rightarrow> js_regs" where
  "asg_d f x s t (a, b, c, d) = (a, b, c, f d a b c x s t)"

fun asg_c :: "round_fun \<Rightarrow> int \<Rightarrow> int \<Rightarrow> int \<Rightarrow> js_regs \<Rightarrow> js_regs" where
  "asg_c f x s t (a, b, c, d) = (a, b, f c d a b x s t, d)"

fun asg_b :: "round_fun \<Rightarrow> int \<Rightarrow> int \<Rightarrow> int \<Rightarrow> js_regs \<Rightarrow> js_regs" where
  "asg_b f x s t (a, b, c, d) = (a, f b c d a x s t, c, d)"

definition run_stmts :: "(js_regs \<Rightarrow> js_regs) list \<Rightarrow> js_regs \<Rightarrow> js_regs" where
  "run_stmts sts r = fold (\<lambda>st. st) sts r"

text \<open>The four final additions of a block to the registers saved before it.\<close>

fun add_regs :: "(int \<Rightarrow> int \<Rightarrow> int) \<Rightarrow> js_regs \<Rightarrow> js_regs \<Rightarrow> js_regs" where
  "add_regs add (a, b, c, d) (a0, b0, c0, d0) = (add a a0, add b b0, add c c0, add d d0)"

fun regs_w :: "js_regs \<Rightarrow> w32_regs" where
  "regs_w (a, b, c, d) = (w32 a, w32 b, w32 c, w32 d)"

section \<open>Refinement of statements\<close>

definition round_ok :: "round_fun \<Rightarrow> md5_round \<Rightarrow> bool" where
  "round_ok f R \<longleftrightarrow> (\<forall>a b c d x s t. 0 < s \<longrightarrow> s < 32 \<longrightarrow>
     w32 (f a b c d x s t) = md5_mix R (w32 a) (w32 b) (w32 c) (w32 d) (w32 x) (nat s) (w32 t))"

definition refines_op :: "(js_regs \<Rightarrow> js_regs) \<Rightarrow> (nat \<Rightarrow> 32 word) \<Rightarrow> md5_op \<Rightarrow> bool" where
  "refines_op st X op \<longleftrightarrow> (\<forall>r. regs_w (st r) = md5_apply X op (regs_w r))"

named_theorems asg_refines \<open>an assignment statement refines an operation of RFC 1321\<close>

lemma asg_a_refines [asg_refines]:
  "round_ok f R \<Longrightarrow> 0 < s \<Longrightarrow> s < 32 \<Longrightarrow> w32 x = X k \<Longrightarrow> n = nat s \<Longrightarrow> u = w32 t \<Longrightarrow>
     refines_op (asg_a f x s t) X (Op R 0 k n u)"
  by (auto simp: refines_op_def round_ok_def)

lemma asg_d_refines [asg_refines]:
  "round_ok f R \<Longrightarrow> 0 < s \<Longrightarrow> s < 32 \<Longrightarrow> w32 x = X k \<Longrightarrow> n = nat s \<Longrightarrow> u = w32 t \<Longrightarrow>
     refines_op (asg_d f x s t) X (Op R (Suc 0) k n u)"
  by (auto simp: refines_op_def round_ok_def)

lemma asg_c_refines [asg_refines]:
  "round_ok f R \<Longrightarrow> 0 < s \<Longrightarrow> s < 32 \<Longrightarrow> w32 x = X k \<Longrightarrow> n = nat s \<Longrightarrow> u = w32 t \<Longrightarrow>
     refines_op (asg_c f x s t) X (Op R 2 k n u)"
  by (auto simp: refines_op_def round_ok_def)

lemma asg_b_refines [asg_refines]:
  "round_ok f R \<Longrightarrow> 0 < s \<Longrightarrow> s < 32 \<Longrightarrow> w32 x = X k \<Longrightarrow> n = nat s \<Longrightarrow> u = w32 t \<Longrightarrow>
     refines_op (asg_b f x s t) X (Op R 3 k n u)"
  by (auto simp: refines_op_def round_ok_def)

lemma run_stmts_refines:
  "list_all2 (\<lambda>st op. refines_op st X op) sts ops \<Longrightarrow>
     regs_w (run_stmts sts r) = fold (md5_apply X) ops (regs_w r)"
  by (induction sts ops arbitrary: r rule: list_all2_induct)
     (simp_all add: run_stmts_def refines_op_def del: split_paired_All)

lemma add_regs_refines:
  assumes "\<And>x y. w32 (add x y) = w32 x + w32 y"
  shows "regs_w (add_regs add r r') = md5_add (regs_w r) (regs_w r')"
  by (cases r; cases r') (simp add: assms)

text \<open>The schedule of RFC 1321, operation by operation.\<close>

lemma md5_schedule_list: "md5_schedule =
   [
     (RoundF, 0, 0, 7), (RoundF, 1, 1, 12), (RoundF, 2, 2, 17), (RoundF, 3, 3, 22),
     (RoundF, 0, 4, 7), (RoundF, 1, 5, 12), (RoundF, 2, 6, 17), (RoundF, 3, 7, 22),
     (RoundF, 0, 8, 7), (RoundF, 1, 9, 12), (RoundF, 2, 10, 17), (RoundF, 3, 11, 22),
     (RoundF, 0, 12, 7), (RoundF, 1, 13, 12), (RoundF, 2, 14, 17), (RoundF, 3, 15, 22),
     (RoundG, 0, 1, 5), (RoundG, 1, 6, 9), (RoundG, 2, 11, 14), (RoundG, 3, 0, 20),
     (RoundG, 0, 5, 5), (RoundG, 1, 10, 9), (RoundG, 2, 15, 14), (RoundG, 3, 4, 20),
     (RoundG, 0, 9, 5), (RoundG, 1, 14, 9), (RoundG, 2, 3, 14), (RoundG, 3, 8, 20),
     (RoundG, 0, 13, 5), (RoundG, 1, 2, 9), (RoundG, 2, 7, 14), (RoundG, 3, 12, 20),
     (RoundH, 0, 5, 4), (RoundH, 1, 8, 11), (RoundH, 2, 11, 16), (RoundH, 3, 14, 23),
     (RoundH, 0, 1, 4), (RoundH, 1, 4, 11), (RoundH, 2, 7, 16), (RoundH, 3, 10, 23),
     (RoundH, 0, 13, 4), (RoundH, 1, 0, 11), (RoundH, 2, 3, 16), (RoundH, 3, 6, 23),
     (RoundH, 0, 9, 4), (RoundH, 1, 12, 11), (RoundH, 2, 15, 16), (RoundH, 3, 2, 23),
     (RoundI, 0, 0, 6), (RoundI, 1, 7, 10), (RoundI, 2, 14, 15), (RoundI, 3, 5, 21),
     (RoundI, 0, 12, 6), (RoundI, 1, 3, 10), (RoundI, 2, 10, 15), (RoundI, 3, 1, 21),
     (RoundI, 0, 8, 6), (RoundI, 1, 15, 10), (RoundI, 2, 6, 15), (RoundI, 3, 13, 21),
     (RoundI, 0, 4, 6), (RoundI, 1, 11, 10), (RoundI, 2, 2, 15), (RoundI, 3, 9, 21)]"
  by code_simp

section \<open>Sixteen-bit addition\<close>

text \<open>
  The addition with which the scripts stay clear of rounding: the halves are added separately
  and the carry is moved by hand. On words it is plain addition.
\<close>

lemma or_low_bits: "0 \<le> m \<Longrightarrow> m < 65536 \<Longrightarrow> push_bit 16 (w32 h) OR w32 m = w32 (h * 65536 + m)"
proof -
  assume "0 \<le> m" "m < 65536"
  then have "take_bit 16 m = m" by (simp add: take_bit_eq_mod)
  then have "\<not> bit (push_bit 16 (w32 h)) n \<or> \<not> bit (w32 m) n" for n
    by (auto simp: bit_simps) (metis bit_take_bit_iff not_le)
  then have "push_bit 16 (w32 h) OR w32 m = push_bit 16 (w32 h) + w32 m"
    by (intro disjunctive_add [symmetric])
  then show ?thesis by (simp add: push_bit_eq_mult mult.commute)
qed

lemma safe_add_word:
  assumes "n = js_and e 65535 + js_and t 65535"
  shows "w32 (js_or (js_shl (js_shr e 16 + js_shr t 16 + js_shr n 16) 16) (js_and n 65535)) = w32 e + w32 t"
proof -
  have low: "js_and x 65535 = x mod 65536" for x
    using js_and_mask [of 16 x] by simp
  have n: "n = e mod 65536 + t mod 65536"
    using assms by (simp add: low)
  have high: "js_shr x 16 = to_int32 x div 65536" for x
    by (simp add: js_shr_def drop_bit_eq_div)
  have mod: "x mod 65536 = to_int32 x mod 65536" for x
  proof -
    have "to_int32 x mod 65536 = take_bit 16 (signed_take_bit 31 x)"
      by (simp add: to_int32_signed_take_bit take_bit_eq_mod)
    also have "\<dots> = take_bit 16 x"
      by (simp add: take_bit_signed_take_bit)
    finally show ?thesis by (simp add: take_bit_eq_mod)
  qed
  have "to_int32 n = n"
    using pos_mod_bound [of 65536 e] pos_mod_bound [of 65536 t] by (simp add: n)
  then have sum: "(js_shr e 16 + js_shr t 16 + js_shr n 16) * 65536 + n mod 65536 = to_int32 e + to_int32 t"
    unfolding high n mod [of e] mod [of t] by (simp add: algebra_simps)
  define h where "h = js_shr e 16 + js_shr t 16 + js_shr n 16"
  have "w32 (js_or (js_shl h 16) (js_and n 65535)) = push_bit 16 (w32 h) OR w32 (n mod 65536)"
    by (simp add: w32_js_or w32_js_shl low)
  also have "\<dots> = w32 (h * 65536 + n mod 65536)"
    by (rule or_low_bits) auto
  also have "\<dots> = w32 (to_int32 e + to_int32 t)"
    by (simp only: h_def sum)
  finally show ?thesis
    by (simp add: h_def w32_to_int32)
qed

section \<open>Message arrays\<close>

text \<open>
  A word array represents a message when its words are the little-endian words of the message
  and it is not longer than the message needs.
\<close>

definition msg_words :: "int option list \<Rightarrow> int list \<Rightarrow> bool" where
  "msg_words e bs \<longleftrightarrow> (\<forall>j. w32 (arr_bits e (int j)) = le_word bs j)"

definition msg_array :: "int option list \<Rightarrow> int list \<Rightarrow> bool" where
  "msg_array e bs \<longleftrightarrow> msg_words e bs \<and> 4 * length e < length bs + 4"

text \<open>
  The statement \<^verbatim>\<open>e[n >> 5] |= v << n % 32\<close> that appends the byte \<open>v\<close> at bit position \<open>n\<close>,
  and the padding that every script performs before its loop.
\<close>

definition or_at :: "int option list \<Rightarrow> int \<Rightarrow> int \<Rightarrow> int option list" where
  "or_at e n v = arr_set e (js_shr n 5) (js_or (arr_bits e (js_shr n 5)) (js_shl v (n mod 32)))"

lemma or_at_position:
  assumes "8 * int n < 2147483648"
  shows "or_at e (8 * int n) v = arr_set e (int (n div 4))
      (js_or (arr_bits e (int (n div 4))) (js_shl v (int (8 * (n mod 4)))))"
proof -
  have "js_shr (8 * int n) 5 = int (n div 4)"
    using assms by (simp add: js_shr_div zdiv_int)
  moreover have "(8 * int n) mod 32 = int (8 * (n mod 4))"
    by (simp add: zmod_int mult_mod_right)
  ultimately show ?thesis
    by (simp only: or_at_def)
qed

lemma or_at_words:
  assumes "msg_words e bs" and "8 * int (length bs) < 2147483648"
  shows "msg_words (or_at e (8 * int (length bs)) v) (bs @ [v])"
  unfolding msg_words_def
proof
  fix j
  have "8 * (length bs mod 4) mod 32 = 8 * (length bs mod 4)" by simp
  then show "w32 (arr_bits (or_at e (8 * int (length bs)) v) (int j)) = le_word (bs @ [v]) j"
    using assms(1)
    by (simp add: or_at_position [OF assms(2)] js_arr js_w32 le_word_snoc msg_words_def
        nat_mod_distrib nat_mult_distrib)
qed

lemma or_at_length:
  "8 * int n < 2147483648 \<Longrightarrow> length (or_at e (8 * int n) v) = max (length e) (Suc (n div 4))"
  by (simp add: or_at_position length_arr_set)

lemma or_at_snoc:
  assumes "msg_array e bs" and "8 * int (length bs) < 2147483648"
  shows "msg_array (or_at e (8 * int (length bs)) v) (bs @ [v])"
  using assms by (auto simp: msg_array_def or_at_words or_at_length)

text \<open>The loop that packs the bytes \<open>v 0\<close>, \<open>v 8\<close>, \<open>v 16\<close>, \dots of a message into words.\<close>

lemma byte_loop:
  fixes v :: "int \<Rightarrow> int"
  assumes "8 * int n < 2147483648" and "msg_words e []" and "4 * length e < n + 4"
  defines "a \<equiv> js_for 0 (8 * int n) 8 (\<lambda>t a. or_at a t (v t)) e"
  shows "msg_array a (map (\<lambda>k. v (8 * int k)) [0..<n])"
    and "length a = max (length e) ((n + 3) div 4)"
proof -
  let ?g = "\<lambda>k. v (8 * int k)"
  let ?P = "\<lambda>k a. msg_words a (map ?g [0..<k]) \<and> length a = max (length e) ((k + 3) div 4)"
  have "?P n a"
    unfolding a_def
  proof (rule js_for_inv [where P = ?P])
    fix k a
    assume "k < n" and "?P k a"
    then show "?P (Suc k) (or_at a (8 * int k) (v (8 * int k)))"
      using assms(1) or_at_words [of a "map ?g [0..<k]" "?g k"] by (auto simp: or_at_length)
  qed (use assms in auto)
  then show "msg_array a (map ?g [0..<n])" and "length a = max (length e) ((n + 3) div 4)"
    using assms(3) by (auto simp: msg_array_def)
qed

lemma md5_pad_arith:
  "Suc (n + (119 - n mod 64) mod 64) = 56 + 64 * ((n + 8) div 64)" for n :: nat
proof -
  define q where "q = n div 64"
  define r where "r = n mod 64"
  have n: "n = 64 * q + r" and r: "r < 64"
    by (simp_all add: q_def r_def)
  show ?thesis
  proof (cases "r \<le> 55")
    case True
    then have "(119 - r) mod 64 = 55 - r" and "(n + 8) div 64 = q"
      using r by (simp_all add: n mod_if)
    with True show ?thesis by (simp flip: r_def) (simp add: n)
  next
    case False
    then have "(119 - r) mod 64 = 119 - r" and "(n + 8) div 64 = Suc q"
      using r by (simp_all add: n div_nat_eqI)
    with False r show ?thesis by (simp flip: r_def) (simp add: n)
  qed
qed

lemma length_md5_pad: "length (md5_pad bs) = 64 * ((length bs + 8) div 64 + 1)"
  using md5_pad_arith [of "length bs"] by (simp add: md5_pad_def)

lemma le_word_md5_pad:
  assumes "8 * length bs < 4294967296"
  shows "le_word (md5_pad bs) j =
     (if j = 14 + 16 * ((length bs + 8) div 64) then w32 (8 * int (length bs)) else le_word (bs @ [128]) j)"
proof -
  let ?z = "(119 - length bs mod 64) mod 64"
  let ?q = "14 + 16 * ((length bs + 8) div 64)"
  let ?m = "(bs @ [128]) @ replicate ?z 0"
  have len: "length ?m = 4 * ?q"
    using md5_pad_arith [of "length bs"] by simp
  have pad: "md5_pad bs = ?m @ le_bytes64 (8 * length bs)"
    by (simp add: md5_pad_def)
  have high: "le_word (le_bytes64 (8 * length bs)) (j - ?q) = 0" if "?q < j"
    using that assms le_word_le_bytes64_high [of "8 * length bs" "j - ?q"] by simp
  have beyond: "le_word (bs @ [128]) j = 0" if "?q < j"
    using that len by (intro le_word_beyond) simp
  show ?thesis
    unfolding pad le_word_append_aligned [OF len] le_word_append_zeros
    using high beyond by (auto simp: le_word_le_bytes64_low)
qed

section \<open>The contracts\<close>

locale md5_rounds =
  fixes ff gg hh ii :: round_fun
  assumes ff_ok: "round_ok ff RoundF"
    and gg_ok: "round_ok gg RoundG"
    and hh_ok: "round_ok hh RoundH"
    and ii_ok: "round_ok ii RoundI"

locale md5_script = md5_rounds +
  fixes T :: "32 word list"
    and safe_add :: "int \<Rightarrow> int \<Rightarrow> int"
    and stmts :: "(int \<Rightarrow> int) \<Rightarrow> (js_regs \<Rightarrow> js_regs) list"
    and loop :: "int option list \<Rightarrow> int \<Rightarrow> js_regs \<Rightarrow> js_regs"
  assumes safe_add_ok: "w32 (safe_add x y) = w32 x + w32 y"
    and stmts_ok: "list_all2 (\<lambda>st op. refines_op st (\<lambda>k. w32 (X (int k))) op) (stmts X) (md5_ops T)"
    and loop_eq: "loop e d r =
      (if d < int (length e)
       then loop e (d + 16) (add_regs safe_add (run_stmts (stmts (\<lambda>k. arr_bits e (d + k))) r) r)
       else r)"
begin

lemma block_ok:
  "regs_w (add_regs safe_add (run_stmts (stmts X) r) r) = md5_block T (\<lambda>k. w32 (X (int k))) (regs_w r)"
  using run_stmts_refines [OF stmts_ok, of X r]
  by (simp add: md5_block_def add_regs_refines safe_add_ok)

lemma loop_blocks:
  assumes "\<And>j. j < 16 * (i + n) \<Longrightarrow> w32 (arr_bits e (int j)) = le_word bs j"
    and "16 * (i + n) < length e + 16" and "length e \<le> 16 * (i + n)"
  shows "regs_w (loop e (int (16 * i)) r) = md5_blocks T bs i n (regs_w r)"
  using assms
proof (induction n arbitrary: i r)
  case 0
  then show ?case by (subst loop_eq) simp
next
  case (Suc n)
  let ?X = "\<lambda>k. arr_bits e (int (16 * i) + k)"
  let ?r = "add_regs safe_add (run_stmts (stmts ?X) r) r"
  have less: "int (16 * i) < int (length e)"
    using Suc.prems(2) by simp
  have block: "md5_block T (\<lambda>k. w32 (?X (int k))) (regs_w r) = md5_block T (\<lambda>k. le_word bs (16 * i + k)) (regs_w r)"
  proof (rule md5_block_cong)
    fix k :: nat
    assume "k < 16"
    with Suc.prems(1) [of "16 * i + k"] show "w32 (?X (int k)) = le_word bs (16 * i + k)" by simp
  qed
  have "regs_w (loop e (int (16 * i)) r) = regs_w (loop e (int (16 * Suc i)) ?r)"
    by (subst loop_eq) (use less in \<open>simp add: algebra_simps\<close>)
  also have "\<dots> = md5_blocks T bs (Suc i) n (regs_w ?r)"
    using Suc.prems by (intro Suc.IH) auto
  finally show ?case
    by (simp only: block_ok block md5_blocks.simps)
qed

end

text \<open>
  \<open>core e n\<close> pads the array \<open>e\<close> of an \<open>n\<close>-bit message in place and runs the loop from
  the initial registers.
\<close>

definition pad_in_place :: "int option list \<Rightarrow> int \<Rightarrow> int option list" where
  "pad_in_place e n = arr_set (or_at e n 128) (14 + js_shl (js_ushr (n + 64) 9) 4) n"

lemma pad_in_place_words:
  assumes "msg_array e bs" and "8 * int (length bs) < 2147483584"
  shows "w32 (arr_bits (pad_in_place e (8 * int (length bs))) (int j)) = le_word (md5_pad bs) j"
    and "length (pad_in_place e (8 * int (length bs))) = 15 + 16 * ((length bs + 8) div 64)"
proof -
  let ?n = "8 * int (length bs)"
  let ?q = "(length bs + 8) div 64"
  have "js_ushr (?n + 64) 9 = (?n + 64) div 512"
    using assms(2) by (subst js_ushr_div) auto
  also have "\<dots> = int ?q"
    by (simp add: zdiv_int)
  finally have ushr: "js_ushr (?n + 64) 9 = int ?q" .
  have "int ?q * 16 < 2147483648"
    using assms(2) by (simp add: zdiv_int)
  then have ix: "14 + js_shl (js_ushr (?n + 64) 9) 4 = int (14 + 16 * ?q)"
    by (simp add: ushr js_shl_def push_bit_eq_mult)
  have arr: "msg_array (or_at e ?n 128) (bs @ [128])"
    using assms by (intro or_at_snoc) auto
  show "w32 (arr_bits (pad_in_place e ?n) (int j)) = le_word (md5_pad bs) j"
    using arr assms(2) by (simp add: pad_in_place_def ix js_arr le_word_md5_pad msg_array_def msg_words_def del: of_nat_add)
  have "4 * length (or_at e ?n 128) < length bs + 5"
    using arr by (simp add: msg_array_def)
  then have "length (or_at e ?n 128) \<le> 15 + 16 * ?q"
    by linarith
  then show "length (pad_in_place e ?n) = 15 + 16 * ?q"
    by (simp add: pad_in_place_def ix length_arr_set del: of_nat_add)
qed

locale md5_core_script = md5_script +
  fixes core :: "int option list \<Rightarrow> int \<Rightarrow> js_regs"
  assumes core_eq: "core e n = loop (pad_in_place e n) 0 (1732584193, - 271733879, - 1732584194, 271733878)"
begin

theorem core_correct:
  assumes "msg_array e bs" and "8 * int (length bs) < 2147483584"
  shows "regs_w (core e (8 * int (length bs))) = md5_regs T bs"
proof -
  let ?e = "pad_in_place e (8 * int (length bs))"
  let ?n = "(length bs + 8) div 64 + 1"
  have "regs_w (loop ?e (int (16 * 0)) r) = md5_blocks T (md5_pad bs) 0 ?n (regs_w r)" for r
    using pad_in_place_words [OF assms] by (intro loop_blocks) auto
  moreover have "regs_w (1732584193, - 271733879, - 1732584194, 271733878) = md5_init"
    by (simp add: md5_init_def)
  ultimately show ?thesis
    by (simp only: core_eq md5_regs_def length_md5_pad Let_def mult_0_right of_nat_0) simp
qed

end

end
