(* ===== verification/Md5_Hmac.thy ===== *)
theory Md5_Hmac
  imports Md5_Script
begin

text \<open>
  Byte strings in and out of the word arrays, hexadecimal output, and HMAC-MD5 (RFC 2104): the
  reference definitions and the locale \<open>md5_strings\<close>, the contract of a script that packs byte
  strings, unpacks digests and keys its hash.
\<close>

section \<open>Reference definitions\<close>

definition hex_of_byte :: "int \<Rightarrow> jstr" where
  "hex_of_byte b = [hex_digits ! nat (b div 16), hex_digits ! nat (b mod 16)]"

definition hex_of_bytes :: "int list \<Rightarrow> jstr" where
  "hex_of_bytes bs = concat (map hex_of_byte bs)"

definition hmac_key :: "32 word list \<Rightarrow> int list \<Rightarrow> int list" where
  "hmac_key T k =
     (let k' = (if 64 < length k then md5_digest_with T k else k) in k' @ replicate (64 - length k') 0)"

definition hmac_with :: "32 word list \<Rightarrow> int list \<Rightarrow> int list \<Rightarrow> int list" where
  "hmac_with T k m =
     md5_digest_with T (map (\<lambda>b. b XOR 0x5c) (hmac_key T k) @
       md5_digest_with T (map (\<lambda>b. b XOR 0x36) (hmac_key T k) @ m))"

abbreviation hmac_md5 :: "int list \<Rightarrow> int list \<Rightarrow> int list" where
  "hmac_md5 \<equiv> hmac_with md5_T"

lemma length_md5_digest [simp]: "length (md5_digest_with T bs) = 16"
  by (simp add: md5_digest_with_def split: prod.split)

lemma byte_string_md5_digest [simp]: "byte_string (md5_digest_with T bs)"
  by (simp add: md5_digest_with_def split: prod.split)

lemma length_hmac_key: "length (hmac_key T k) = 64"
  by (simp add: hmac_key_def Let_def)

lemma byte_string_hmac_key: "byte_string k \<Longrightarrow> byte_string (hmac_key T k)"
  by (simp add: hmac_key_def Let_def)

section \<open>Digest arrays\<close>

text \<open>The array \<^verbatim>\<open>[a, b, c, d]\<close> a script returns.\<close>

fun regs_array :: "js_regs \<Rightarrow> int option list" where
  "regs_array (a, b, c, d) = [Some a, Some b, Some c, Some d]"

fun regs_bytes :: "w32_regs \<Rightarrow> int list" where
  "regs_bytes (a, b, c, d) = le_bytes32 a @ le_bytes32 b @ le_bytes32 c @ le_bytes32 d"

lemma md5_digest_regs: "md5_digest_with T bs = regs_bytes (md5_regs T bs)"
  by (simp add: md5_digest_with_def split: prod.split)

lemma length_regs_bytes [simp]: "length (regs_bytes r) = 16"
  by (cases r) simp

lemma byte_string_regs_bytes: "byte_string (regs_bytes r)"
  by (cases r) simp

lemma length_regs_array [simp]: "length (regs_array r) = 4"
  by (cases r) simp

lemma le_word_regs_bytes:
  "le_word (regs_bytes (a, b, c, d)) j =
     (if j = 0 then a else if j = 1 then b else if j = 2 then c else if j = 3 then d else 0)"
proof -
  have step: "le_word (le_bytes32 w @ cs) j = (if j = 0 then w else le_word cs (j - 1))" for w cs j
    using le_word_append_aligned [of "le_bytes32 w" 1 cs j] by (simp add: le_word_le_bytes32)
  have last: "le_word (le_bytes32 w) j = (if j = 0 then w else 0)" for w j
    using step [of w "[]" j] by (simp add: le_word_beyond)
  show ?thesis by (auto simp: step last)
qed

lemma msg_array_regs: "msg_array (regs_array r) (regs_bytes (regs_w r))"
proof -
  obtain a b c d where r: "r = (a, b, c, d)" by (cases r)
  have "w32 (arr_bits (regs_array r) (int j)) = le_word (regs_bytes (regs_w r)) j" for j
    unfolding r regs_w.simps le_word_regs_bytes
    by (auto simp: arr_get_def nth_Cons' less_Suc_eq)
  then show ?thesis by (simp add: msg_array_def msg_words_def)
qed

text \<open>The byte that the unpacking loop of a script extracts.\<close>

lemma unpack_byte:
  "k < 4 \<Longrightarrow> js_and (js_ushr x (8 * int k)) 255 = le_bytes32 (w32 x) ! k"
  using js_and_mask [of 8 "js_ushr x (8 * int k)"]
  by (simp add: js_ushr_uint le_bytes32_def nat_mult_distrib)

text \<open>Concatenation and key pads.\<close>

lemma msg_array_append:
  assumes "msg_words e bs" and "length bs = 4 * length e" and "msg_array e' cs"
  shows "msg_array (e @ e') (bs @ cs)"
proof -
  have "w32 (arr_bits (e @ e') (int j)) = le_word (bs @ cs) j" for j
  proof (cases "j < length e")
    case True
    with assms show ?thesis by (simp add: le_word_append_aligned msg_words_def js_arr)
  next
    case False
    then obtain m where "j = length e + m" by (auto simp: not_less le_iff_add)
    with assms show ?thesis by (simp add: le_word_append_aligned msg_words_def msg_array_def js_arr)
  qed
  then show ?thesis using assms by (simp add: msg_array_def msg_words_def)
qed

lemma le_word_xor:
  assumes "byte_string bs" and "0 \<le> p" "p < 256" and "4 * j + 3 < length bs"
  shows "le_word (map (\<lambda>b. b XOR p) bs) j = le_word bs j XOR le_word (replicate 4 p) 0"
proof (rule bit_word_eqI)
  fix i
  assume "i < LENGTH(32)"
  then have i: "i < 32" and k: "i div 8 < 4" by auto
  have "b XOR p < 256" if "0 \<le> b" "b < 256" for b :: int
    using XOR_upper [OF that(1), of 8 p] that assms by simp
  then have "byte_string (map (\<lambda>b. b XOR p) bs)"
    using assms by (auto simp: byte_string_def)
  moreover have "byte_string (replicate 4 p)"
    using assms by (simp add: byte_string_def)
  moreover have "4 * j + i div 8 < length bs"
    using k assms(4) by linarith
  ultimately show "bit (le_word (map (\<lambda>b. b XOR p) bs) j) i
      = bit (le_word bs j XOR le_word (replicate 4 p) 0) i"
    using i k assms(1) by (simp add: bit_le_word bit_xor_iff)
qed

lemma fill_loop:
  "js_for 0 16 1 (\<lambda>n a. arr_set a n (f n)) (replicate 16 None) = map (\<lambda>n. Some (f (int n))) [0..<16]"
proof -
  let ?P = "\<lambda>k a. a = map (\<lambda>n. if n < k then Some (f (int n)) else None) [0..<16]"
  have "?P 16 (js_for 0 (1 * int 16) 1 (\<lambda>n a. arr_set a n (f n)) (replicate 16 None))"
  proof (rule js_for_inv [where P = ?P])
    fix k a
    assume "k < 16" and "?P k a"
    then show "?P (Suc k) (arr_set a (1 * int k) (f (1 * int k)))"
      by (auto intro!: nth_equalityI simp: arr_set_def nth_list_update)
  qed (simp_all add: map_replicate_const)
  then show ?thesis by simp
qed

lemma key_pad_words:
  assumes "msg_words w (hmac_key T k)" and "byte_string k"
    and "0 \<le> p" "p < 256" and "w32 v = le_word (replicate 4 p) 0"
  shows "msg_words (map (\<lambda>n. Some (js_xor v (arr_bits w (int n)))) [0..<16]) (map (\<lambda>b. b XOR p) (hmac_key T k))"
  unfolding msg_words_def
proof
  fix j
  have len: "length (hmac_key T k) = 64" by (rule length_hmac_key)
  show "w32 (arr_bits (map (\<lambda>n. Some (js_xor v (arr_bits w (int n)))) [0..<16]) (int j))
      = le_word (map (\<lambda>b. b XOR p) (hmac_key T k)) j"
  proof (cases "j < 16")
    case True
    then have "le_word (map (\<lambda>b. b XOR p) (hmac_key T k)) j = le_word (hmac_key T k) j XOR le_word (replicate 4 p) 0"
      using assms len byte_string_hmac_key by (intro le_word_xor) auto
    with True assms(1,5) show ?thesis
      by (simp add: js_arr js_w32 msg_words_def xor.commute)
  next
    case False
    then show ?thesis by (simp add: js_arr le_word_beyond len)
  qed
qed

section \<open>Packing, unpacking and printing loops\<close>

lemma fold_snoc: "fold (\<lambda>k acc. acc @ g k) ks acc = acc @ concat (map g ks)"
  by (induction ks arbitrary: acc) auto

text \<open>The zero-filled array of \<open>n div 4\<close> words with which packing starts.\<close>

lemma zero_array:
  fixes a :: "int option list"
  assumes "a = arr_set_undef [] (int m - 1)"
  shows "js_for 0 (int (length a)) 1 (\<lambda>t n. arr_set n t 0) a = replicate m (Some 0)"
proof -
  have a: "a = replicate m None"
    using assms by (cases m) (auto simp: arr_set_undef_def)
  let ?P = "\<lambda>k n. n = replicate k (Some 0) @ replicate (m - k) (None :: int option)"
  have "?P m (js_for 0 (1 * int m) 1 (\<lambda>t n. arr_set n t 0) a)"
  proof (rule js_for_inv [where P = ?P])
    fix k n
    assume k: "k < m" and n: "?P k n"
    then have "replicate (m - k) (None :: int option) = None # replicate (m - Suc k) None"
      by (metis Suc_diff_Suc replicate_Suc)
    then show "?P (Suc k) (arr_set n (1 * int k) 0)"
      using k n by (simp add: arr_set_def list_update_append replicate_app_Cons_same)
  qed (simp_all add: a)
  then show ?thesis by (simp add: a)
qed

lemma pack_loop:
  fixes s :: jstr and b :: "int \<Rightarrow> int"
  assumes "8 * int (length s) < 2147483648"
    and "\<And>k. k < length s \<Longrightarrow> v (8 * int k) = s ! k mod 256"
  defines "n \<equiv> js_for 0 (8 * int (length s)) 8 (\<lambda>t n. or_at n t (v t)) (replicate (length s div 4) (Some 0))"
  shows "msg_array n (map (\<lambda>c. c mod 256) s)" and "length n = (length s + 3) div 4"
proof -
  have zeros: "msg_words (replicate (length s div 4) (Some 0)) []"
    by (auto simp: msg_words_def le_word_beyond arr_get_def)
  have bytes: "map (\<lambda>k. v (8 * int k)) [0..<length s] = map (\<lambda>c. c mod 256) s"
    by (rule nth_equalityI) (simp_all add: assms(2))
  show "msg_array n (map (\<lambda>c. c mod 256) s)"
    unfolding n_def bytes [symmetric] using zeros assms(1) by (intro byte_loop(1)) auto
  show "length n = (length s + 3) div 4"
    unfolding n_def using zeros assms(1) by (subst byte_loop(2)) auto
qed

lemma map_mod_byte_string: "byte_string s \<Longrightarrow> map (\<lambda>c. c mod 256) s = s"
  by (auto simp: byte_string_def map_idI)

lemma byte_mask: "js_and c 255 = c mod 256"
  using js_and_mask [of 8 c] by simp

lemma unpack_loop:
  assumes "\<And>k. k < 16 \<Longrightarrow> g (8 * int k) =
      [js_and (js_ushr (arr_bits (regs_array r) (int (k div 4))) (int (8 * (k mod 4)))) 255]"
  shows "js_for 0 (32 * int (length (regs_array r))) 8 (\<lambda>n t. t @ g n) [] = regs_bytes (regs_w r)"
proof -
  obtain a b c d where r: "r = (a, b, c, d)" by (cases r)
  have sixteen: "[0..<16] = [0, 1, 2, 3, 4, 5, 6, 7, 8, 9, 10, 11, 12, 13, 14, 15 :: nat]"
    by (simp add: upt_rec)
  have four: "le_bytes32 w = [le_bytes32 w ! 0, le_bytes32 w ! 1, le_bytes32 w ! 2, le_bytes32 w ! 3]" for w
    by (simp add: le_bytes32_def upt_rec)
  have "js_for 0 (8 * int 16) 8 (\<lambda>n t. t @ g n) [] = concat (map (\<lambda>k. g (8 * int k)) [0..<16])"
    using js_for_fold [of 8 0 16 "\<lambda>n t. t @ g n" "[]"] by (simp add: fold_snoc)
  also have "\<dots> = concat (map (\<lambda>k. [le_bytes32 (w32 (arr_bits (regs_array r) (int (k div 4)))) ! (k mod 4)]) [0..<16])"
    by (rule arg_cong [where f = concat], rule map_cong) (simp_all add: assms unpack_byte [simplified])
  also have "\<dots> = regs_bytes (regs_w r)"
    unfolding r regs_w.simps regs_bytes.simps sixteen
    using four [of "w32 a"] four [of "w32 b"] four [of "w32 c"] four [of "w32 d"]
    by (simp add: arr_get_def)
  finally show ?thesis by simp
qed

lemma regs_bytes_nth:
  assumes "k < 16"
  shows "regs_bytes (regs_w r) ! k = le_bytes32 (w32 (arr_bits (regs_array r) (int (k div 4)))) ! (k mod 4)"
proof -
  obtain a b c d where r: "r = (a, b, c, d)" by (cases r)
  have "k < 4 \<or> 4 \<le> k \<and> k < 8 \<or> 8 \<le> k \<and> k < 12 \<or> 12 \<le> k \<and> k < 16"
    using assms by linarith
  then show ?thesis
    by (elim disjE) (auto simp: r nth_append arr_get_def le_div_geq le_mod_geq)
qed

lemma hex_loop:
  assumes "byte_string s"
    and "\<And>k. k < length s \<Longrightarrow> g (int k) =
      char_at hex_digits (js_and (js_ushr (s ! k) 4) 15) @ char_at hex_digits (js_and (s ! k) 15)"
  shows "js_for 0 (int (length s)) 1 (\<lambda>i acc. acc @ g i) [] = hex_of_bytes s"
proof -
  have digit: "char_at hex_digits d = [hex_digits ! nat d]" if "0 \<le> d" "d < 16" for d
    using that by (simp add: char_at_def hex_digits_def str_def)
  have "g (int k) = hex_of_byte (s ! k)" if "k < length s" for k
  proof -
    have b: "0 \<le> s ! k" "s ! k < 256" using byte_string_nth [OF assms(1) that] by auto
    have "js_and (js_ushr (s ! k) 4) 15 = s ! k div 16" "js_and (s ! k) 15 = s ! k mod 16"
      using b js_and_mask [of 4 "js_ushr (s ! k) 4"] js_and_mask [of 4 "s ! k"] by (simp_all add: js_ushr_div)
    with b show ?thesis by (simp add: assms(2) [OF that] hex_of_byte_def digit)
  qed
  then have "map (\<lambda>k. g (int k)) [0..<length s] = map hex_of_byte s"
    by (intro nth_equalityI) simp_all
  then show ?thesis
    by (simp add: js_for_unit fold_snoc hex_of_bytes_def)
qed

text \<open>
  Two scripts print the registers directly, a hexadecimal digit at a time, with the signed shift;
  the mask makes it the same as the unsigned one.
\<close>

lemma mask_shift:
  assumes "0 \<le> n" and "n + int w \<le> 32" and "w \<le> 31"
  shows "js_and (js_shr x n) (2 ^ w - 1) = js_and (js_ushr x n) (2 ^ w - 1)"
proof (cases "w = 0")
  case False
  define m where "m = nat n"
  have n: "n = int m" "m + w \<le> 32" "m < 32"
    using assms False by (auto simp: m_def)
  have "bit (signed_take_bit 31 x) (m + i) = bit (take_bit 32 x) (m + i)" if "i < w" for i
  proof (cases "m + i < 31")
    case False
    with that n have "m + i = 31" by linarith
    then show ?thesis by (simp add: bit_simps)
  qed (simp add: bit_simps)
  then have "take_bit w (js_shr x n) = take_bit w (js_ushr x n)"
    using n
    by (intro bit_eqI)
       (auto simp: js_shr_def js_ushr_def to_int32_signed_take_bit to_uint32_take_bit bit_take_bit_iff
          bit_drop_bit_eq)
  then show ?thesis
    using assms(3) by (simp add: js_and_mask take_bit_eq_mod)
qed (simp add: js_and_def)

lemma nibble_shift:
  assumes "0 \<le> n" and "n \<le> 28"
  shows "js_and (js_shr x n) 15 = js_and (js_ushr x n) 15"
  using mask_shift [of n 4 x] assms by simp

lemma nibbles_of_word:
  assumes "k < 4"
  shows "js_and (js_shr x (int k * 8 + 4)) 15 = le_bytes32 (w32 x) ! k div 16"
    and "js_and (js_shr x (int k * 8)) 15 = le_bytes32 (w32 x) ! k mod 16"
proof -
  define v where "v = js_ushr x (8 * int k)"
  have byte: "le_bytes32 (w32 x) ! k = v mod 256"
    unfolding v_def unpack_byte [OF assms, symmetric] using js_and_mask [of 8] by simp
  have "nat ((int k * 8 + 4) mod 32) = 8 * k + 4" "nat (8 * int k mod 32) = 8 * k"
    using assms by (simp_all add: nat_add_distrib nat_mult_distrib)
  then have high: "js_ushr x (int k * 8 + 4) = v div 16"
    unfolding v_def js_ushr_def
    by (simp only: drop_bit_eq_div power_add) (simp add: zdiv_zmult2_eq)
  have four: "js_and a 15 = a mod 16" for a
    using js_and_mask [of 4 a] by simp
  have "v div 16 mod 16 = v mod 256 div 16"
    using zmod_zmult2_eq [of 16 v 16] by simp
  then show "js_and (js_shr x (int k * 8 + 4)) 15 = le_bytes32 (w32 x) ! k div 16"
    using assms nibble_shift [of "int k * 8 + 4" x] by (simp add: high byte four)
  show "js_and (js_shr x (int k * 8)) 15 = le_bytes32 (w32 x) ! k mod 16"
    using assms nibble_shift [of "int k * 8" x]
    by (simp add: byte four mult.commute [of _ 8] mod_mod_cancel flip: v_def)
qed

lemma hex_digit: "0 \<le> d \<Longrightarrow> d < 16 \<Longrightarrow> char_at hex_digits d = [hex_digits ! nat d]"
  by (simp add: char_at_def hex_digits_def str_def)

lemma nibble_regs_loop:
  assumes "\<And>k. k < 16 \<Longrightarrow> g (int k) =
      h (js_and (js_shr (arr_bits (regs_array r) (js_shr (int k) 2)) (int k mod 4 * 8 + 4)) 15) @
      h (js_and (js_shr (arr_bits (regs_array r) (js_shr (int k) 2)) (int k mod 4 * 8)) 15)"
  shows "js_for 0 16 1 (\<lambda>n i. i @ g n) [] = concat (map (\<lambda>b. h (b div 16) @ h (b mod 16)) (regs_bytes (regs_w r)))"
proof -
  have "g (int k) = h (regs_bytes (regs_w r) ! k div 16) @ h (regs_bytes (regs_w r) ! k mod 16)" if k: "k < 16" for k
  proof -
    have w: "js_shr (int k) 2 = int (k div 4)" and m: "int k mod 4 = int (k mod 4)"
      using k by (simp_all add: js_shr_div zdiv_int zmod_int)
    then show ?thesis
      using regs_bytes_nth [OF k, of r] by (simp add: assms [OF k] w m nibbles_of_word)
  qed
  then have "map (\<lambda>k. g (int k)) [0..<16] = map (\<lambda>b. h (b div 16) @ h (b mod 16)) (regs_bytes (regs_w r))"
    by (intro nth_equalityI) simp_all
  then show ?thesis
    using js_for_unit [of 16 "\<lambda>n i. i @ g n" "[]"] by (simp add: fold_snoc)
qed

lemma hex_regs_loop:
  assumes "\<And>k. k < 16 \<Longrightarrow> g (int k) =
      char_at hex_digits (js_and (js_shr (arr_bits (regs_array r) (js_shr (int k) 2)) (int k mod 4 * 8 + 4)) 15) @
      char_at hex_digits (js_and (js_shr (arr_bits (regs_array r) (js_shr (int k) 2)) (int k mod 4 * 8)) 15)"
  shows "js_for 0 16 1 (\<lambda>n i. i @ g n) [] = hex_of_bytes (regs_bytes (regs_w r))"
proof -
  have "char_at hex_digits (b div 16) @ char_at hex_digits (b mod 16) = hex_of_byte b"
    if "b \<in> set (regs_bytes (regs_w r))" for b
  proof -
    have "0 \<le> b" "b < 256"
      using that byte_string_regs_bytes [of "regs_w r"] by (auto simp: byte_string_def)
    then show ?thesis by (simp add: hex_digit hex_of_byte_def)
  qed
  then have "map (\<lambda>b. char_at hex_digits (b div 16) @ char_at hex_digits (b mod 16)) (regs_bytes (regs_w r)) =
      map hex_of_byte (regs_bytes (regs_w r))"
    by (intro map_cong refl)
  moreover have "js_for 0 16 1 (\<lambda>n i. i @ g n) [] =
      concat (map (\<lambda>b. char_at hex_digits (b div 16) @ char_at hex_digits (b mod 16)) (regs_bytes (regs_w r)))"
    by (rule nibble_regs_loop) (rule assms)
  ultimately show ?thesis by (simp only: hex_of_bytes_def)
qed

lemma ascii_lower_hex: "byte_string bs \<Longrightarrow> ascii_lower (hex_of_bytes bs) = hex_of_bytes bs"
proof (induction bs)
  case (Cons b bs)
  have digit: "ascii_lower [hex_digits ! i] = [hex_digits ! i]" if "i < 16" for i
  proof -
    have "list_all (\<lambda>i. ascii_lower [hex_digits ! i] = [hex_digits ! i]) [0..<16]"
      by code_simp
    with that show ?thesis by (auto simp: list_all_iff)
  qed
  have "nat (b div 16) < 16" "nat (b mod 16) < 16"
    using Cons.prems by auto
  then have "ascii_lower (hex_of_byte b) = hex_of_byte b"
    using digit [of "nat (b div 16)"] digit [of "nat (b mod 16)"] by (simp add: hex_of_byte_def ascii_lower_def)
  with Cons show ?case by (simp add: hex_of_bytes_def ascii_lower_def)
qed (simp add: hex_of_bytes_def ascii_lower_def)

section \<open>The contract of a string hash\<close>

locale md5_strings = md5_core_script +
  fixes pack :: "jstr \<Rightarrow> int option list"
    and unpack :: "int option list \<Rightarrow> jstr"
    and raw_hmac :: "jstr \<Rightarrow> jstr \<Rightarrow> jstr"
  assumes pack_ok: "byte_string s \<Longrightarrow> 8 * int (length s) < 2147483648 \<Longrightarrow> msg_array (pack s) s"
    and pack_length: "8 * int (length s) < 2147483648 \<Longrightarrow> length (pack s) = (length s + 3) div 4"
    and unpack_ok: "unpack (regs_array r) = regs_bytes (regs_w r)"
    and raw_hmac_eq: "raw_hmac k m =
      (let w = pack k;
           w = (if 16 < length w then regs_array (core w (8 * int (length k))) else w);
           ip = map (\<lambda>n. Some (js_xor 909522486 (arr_bits w (int n)))) [0..<16];
           op = map (\<lambda>n. Some (js_xor 1549556828 (arr_bits w (int n)))) [0..<16];
           t = regs_array (core (ip @ pack m) (512 + 8 * int (length m)))
       in unpack (regs_array (core (op @ t) 640)))"
begin

lemma raw_digest:
  assumes "byte_string s" and "8 * int (length s) < 2147483584"
  shows "unpack (regs_array (core (pack s) (8 * int (length s)))) = md5_digest_with T s"
  using core_correct [OF pack_ok assms(2)] assms by (simp add: unpack_ok md5_digest_regs)

lemma raw_hmac_correct:
  assumes "byte_string k" and "byte_string m"
    and "8 * int (length k) < 2147483584" and "512 + 8 * int (length m) < 2147483584"
  shows "raw_hmac k m = hmac_with T k m"
proof -
  define w where "w = (if 16 < length (pack k) then regs_array (core (pack k) (8 * int (length k))) else pack k)"
  define ip where "ip = map (\<lambda>n. Some (js_xor 909522486 (arr_bits w (int n)))) [0..<16]"
  define op where "op = map (\<lambda>n. Some (js_xor 1549556828 (arr_bits w (int n)))) [0..<16]"
  define t where "t = regs_array (core (ip @ pack m) (512 + 8 * int (length m)))"
  let ?pad = "\<lambda>p. map (\<lambda>b. b XOR p) (hmac_key T k)"
  have long: "16 < length (pack k) \<longleftrightarrow> 64 < length k"
    using assms(3) pack_length [of k] by auto
  have w: "msg_words w (hmac_key T k)"
  proof (cases "64 < length k")
    case True
    have "msg_words w (md5_digest_with T k)"
      using True long msg_array_regs [of "core (pack k) (8 * int (length k))"] core_correct [OF pack_ok] assms
      by (simp add: w_def md5_digest_regs msg_array_def)
    with True show ?thesis by (simp add: hmac_key_def msg_words_def le_word_append_zeros)
  next
    case False
    then have "msg_words w k"
      using long pack_ok assms by (simp add: w_def msg_array_def)
    with False show ?thesis by (simp add: hmac_key_def msg_words_def le_word_append_zeros)
  qed
  have pads: "w32 909522486 = le_word (replicate 4 0x36) 0" "w32 1549556828 = le_word (replicate 4 0x5c) 0"
    by (simp_all add: le_word_def byte_in_word_def numeral_nat)
  have ip: "msg_words ip (?pad 0x36)" and op: "msg_words op (?pad 0x5c)"
    unfolding ip_def op_def using key_pad_words [OF w assms(1)] pads by simp_all
  have "msg_array (ip @ pack m) (?pad 0x36 @ m)"
    using ip pack_ok assms by (intro msg_array_append) (simp_all add: ip_def length_hmac_key)
  moreover have len: "512 + 8 * int (length m) = 8 * int (length (?pad 0x36 @ m))"
    by (simp add: length_hmac_key)
  ultimately have "regs_w (core (ip @ pack m) (512 + 8 * int (length m))) = md5_regs T (?pad 0x36 @ m)"
    using core_correct assms(4) by (metis len)
  then have "msg_array t (md5_digest_with T (?pad 0x36 @ m))"
    unfolding t_def md5_digest_regs by (metis msg_array_regs)
  then have "msg_array (op @ t) (?pad 0x5c @ md5_digest_with T (?pad 0x36 @ m))"
    using op by (intro msg_array_append) (simp_all add: op_def length_hmac_key)
  from core_correct [OF this]
  have "regs_w (core (op @ t) 640) = md5_regs T (?pad 0x5c @ md5_digest_with T (?pad 0x36 @ m))"
    by (simp add: length_hmac_key)
  then show ?thesis
    unfolding raw_hmac_eq Let_def w_def [symmetric] ip_def [symmetric] op_def [symmetric] t_def [symmetric]
    by (simp add: unpack_ok hmac_with_def md5_digest_regs)
qed

end

end
