(* ===== verification/Js_Uri.thy ===== *)
theory Js_Uri
  imports Js_Prelude
begin

text \<open>
  The library functions \<^verbatim>\<open>encodeURIComponent\<close> and \<^verbatim>\<open>unescape\<close>, as ECMA-262 defines them on
  UTF-16 code units, and the fact every hashing script relies on: their composition is the UTF-8
  encoding of the string, and it fails exactly on a string with an unpaired surrogate.
\<close>

section \<open>Code points and UTF-8\<close>

text \<open>Decoding UTF-16; \<open>None\<close> for an unpaired surrogate.\<close>

fun utf16_decode :: "jstr \<Rightarrow> int list option" where
  "utf16_decode [] = Some []"
| "utf16_decode (c # s) =
     (if 56320 \<le> c \<and> c \<le> 57343 then None
      else if 55296 \<le> c \<and> c \<le> 56319 then
        (case s of
           [] \<Rightarrow> None
         | d # s' \<Rightarrow>
             if 56320 \<le> d \<and> d \<le> 57343
             then map_option ((#) (65536 + (c - 55296) * 1024 + (d - 56320))) (utf16_decode s')
             else None)
      else map_option ((#) c) (utf16_decode s))"

definition utf8_octets :: "int \<Rightarrow> int list" where
  "utf8_octets p =
     (if p < 128 then [p]
      else if p < 2048 then [192 + p div 64, 128 + p mod 64]
      else if p < 65536 then [224 + p div 4096, 128 + p div 64 mod 64, 128 + p mod 64]
      else [240 + p div 262144, 128 + p div 4096 mod 64, 128 + p div 64 mod 64, 128 + p mod 64])"

definition utf8_encode :: "jstr \<Rightarrow> int list option" where
  "utf8_encode s = map_option (\<lambda>ps. concat (map utf8_octets ps)) (utf16_decode s)"

lemma utf8_or:
  "0 \<le> a \<Longrightarrow> a < 64 \<Longrightarrow> js_or a 128 = 128 + a" "0 \<le> a \<Longrightarrow> a < 64 \<Longrightarrow> js_or 128 a = 128 + a"
  "0 \<le> a \<Longrightarrow> a < 32 \<Longrightarrow> js_or a 192 = 192 + a" "0 \<le> a \<Longrightarrow> a < 16 \<Longrightarrow> js_or a 224 = 224 + a"
  "0 \<le> a \<Longrightarrow> a < 8 \<Longrightarrow> js_or 240 a = 240 + a"
  using js_or_add [of a 6 2] js_or_add [of a 6 3] js_or_add [of a 4 14] js_or_add [of a 3 30] by simp_all

lemma utf8_masks: "js_and x 63 = x mod 64" "js_and 63 x = x mod 64" "js_and x 7 = x mod 8"
  using js_and_mask [of 6 x] js_and_mask [of 3 x] by (simp_all add: js_and_comm [of 63])

section \<open>encodeURIComponent\<close>

text \<open>Letters, digits and \<^verbatim>\<open>- _ . ! ~ * ' ( )\<close> stay as they are.\<close>

definition uri_unreserved :: "int \<Rightarrow> bool" where
  "uri_unreserved c \<longleftrightarrow>
     65 \<le> c \<and> c \<le> 90 \<or> 97 \<le> c \<and> c \<le> 122 \<or> 48 \<le> c \<and> c \<le> 57 \<or>
     c = 45 \<or> c = 95 \<or> c = 46 \<or> c = 33 \<or> c = 126 \<or> c = 42 \<or> c = 39 \<or> c = 40 \<or> c = 41"

definition upper_hex :: "int \<Rightarrow> int" where
  "upper_hex d = (if d < 10 then 48 + d else 55 + d)"

definition percent :: "int \<Rightarrow> jstr" where
  "percent b = [37, upper_hex (b div 16), upper_hex (b mod 16)]"

definition percent_encode :: "int \<Rightarrow> jstr" where
  "percent_encode p = concat (map percent (utf8_octets p))"

fun encode_uri_component :: "jstr \<Rightarrow> jstr option" where
  "encode_uri_component [] = Some []"
| "encode_uri_component (c # s) =
     (if uri_unreserved c then map_option ((#) c) (encode_uri_component s)
      else if 56320 \<le> c \<and> c \<le> 57343 then None
      else if 55296 \<le> c \<and> c \<le> 56319 then
        (case s of
           [] \<Rightarrow> None
         | d # s' \<Rightarrow>
             if 56320 \<le> d \<and> d \<le> 57343
             then map_option ((@) (percent_encode (65536 + (c - 55296) * 1024 + (d - 56320))))
                    (encode_uri_component s')
             else None)
      else map_option ((@) (percent_encode c)) (encode_uri_component s))"

section \<open>unescape\<close>

definition hex_value :: "int \<Rightarrow> int option" where
  "hex_value c =
     (if 48 \<le> c \<and> c \<le> 57 then Some (c - 48)
      else if 65 \<le> c \<and> c \<le> 70 then Some (c - 55)
      else if 97 \<le> c \<and> c \<le> 102 then Some (c - 87)
      else None)"

fun hex2 :: "jstr \<Rightarrow> (int \<times> jstr) option" where
  "hex2 (a # b # s) =
     (case (hex_value a, hex_value b) of (Some x, Some y) \<Rightarrow> Some (16 * x + y, s) | _ \<Rightarrow> None)"
| "hex2 _ = None"

fun hex4 :: "jstr \<Rightarrow> (int \<times> jstr) option" where
  "hex4 (u # a # b # c # d # s) =
     (if u = 117 then
        (case (hex_value a, hex_value b, hex_value c, hex_value d) of
           (Some w, Some x, Some y, Some z) \<Rightarrow> Some (4096 * w + 256 * x + 16 * y + z, s)
         | _ \<Rightarrow> None)
      else None)"
| "hex4 _ = None"

lemma hex2_length: "hex2 s = Some (v, r) \<Longrightarrow> length r < length s"
  by (cases s rule: hex2.cases) (auto split: option.splits)

lemma hex4_length: "hex4 s = Some (v, r) \<Longrightarrow> length r < length s"
  by (cases s rule: hex4.cases) (auto split: option.splits if_splits)

function js_unescape :: "jstr \<Rightarrow> jstr" where
  "js_unescape [] = []"
| "js_unescape (c # s) =
     (if c = 37 then
        (case hex4 s of
           Some (v, r) \<Rightarrow> v # js_unescape r
         | None \<Rightarrow>
             (case hex2 s of
                Some (v, r) \<Rightarrow> v # js_unescape r
              | None \<Rightarrow> c # js_unescape s))
      else c # js_unescape s)"
  by pat_completeness auto
termination
  by (relation "measure length") (auto dest: hex2_length hex4_length)

section \<open>The composition is UTF-8\<close>

lemma hex_value_upper_hex: "0 \<le> d \<Longrightarrow> d < 16 \<Longrightarrow> hex_value (upper_hex d) = Some d"
  by (simp add: hex_value_def upper_hex_def)

lemma unescape_percent:
  assumes "0 \<le> b" and "b < 256"
  shows "js_unescape (percent b @ s) = b # js_unescape s"
proof -
  have "upper_hex (b div 16) \<noteq> 117"
    using assms by (simp add: upper_hex_def) linarith
  then have no_u: "hex4 ([upper_hex (b div 16), upper_hex (b mod 16)] @ s) = None"
    by (cases "upper_hex (b div 16) # upper_hex (b mod 16) # s" rule: hex4.cases) auto
  have "0 \<le> b div 16" "b div 16 < 16" using assms by auto
  then have "hex2 ([upper_hex (b div 16), upper_hex (b mod 16)] @ s) = Some (b, s)"
    by (simp add: hex_value_upper_hex)
  with no_u show ?thesis by (simp add: percent_def)
qed

lemma unescape_percents: "byte_string bs \<Longrightarrow> js_unescape (concat (map percent bs) @ s) = bs @ js_unescape s"
  by (induction bs) (simp_all add: unescape_percent)

lemma byte_string_utf8_octets:
  assumes "0 \<le> p" and "p < 1114112"
  shows "byte_string (utf8_octets p)"
proof -
  have "0 \<le> p div 64 mod 64" "p div 64 mod 64 < 64" "0 \<le> p div 4096 mod 64" "p div 4096 mod 64 < 64"
    "0 \<le> p mod 64" "p mod 64 < 64"
    by simp_all
  moreover have "p div 64 < 32" if "p < 2048" using that by simp
  moreover have "p div 4096 < 16" if "p < 65536" using that by simp
  moreover have "p div 262144 < 5" using assms by simp
  moreover have "0 \<le> p div 64" "0 \<le> p div 4096" "0 \<le> p div 262144" using assms by simp_all
  ultimately show ?thesis using assms unfolding utf8_octets_def by (auto simp: add_nonneg_nonneg)
qed

lemma unescape_percent_encode:
  "0 \<le> p \<Longrightarrow> p < 1114112 \<Longrightarrow> js_unescape (percent_encode p @ s) = utf8_octets p @ js_unescape s"
  by (simp add: percent_encode_def unescape_percents byte_string_utf8_octets)

lemma unreserved_ascii: "uri_unreserved c \<Longrightarrow> 0 \<le> c \<and> c < 128 \<and> c \<noteq> 37"
  by (auto simp: uri_unreserved_def)

lemma code_units_Cons [simp]: "code_units (c # s) \<longleftrightarrow> 0 \<le> c \<and> c < 65536 \<and> code_units s"
  by (auto simp: code_units_def)

lemma unescape_encode_uri_component:
  "code_units s \<Longrightarrow> map_option js_unescape (encode_uri_component s) = utf8_encode s"
proof (induction s rule: encode_uri_component.induct)
  case 1
  then show ?case by (simp add: utf8_encode_def)
next
  case (2 c s)
  consider (plain) "uri_unreserved c"
    | (low) "\<not> uri_unreserved c" "56320 \<le> c \<and> c \<le> 57343"
    | (high) "\<not> uri_unreserved c" "\<not> (56320 \<le> c \<and> c \<le> 57343)" "55296 \<le> c \<and> c \<le> 56319"
    | (bmp) "\<not> uri_unreserved c" "\<not> (56320 \<le> c \<and> c \<le> 57343)" "\<not> (55296 \<le> c \<and> c \<le> 56319)"
    by blast
  then show ?case
  proof cases
    case plain
    with "2.prems" have "map_option js_unescape (encode_uri_component s) = utf8_encode s"
      by (intro "2.IH"(1)) auto
    with plain unreserved_ascii [OF plain] show ?thesis
      by (cases "encode_uri_component s"; cases "utf16_decode s") (auto simp: utf8_encode_def utf8_octets_def)
  next
    case low
    then show ?thesis by (simp add: utf8_encode_def)
  next
    case high
    show ?thesis
    proof (cases s)
      case Nil
      with high show ?thesis by (simp add: utf8_encode_def)
    next
      case (Cons d s')
      show ?thesis
      proof (cases "56320 \<le> d \<and> d \<le> 57343")
        case True
        with "2.prems" high Cons have "map_option js_unescape (encode_uri_component s') = utf8_encode s'"
          by (intro "2.IH"(2)) auto
        with True high Cons show ?thesis
          by (cases "encode_uri_component s'"; cases "utf16_decode s'")
             (auto simp: utf8_encode_def unescape_percent_encode)
      next
        case False
        with high Cons show ?thesis by (auto simp: utf8_encode_def)
      qed
    qed
  next
    case bmp
    with "2.prems" have "map_option js_unescape (encode_uri_component s) = utf8_encode s"
      by (intro "2.IH"(3)) auto
    with bmp "2.prems" show ?thesis
      by (cases "encode_uri_component s"; cases "utf16_decode s")
         (auto simp: utf8_encode_def unescape_percent_encode)
  qed
qed

lemma utf16_decode_range:
  "code_units s \<Longrightarrow> utf16_decode s = Some ps \<Longrightarrow> p \<in> set ps \<Longrightarrow> 0 \<le> p \<and> p < 1114112"
  by (induction s arbitrary: ps rule: utf16_decode.induct)
     (auto split: if_splits list.splits)

lemma byte_string_concat: "byte_string (concat bss) \<longleftrightarrow> (\<forall>bs \<in> set bss. byte_string bs)"
  by (auto simp: byte_string_def)

lemma byte_string_utf8_encode:
  assumes "code_units s" and "utf8_encode s = Some bs"
  shows "byte_string bs"
proof -
  obtain ps where "utf16_decode s = Some ps" and bs: "bs = concat (map utf8_octets ps)"
    using assms(2) by (auto simp: utf8_encode_def)
  then have "byte_string (utf8_octets p)" if "p \<in> set ps" for p
    using that assms(1) by (auto dest: utf16_decode_range intro: byte_string_utf8_octets)
  then show ?thesis by (auto simp: bs byte_string_concat)
qed

end
