(* ===== verification/Md5_Api.thy ===== *)
theory Md5_Api
  imports Md5_Hmac Js_Uri
begin

text \<open>
  The contract of the entry point \<^verbatim>\<open>md5(string, key, raw)\<close> that three scripts offer: hash or keyed
  hash of the UTF-8 form of the string, printed in hexadecimal unless the raw bytes are asked for.
  A string that has no UTF-8 form raises \<^verbatim>\<open>URIError\<close>, here the result \<open>None\<close>.
\<close>

definition present :: "bool \<Rightarrow> int list \<Rightarrow> jstr" where
  "present raw bs = (if raw then bs else hex_of_bytes bs)"

definition md5_api :: "jstr \<Rightarrow> jstr \<Rightarrow> bool \<Rightarrow> jstr option" where
  "md5_api e t raw =
     (if t = [] then map_option (\<lambda>m. present raw (md5_digest m)) (utf8_encode e)
      else (case utf8_encode t of
              None \<Rightarrow> None
            | Some k \<Rightarrow> map_option (\<lambda>m. present raw (hmac_md5 k m)) (utf8_encode e)))"

text \<open>A code unit needs at most three bytes.\<close>

lemma utf8_octets_length:
  "p < 65536 \<Longrightarrow> length (utf8_octets p) \<le> 3" "length (utf8_octets p) \<le> 4"
  by (simp_all add: utf8_octets_def)

lemma utf16_decode_length:
  "code_units s \<Longrightarrow> utf16_decode s = Some ps \<Longrightarrow> length (concat (map utf8_octets ps)) \<le> 3 * length s"
proof (induction s arbitrary: ps rule: utf16_decode.induct)
  case (2 c s)
  show ?case
  proof (cases "55296 \<le> c \<and> c \<le> 56319")
    case True
    with "2.prems" obtain d s' qs where s: "s = d # s'" "56320 \<le> d \<and> d \<le> 57343" "utf16_decode s' = Some qs"
      and ps: "ps = (65536 + (c - 55296) * 1024 + (d - 56320)) # qs"
      by (auto split: list.splits if_splits)
    have "length (concat (map utf8_octets qs)) \<le> 3 * length s'"
      using True s "2.prems"(1) by (intro "2.IH"(1)) auto
    with utf8_octets_length(2) [of "65536 + (c - 55296) * 1024 + (d - 56320)"] show ?thesis
      by (simp add: ps s)
  next
    case False
    with "2.prems" obtain qs where "utf16_decode s = Some qs" "ps = c # qs" "\<not> (56320 \<le> c \<and> c \<le> 57343)"
      by (auto split: if_splits)
    moreover from this have "length (concat (map utf8_octets qs)) \<le> 3 * length s"
      using False "2.prems"(1) by (intro "2.IH"(2)) auto
    ultimately show ?thesis
      using utf8_octets_length(1) [of c] "2.prems"(1) by simp
  qed
qed simp

lemma utf8_encode_length:
  "code_units s \<Longrightarrow> utf8_encode s = Some bs \<Longrightarrow> length bs \<le> 3 * length s"
  using utf16_decode_length by (auto simp: utf8_encode_def)

locale md5_entry = md5_strings where T = md5_T +
  fixes hexs :: "jstr \<Rightarrow> jstr" and entry :: "jstr \<Rightarrow> jstr \<Rightarrow> bool \<Rightarrow> jstr option"
  assumes hexs_ok: "byte_string s \<Longrightarrow> hexs s = hex_of_bytes s"
    and entry_eq: "entry e t raw =
      (let utf = \<lambda>s. map_option js_unescape (encode_uri_component s);
           show_bytes = \<lambda>d. if raw then d else hexs d
       in if t = []
          then map_option (\<lambda>m. show_bytes (unpack (regs_array (core (pack m) (8 * int (length m)))))) (utf e)
          else (case utf t of None \<Rightarrow> None | Some k \<Rightarrow> map_option (\<lambda>m. show_bytes (raw_hmac k m)) (utf e)))"
begin

lemma entry_correct:
  assumes "code_units e" "code_units t" and "length e \<le> 89478000" "length t \<le> 89478000"
  shows "entry e t raw = md5_api e t raw"
proof -
  have bytes: "byte_string m \<and> 512 + 8 * int (length m) < 2147483584"
    if "utf8_encode s = Some m" "code_units s" "length s \<le> 89478000" for s m
    using that byte_string_utf8_encode [of s m] utf8_encode_length [of s m] by auto
  have digest: "unpack (regs_array (core (pack m) (8 * int (length m)))) = md5_digest m"
    if "utf8_encode e = Some m" for m
    using bytes [OF that assms(1,3)] by (intro raw_digest) auto
  have keyed: "raw_hmac k m = hmac_md5 k m" if "utf8_encode t = Some k" "utf8_encode e = Some m" for k m
    using bytes [OF that(1) assms(2,4)] bytes [OF that(2) assms(1,3)] by (intro raw_hmac_correct) auto
  have "hexs (md5_digest m) = hex_of_bytes (md5_digest m)" "hexs (hmac_md5 k m) = hex_of_bytes (hmac_md5 k m)" for k m
    by (simp_all add: hexs_ok hmac_with_def)
  then show ?thesis
    using digest keyed assms(1,2)
    by (cases "utf8_encode e"; cases "utf8_encode t")
       (simp_all add: entry_eq md5_api_def Let_def unescape_encode_uri_component present_def)
qed

end

text \<open>The test vector of RFC 1321.\<close>

lemma md5_abc: "md5_api (str ''abc'') [] False = Some (str ''900150983cd24fb0d6963f7d28e17f72'')"
  by code_simp

end
