(* ===== verification/Md5_Wechat.thy ===== *)
theory Md5_Wechat
  imports Md5_Api
begin

text \<open>
  \<^verbatim>\<open>wechat.js\<close>: the MD5 and HMAC-MD5 behind \<^verbatim>\<open>getPwd\<close>. The source's one-letter functions keep
  their letters behind the prefix \<open>wx_\<close>. The registers \<^verbatim>\<open>s, a, c, u\<close> of the source are the four
  components of \<open>js_regs\<close>; \<open>wx_stmts\<close> lists the sixty-four assignments of a block in the order
  of the source. \<^verbatim>\<open>undefined\<close> array elements only ever reach bitwise operators, which read them
  as 0 (\<open>arr_bits\<close>).
\<close>

section \<open>The round functions\<close>

definition wx_p :: "int \<Rightarrow> int \<Rightarrow> int" where
  "wx_p e t = (let n = js_and 65535 e + js_and 65535 t in
     js_or (js_shl (js_shr e 16 + js_shr t 16 + js_shr n 16) 16) (js_and 65535 n))"

definition wx_a :: "int \<Rightarrow> int \<Rightarrow> int \<Rightarrow> int \<Rightarrow> int \<Rightarrow> int \<Rightarrow> int" where
  "wx_a e t n k i r = (let r = wx_p (wx_p t e) (wx_p k r) in
     wx_p (js_or (js_shl r i) (js_ushr r (32 - i))) n)"

definition wx_l :: round_fun where
  "wx_l e t n k i r s = wx_a (js_or (js_and t n) (js_and (js_not t) k)) e t i r s"

definition wx_m :: round_fun where
  "wx_m e t n k i r s = wx_a (js_or (js_and t k) (js_and n (js_not k))) e t i r s"

definition wx_f :: round_fun where
  "wx_f e t n k i r s = wx_a (js_xor (js_xor t n) k) e t i r s"

definition wx_g :: round_fun where
  "wx_g e t n k i r s = wx_a (js_xor n (js_or t (js_not k))) e t i r s"

section \<open>The block loop\<close>

definition wx_stmts :: "(int \<Rightarrow> int) \<Rightarrow> (js_regs \<Rightarrow> js_regs) list" where
  "wx_stmts x =
    [
     asg_a wx_l (x 0) 7 (- 680876936), asg_d wx_l (x 1) 12 (- 389564586),
     asg_c wx_l (x 2) 17 606105819, asg_b wx_l (x 3) 22 (- 1044525330),
     asg_a wx_l (x 4) 7 (- 176418897), asg_d wx_l (x 5) 12 1200080426,
     asg_c wx_l (x 6) 17 (- 1473231341), asg_b wx_l (x 7) 22 (- 45705983),
     asg_a wx_l (x 8) 7 1770035416, asg_d wx_l (x 9) 12 (- 1958414417),
     asg_c wx_l (x 10) 17 (- 42063), asg_b wx_l (x 11) 22 (- 1990404162),
     asg_a wx_l (x 12) 7 1804603682, asg_d wx_l (x 13) 12 (- 40341101),
     asg_c wx_l (x 14) 17 (- 1502002290), asg_b wx_l (x 15) 22 1236535329,
     asg_a wx_m (x 1) 5 (- 165796510), asg_d wx_m (x 6) 9 (- 1069501632),
     asg_c wx_m (x 11) 14 643717713, asg_b wx_m (x 0) 20 (- 373897302),
     asg_a wx_m (x 5) 5 (- 701558691), asg_d wx_m (x 10) 9 38016083,
     asg_c wx_m (x 15) 14 (- 660478335), asg_b wx_m (x 4) 20 (- 405537848),
     asg_a wx_m (x 9) 5 568446438, asg_d wx_m (x 14) 9 (- 1019803690),
     asg_c wx_m (x 3) 14 (- 187363961), asg_b wx_m (x 8) 20 1163531501,
     asg_a wx_m (x 13) 5 (- 1444681467), asg_d wx_m (x 2) 9 (- 51403784),
     asg_c wx_m (x 7) 14 1735328473, asg_b wx_m (x 12) 20 (- 1926607734),
     asg_a wx_f (x 5) 4 (- 378558), asg_d wx_f (x 8) 11 (- 2022574463),
     asg_c wx_f (x 11) 16 1839030562, asg_b wx_f (x 14) 23 (- 35309556),
     asg_a wx_f (x 1) 4 (- 1530992060), asg_d wx_f (x 4) 11 1272893353,
     asg_c wx_f (x 7) 16 (- 155497632), asg_b wx_f (x 10) 23 (- 1094730640),
     asg_a wx_f (x 13) 4 681279174, asg_d wx_f (x 0) 11 (- 358537222),
     asg_c wx_f (x 3) 16 (- 722521979), asg_b wx_f (x 6) 23 76029189,
     asg_a wx_f (x 9) 4 (- 640364487), asg_d wx_f (x 12) 11 (- 421815835),
     asg_c wx_f (x 15) 16 530742520, asg_b wx_f (x 2) 23 (- 995338651),
     asg_a wx_g (x 0) 6 (- 198630844), asg_d wx_g (x 7) 10 1126891415,
     asg_c wx_g (x 14) 15 (- 1416354905), asg_b wx_g (x 5) 21 (- 57434055),
     asg_a wx_g (x 12) 6 1700485571, asg_d wx_g (x 3) 10 (- 1894986606),
     asg_c wx_g (x 10) 15 (- 1051523), asg_b wx_g (x 1) 21 (- 2054922799),
     asg_a wx_g (x 8) 6 1873313359, asg_d wx_g (x 15) 10 (- 30611744),
     asg_c wx_g (x 6) 15 (- 1560198380), asg_b wx_g (x 13) 21 1309151649,
     asg_a wx_g (x 4) 6 (- 145523070), asg_d wx_g (x 11) 10 (- 1120210379),
     asg_c wx_g (x 2) 15 718787259, asg_b wx_g (x 9) 21 (- 343485551)]"

definition wx_loop :: "int option list \<Rightarrow> int \<Rightarrow> js_regs \<Rightarrow> js_regs" where
  "wx_loop e d r = js_for d (int (length e)) 16
     (\<lambda>d r. add_regs wx_p (run_stmts (wx_stmts (\<lambda>k. arr_bits e (d + k))) r) r) r"

definition wx_core :: "int option list \<Rightarrow> int \<Rightarrow> js_regs" where
  "wx_core e t =
     (let e = arr_set e (js_shr t 5) (js_or (arr_bits e (js_shr t 5)) (js_shl 128 (t mod 32)));
          e = arr_set e (14 + js_shl (js_ushr (t + 64) 9) 4) t
      in wx_loop e 0 (1732584193, - 271733879, - 1732584194, 271733878))"

definition wx_s :: "int option list \<Rightarrow> int \<Rightarrow> int option list" where
  "wx_s e t = regs_array (wx_core e t)"

section \<open>Strings\<close>

definition wx_c :: "int option list \<Rightarrow> jstr" where
  "wx_c e = js_for 0 (32 * int (length e)) 8
     (\<lambda>n t. t @ from_char_code (js_and (js_ushr (arr_bits e (js_shr n 5)) (n mod 32)) 255)) []"

definition wx_u :: "jstr \<Rightarrow> int option list" where
  "wx_u e =
     (let n = arr_set_undef [] (js_shr (int (length e)) 2 - 1);
          n = js_for 0 (int (length n)) 1 (\<lambda>t n. arr_set n t 0) n
      in js_for 0 (8 * int (length e)) 8
           (\<lambda>t n. arr_set n (js_shr t 5)
              (js_or (arr_bits n (js_shr t 5)) (js_shl (js_and 255 (bits_of (char_code_at e (t div 8)))) (t mod 32)))) n)"

definition wx_o :: "jstr \<Rightarrow> jstr" where
  "wx_o e = js_for 0 (int (length e)) 1
     (\<lambda>i acc. let t = bits_of (char_code_at e i) in
        acc @ char_at (str ''0123456789abcdef'') (js_and (js_ushr t 4) 15)
            @ char_at (str ''0123456789abcdef'') (js_and 15 t)) []"

definition wx_i :: "jstr \<Rightarrow> jstr option" where
  "wx_i e = map_option js_unescape (encode_uri_component e)"

definition wx_r :: "jstr \<Rightarrow> jstr option" where
  "wx_r e = map_option (\<lambda>e. wx_c (wx_s (wx_u e) (8 * int (length e)))) (wx_i e)"

definition wx_d_raw :: "jstr \<Rightarrow> jstr \<Rightarrow> jstr" where
  "wx_d_raw e t =
     (let w = wx_u e;
          i = arr_set_undef [] 15; r = arr_set_undef [] 15;
          w = (if 16 < length w then wx_s w (8 * int (length e)) else w);
          i = js_for 0 16 1 (\<lambda>n i. arr_set i n (js_xor 909522486 (arr_bits w n))) i;
          r = js_for 0 16 1 (\<lambda>n r. arr_set r n (js_xor 1549556828 (arr_bits w n))) r;
          t = wx_s (i @ wx_u t) (512 + 8 * int (length t))
      in wx_c (wx_s (r @ t) 640))"

definition wx_d :: "jstr \<Rightarrow> jstr \<Rightarrow> jstr option" where
  "wx_d e t = (case wx_i e of None \<Rightarrow> None | Some e \<Rightarrow> map_option (wx_d_raw e) (wx_i t))"

text \<open>The key \<^verbatim>\<open>t\<close> counts as absent when it is empty; \<^verbatim>\<open>n\<close> asks for the raw bytes.\<close>

definition wx_getPwd :: "jstr \<Rightarrow> jstr \<Rightarrow> bool \<Rightarrow> jstr option" where
  "wx_getPwd e t n =
     (if t \<noteq> [] then (if n then wx_d t e else map_option wx_o (wx_d t e))
      else if n then wx_r e else map_option wx_o (wx_r e))"

section \<open>The script meets the contracts\<close>

lemma wx_p_word: "w32 (wx_p e t) = w32 e + w32 t"
  using safe_add_word [OF refl, of e t] by (simp add: wx_p_def Let_def js_and_comm [of 65535])

lemma wx_a_word:
  "0 < i \<Longrightarrow> i < 32 \<Longrightarrow>
     w32 (wx_a e t n k i r) = w32 n + word_rotl (nat i) (w32 t + w32 e + w32 k + w32 r)"
  by (simp add: wx_a_def Let_def wx_p_word w32_js_rotate algebra_simps)

lemmas wx_round_defs =
  round_ok_def md5_mix_def wx_l_def wx_m_def wx_f_def wx_g_def wx_a_word
  md5_F_def md5_G_def md5_H_def md5_I_def js_w32 xor.assoc

interpretation wx_rounds: md5_rounds wx_l wx_m wx_f wx_g
  by unfold_locales (simp_all add: wx_round_defs)

lemma wx_stmts_refine:
  "list_all2 (\<lambda>st op. refines_op st (\<lambda>k. w32 (X (int k))) op) (wx_stmts X) (md5_ops md5_T)"
  unfolding wx_stmts_def md5_ops_def md5_schedule_list md5_T_def
  by (simp add: asg_refines wx_rounds.ff_ok wx_rounds.gg_ok wx_rounds.hh_ok wx_rounds.ii_ok)

interpretation wx_script: md5_core_script wx_l wx_m wx_f wx_g md5_T wx_p wx_stmts wx_loop wx_core
proof
  show "w32 (wx_p x y) = w32 x + w32 y" for x y
    by (rule wx_p_word)
  show "list_all2 (\<lambda>st op. refines_op st (\<lambda>k. w32 (X (int k))) op) (wx_stmts X) (md5_ops md5_T)" for X
    by (rule wx_stmts_refine)
  show "wx_loop e d r =
      (if d < int (length e)
       then wx_loop e (d + 16) (add_regs wx_p (run_stmts (wx_stmts (\<lambda>k. arr_bits e (d + k))) r) r)
       else r)" for e d r
    unfolding wx_loop_def by (subst js_for.simps) simp
  show "wx_core e n = wx_loop (pad_in_place e n) 0 (1732584193, - 271733879, - 1732584194, 271733878)" for e n
    by (simp add: wx_core_def pad_in_place_def or_at_def Let_def)
qed

lemma wx_u_or_at:
  "wx_u e = js_for 0 (8 * int (length e)) 8
     (\<lambda>t n. or_at n t (js_and 255 (bits_of (char_code_at e (t div 8))))) (replicate (length e div 4) (Some 0))"
  if "8 * int (length e) < 2147483648"
proof -
  have "js_shr (int (length e)) 2 - 1 = int (length e div 4) - 1"
    using that by (simp add: js_shr_div zdiv_int)
  then show ?thesis
    by (simp add: wx_u_def Let_def zero_array or_at_def)
qed

lemma wx_u_array:
  assumes "8 * int (length s) < 2147483648"
  shows "msg_array (wx_u s) (map (\<lambda>c. c mod 256) s)" and "length (wx_u s) = (length s + 3) div 4"
  unfolding wx_u_or_at [OF assms]
  using pack_loop [OF assms, of "\<lambda>t. js_and 255 (bits_of (char_code_at s (t div 8)))"]
  by (simp_all add: js_and_comm [of 255] byte_mask)

lemma wx_c_bytes: "wx_c (regs_array r) = regs_bytes (regs_w r)"
  unfolding wx_c_def
proof (rule unpack_loop)
  fix k :: nat
  assume "k < 16"
  then have "js_shr (8 * int k) 5 = int (k div 4)" and "8 * int k mod 32 = int (8 * (k mod 4))"
    by (simp_all add: js_shr_div zdiv_int zmod_int mult_mod_right)
  then show "from_char_code (js_and (js_ushr (arr_bits (regs_array r) (js_shr (8 * int k) 5)) (8 * int k mod 32)) 255)
      = [js_and (js_ushr (arr_bits (regs_array r) (int (k div 4))) (int (8 * (k mod 4)))) 255]"
    by (simp add: from_char_code_def byte_mask)
qed

lemma wx_o_hex: "byte_string s \<Longrightarrow> wx_o s = hex_of_bytes s"
  unfolding wx_o_def Let_def hex_digits_def [symmetric]
  by (rule hex_loop) (simp_all add: js_and_comm [of 15])

interpretation wx: md5_strings wx_l wx_m wx_f wx_g md5_T wx_p wx_stmts wx_loop wx_core wx_u wx_c wx_d_raw
proof
  show "msg_array (wx_u s) s" if "byte_string s" "8 * int (length s) < 2147483648" for s
    using wx_u_array(1) [OF that(2)] that(1) by (simp add: map_mod_byte_string)
  show "length (wx_u s) = (length s + 3) div 4" if "8 * int (length s) < 2147483648" for s
    using that by (rule wx_u_array(2))
  show "wx_c (regs_array r) = regs_bytes (regs_w r)" for r
    by (rule wx_c_bytes)
  show "wx_d_raw k m =
      (let w = wx_u k;
           w = (if 16 < length w then regs_array (wx_core w (8 * int (length k))) else w);
           ip = map (\<lambda>n. Some (js_xor 909522486 (arr_bits w (int n)))) [0..<16];
           op = map (\<lambda>n. Some (js_xor 1549556828 (arr_bits w (int n)))) [0..<16];
           t = regs_array (wx_core (ip @ wx_u m) (512 + 8 * int (length m)))
       in wx_c (regs_array (wx_core (op @ t) 640)))" for k m
    by (simp add: wx_d_raw_def wx_s_def Let_def arr_set_undef_def fill_loop)
qed

interpretation wx_api: md5_entry wx_l wx_m wx_f wx_g wx_p wx_stmts wx_loop wx_core wx_u wx_c wx_d_raw wx_o wx_getPwd
proof
  show "wx_o s = hex_of_bytes s" if "byte_string s" for s
    using that by (rule wx_o_hex)
  show "wx_getPwd e t raw =
      (let utf = \<lambda>s. map_option js_unescape (encode_uri_component s);
           show_bytes = \<lambda>d. if raw then d else wx_o d
       in if t = []
          then map_option (\<lambda>m. show_bytes (wx_c (regs_array (wx_core (wx_u m) (8 * int (length m)))))) (utf e)
          else (case utf t of None \<Rightarrow> None | Some k \<Rightarrow> map_option (\<lambda>m. show_bytes (wx_d_raw k m)) (utf e)))"
    for e t raw
    by (auto simp: wx_getPwd_def wx_r_def wx_i_def wx_s_def wx_d_def option.map_comp comp_def Let_def
        split: option.split)
qed

section \<open>Correctness\<close>

text \<open>
  C11: \<^verbatim>\<open>getPwd(e, t, n)\<close> of \<^verbatim>\<open>wechat.js\<close> is the MD5 of RFC 1321 of the UTF-8 form of \<^verbatim>\<open>e\<close> when the key
  \<^verbatim>\<open>t\<close> is empty and the HMAC-MD5 of RFC 2104 under the UTF-8 form of \<^verbatim>\<open>t\<close> otherwise, in hexadecimal
  unless \<^verbatim>\<open>n\<close> asks for the raw bytes; it raises \<^verbatim>\<open>URIError\<close> exactly when one of the strings it encodes
  has an unpaired surrogate. The length bound keeps the bit count below 2^31.
\<close>

theorem wx_getPwd_correct:
  assumes "code_units e" "code_units t" and "length e \<le> 89478000" "length t \<le> 89478000"
  shows "wx_getPwd e t n = md5_api e t n"
  using assms by (rule wx_api.entry_correct)

theorem wx_getPwd_correct_witness:
  "wx_getPwd (str ''abc'') [] False = Some (str ''900150983cd24fb0d6963f7d28e17f72'')"
  using wx_getPwd_correct [of "str ''abc''" "[]" False]
  by (simp add: md5_abc) (simp add: code_units_def str_def)

end
