(* ===== verification/Md5_Fkw.thy ===== *)
theory Md5_Fkw
  imports Md5_Api
begin

text \<open>
  \<^verbatim>\<open>fkw.js\<close>: the jQuery plug-in \<^verbatim>\<open>md5(string, key, raw)\<close>. The source's one-letter functions keep
  their letters behind the prefix \<open>fk_\<close>; its registers \<^verbatim>\<open>E, D, C, B\<close> are the components of
  \<open>js_regs\<close>. \<open>fk_core\<close> is the function \<^verbatim>\<open>d\<close> before it makes an array of the registers.
\<close>

section \<open>The round functions\<close>

definition fk_o :: "int \<Rightarrow> int \<Rightarrow> int" where
  "fk_o u z = (let w = js_and u 65535 + js_and z 65535; v = js_shr u 16 + js_shr z 16 + js_shr w 16 in
     js_or (js_shl v 16) (js_and w 65535))"

definition fk_s :: "int \<Rightarrow> int \<Rightarrow> int" where
  "fk_s u v = js_or (js_shl u v) (js_ushr u (32 - v))"

definition fk_c :: "int \<Rightarrow> int \<Rightarrow> int \<Rightarrow> int \<Rightarrow> int \<Rightarrow> int \<Rightarrow> int" where
  "fk_c A w v u z y = fk_o (fk_s (fk_o (fk_o w A) (fk_o u y)) z) v"

definition fk_b :: round_fun where
  "fk_b w v B A u z y = fk_c (js_or (js_and v B) (js_and (js_not v) A)) w v u z y"

definition fk_i :: round_fun where
  "fk_i w v B A u z y = fk_c (js_or (js_and v A) (js_and B (js_not A))) w v u z y"

definition fk_n :: round_fun where
  "fk_n w v B A u z y = fk_c (js_xor (js_xor v B) A) w v u z y"

definition fk_a :: round_fun where
  "fk_a w v B A u z y = fk_c (js_xor B (js_or v (js_not A))) w v u z y"

section \<open>The block loop\<close>

definition fk_stmts :: "(int \<Rightarrow> int) \<Rightarrow> (js_regs \<Rightarrow> js_regs) list" where
  "fk_stmts x =
    [
     asg_a fk_b (x 0) 7 (- 680876936), asg_d fk_b (x 1) 12 (- 389564586),
     asg_c fk_b (x 2) 17 606105819, asg_b fk_b (x 3) 22 (- 1044525330),
     asg_a fk_b (x 4) 7 (- 176418897), asg_d fk_b (x 5) 12 1200080426,
     asg_c fk_b (x 6) 17 (- 1473231341), asg_b fk_b (x 7) 22 (- 45705983),
     asg_a fk_b (x 8) 7 1770035416, asg_d fk_b (x 9) 12 (- 1958414417),
     asg_c fk_b (x 10) 17 (- 42063), asg_b fk_b (x 11) 22 (- 1990404162),
     asg_a fk_b (x 12) 7 1804603682, asg_d fk_b (x 13) 12 (- 40341101),
     asg_c fk_b (x 14) 17 (- 1502002290), asg_b fk_b (x 15) 22 1236535329,
     asg_a fk_i (x 1) 5 (- 165796510), asg_d fk_i (x 6) 9 (- 1069501632),
     asg_c fk_i (x 11) 14 643717713, asg_b fk_i (x 0) 20 (- 373897302),
     asg_a fk_i (x 5) 5 (- 701558691), asg_d fk_i (x 10) 9 38016083,
     asg_c fk_i (x 15) 14 (- 660478335), asg_b fk_i (x 4) 20 (- 405537848),
     asg_a fk_i (x 9) 5 568446438, asg_d fk_i (x 14) 9 (- 1019803690),
     asg_c fk_i (x 3) 14 (- 187363961), asg_b fk_i (x 8) 20 1163531501,
     asg_a fk_i (x 13) 5 (- 1444681467), asg_d fk_i (x 2) 9 (- 51403784),
     asg_c fk_i (x 7) 14 1735328473, asg_b fk_i (x 12) 20 (- 1926607734),
     asg_a fk_n (x 5) 4 (- 378558), asg_d fk_n (x 8) 11 (- 2022574463),
     asg_c fk_n (x 11) 16 1839030562, asg_b fk_n (x 14) 23 (- 35309556),
     asg_a fk_n (x 1) 4 (- 1530992060), asg_d fk_n (x 4) 11 1272893353,
     asg_c fk_n (x 7) 16 (- 155497632), asg_b fk_n (x 10) 23 (- 1094730640),
     asg_a fk_n (x 13) 4 681279174, asg_d fk_n (x 0) 11 (- 358537222),
     asg_c fk_n (x 3) 16 (- 722521979), asg_b fk_n (x 6) 23 76029189,
     asg_a fk_n (x 9) 4 (- 640364487), asg_d fk_n (x 12) 11 (- 421815835),
     asg_c fk_n (x 15) 16 530742520, asg_b fk_n (x 2) 23 (- 995338651),
     asg_a fk_a (x 0) 6 (- 198630844), asg_d fk_a (x 7) 10 1126891415,
     asg_c fk_a (x 14) 15 (- 1416354905), asg_b fk_a (x 5) 21 (- 57434055),
     asg_a fk_a (x 12) 6 1700485571, asg_d fk_a (x 3) 10 (- 1894986606),
     asg_c fk_a (x 10) 15 (- 1051523), asg_b fk_a (x 1) 21 (- 2054922799),
     asg_a fk_a (x 8) 6 1873313359, asg_d fk_a (x 15) 10 (- 30611744),
     asg_c fk_a (x 6) 15 (- 1560198380), asg_b fk_a (x 13) 21 1309151649,
     asg_a fk_a (x 4) 6 (- 145523070), asg_d fk_a (x 11) 10 (- 1120210379),
     asg_c fk_a (x 2) 15 718787259, asg_b fk_a (x 9) 21 (- 343485551)]"

definition fk_loop :: "int option list \<Rightarrow> int \<Rightarrow> js_regs \<Rightarrow> js_regs" where
  "fk_loop F w r = js_for w (int (length F)) 16
     (\<lambda>w r. add_regs fk_o (run_stmts (fk_stmts (\<lambda>k. arr_bits F (w + k))) r) r) r"

definition fk_core :: "int option list \<Rightarrow> int \<Rightarrow> js_regs" where
  "fk_core F A =
     (let F = arr_set F (js_shr A 5) (js_or (arr_bits F (js_shr A 5)) (js_shl 128 (A mod 32)));
          F = arr_set F (js_shl (js_ushr (A + 64) 9) 4 + 14) A
      in fk_loop F 0 (1732584193, - 271733879, - 1732584194, 271733878))"

definition fk_d :: "int option list \<Rightarrow> int \<Rightarrow> int option list" where
  "fk_d F A = regs_array (fk_core F A)"

section \<open>Strings\<close>

definition fk_p :: "int option list \<Rightarrow> jstr" where
  "fk_p v = js_for 0 (int (length v) * 32) 8
     (\<lambda>w u. u @ from_char_code (js_and (js_ushr (arr_bits v (js_shr w 5)) (w mod 32)) 255)) []"

definition fk_j :: "jstr \<Rightarrow> int option list" where
  "fk_j v =
     (let u = arr_set_undef [] (js_shr (int (length v)) 2 - 1);
          u = js_for 0 (int (length u)) 1 (\<lambda>w u. arr_set u w 0) u
      in js_for 0 (int (length v) * 8) 8
           (\<lambda>w u. arr_set u (js_shr w 5)
              (js_or (arr_bits u (js_shr w 5)) (js_shl (js_and (bits_of (char_code_at v (w div 8))) 255) (w mod 32)))) u)"

definition fk_k :: "jstr \<Rightarrow> jstr" where
  "fk_k u = fk_p (fk_d (fk_j u) (int (length u) * 8))"

definition fk_f :: "jstr \<Rightarrow> jstr \<Rightarrow> jstr" where
  "fk_f w z =
     (let y = fk_j w;
          u = arr_set_undef [] 15; x = arr_set_undef [] 15;
          y = (if 16 < length y then fk_d y (int (length w) * 8) else y);
          u = js_for 0 16 1 (\<lambda>v u. arr_set u v (js_xor (arr_bits y v) 909522486)) u;
          x = js_for 0 16 1 (\<lambda>v x. arr_set x v (js_xor (arr_bits y v) 1549556828)) x;
          A = fk_d (u @ fk_j z) (512 + int (length z) * 8)
      in fk_p (fk_d (x @ A) (512 + 128)))"

definition fk_t :: "jstr \<Rightarrow> jstr" where
  "fk_t w = js_for 0 (int (length w)) 1
     (\<lambda>y v. let u = bits_of (char_code_at w y) in
        v @ char_at (str ''0123456789abcdef'') (js_and (js_ushr u 4) 15)
          @ char_at (str ''0123456789abcdef'') (js_and u 15)) []"

definition fk_m :: "jstr \<Rightarrow> jstr option" where
  "fk_m u = map_option js_unescape (encode_uri_component u)"

definition fk_q :: "jstr \<Rightarrow> jstr option" where
  "fk_q u = map_option fk_k (fk_m u)"

definition fk_l :: "jstr \<Rightarrow> jstr option" where
  "fk_l u = map_option fk_t (fk_q u)"

definition fk_h :: "jstr \<Rightarrow> jstr \<Rightarrow> jstr option" where
  "fk_h u v = (case fk_m u of None \<Rightarrow> None | Some k \<Rightarrow> map_option (fk_f k) (fk_m v))"

definition fk_r :: "jstr \<Rightarrow> jstr \<Rightarrow> jstr option" where
  "fk_r u v = map_option fk_t (fk_h u v)"

text \<open>The key counts as absent when it is empty; the last argument asks for the raw bytes.\<close>

definition fk_md5 :: "jstr \<Rightarrow> jstr \<Rightarrow> bool \<Rightarrow> jstr option" where
  "fk_md5 v w u =
     (if w = [] then (if \<not> u then fk_l v else fk_q v)
      else if \<not> u then fk_r w v else fk_h w v)"

section \<open>The script meets the contracts\<close>

lemma fk_add_word: "w32 (fk_o u z) = w32 u + w32 z"
  using safe_add_word [OF refl, of u z] by (simp add: fk_o_def Let_def)

lemma fk_cmn_word:
  "0 < z \<Longrightarrow> z < 32 \<Longrightarrow>
     w32 (fk_c A w v u z y) = w32 v + word_rotl (nat z) (w32 w + w32 A + w32 u + w32 y)"
  by (simp add: fk_c_def fk_s_def fk_add_word w32_js_rotate algebra_simps)

lemmas fk_round_defs =
  round_ok_def md5_mix_def fk_b_def fk_i_def fk_n_def fk_a_def fk_cmn_word
  md5_F_def md5_G_def md5_H_def md5_I_def js_w32 xor.assoc

interpretation fk_rounds: md5_rounds fk_b fk_i fk_n fk_a
  by unfold_locales (simp_all add: fk_round_defs)

lemma fk_stmts_refine:
  "list_all2 (\<lambda>st op. refines_op st (\<lambda>k. w32 (X (int k))) op) (fk_stmts X) (md5_ops md5_T)"
  unfolding fk_stmts_def md5_ops_def md5_schedule_list md5_T_def
  by (simp add: asg_refines fk_rounds.ff_ok fk_rounds.gg_ok fk_rounds.hh_ok fk_rounds.ii_ok)

interpretation fk_script: md5_core_script fk_b fk_i fk_n fk_a md5_T fk_o fk_stmts fk_loop fk_core
proof
  show "w32 (fk_o x y) = w32 x + w32 y" for x y
    by (rule fk_add_word)
  show "list_all2 (\<lambda>st op. refines_op st (\<lambda>k. w32 (X (int k))) op) (fk_stmts X) (md5_ops md5_T)" for X
    by (rule fk_stmts_refine)
  show "fk_loop e d r =
      (if d < int (length e)
       then fk_loop e (d + 16) (add_regs fk_o (run_stmts (fk_stmts (\<lambda>k. arr_bits e (d + k))) r) r)
       else r)" for e d r
    unfolding fk_loop_def by (subst js_for.simps) simp
  show "fk_core e n = fk_loop (pad_in_place e n) 0 (1732584193, - 271733879, - 1732584194, 271733878)" for e n
    by (simp add: fk_core_def pad_in_place_def or_at_def Let_def add.commute [of 14])
qed

lemma fk_pack_or_at:
  "fk_j v = js_for 0 (8 * int (length v)) 8
     (\<lambda>t n. or_at n t (js_and (bits_of (char_code_at v (t div 8))) 255)) (replicate (length v div 4) (Some 0))"
  if "8 * int (length v) < 2147483648"
proof -
  have "js_shr (int (length v)) 2 - 1 = int (length v div 4) - 1"
    using that by (simp add: js_shr_div zdiv_int)
  then show ?thesis
    by (simp add: fk_j_def Let_def zero_array or_at_def mult.commute [of _ 8])
qed

lemma fk_pack_array:
  assumes "8 * int (length s) < 2147483648"
  shows "msg_array (fk_j s) (map (\<lambda>c. c mod 256) s)" and "length (fk_j s) = (length s + 3) div 4"
  unfolding fk_pack_or_at [OF assms]
  using pack_loop [OF assms, of "\<lambda>t. js_and (bits_of (char_code_at s (t div 8))) 255"]
  by (simp_all add: byte_mask)

lemma fk_unpack_bytes: "fk_p (regs_array r) = regs_bytes (regs_w r)"
  unfolding fk_p_def mult.commute [of _ 32]
proof (rule unpack_loop)
  fix k :: nat
  assume "k < 16"
  then have "js_shr (8 * int k) 5 = int (k div 4)" and "8 * int k mod 32 = int (8 * (k mod 4))"
    by (simp_all add: js_shr_div zdiv_int zmod_int mult_mod_right)
  then show "from_char_code (js_and (js_ushr (arr_bits (regs_array r) (js_shr (8 * int k) 5)) (8 * int k mod 32)) 255)
      = [js_and (js_ushr (arr_bits (regs_array r) (int (k div 4))) (int (8 * (k mod 4)))) 255]"
    by (simp add: from_char_code_def byte_mask)
qed

lemma fk_hex_bytes: "byte_string s \<Longrightarrow> fk_t s = hex_of_bytes s"
  unfolding fk_t_def Let_def hex_digits_def [symmetric]
  by (rule hex_loop) (simp_all)

interpretation fk_strings: md5_strings fk_b fk_i fk_n fk_a md5_T fk_o fk_stmts fk_loop fk_core fk_j fk_p fk_f
proof
  show "msg_array (fk_j s) s" if "byte_string s" "8 * int (length s) < 2147483648" for s
    using fk_pack_array(1) [OF that(2)] that(1) by (simp add: map_mod_byte_string)
  show "length (fk_j s) = (length s + 3) div 4" if "8 * int (length s) < 2147483648" for s
    using that by (rule fk_pack_array(2))
  show "fk_p (regs_array r) = regs_bytes (regs_w r)" for r
    by (rule fk_unpack_bytes)
  show "fk_f k m =
      (let w = fk_j k;
           w = (if 16 < length w then regs_array (fk_core w (8 * int (length k))) else w);
           ip = map (\<lambda>n. Some (js_xor 909522486 (arr_bits w (int n)))) [0..<16];
           op = map (\<lambda>n. Some (js_xor 1549556828 (arr_bits w (int n)))) [0..<16];
           t = regs_array (fk_core (ip @ fk_j m) (512 + 8 * int (length m)))
       in fk_p (regs_array (fk_core (op @ t) 640)))" for k m
    by (simp add: fk_f_def fk_d_def Let_def arr_set_undef_def fill_loop mult.commute [of _ 8] js_xor_comm [of _ 909522486] js_xor_comm [of _ 1549556828])
qed

interpretation fk_api: md5_entry fk_b fk_i fk_n fk_a fk_o fk_stmts fk_loop fk_core fk_j fk_p fk_f fk_t fk_md5
proof
  show "fk_t s = hex_of_bytes s" if "byte_string s" for s
    using that by (rule fk_hex_bytes)
  show "fk_md5 e t raw =
      (let utf = \<lambda>s. map_option js_unescape (encode_uri_component s);
           show_bytes = \<lambda>d. if raw then d else fk_t d
       in if t = []
          then map_option (\<lambda>m. show_bytes (fk_p (regs_array (fk_core (fk_j m) (8 * int (length m)))))) (utf e)
          else (case utf t of None \<Rightarrow> None | Some k \<Rightarrow> map_option (\<lambda>m. show_bytes (fk_f k m)) (utf e)))"
    for e t raw
    by (auto simp: fk_md5_def fk_q_def fk_l_def fk_h_def fk_r_def fk_m_def fk_k_def fk_d_def
        mult.commute [of _ 8] option.map_comp comp_def Let_def split: option.split)
qed

section \<open>Correctness\<close>

text \<open>
  C36: the plug-in \<^verbatim>\<open>md5(string, key, raw)\<close> of \<^verbatim>\<open>fkw.js\<close> computes MD5 and HMAC-MD5 of the UTF-8 forms of its
  arguments, in hexadecimal or as raw bytes, and raises \<^verbatim>\<open>URIError\<close> on an unpaired surrogate.
\<close>

theorem fk_md5_correct:
  assumes "code_units v" "code_units w" and "length v \<le> 89478000" "length w \<le> 89478000"
  shows "fk_md5 v w u = md5_api v w u"
  using assms by (rule fk_api.entry_correct)

theorem fk_md5_correct_witness:
  "fk_md5 (str ''abc'') [] False = Some (str ''900150983cd24fb0d6963f7d28e17f72'') \<and>
   fk_md5 [55296] (str ''key'') True = None"
  using fk_md5_correct [of "str ''abc''" "[]" False] fk_md5_correct [of "[55296]" "str ''key''" True]
  by (simp_all add: md5_abc) (simp_all add: code_units_def str_def md5_api_def utf8_encode_def)

end
