(* ===== verification/Md5_Getcdata.thy ===== *)
theory Md5_Getcdata
  imports Md5_Api
begin

text \<open>
  \<^verbatim>\<open>QQ/js/getcdata.js\<close>: the MD5 of the script that solves QQ's proof-of-work puzzle, and the search
  loop of \<^verbatim>\<open>getcdata\<close>. The source's one-letter functions keep their letters behind the prefix \<open>qc_\<close>.
\<close>

section \<open>The round functions\<close>

definition qc_t :: "int \<Rightarrow> int \<Rightarrow> int" where
  "qc_t u z = (let w = js_and 65535 u + js_and 65535 z; v = js_shr u 16 + js_shr z 16 + js_shr w 16 in
     js_or (js_shl v 16) (js_and 65535 w))"

definition qc_r :: "int \<Rightarrow> int \<Rightarrow> int" where
  "qc_r u v = js_or (js_shl u v) (js_ushr u (32 - v))"

definition qc_u :: "int \<Rightarrow> int \<Rightarrow> int \<Rightarrow> int \<Rightarrow> int \<Rightarrow> int \<Rightarrow> int" where
  "qc_u A w v u z y = qc_t (qc_r (qc_t (qc_t w A) (qc_t u y)) z) v"

definition qc_e :: round_fun where
  "qc_e w v B A u z y = qc_u (js_or (js_and v B) (js_and (js_not v) A)) w v u z y"

definition qc_o :: round_fun where
  "qc_o w v B A u z y = qc_u (js_or (js_and v A) (js_and B (js_not A))) w v u z y"

definition qc_c :: round_fun where
  "qc_c w v B A u z y = qc_u (js_xor (js_xor v B) A) w v u z y"

definition qc_f :: round_fun where
  "qc_f w v B A u z y = qc_u (js_xor B (js_or v (js_not A))) w v u z y"

section \<open>The block loop\<close>

definition qc_stmts :: "(int \<Rightarrow> int) \<Rightarrow> (js_regs \<Rightarrow> js_regs) list" where
  "qc_stmts x =
    [
     asg_a qc_e (x 0) 7 (- 680876936), asg_d qc_e (x 1) 12 (- 389564586),
     asg_c qc_e (x 2) 17 606105819, asg_b qc_e (x 3) 22 (- 1044525330),
     asg_a qc_e (x 4) 7 (- 176418897), asg_d qc_e (x 5) 12 1200080426,
     asg_c qc_e (x 6) 17 (- 1473231341), asg_b qc_e (x 7) 22 (- 45705983),
     asg_a qc_e (x 8) 7 1770035416, asg_d qc_e (x 9) 12 (- 1958414417),
     asg_c qc_e (x 10) 17 (- 42063), asg_b qc_e (x 11) 22 (- 1990404162),
     asg_a qc_e (x 12) 7 1804603682, asg_d qc_e (x 13) 12 (- 40341101),
     asg_c qc_e (x 14) 17 (- 1502002290), asg_b qc_e (x 15) 22 1236535329,
     asg_a qc_o (x 1) 5 (- 165796510), asg_d qc_o (x 6) 9 (- 1069501632),
     asg_c qc_o (x 11) 14 643717713, asg_b qc_o (x 0) 20 (- 373897302),
     asg_a qc_o (x 5) 5 (- 701558691), asg_d qc_o (x 10) 9 38016083,
     asg_c qc_o (x 15) 14 (- 660478335), asg_b qc_o (x 4) 20 (- 405537848),
     asg_a qc_o (x 9) 5 568446438, asg_d qc_o (x 14) 9 (- 1019803690),
     asg_c qc_o (x 3) 14 (- 187363961), asg_b qc_o (x 8) 20 1163531501,
     asg_a qc_o (x 13) 5 (- 1444681467), asg_d qc_o (x 2) 9 (- 51403784),
     asg_c qc_o (x 7) 14 1735328473, asg_b qc_o (x 12) 20 (- 1926607734),
     asg_a qc_c (x 5) 4 (- 378558), asg_d qc_c (x 8) 11 (- 2022574463),
     asg_c qc_c (x 11) 16 1839030562, asg_b qc_c (x 14) 23 (- 35309556),
     asg_a qc_c (x 1) 4 (- 1530992060), asg_d qc_c (x 4) 11 1272893353,
     asg_c qc_c (x 7) 16 (- 155497632), asg_b qc_c (x 10) 23 (- 1094730640),
     asg_a qc_c (x 13) 4 681279174, asg_d qc_c (x 0) 11 (- 358537222),
     asg_c qc_c (x 3) 16 (- 722521979), asg_b qc_c (x 6) 23 76029189,
     asg_a qc_c (x 9) 4 (- 640364487), asg_d qc_c (x 12) 11 (- 421815835),
     asg_c qc_c (x 15) 16 530742520, asg_b qc_c (x 2) 23 (- 995338651),
     asg_a qc_f (x 0) 6 (- 198630844), asg_d qc_f (x 7) 10 1126891415,
     asg_c qc_f (x 14) 15 (- 1416354905), asg_b qc_f (x 5) 21 (- 57434055),
     asg_a qc_f (x 12) 6 1700485571, asg_d qc_f (x 3) 10 (- 1894986606),
     asg_c qc_f (x 10) 15 (- 1051523), asg_b qc_f (x 1) 21 (- 2054922799),
     asg_a qc_f (x 8) 6 1873313359, asg_d qc_f (x 15) 10 (- 30611744),
     asg_c qc_f (x 6) 15 (- 1560198380), asg_b qc_f (x 13) 21 1309151649,
     asg_a qc_f (x 4) 6 (- 145523070), asg_d qc_f (x 11) 10 (- 1120210379),
     asg_c qc_f (x 2) 15 718787259, asg_b qc_f (x 9) 21 (- 343485551)]"

definition qc_loop :: "int option list \<Rightarrow> int \<Rightarrow> js_regs \<Rightarrow> js_regs" where
  "qc_loop F w r = js_for w (int (length F)) 16
     (\<lambda>w r. add_regs qc_t (run_stmts (qc_stmts (\<lambda>k. arr_bits F (w + k))) r) r) r"

definition qc_core :: "int option list \<Rightarrow> int \<Rightarrow> js_regs" where
  "qc_core F A =
     (let F = arr_set F (js_shr A 5) (js_or (arr_bits F (js_shr A 5)) (js_shl 128 (A mod 32)));
          F = arr_set F (js_shl (js_ushr (A + 64) 9) 4 + 14) A
      in qc_loop F 0 (1732584193, - 271733879, - 1732584194, 271733878))"

definition qc_i :: "int option list \<Rightarrow> int \<Rightarrow> int option list" where
  "qc_i F A = regs_array (qc_core F A)"

section \<open>Strings\<close>

definition qc_a :: "int option list \<Rightarrow> jstr" where
  "qc_a v = js_for 0 (int (length v) * 32) 8
     (\<lambda>w u. u @ from_char_code (js_and (js_ushr (arr_bits v (js_shr w 5)) (w mod 32)) 255)) []"

definition qc_h :: "jstr \<Rightarrow> int option list" where
  "qc_h v =
     (let u = arr_set_undef [] (js_shr (int (length v)) 2 - 1);
          u = js_for 0 (int (length u)) 1 (\<lambda>w u. arr_set u w 0) u
      in js_for 0 (int (length v) * 8) 8
           (\<lambda>w u. arr_set u (js_shr w 5)
              (js_or (arr_bits u (js_shr w 5)) (js_shl (js_and 255 (bits_of (char_code_at v (w div 8)))) (w mod 32)))) u)"

definition qc_g :: "jstr \<Rightarrow> jstr" where
  "qc_g u = qc_a (qc_i (qc_h u) (int (length u) * 8))"

definition qc_l :: "jstr \<Rightarrow> jstr \<Rightarrow> jstr" where
  "qc_l w z =
     (let y = qc_h w;
          u = arr_set_undef [] 15; x = arr_set_undef [] 15;
          y = (if 16 < length y then qc_i y (int (length w) * 8) else y);
          u = js_for 0 16 1 (\<lambda>v u. arr_set u v (js_xor 909522486 (arr_bits y v))) u;
          x = js_for 0 16 1 (\<lambda>v x. arr_set x v (js_xor 1549556828 (arr_bits y v))) x;
          A = qc_i (u @ qc_h z) (512 + int (length z) * 8)
      in qc_a (qc_i (x @ A) (640)))"

definition qc_d :: "jstr \<Rightarrow> jstr" where
  "qc_d w = js_for 0 (int (length w)) 1
     (\<lambda>y v. let u = bits_of (char_code_at w y) in
        v @ char_at (str ''0123456789abcdef'') (js_and (js_ushr u 4) 15)
          @ char_at (str ''0123456789abcdef'') (js_and 15 u)) []"

definition qc_v :: "jstr \<Rightarrow> jstr option" where
  "qc_v u = map_option js_unescape (encode_uri_component u)"

definition qc_C :: "jstr \<Rightarrow> jstr option" where
  "qc_C u = map_option qc_g (qc_v u)"

definition qc_A :: "jstr \<Rightarrow> jstr option" where
  "qc_A u = map_option qc_d (qc_C u)"

definition qc_m :: "jstr \<Rightarrow> jstr \<Rightarrow> jstr option" where
  "qc_m u v = (case qc_v u of None \<Rightarrow> None | Some k \<Rightarrow> map_option (qc_l k) (qc_v v))"

definition qc_s :: "jstr \<Rightarrow> jstr \<Rightarrow> jstr option" where
  "qc_s u v = map_option qc_d (qc_m u v)"

text \<open>The key counts as absent when it is empty; the last argument asks for the raw bytes.\<close>

definition qc_md5 :: "jstr \<Rightarrow> jstr \<Rightarrow> bool \<Rightarrow> jstr option" where
  "qc_md5 v w u =
     (if w = [] then (if \<not> u then qc_A v else qc_C v)
      else if \<not> u then qc_s w v else qc_m w v)"

section \<open>The script meets the contracts\<close>

lemma qc_add_word: "w32 (qc_t u z) = w32 u + w32 z"
  using safe_add_word [OF refl, of u z] by (simp add: qc_t_def Let_def js_and_comm [of 65535])

lemma qc_cmn_word:
  "0 < z \<Longrightarrow> z < 32 \<Longrightarrow>
     w32 (qc_u A w v u z y) = w32 v + word_rotl (nat z) (w32 w + w32 A + w32 u + w32 y)"
  by (simp add: qc_u_def qc_r_def qc_add_word w32_js_rotate algebra_simps)

lemmas qc_round_defs =
  round_ok_def md5_mix_def qc_e_def qc_o_def qc_c_def qc_f_def qc_cmn_word
  md5_F_def md5_G_def md5_H_def md5_I_def js_w32 xor.assoc

interpretation qc_rounds: md5_rounds qc_e qc_o qc_c qc_f
  by unfold_locales (simp_all add: qc_round_defs)

lemma qc_stmts_refine:
  "list_all2 (\<lambda>st op. refines_op st (\<lambda>k. w32 (X (int k))) op) (qc_stmts X) (md5_ops md5_T)"
  unfolding qc_stmts_def md5_ops_def md5_schedule_list md5_T_def
  by (simp add: asg_refines qc_rounds.ff_ok qc_rounds.gg_ok qc_rounds.hh_ok qc_rounds.ii_ok)

interpretation qc_script: md5_core_script qc_e qc_o qc_c qc_f md5_T qc_t qc_stmts qc_loop qc_core
proof
  show "w32 (qc_t x y) = w32 x + w32 y" for x y
    by (rule qc_add_word)
  show "list_all2 (\<lambda>st op. refines_op st (\<lambda>k. w32 (X (int k))) op) (qc_stmts X) (md5_ops md5_T)" for X
    by (rule qc_stmts_refine)
  show "qc_loop e d r =
      (if d < int (length e)
       then qc_loop e (d + 16) (add_regs qc_t (run_stmts (qc_stmts (\<lambda>k. arr_bits e (d + k))) r) r)
       else r)" for e d r
    unfolding qc_loop_def by (subst js_for.simps) simp
  show "qc_core e n = qc_loop (pad_in_place e n) 0 (1732584193, - 271733879, - 1732584194, 271733878)" for e n
    by (simp add: qc_core_def pad_in_place_def or_at_def Let_def add.commute [of 14])
qed

lemma qc_pack_or_at:
  "qc_h v = js_for 0 (8 * int (length v)) 8
     (\<lambda>t n. or_at n t (js_and 255 (bits_of (char_code_at v (t div 8))))) (replicate (length v div 4) (Some 0))"
  if "8 * int (length v) < 2147483648"
proof -
  have "js_shr (int (length v)) 2 - 1 = int (length v div 4) - 1"
    using that by (simp add: js_shr_div zdiv_int)
  then show ?thesis
    by (simp add: qc_h_def Let_def zero_array or_at_def mult.commute [of _ 8])
qed

lemma qc_pack_array:
  assumes "8 * int (length s) < 2147483648"
  shows "msg_array (qc_h s) (map (\<lambda>c. c mod 256) s)" and "length (qc_h s) = (length s + 3) div 4"
  unfolding qc_pack_or_at [OF assms]
  using pack_loop [OF assms, of "\<lambda>t. js_and 255 (bits_of (char_code_at s (t div 8)))"]
  by (simp_all add: byte_mask js_and_comm [of 255])

lemma qc_unpack_bytes: "qc_a (regs_array r) = regs_bytes (regs_w r)"
  unfolding qc_a_def mult.commute [of _ 32]
proof (rule unpack_loop)
  fix k :: nat
  assume "k < 16"
  then have "js_shr (8 * int k) 5 = int (k div 4)" and "8 * int k mod 32 = int (8 * (k mod 4))"
    by (simp_all add: js_shr_div zdiv_int zmod_int mult_mod_right)
  then show "from_char_code (js_and (js_ushr (arr_bits (regs_array r) (js_shr (8 * int k) 5)) (8 * int k mod 32)) 255)
      = [js_and (js_ushr (arr_bits (regs_array r) (int (k div 4))) (int (8 * (k mod 4)))) 255]"
    by (simp add: from_char_code_def byte_mask)
qed

lemma qc_hex_bytes: "byte_string s \<Longrightarrow> qc_d s = hex_of_bytes s"
  unfolding qc_d_def Let_def hex_digits_def [symmetric]
  by (rule hex_loop) (simp_all add: js_and_comm [of 15])

interpretation qc_strings: md5_strings qc_e qc_o qc_c qc_f md5_T qc_t qc_stmts qc_loop qc_core qc_h qc_a qc_l
proof
  show "msg_array (qc_h s) s" if "byte_string s" "8 * int (length s) < 2147483648" for s
    using qc_pack_array(1) [OF that(2)] that(1) by (simp add: map_mod_byte_string)
  show "length (qc_h s) = (length s + 3) div 4" if "8 * int (length s) < 2147483648" for s
    using that by (rule qc_pack_array(2))
  show "qc_a (regs_array r) = regs_bytes (regs_w r)" for r
    by (rule qc_unpack_bytes)
  show "qc_l k m =
      (let w = qc_h k;
           w = (if 16 < length w then regs_array (qc_core w (8 * int (length k))) else w);
           ip = map (\<lambda>n. Some (js_xor 909522486 (arr_bits w (int n)))) [0..<16];
           op = map (\<lambda>n. Some (js_xor 1549556828 (arr_bits w (int n)))) [0..<16];
           t = regs_array (qc_core (ip @ qc_h m) (512 + 8 * int (length m)))
       in qc_a (regs_array (qc_core (op @ t) 640)))" for k m
    by (simp add: qc_l_def qc_i_def Let_def arr_set_undef_def fill_loop mult.commute [of _ 8])
qed

interpretation qc_api: md5_entry qc_e qc_o qc_c qc_f qc_t qc_stmts qc_loop qc_core qc_h qc_a qc_l qc_d qc_md5
proof
  show "qc_d s = hex_of_bytes s" if "byte_string s" for s
    using that by (rule qc_hex_bytes)
  show "qc_md5 e t raw =
      (let utf = \<lambda>s. map_option js_unescape (encode_uri_component s);
           show_bytes = \<lambda>d. if raw then d else qc_d d
       in if t = []
          then map_option (\<lambda>m. show_bytes (qc_a (regs_array (qc_core (qc_h m) (8 * int (length m)))))) (utf e)
          else (case utf t of None \<Rightarrow> None | Some k \<Rightarrow> map_option (\<lambda>m. show_bytes (qc_l k m)) (utf e)))"
    for e t raw
    by (auto simp: qc_md5_def qc_C_def qc_A_def qc_m_def qc_s_def qc_v_def qc_g_def qc_i_def
        mult.commute [of _ 8] option.map_comp comp_def Let_def split: option.split)
qed

section \<open>The proof-of-work search\<close>

text \<open>
  \<^verbatim>\<open>getcdata\<close> evaluates its argument as an expression: \<open>ev\<close> stands for \<^verbatim>\<open>eval('(' + y + ')')\<close>, with
  \<open>None\<close> when it throws, which leaves \<^verbatim>\<open>n\<close> undefined. Of the value only its kind and its three
  properties matter; a number property is kept as the string it prints to, which is what
  \<^verbatim>\<open>parseInt\<close> reads. \<^verbatim>\<open>typeof null\<close> is \<^verbatim>\<open>"object"\<close>, so \<^verbatim>\<open>null\<close> reaches the property access, which throws.
\<close>

datatype qc_prop = PStr jstr | PNum jstr | POther

record qc_obj =
  o_randstr :: qc_prop
  o_M :: qc_prop
  o_ans :: qc_prop

datatype qc_val = QObj qc_obj | QNull | QOther

datatype qc_result = RUndef | RNum nat | RTypeError | RURIError

definition qc_unquote :: "jstr \<Rightarrow> jstr" where
  "qc_unquote y = js_replace_all (str ''&apos;'') [39] (js_replace_all (str ''&quot;'') [34] y)"

text \<open>\<^verbatim>\<open>for (var s = 0; s < n.M && s < 1e3; s++)\<close>; a bound of \<^verbatim>\<open>NaN\<close> is not greater than anything.\<close>

function qc_search :: "jstr \<Rightarrow> int option \<Rightarrow> jstr \<Rightarrow> nat \<Rightarrow> qc_result" where
  "qc_search randstr M ans s =
     (if (case M of None \<Rightarrow> False | Some m \<Rightarrow> int s < m) \<and> s < 1000 then
        (case qc_md5 (randstr @ nat_to_dec s) [] False of
           None \<Rightarrow> RURIError
         | Some c \<Rightarrow> if ans = ascii_lower c then RNum s else qc_search randstr M ans (Suc s))
      else RUndef)"
  by pat_completeness auto
termination
  by (relation "measure (\<lambda>(randstr, M, ans, s). 1000 - s)") auto

declare qc_search.simps [simp del]

definition qc_getcdata :: "(jstr \<Rightarrow> qc_val option) \<Rightarrow> jstr \<Rightarrow> qc_result" where
  "qc_getcdata ev y =
     (if y \<noteq> [] then
        (case ev (qc_unquote y) of
           Some (QObj n) \<Rightarrow>
             (case (o_randstr n, o_M n, o_ans n) of
                (PStr randstr, PStr M, PStr ans) \<Rightarrow> qc_search randstr (parse_int M) (ascii_lower ans) 0
              | (PStr randstr, PNum M, PStr ans) \<Rightarrow> qc_search randstr (parse_int M) (ascii_lower ans) 0
              | _ \<Rightarrow> RUndef)
         | Some QNull \<Rightarrow> RTypeError
         | _ \<Rightarrow> RUndef)
      else RUndef)"

lemma utf16_decode_ascii:
  "\<forall>c \<in> set d. c < 55296 \<Longrightarrow> utf16_decode d = Some d"
  by (induction d) auto

lemma utf16_decode_append_ascii:
  "utf16_decode r = Some ps \<Longrightarrow> \<forall>c \<in> set d. c < 55296 \<Longrightarrow> utf16_decode (r @ d) = Some (ps @ d)"
proof (induction r arbitrary: ps rule: utf16_decode.induct)
  case (2 c r)
  show ?case
  proof (cases "55296 \<le> c \<and> c \<le> 56319")
    case True
    with 2 show ?thesis by (cases r) (auto split: if_splits)
  next
    case False
    with 2 show ?thesis by (auto split: if_splits)
  qed
qed (simp add: utf16_decode_ascii)

lemma utf8_encode_append_dec:
  assumes "utf8_encode r = Some bs"
  shows "utf8_encode (r @ nat_to_dec s) = Some (bs @ nat_to_dec s)"
proof -
  obtain ps where ps: "utf16_decode r = Some ps" "bs = concat (map utf8_octets ps)"
    using assms by (auto simp: utf8_encode_def)
  have "utf16_decode (r @ nat_to_dec s) = Some (ps @ nat_to_dec s)"
    using ps nat_to_dec_digits by (intro utf16_decode_append_ascii) fastforce+
  moreover have "concat (map utf8_octets d) = d" if "\<forall>c \<in> set d. c < 128" for d
    using that by (induction d) (auto simp: utf8_octets_def)
  then have "concat (map utf8_octets (nat_to_dec s)) = nat_to_dec s"
    using nat_to_dec_digits by fastforce
  ultimately show ?thesis
    by (simp add: utf8_encode_def ps)
qed

lemma code_units_append [simp]: "code_units (s @ t) \<longleftrightarrow> code_units s \<and> code_units t"
  by (auto simp: code_units_def)

lemma code_units_dec [simp]: "code_units (nat_to_dec n)"
  using nat_to_dec_digits by (fastforce simp: code_units_def)

lemma qc_md5_candidate:
  assumes "code_units r" "length r \<le> 89000000" "utf8_encode r = Some bs" "s < 1000"
  shows "qc_md5 (r @ nat_to_dec s) [] False = Some (hex_of_bytes (md5_digest (bs @ nat_to_dec s)))"
proof -
  have "length (nat_to_dec s) \<le> 3"
    using assms(4) by (intro nat_to_dec_length) auto
  with assms have "qc_md5 (r @ nat_to_dec s) [] False = md5_api (r @ nat_to_dec s) [] False"
    by (intro qc_api.entry_correct) (auto simp: code_units_def [of "[]"])
  then show ?thesis
    by (simp add: md5_api_def utf8_encode_append_dec [OF assms(3)] present_def)
qed

lemma qc_search_find:
  assumes "code_units r" "length r \<le> 89000000" "utf8_encode r = Some bs"
  shows "qc_search r (Some M) ans s =
     (case find (\<lambda>s. hex_of_bytes (md5_digest (bs @ nat_to_dec s)) = ans) [s..<min (nat M) 1000] of
        Some s \<Rightarrow> RNum s | None \<Rightarrow> RUndef)"
proof (induction "1000 - s" arbitrary: s)
  case 0
  then show ?case by (subst qc_search.simps) simp
next
  case (Suc k)
  then have s: "s < 1000" by simp
  show ?case
  proof (cases "int s < M")
    case True
    then have "[s..<min (nat M) 1000] = s # [Suc s..<min (nat M) 1000]"
      using s by (intro upt_conv_Cons) auto
    moreover have "qc_search r (Some M) ans (Suc s) =
      (case find (\<lambda>s. hex_of_bytes (md5_digest (bs @ nat_to_dec s)) = ans) [Suc s..<min (nat M) 1000] of
        Some s \<Rightarrow> RNum s | None \<Rightarrow> RUndef)"
      using Suc.hyps(2) by (intro Suc.hyps(1)) simp
    ultimately show ?thesis
      using True s
      by (subst qc_search.simps) (auto simp: qc_md5_candidate [OF assms s] ascii_lower_hex)
  next
    case False
    then show ?thesis by (subst qc_search.simps) auto
  qed
qed

section \<open>Correctness\<close>

text \<open>
  C13: on a well-formed puzzle, \<^verbatim>\<open>getcdata\<close> returns the least \<open>s\<close> below both the puzzle's bound and 1000
  whose decimal form, appended to the seed, has the wanted MD5 (compared without regard to case),
  and \<^verbatim>\<open>undefined\<close> when there is none.
\<close>

theorem qc_getcdata_least:
  assumes "y \<noteq> []"
    and "ev (qc_unquote y) = Some (QObj \<lparr>o_randstr = PStr r, o_M = m, o_ans = PStr a\<rparr>)"
    and "m = PStr b \<or> m = PNum b" and "parse_int b = Some M"
    and "code_units r" "length r \<le> 89000000" "utf8_encode r = Some bs"
  shows "qc_getcdata ev y =
     (case find (\<lambda>s. hex_of_bytes (md5_digest (bs @ nat_to_dec s)) = ascii_lower a) [0..<min (nat M) 1000] of
        Some s \<Rightarrow> RNum s | None \<Rightarrow> RUndef)"
  using assms(1-4) qc_search_find [OF assms(5-7)] by (auto simp: qc_getcdata_def)

theorem qc_getcdata_least_witness:
  "qc_getcdata (\<lambda>_. Some (QObj \<lparr>o_randstr = PStr [], o_M = PNum (str ''1''), o_ans = PStr (str ''CFCD208495D565EF66E7DFF9F98764DA'')\<rparr>)) (str ''{}'')
     = RNum 0"
proof -
  have "parse_int (str ''1'') = Some 1"
    by code_simp
  moreover have "hex_of_bytes (md5_digest (nat_to_dec 0)) = ascii_lower (str ''CFCD208495D565EF66E7DFF9F98764DA'')"
    by code_simp
  ultimately show ?thesis
    using qc_getcdata_least
      [of "str ''{}''" "\<lambda>_. Some (QObj \<lparr>o_randstr = PStr [], o_M = PNum (str ''1''), o_ans = PStr (str ''CFCD208495D565EF66E7DFF9F98764DA'')\<rparr>)"
        "[]" "PNum (str ''1'')" "str ''CFCD208495D565EF66E7DFF9F98764DA''" "str ''1''" 1 "[]"]
    by (simp add: code_units_def utf8_encode_def str_def)
qed

end
