(* ===== verification/Md5_Kugou.thy ===== *)
theory Md5_Kugou
  imports Md5_Hmac
begin

text \<open>
  \<^verbatim>\<open>kg_mid.js\<close>: the machine identifier of a music client, the MD5 of a random GUID. The inner
  functions of \<^verbatim>\<open>md5\<close> keep their letters behind the prefix \<open>kg_\<close>; its registers \<^verbatim>\<open>r, i, n, o\<close> are
  the components of \<open>js_regs\<close>. \<open>kg_core\<close>, \<open>kg_pack\<close> and \<open>kg_print\<close> are the anonymous functions
  and the printing loop. \<^verbatim>\<open>Math.random\<close> is not a function: \<open>rnd k\<close> is the value of
  \<^verbatim>\<open>65536 * (1 + Math.random()) | 0\<close> at the \<open>k\<close>-th call of the inner \<^verbatim>\<open>e\<close>.
\<close>

section \<open>The round functions\<close>

definition kg_m :: "int \<Rightarrow> int \<Rightarrow> int" where
  "kg_m e t = (let r = js_and 65535 e + js_and 65535 t in
     js_or (js_shl (js_shr e 16 + js_shr t 16 + js_shr r 16) 16) (js_and 65535 r))"

definition kg_a :: "int \<Rightarrow> int \<Rightarrow> int \<Rightarrow> int \<Rightarrow> int \<Rightarrow> int \<Rightarrow> int" where
  "kg_a e t r i n k = (let t = kg_m (kg_m t e) (kg_m i k) in
     kg_m (js_or (js_shl t n) (js_ushr t (32 - n))) r)"

definition kg_u :: round_fun where
  "kg_u w v B A u z y = kg_a (js_or (js_and v B) (js_and (js_not v) A)) w v u z y"

definition kg_l :: round_fun where
  "kg_l w v B A u z y = kg_a (js_or (js_and v A) (js_and B (js_not A))) w v u z y"

definition kg_p :: round_fun where
  "kg_p w v B A u z y = kg_a (js_xor (js_xor v B) A) w v u z y"

definition kg_f :: round_fun where
  "kg_f w v B A u z y = kg_a (js_xor B (js_or v (js_not A))) w v u z y"

section \<open>The block loop\<close>

definition kg_stmts :: "(int \<Rightarrow> int) \<Rightarrow> (js_regs \<Rightarrow> js_regs) list" where
  "kg_stmts x =
    [
     asg_a kg_u (x 0) 7 (- 680876936), asg_d kg_u (x 1) 12 (- 389564586),
     asg_c kg_u (x 2) 17 606105819, asg_b kg_u (x 3) 22 (- 1044525330),
     asg_a kg_u (x 4) 7 (- 176418897), asg_d kg_u (x 5) 12 1200080426,
     asg_c kg_u (x 6) 17 (- 1473231341), asg_b kg_u (x 7) 22 (- 45705983),
     asg_a kg_u (x 8) 7 1770035416, asg_d kg_u (x 9) 12 (- 1958414417),
     asg_c kg_u (x 10) 17 (- 42063), asg_b kg_u (x 11) 22 (- 1990404162),
     asg_a kg_u (x 12) 7 1804603682, asg_d kg_u (x 13) 12 (- 40341101),
     asg_c kg_u (x 14) 17 (- 1502002290), asg_b kg_u (x 15) 22 1236535329,
     asg_a kg_l (x 1) 5 (- 165796510), asg_d kg_l (x 6) 9 (- 1069501632),
     asg_c kg_l (x 11) 14 643717713, asg_b kg_l (x 0) 20 (- 373897302),
     asg_a kg_l (x 5) 5 (- 701558691), asg_d kg_l (x 10) 9 38016083,
     asg_c kg_l (x 15) 14 (- 660478335), asg_b kg_l (x 4) 20 (- 405537848),
     asg_a kg_l (x 9) 5 568446438, asg_d kg_l (x 14) 9 (- 1019803690),
     asg_c kg_l (x 3) 14 (- 187363961), asg_b kg_l (x 8) 20 1163531501,
     asg_a kg_l (x 13) 5 (- 1444681467), asg_d kg_l (x 2) 9 (- 51403784),
     asg_c kg_l (x 7) 14 1735328473, asg_b kg_l (x 12) 20 (- 1926607734),
     asg_a kg_p (x 5) 4 (- 378558), asg_d kg_p (x 8) 11 (- 2022574463),
     asg_c kg_p (x 11) 16 1839030562, asg_b kg_p (x 14) 23 (- 35309556),
     asg_a kg_p (x 1) 4 (- 1530992060), asg_d kg_p (x 4) 11 1272893353,
     asg_c kg_p (x 7) 16 (- 155497632), asg_b kg_p (x 10) 23 (- 1094730640),
     asg_a kg_p (x 13) 4 681279174, asg_d kg_p (x 0) 11 (- 358537222),
     asg_c kg_p (x 3) 16 (- 722521979), asg_b kg_p (x 6) 23 76029189,
     asg_a kg_p (x 9) 4 (- 640364487), asg_d kg_p (x 12) 11 (- 421815835),
     asg_c kg_p (x 15) 16 530742520, asg_b kg_p (x 2) 23 (- 995338651),
     asg_a kg_f (x 0) 6 (- 198630844), asg_d kg_f (x 7) 10 1126891415,
     asg_c kg_f (x 14) 15 (- 1416354905), asg_b kg_f (x 5) 21 (- 57434055),
     asg_a kg_f (x 12) 6 1700485571, asg_d kg_f (x 3) 10 (- 1894986606),
     asg_c kg_f (x 10) 15 (- 1051523), asg_b kg_f (x 1) 21 (- 2054922799),
     asg_a kg_f (x 8) 6 1873313359, asg_d kg_f (x 15) 10 (- 30611744),
     asg_c kg_f (x 6) 15 (- 1560198380), asg_b kg_f (x 13) 21 1309151649,
     asg_a kg_f (x 4) 6 (- 145523070), asg_d kg_f (x 11) 10 (- 1120210379),
     asg_c kg_f (x 2) 15 718787259, asg_b kg_f (x 9) 21 (- 343485551)]"

definition kg_loop :: "int option list \<Rightarrow> int \<Rightarrow> js_regs \<Rightarrow> js_regs" where
  "kg_loop F w r = js_for w (int (length F)) 16
     (\<lambda>w r. add_regs kg_m (run_stmts (kg_stmts (\<lambda>k. arr_bits F (w + k))) r) r) r"

definition kg_core :: "int option list \<Rightarrow> int \<Rightarrow> js_regs" where
  "kg_core F A =
     (let F = arr_set F (js_shr A 5) (js_or (arr_bits F (js_shr A 5)) (js_shl 128 (A mod 32)));
          F = arr_set F (14 + js_shl (js_ushr (A + 64) 9) 4) A
      in kg_loop F 0 (1732584193, - 271733879, - 1732584194, 271733878))"

section \<open>Strings\<close>

text \<open>\<^verbatim>\<open>s\<close> is 8 and \<^verbatim>\<open>r\<close> is \<^verbatim>\<open>(1 << s) - 1\<close>.\<close>

definition kg_pack :: "jstr \<Rightarrow> int option list" where
  "kg_pack e = js_for 0 (int (length e) * 8) 8
     (\<lambda>i t. arr_set t (js_shr i 5) (js_or (arr_bits t (js_shr i 5))
        (js_shl (js_and (bits_of (char_code_at e (i div 8))) (js_shl 1 8 - 1)) (i mod 32)))) []"

definition kg_print :: "int option list \<Rightarrow> jstr" where
  "kg_print t = js_for 0 (4 * int (length t)) 1
     (\<lambda>n i. i @ char_at (str ''0123456789abcdef'') (js_and (js_shr (arr_bits t (js_shr n 2)) (n mod 4 * 8 + 4)) 15)
          @ char_at (str ''0123456789abcdef'') (js_and (js_shr (arr_bits t (js_shr n 2)) (n mod 4 * 8)) 15)) []"

definition kg_md5 :: "jstr \<Rightarrow> jstr" where
  "kg_md5 e = (if e \<noteq> [] then kg_print (regs_array (kg_core (kg_pack e) (int (length e) * 8))) else [])"

definition kg_guid_e :: "(nat \<Rightarrow> int) \<Rightarrow> nat \<Rightarrow> jstr" where
  "kg_guid_e rnd k = drop 1 (js_to_hex (rnd k))"

definition kg_guid :: "(nat \<Rightarrow> int) \<Rightarrow> jstr" where
  "kg_guid rnd = kg_guid_e rnd 0 @ kg_guid_e rnd 1 @ str ''-'' @ kg_guid_e rnd 2 @ str ''-'' @ kg_guid_e rnd 3
     @ str ''-'' @ kg_guid_e rnd 4 @ str ''-'' @ kg_guid_e rnd 5 @ kg_guid_e rnd 6 @ kg_guid_e rnd 7"

definition kg_getMid :: "(nat \<Rightarrow> int) \<Rightarrow> jstr" where
  "kg_getMid rnd = kg_md5 (kg_guid rnd)"

section \<open>The script meets the contracts\<close>

lemma kg_add_word: "w32 (kg_m u z) = w32 u + w32 z"
  using safe_add_word [OF refl, of u z] by (simp add: kg_m_def Let_def js_and_comm [of 65535])

lemma kg_cmn_word:
  "0 < z \<Longrightarrow> z < 32 \<Longrightarrow>
     w32 (kg_a A w v u z y) = w32 v + word_rotl (nat z) (w32 w + w32 A + w32 u + w32 y)"
  by (simp add: kg_a_def Let_def kg_add_word w32_js_rotate algebra_simps)

lemmas kg_round_defs =
  round_ok_def md5_mix_def kg_u_def kg_l_def kg_p_def kg_f_def kg_cmn_word
  md5_F_def md5_G_def md5_H_def md5_I_def js_w32 xor.assoc

interpretation kg_rounds: md5_rounds kg_u kg_l kg_p kg_f
  by unfold_locales (simp_all add: kg_round_defs)

lemma kg_stmts_refine:
  "list_all2 (\<lambda>st op. refines_op st (\<lambda>k. w32 (X (int k))) op) (kg_stmts X) (md5_ops md5_T)"
  unfolding kg_stmts_def md5_ops_def md5_schedule_list md5_T_def
  by (simp add: asg_refines kg_rounds.ff_ok kg_rounds.gg_ok kg_rounds.hh_ok kg_rounds.ii_ok)

interpretation kg_script: md5_core_script kg_u kg_l kg_p kg_f md5_T kg_m kg_stmts kg_loop kg_core
proof
  show "w32 (kg_m x y) = w32 x + w32 y" for x y
    by (rule kg_add_word)
  show "list_all2 (\<lambda>st op. refines_op st (\<lambda>k. w32 (X (int k))) op) (kg_stmts X) (md5_ops md5_T)" for X
    by (rule kg_stmts_refine)
  show "kg_loop e d r =
      (if d < int (length e)
       then kg_loop e (d + 16) (add_regs kg_m (run_stmts (kg_stmts (\<lambda>k. arr_bits e (d + k))) r) r)
       else r)" for e d r
    unfolding kg_loop_def by (subst js_for.simps) simp
  show "kg_core e n = kg_loop (pad_in_place e n) 0 (1732584193, - 271733879, - 1732584194, 271733878)" for e n
    by (simp add: kg_core_def pad_in_place_def or_at_def Let_def add.commute [of 14])
qed

lemma kg_pack_array:
  assumes "8 * int (length s) < 2147483648"
  shows "msg_array (kg_pack s) (map (\<lambda>c. c mod 256) s)"
proof -
  let ?v = "\<lambda>i. js_and (bits_of (char_code_at s (i div 8))) (js_shl 1 8 - 1)"
  have "kg_pack s = js_for 0 (8 * int (length s)) 8 (\<lambda>i t. or_at t i (?v i)) []"
    by (simp add: kg_pack_def or_at_def mult.commute)
  moreover have "js_shl 1 8 - 1 = 255"
    by (simp add: js_shl_def push_bit_eq_mult)
  then have "map (\<lambda>k. ?v (8 * int k)) [0..<length s] = map (\<lambda>c. c mod 256) s"
    by (intro nth_equalityI) (simp_all add: byte_mask)
  ultimately show ?thesis
    using byte_loop(1) [of "length s" "[]" ?v] assms by (simp add: msg_words_def le_word_beyond)
qed

lemma kg_print_regs: "kg_print (regs_array r) = hex_of_bytes (regs_bytes (regs_w r))"
  unfolding kg_print_def hex_digits_def [symmetric] length_regs_array
  using hex_regs_loop [OF refl] by simp

lemma kg_md5_digest:
  assumes "s \<noteq> []" and "8 * int (length s) < 2147483584"
  shows "kg_md5 s = hex_of_bytes (md5_digest (map (\<lambda>c. c mod 256) s))"
  using assms kg_script.core_correct [OF kg_pack_array, of s]
  by (simp add: kg_md5_def kg_print_regs md5_digest_regs mult.commute)

lemma nat_to_hex_four:
  assumes "65536 \<le> n" "n \<le> 131072"
  shows "\<exists>c a b d e. nat_to_hex n = [c, hex_digits ! a, hex_digits ! b, hex_digits ! d, hex_digits ! e] \<and>
      a < 16 \<and> b < 16 \<and> d < 16 \<and> e < 16"
proof -
  have "\<not> n < 16" "\<not> n div 16 < 16" "\<not> n div 16 div 16 < 16" "\<not> n div 16 div 16 div 16 < 16"
    "n div 16 div 16 div 16 div 16 < 16"
    using assms by simp_all
  then have "nat_to_hex n = [hex_digits ! (n div 16 div 16 div 16 div 16), hex_digits ! (n div 16 div 16 div 16 mod 16),
      hex_digits ! (n div 16 div 16 mod 16), hex_digits ! (n div 16 mod 16), hex_digits ! (n mod 16)]"
    by (simp add: nat_to_hex.simps [of n] nat_to_hex.simps [of "n div 16"] nat_to_hex.simps [of "n div 16 div 16"]
        nat_to_hex.simps [of "n div 16 div 16 div 16"] nat_to_hex.simps [of "n div 16 div 16 div 16 div 16"]
        del: div_mult2_eq)
  then show ?thesis by fastforce
qed

lemma kg_guid_e_digits:
  assumes "65536 \<le> rnd k" "rnd k \<le> 131072"
  shows "length (kg_guid_e rnd k) = 4" and "set (kg_guid_e rnd k) \<subseteq> set hex_digits"
proof -
  have "65536 \<le> nat (rnd k)" "nat (rnd k) \<le> 131072"
    using assms by linarith+
  then obtain c a b d e where "nat_to_hex (nat (rnd k)) = [c, hex_digits ! a, hex_digits ! b, hex_digits ! d, hex_digits ! e]"
    and "a < 16" "b < 16" "d < 16" "e < 16"
    using nat_to_hex_four by blast
  moreover have "length hex_digits = 16"
    by (simp add: hex_digits_def str_def)
  ultimately show "length (kg_guid_e rnd k) = 4" and "set (kg_guid_e rnd k) \<subseteq> set hex_digits"
    by (simp_all add: kg_guid_e_def js_to_hex_def)
qed

section \<open>Correctness\<close>

text \<open>
  \<^verbatim>\<open>md5\<close> of \<^verbatim>\<open>kg_mid.js\<close> prints the MD5 of the low bytes of the characters, except that it maps the
  empty string to the empty string.
\<close>

theorem kg_md5_correct:
  assumes "8 * int (length s) < 2147483584"
  shows "kg_md5 s = (if s = [] then [] else hex_of_bytes (md5_digest (map (\<lambda>c. c mod 256) s)))"
  using assms kg_md5_digest by (auto simp: kg_md5_def)

theorem kg_md5_correct_witness:
  "kg_md5 [] = [] \<and> kg_md5 [321] = hex_of_bytes (md5_digest [65])"
  using kg_md5_correct [of "[]"] kg_md5_correct [of "[321]"] by simp

text \<open>
  C37: when each random value lies in the range of \<^verbatim>\<open>65536 * (1 + Math.random()) | 0\<close>, the GUID has the form
  8-4-4-4-12 in lower-case hexadecimal digits, and \<^verbatim>\<open>getMid\<close> is its MD5.
\<close>

theorem kg_getMid_correct:
  assumes "\<And>k. 65536 \<le> rnd k \<and> rnd k \<le> 131072"
  shows "kg_getMid rnd = hex_of_bytes (md5_digest (kg_guid rnd)) \<and>
    (\<exists>a b c d e. kg_guid rnd = a @ [45] @ b @ [45] @ c @ [45] @ d @ [45] @ e \<and>
       map length [a, b, c, d, e] = [8, 4, 4, 4, 12] \<and> set (a @ b @ c @ d @ e) \<subseteq> set hex_digits)"
proof (intro conjI exI)
  let ?e = "kg_guid_e rnd"
  have len: "length (?e k) = 4" and digits: "set (?e k) \<subseteq> set hex_digits" for k
    using kg_guid_e_digits [of rnd k] assms by auto
  show "kg_guid rnd = (?e 0 @ ?e 1) @ [45] @ ?e 2 @ [45] @ ?e 3 @ [45] @ ?e 4 @ [45] @ (?e 5 @ ?e 6 @ ?e 7)"
    by (simp add: kg_guid_def str_def)
  show "map length [?e 0 @ ?e 1, ?e 2, ?e 3, ?e 4, ?e 5 @ ?e 6 @ ?e 7] = [8, 4, 4, 4, 12]"
    by (simp add: len)
  show "set ((?e 0 @ ?e 1) @ ?e 2 @ ?e 3 @ ?e 4 @ (?e 5 @ ?e 6 @ ?e 7)) \<subseteq> set hex_digits"
    by (simp add: digits)
  have "length (kg_guid rnd) = 36"
    by (simp add: kg_guid_def str_def len)
  moreover have "byte_string (kg_guid rnd)"
  proof -
    have "byte_string hex_digits"
      by (simp add: hex_digits_def str_def)
    then have "byte_string (?e k)" for k
      using digits [of k] by (auto simp: byte_string_def)
    then show ?thesis
      by (simp add: kg_guid_def str_def)
  qed
  ultimately show "kg_getMid rnd = hex_of_bytes (md5_digest (kg_guid rnd))"
    using kg_md5_digest [of "kg_guid rnd"] by (fastforce simp: kg_getMid_def map_mod_byte_string)
qed

theorem kg_getMid_correct_witness:
  "kg_getMid (\<lambda>_. 65536) = hex_of_bytes (md5_digest (str ''00000000-0000-0000-0000-000000000000''))"
proof -
  have "kg_guid (\<lambda>_. 65536) = str ''00000000-0000-0000-0000-000000000000''"
  proof -
    have "js_to_hex 65536 = str ''10000''"
      by (simp add: js_to_hex_def nat_to_hex.simps hex_digits_def str_def)
    then show ?thesis by (simp add: kg_guid_def kg_guid_e_def str_def)
  qed
  then show ?thesis using kg_getMid_correct [of "\<lambda>_. 65536"] by simp
qed

end
