(* ===== verification/Md5_Yuanrenxue.thy ===== *)
theory Md5_Yuanrenxue
  imports Md5_Hmac
begin

text \<open>
  \<^verbatim>\<open>1.js\<close>: a challenge script whose \<^verbatim>\<open>hex_md5\<close> looks like the usual one but is not. Six of its
  additive constants differ from RFC 1321 (\<open>yrx_T\<close>), and with \<^verbatim>\<open>chrsz = 16\<close> it hashes the two bytes
  of each code unit, low byte first. The definitions keep the source's names behind the prefix
  \<open>yrx_\<close>; its registers \<^verbatim>\<open>o, n, m, l\<close> are the components of \<open>js_regs\<close>.
\<close>

section \<open>The altered table\<close>

definition yrx_T :: "32 word list" where
  "yrx_T = md5_T[0 := - 680976936, 12 := 1804660682, 31 := - 1921207734, 42 := - 722881979,
     49 := 11261161415, 53 := - 1894446606]"

lemma yrx_T_list: "yrx_T =
    [- 680976936, - 389564586, 606105819, - 1044525330,
     - 176418897, 1200080426, - 1473231341, - 45705983,
     1770035416, - 1958414417, - 42063, - 1990404162,
     1804660682, - 40341101, - 1502002290, 1236535329,
     - 165796510, - 1069501632, 643717713, - 373897302,
     - 701558691, 38016083, - 660478335, - 405537848,
     568446438, - 1019803690, - 187363961, 1163531501,
     - 1444681467, - 51403784, 1735328473, - 1921207734,
     - 378558, - 2022574463, 1839030562, - 35309556,
     - 1530992060, 1272893353, - 155497632, - 1094730640,
     681279174, - 358537222, - 722881979, 76029189,
     - 640364487, - 421815835, 530742520, - 995338651,
     - 198630844, 11261161415, - 1416354905, - 57434055,
     1700485571, - 1894446606, - 1051523, - 2054922799,
     1873313359, - 30611744, - 1560198380, 1309151649,
     - 145523070, - 1120210379, 718787259, - 343485551]"
  by (simp add: yrx_T_def md5_T_def)

section \<open>The round functions\<close>

definition yrx_safe_add :: "int \<Rightarrow> int \<Rightarrow> int" where
  "yrx_safe_add u z = (let w = js_and u 65535 + js_and z 65535; v = js_shr u 16 + js_shr z 16 + js_shr w 16 in
     js_or (js_shl v 16) (js_and w 65535))"

definition yrx_bit_rol :: "int \<Rightarrow> int \<Rightarrow> int" where
  "yrx_bit_rol u v = js_or (js_shl u v) (js_ushr u (32 - v))"

definition yrx_md5_cmn :: "int \<Rightarrow> int \<Rightarrow> int \<Rightarrow> int \<Rightarrow> int \<Rightarrow> int \<Rightarrow> int" where
  "yrx_md5_cmn A w v u z y = yrx_safe_add (yrx_bit_rol (yrx_safe_add (yrx_safe_add w A) (yrx_safe_add u y)) z) v"

definition yrx_md5_ff :: round_fun where
  "yrx_md5_ff w v B A u z y = yrx_md5_cmn (js_or (js_and v B) (js_and (js_not v) A)) w v u z y"

definition yrx_md5_gg :: round_fun where
  "yrx_md5_gg w v B A u z y = yrx_md5_cmn (js_or (js_and v A) (js_and B (js_not A))) w v u z y"

definition yrx_md5_hh :: round_fun where
  "yrx_md5_hh w v B A u z y = yrx_md5_cmn (js_xor (js_xor v B) A) w v u z y"

definition yrx_md5_ii :: round_fun where
  "yrx_md5_ii w v B A u z y = yrx_md5_cmn (js_xor B (js_or v (js_not A))) w v u z y"

section \<open>The block loop\<close>

definition yrx_stmts :: "(int \<Rightarrow> int) \<Rightarrow> (js_regs \<Rightarrow> js_regs) list" where
  "yrx_stmts x =
    [
     asg_a yrx_md5_ff (x 0) 7 (- 680976936), asg_d yrx_md5_ff (x 1) 12 (- 389564586),
     asg_c yrx_md5_ff (x 2) 17 606105819, asg_b yrx_md5_ff (x 3) 22 (- 1044525330),
     asg_a yrx_md5_ff (x 4) 7 (- 176418897), asg_d yrx_md5_ff (x 5) 12 1200080426,
     asg_c yrx_md5_ff (x 6) 17 (- 1473231341), asg_b yrx_md5_ff (x 7) 22 (- 45705983),
     asg_a yrx_md5_ff (x 8) 7 1770035416, asg_d yrx_md5_ff (x 9) 12 (- 1958414417),
     asg_c yrx_md5_ff (x 10) 17 (- 42063), asg_b yrx_md5_ff (x 11) 22 (- 1990404162),
     asg_a yrx_md5_ff (x 12) 7 1804660682, asg_d yrx_md5_ff (x 13) 12 (- 40341101),
     asg_c yrx_md5_ff (x 14) 17 (- 1502002290), asg_b yrx_md5_ff (x 15) 22 1236535329,
     asg_a yrx_md5_gg (x 1) 5 (- 165796510), asg_d yrx_md5_gg (x 6) 9 (- 1069501632),
     asg_c yrx_md5_gg (x 11) 14 643717713, asg_b yrx_md5_gg (x 0) 20 (- 373897302),
     asg_a yrx_md5_gg (x 5) 5 (- 701558691), asg_d yrx_md5_gg (x 10) 9 38016083,
     asg_c yrx_md5_gg (x 15) 14 (- 660478335), asg_b yrx_md5_gg (x 4) 20 (- 405537848),
     asg_a yrx_md5_gg (x 9) 5 568446438, asg_d yrx_md5_gg (x 14) 9 (- 1019803690),
     asg_c yrx_md5_gg (x 3) 14 (- 187363961), asg_b yrx_md5_gg (x 8) 20 1163531501,
     asg_a yrx_md5_gg (x 13) 5 (- 1444681467), asg_d yrx_md5_gg (x 2) 9 (- 51403784),
     asg_c yrx_md5_gg (x 7) 14 1735328473, asg_b yrx_md5_gg (x 12) 20 (- 1921207734),
     asg_a yrx_md5_hh (x 5) 4 (- 378558), asg_d yrx_md5_hh (x 8) 11 (- 2022574463),
     asg_c yrx_md5_hh (x 11) 16 1839030562, asg_b yrx_md5_hh (x 14) 23 (- 35309556),
     asg_a yrx_md5_hh (x 1) 4 (- 1530992060), asg_d yrx_md5_hh (x 4) 11 1272893353,
     asg_c yrx_md5_hh (x 7) 16 (- 155497632), asg_b yrx_md5_hh (x 10) 23 (- 1094730640),
     asg_a yrx_md5_hh (x 13) 4 681279174, asg_d yrx_md5_hh (x 0) 11 (- 358537222),
     asg_c yrx_md5_hh (x 3) 16 (- 722881979), asg_b yrx_md5_hh (x 6) 23 76029189,
     asg_a yrx_md5_hh (x 9) 4 (- 640364487), asg_d yrx_md5_hh (x 12) 11 (- 421815835),
     asg_c yrx_md5_hh (x 15) 16 530742520, asg_b yrx_md5_hh (x 2) 23 (- 995338651),
     asg_a yrx_md5_ii (x 0) 6 (- 198630844), asg_d yrx_md5_ii (x 7) 10 11261161415,
     asg_c yrx_md5_ii (x 14) 15 (- 1416354905), asg_b yrx_md5_ii (x 5) 21 (- 57434055),
     asg_a yrx_md5_ii (x 12) 6 1700485571, asg_d yrx_md5_ii (x 3) 10 (- 1894446606),
     asg_c yrx_md5_ii (x 10) 15 (- 1051523), asg_b yrx_md5_ii (x 1) 21 (- 2054922799),
     asg_a yrx_md5_ii (x 8) 6 1873313359, asg_d yrx_md5_ii (x 15) 10 (- 30611744),
     asg_c yrx_md5_ii (x 6) 15 (- 1560198380), asg_b yrx_md5_ii (x 13) 21 1309151649,
     asg_a yrx_md5_ii (x 4) 6 (- 145523070), asg_d yrx_md5_ii (x 11) 10 (- 1120210379),
     asg_c yrx_md5_ii (x 2) 15 718787259, asg_b yrx_md5_ii (x 9) 21 (- 343485551)]"

definition yrx_loop :: "int option list \<Rightarrow> int \<Rightarrow> js_regs \<Rightarrow> js_regs" where
  "yrx_loop F w r = js_for w (int (length F)) 16
     (\<lambda>w r. add_regs yrx_safe_add (run_stmts (yrx_stmts (\<lambda>k. arr_bits F (w + k))) r) r) r"

definition yrx_core :: "int option list \<Rightarrow> int \<Rightarrow> js_regs" where
  "yrx_core F A =
     (let F = arr_set F (js_shr A 5) (js_or (arr_bits F (js_shr A 5)) (js_shl 128 (A mod 32)));
          F = arr_set F (js_shl (js_ushr (A + 64) 9) 4 + 14) A
      in yrx_loop F 0 (1732584193, - 271733879, - 1732584194, 271733878))"

definition yrx_core_md5 :: "int option list \<Rightarrow> int \<Rightarrow> int option list" where
  "yrx_core_md5 F A = regs_array (yrx_core F A)"

section \<open>Strings\<close>

definition yrx_str2binl :: "jstr \<Rightarrow> int option list" where
  "yrx_str2binl d = (let a = js_shl 1 16 - 1 in
     js_for 0 (int (length d) * 16) 16
       (\<lambda>b c. arr_set c (js_shr b 5) (js_or (arr_bits c (js_shr b 5))
          (js_shl (js_and (bits_of (char_code_at d (b div 16))) a) (b mod 32)))) [])"

definition yrx_binl2hex :: "int option list \<Rightarrow> jstr" where
  "yrx_binl2hex c = js_for 0 (int (length c) * 4) 1
     (\<lambda>a d. d @ char_at (str ''0123456789abcdef'') (js_and (js_shr (arr_bits c (js_shr a 2)) (a mod 4 * 8 + 4)) 15)
          @ char_at (str ''0123456789abcdef'') (js_and (js_shr (arr_bits c (js_shr a 2)) (a mod 4 * 8)) 15)) []"

definition yrx_hex_md5 :: "jstr \<Rightarrow> jstr" where
  "yrx_hex_md5 a = yrx_binl2hex (yrx_core_md5 (yrx_str2binl a) (int (length a) * 16))"

text \<open>The template literal around \<^verbatim>\<open>m\<close> is \<^verbatim>\<open>m\<close> itself for a string.\<close>

definition yrx_getM :: "jstr \<Rightarrow> jstr" where
  "yrx_getM m = yrx_hex_md5 m"

text \<open>The bytes that are hashed: each code unit as two bytes, low byte first.\<close>

definition utf16le :: "jstr \<Rightarrow> int list" where
  "utf16le s = concat (map (\<lambda>c. [c mod 256, c div 256]) s)"

lemma length_utf16le [simp]: "length (utf16le s) = 2 * length s"
  by (induction s) (simp_all add: utf16le_def)

section \<open>The script meets the contracts\<close>

lemma yrx_add_word: "w32 (yrx_safe_add u z) = w32 u + w32 z"
  using safe_add_word [OF refl, of u z] by (simp add: yrx_safe_add_def Let_def)

lemma yrx_cmn_word:
  "0 < z \<Longrightarrow> z < 32 \<Longrightarrow>
     w32 (yrx_md5_cmn A w v u z y) = w32 v + word_rotl (nat z) (w32 w + w32 A + w32 u + w32 y)"
  by (simp add: yrx_md5_cmn_def yrx_bit_rol_def yrx_add_word w32_js_rotate algebra_simps)

lemmas yrx_round_defs =
  round_ok_def md5_mix_def yrx_md5_ff_def yrx_md5_gg_def yrx_md5_hh_def yrx_md5_ii_def yrx_cmn_word
  md5_F_def md5_G_def md5_H_def md5_I_def js_w32 xor.assoc

interpretation yrx_rounds: md5_rounds yrx_md5_ff yrx_md5_gg yrx_md5_hh yrx_md5_ii
  by unfold_locales (simp_all add: yrx_round_defs)

lemma yrx_stmts_refine:
  "list_all2 (\<lambda>st op. refines_op st (\<lambda>k. w32 (X (int k))) op) (yrx_stmts X) (md5_ops yrx_T)"
  unfolding yrx_stmts_def md5_ops_def md5_schedule_list yrx_T_list
  by (simp add: asg_refines yrx_rounds.ff_ok yrx_rounds.gg_ok yrx_rounds.hh_ok yrx_rounds.ii_ok)

interpretation yrx_script: md5_core_script yrx_md5_ff yrx_md5_gg yrx_md5_hh yrx_md5_ii yrx_T yrx_safe_add yrx_stmts yrx_loop yrx_core
proof
  show "w32 (yrx_safe_add x y) = w32 x + w32 y" for x y
    by (rule yrx_add_word)
  show "list_all2 (\<lambda>st op. refines_op st (\<lambda>k. w32 (X (int k))) op) (yrx_stmts X) (md5_ops yrx_T)" for X
    by (rule yrx_stmts_refine)
  show "yrx_loop e d r =
      (if d < int (length e)
       then yrx_loop e (d + 16) (add_regs yrx_safe_add (run_stmts (yrx_stmts (\<lambda>k. arr_bits e (d + k))) r) r)
       else r)" for e d r
    unfolding yrx_loop_def by (subst js_for.simps) simp
  show "yrx_core e n = yrx_loop (pad_in_place e n) 0 (1732584193, - 271733879, - 1732584194, 271733878)" for e n
    by (simp add: yrx_core_def pad_in_place_def or_at_def Let_def add.commute [of 14])
qed

text \<open>A sixteen-bit value at an even byte position is the same as its two bytes in turn.\<close>

lemma or_at_two:
  assumes "msg_words e bs" and "even (length bs)" and "8 * int (length bs) < 2147483632"
    and "0 \<le> v" "v < 65536"
  shows "msg_words (or_at e (8 * int (length bs)) v) (bs @ [v mod 256, v div 256])"
proof -
  let ?n = "length bs"
  have len: "8 * int ?n < 2147483648" "8 * int (Suc ?n) < 2147483648"
    using assms(3) by simp_all
  have pos: "Suc ?n div 4 = ?n div 4" "Suc ?n mod 4 = Suc (?n mod 4)" "8 * (?n mod 4) < 24"
    using assms(2) by presburger+
  have v: "w32 v = w32 (v mod 256) OR push_bit 8 (w32 (v div 256))"
  proof -
    have "v = take_bit 8 v OR push_bit 8 (drop_bit 8 v)"
      by (rule bit_eqI) (use not_less in \<open>fastforce simp: bit_simps\<close>)
    then have "w32 v = w32 (take_bit 8 v OR push_bit 8 (drop_bit 8 v))"
      by (rule arg_cong)
    then show ?thesis by (simp add: w32_or w32_push_bit take_bit_eq_mod drop_bit_eq_div)
  qed
  have "msg_words (or_at (or_at e (8 * int ?n) (v mod 256)) (8 * int (Suc ?n)) (v div 256))
      ((bs @ [v mod 256]) @ [v div 256])"
    using or_at_words [OF or_at_words [OF assms(1) len(1), of "v mod 256"], of "v div 256"] len(2) by simp
  moreover have "w32 (arr_bits (or_at (or_at e (8 * int ?n) (v mod 256)) (8 * int (Suc ?n)) (v div 256)) (int j))
      = w32 (arr_bits (or_at e (8 * int ?n) v) (int j))" for j
    unfolding or_at_position [OF len(1)] or_at_position [OF len(2)] pos
    using pos(3)
    by (simp add: js_arr js_w32 v push_bit_or or.assoc nat_mod_distrib nat_mult_distrib nat_add_distrib
        push_bit_push_bit add.commute)
  ultimately show ?thesis by (simp add: msg_words_def)
qed

lemma yrx_str2binl_array:
  assumes "code_units s" and "16 * int (length s) < 2147483584"
  shows "msg_array (yrx_str2binl s) (utf16le s)"
proof -
  let ?v = "\<lambda>b. js_and (bits_of (char_code_at s (b div 16))) 65535"
  let ?P = "\<lambda>k a. msg_words a (utf16le (take k s)) \<and> length a = (k + 1) div 2"
  have mask: "js_and x 65535 = x mod 65536" for x
    using js_and_mask [of 16 x] by simp
  have "js_shl 1 16 - 1 = 65535"
    by (simp add: js_shl_def push_bit_eq_mult)
  then have "yrx_str2binl s = js_for 0 (16 * int (length s)) 16 (\<lambda>b c. or_at c b (?v b)) []"
    by (simp add: yrx_str2binl_def or_at_def mult.commute)
  moreover have "?P (length s) (js_for 0 (16 * int (length s)) 16 (\<lambda>b c. or_at c b (?v b)) [])"
  proof (rule js_for_inv [where P = ?P])
    fix k a
    assume k: "k < length s" and P: "?P k a"
    then have c: "?v (16 * int k) = s ! k" "0 \<le> s ! k" "s ! k < 65536"
      using assms(1) by (simp_all add: mask code_units_def)
    have eq: "utf16le (take (Suc k) s) = utf16le (take k s) @ [s ! k mod 256, s ! k div 256]"
      using k by (simp add: utf16le_def take_Suc_conv_app_nth)
    have bits: "16 * int k = 8 * int (2 * k)" by simp
    show "?P (Suc k) (or_at a (16 * int k) (?v (16 * int k)))"
      unfolding eq c(1) unfolding bits
      using or_at_two [of a "utf16le (take k s)" "s ! k"] or_at_length [of "2 * k" a "s ! k"] P k c assms(2)
      by auto
  qed (auto simp: msg_words_def le_word_beyond utf16le_def)
  ultimately show ?thesis by (simp add: msg_array_def)
qed

lemma yrx_binl2hex_regs: "yrx_binl2hex (regs_array r) = hex_of_bytes (regs_bytes (regs_w r))"
  unfolding yrx_binl2hex_def hex_digits_def [symmetric] length_regs_array
  using hex_regs_loop [OF refl] by simp

section \<open>Correctness\<close>

text \<open>
  C33: \<^verbatim>\<open>getM\<close> is not MD5: it is the construction of RFC 1321 with the script's six altered constants,
  applied to the UTF-16 bytes of its argument, low byte first.
\<close>

theorem yrx_getM_correct:
  assumes "code_units m" and "16 * int (length m) < 2147483584"
  shows "yrx_getM m = hex_of_bytes (md5_digest_with yrx_T (utf16le m))"
  using yrx_script.core_correct [OF yrx_str2binl_array [OF assms]] assms(2)
  by (simp add: yrx_getM_def yrx_hex_md5_def yrx_core_md5_def yrx_binl2hex_regs md5_digest_regs mult.commute)

theorem yrx_getM_correct_witness:
  "yrx_getM (str ''a'') = hex_of_bytes (md5_digest_with yrx_T [97, 0])"
  using yrx_getM_correct [of "str ''a''"] by (simp add: str_def code_units_def utf16le_def)

text \<open>
  The table of the script differs from the table of RFC 1321 at exactly six operations.
\<close>

theorem yrx_table_differs:
  "filter (\<lambda>i. yrx_T ! i \<noteq> md5_T ! i) [0..<64] = [0, 12, 31, 42, 49, 53]"
  by code_simp

end
