(* ===== verification/Md5_Youdao.thy ===== *)
theory Md5_Youdao
  imports Md5_Api
begin

text \<open>
  \<^verbatim>\<open>youdao.js\<close> (the file named after the Youdao dictionary): the signature of a translation request.
  Its MD5 is written differently from the others: \<^verbatim>\<open>r\<close> adds two words by cases on their top bits,
  \<^verbatim>\<open>f\<close> builds the padded array of exactly the right size, \<^verbatim>\<open>h\<close> encodes UTF-8 by hand and the constants
  are unsigned. The source's one-letter functions keep their letters behind the prefix \<open>yd_\<close>; the
  registers \<^verbatim>\<open>s, m, g, v\<close> of \<^verbatim>\<open>md5\<close> are the components of \<open>js_regs\<close>.
\<close>

section \<open>The round functions\<close>

definition yd_n :: "int \<Rightarrow> int \<Rightarrow> int" where
  "yd_n e t = js_or (js_shl e t) (js_ushr e (32 - t))"

definition yd_r :: "int \<Rightarrow> int \<Rightarrow> int" where
  "yd_r e t =
     (let i = js_and 2147483648 e;
          k = js_and 2147483648 t;
          n = js_and 1073741824 e;
          r = js_and 1073741824 t;
          a = js_and 1073741823 e + js_and 1073741823 t
      in if js_and n r \<noteq> 0 then js_xor (js_xor (js_xor 2147483648 a) i) k
         else if js_or n r \<noteq> 0 then
           (if js_and 1073741824 a \<noteq> 0 then js_xor (js_xor (js_xor 3221225472 a) i) k
            else js_xor (js_xor (js_xor 1073741824 a) i) k)
         else js_xor (js_xor a i) k)"

definition yd_i :: "int \<Rightarrow> int \<Rightarrow> int \<Rightarrow> int" where
  "yd_i e t n = js_or (js_and e t) (js_and (js_not e) n)"

definition yd_o :: "int \<Rightarrow> int \<Rightarrow> int \<Rightarrow> int" where
  "yd_o e t n = js_or (js_and e n) (js_and t (js_not n))"

definition yd_a :: "int \<Rightarrow> int \<Rightarrow> int \<Rightarrow> int" where
  "yd_a e t n = js_xor (js_xor e t) n"

definition yd_s :: "int \<Rightarrow> int \<Rightarrow> int \<Rightarrow> int" where
  "yd_s e t n = js_xor t (js_or e (js_not n))"

definition yd_l :: round_fun where
  "yd_l e t p a s l c = (let e = yd_r e (yd_r (yd_r (yd_i t p a) s) c) in yd_r (yd_n e l) t)"

definition yd_c :: round_fun where
  "yd_c e t i a s l c = (let e = yd_r e (yd_r (yd_r (yd_o t i a) s) c) in yd_r (yd_n e l) t)"

definition yd_u :: round_fun where
  "yd_u e t i p s l c = (let e = yd_r e (yd_r (yd_r (yd_a t i p) s) c) in yd_r (yd_n e l) t)"

definition yd_d :: round_fun where
  "yd_d e t i p a l c = (let e = yd_r e (yd_r (yd_r (yd_s t i p) a) c) in yd_r (yd_n e l) t)"

section \<open>Strings and arrays\<close>

definition yd_f :: "jstr \<Rightarrow> int option list" where
  "yd_f e =
     (let n = int (length e);
          r = n + 8;
          i = 16 * ((r - r mod 64) div 64 + 1);
          p = js_for 0 n 1
            (\<lambda>s p. let a = s mod 4 * 8; t = (s - s mod 4) div 4 in
               arr_set p t (js_or (arr_bits p t) (js_shl (bits_of (char_code_at e s)) a)))
            (replicate (nat (i - 1)) None);
          t = (n - n mod 4) div 4;
          a = n mod 4 * 8;
          p = arr_set p t (js_or (arr_bits p t) (js_shl 128 a));
          p = arr_set p (i - 2) (js_shl n 3)
      in arr_set p (i - 1) (js_ushr n 29))"

definition yd_p :: "int \<Rightarrow> jstr" where
  "yd_p e = js_for 0 4 1
     (\<lambda>t n. let r = str ''0'' @ js_to_hex (js_and (js_ushr e (8 * t)) 255) in n @ take 2 (drop (length r - 2) r)) []"

text \<open>\<^verbatim>\<open>e.replace(/\x0d\x0a/g, "\n")\<close>\<close>

fun yd_crlf :: "jstr \<Rightarrow> jstr" where
  "yd_crlf [] = []"
| "yd_crlf [c] = [c]"
| "yd_crlf (c # d # s) = (if c = 13 \<and> d = 10 then 10 # yd_crlf s else c # yd_crlf (d # s))"

function yd_h_loop :: "jstr \<Rightarrow> int \<Rightarrow> jstr \<Rightarrow> jstr" where
  "yd_h_loop e n t =
     (if n < int (length e) then
        (let r = bits_of (char_code_at e n) in
         if r < 128 then yd_h_loop e (n + 1) (t @ from_char_code r)
         else if 127 < r \<and> r < 2048 then
           yd_h_loop e (n + 1)
             (t @ from_char_code (js_or (js_shr r 6) 192) @ from_char_code (js_or (js_and 63 r) 128))
         else if 55296 \<le> r \<and> r \<le> 56319 then
           (if n + 1 < int (length e) then
              (let i = bits_of (char_code_at e (n + 1)) in
               if 56320 \<le> i \<and> i \<le> 57343 then
                 (let p = 1024 * (r - 55296) + (i - 56320) + 65536 in
                  yd_h_loop e (n + 2)
                    (t @ from_char_code (js_or 240 (js_and (js_shr p 18) 7))
                       @ from_char_code (js_or 128 (js_and (js_shr p 12) 63))
                       @ from_char_code (js_or 128 (js_and (js_shr p 6) 63))
                       @ from_char_code (js_or 128 (js_and 63 p))))
               else yd_h_loop e (n + 1) t)
            else yd_h_loop e (n + 1) t)
         else
           yd_h_loop e (n + 1)
             (t @ from_char_code (js_or (js_shr r 12) 224)
                @ from_char_code (js_or (js_and (js_shr r 6) 63) 128)
                @ from_char_code (js_or (js_and 63 r) 128)))
      else t)"
  by pat_completeness auto
termination
  by (relation "measure (\<lambda>(e, n, t). nat (int (length e) - n))") auto

declare yd_h_loop.simps [simp del]

definition yd_h :: "jstr \<Rightarrow> jstr" where
  "yd_h e = yd_h_loop (yd_crlf e) 0 []"

section \<open>The hash and the signature\<close>

definition yd_stmts :: "(int \<Rightarrow> int) \<Rightarrow> (js_regs \<Rightarrow> js_regs) list" where
  "yd_stmts x =
    [
     asg_a yd_l (x 0) 7 3614090360, asg_d yd_l (x 1) 12 3905402710,
     asg_c yd_l (x 2) 17 606105819, asg_b yd_l (x 3) 22 3250441966,
     asg_a yd_l (x 4) 7 4118548399, asg_d yd_l (x 5) 12 1200080426,
     asg_c yd_l (x 6) 17 2821735955, asg_b yd_l (x 7) 22 4249261313,
     asg_a yd_l (x 8) 7 1770035416, asg_d yd_l (x 9) 12 2336552879,
     asg_c yd_l (x 10) 17 4294925233, asg_b yd_l (x 11) 22 2304563134,
     asg_a yd_l (x 12) 7 1804603682, asg_d yd_l (x 13) 12 4254626195,
     asg_c yd_l (x 14) 17 2792965006, asg_b yd_l (x 15) 22 1236535329,
     asg_a yd_c (x 1) 5 4129170786, asg_d yd_c (x 6) 9 3225465664,
     asg_c yd_c (x 11) 14 643717713, asg_b yd_c (x 0) 20 3921069994,
     asg_a yd_c (x 5) 5 3593408605, asg_d yd_c (x 10) 9 38016083,
     asg_c yd_c (x 15) 14 3634488961, asg_b yd_c (x 4) 20 3889429448,
     asg_a yd_c (x 9) 5 568446438, asg_d yd_c (x 14) 9 3275163606,
     asg_c yd_c (x 3) 14 4107603335, asg_b yd_c (x 8) 20 1163531501,
     asg_a yd_c (x 13) 5 2850285829, asg_d yd_c (x 2) 9 4243563512,
     asg_c yd_c (x 7) 14 1735328473, asg_b yd_c (x 12) 20 2368359562,
     asg_a yd_u (x 5) 4 4294588738, asg_d yd_u (x 8) 11 2272392833,
     asg_c yd_u (x 11) 16 1839030562, asg_b yd_u (x 14) 23 4259657740,
     asg_a yd_u (x 1) 4 2763975236, asg_d yd_u (x 4) 11 1272893353,
     asg_c yd_u (x 7) 16 4139469664, asg_b yd_u (x 10) 23 3200236656,
     asg_a yd_u (x 13) 4 681279174, asg_d yd_u (x 0) 11 3936430074,
     asg_c yd_u (x 3) 16 3572445317, asg_b yd_u (x 6) 23 76029189,
     asg_a yd_u (x 9) 4 3654602809, asg_d yd_u (x 12) 11 3873151461,
     asg_c yd_u (x 15) 16 530742520, asg_b yd_u (x 2) 23 3299628645,
     asg_a yd_d (x 0) 6 4096336452, asg_d yd_d (x 7) 10 1126891415,
     asg_c yd_d (x 14) 15 2878612391, asg_b yd_d (x 5) 21 4237533241,
     asg_a yd_d (x 12) 6 1700485571, asg_d yd_d (x 3) 10 2399980690,
     asg_c yd_d (x 10) 15 4293915773, asg_b yd_d (x 1) 21 2240044497,
     asg_a yd_d (x 8) 6 1873313359, asg_d yd_d (x 15) 10 4264355552,
     asg_c yd_d (x 6) 15 2734768916, asg_b yd_d (x 13) 21 1309151649,
     asg_a yd_d (x 4) 6 4149444226, asg_d yd_d (x 11) 10 3174756917,
     asg_c yd_d (x 2) 15 718787259, asg_b yd_d (x 9) 21 3951481745]"

definition yd_loop :: "int option list \<Rightarrow> int \<Rightarrow> js_regs \<Rightarrow> js_regs" where
  "yd_loop y t r = js_for t (int (length y)) 16
     (\<lambda>t r. add_regs yd_r (run_stmts (yd_stmts (\<lambda>k. arr_bits y (t + k))) r) r) r"

definition yd_md5 :: "jstr \<Rightarrow> jstr" where
  "yd_md5 e =
     (let y = yd_f (yd_h e);
          (s, m, g, v) = yd_loop y 0 (1732584193, 4023233417, 2562383102, 271733878)
      in ascii_lower (yd_p s @ yd_p m @ yd_p g @ yd_p v))"

definition yd_getSign :: "jstr \<Rightarrow> jstr \<Rightarrow> jstr" where
  "yd_getSign e i = yd_md5 (str ''fanyideskweb'' @ e @ i @ str ''Y2FYu%TNSbMCxc3t2u^XT'')"

section \<open>Addition by cases\<close>

lemma word_xor_bit:
  "w XOR 2 ^ n = (if bit w n then w - 2 ^ n else w + 2 ^ n)" for w :: "32 word"
proof -
  have "w XOR 2 ^ n = flip_bit n w"
    by (simp add: flip_bit_eq_xor push_bit_eq_mult)
  then show ?thesis
    by (simp add: flip_bit_eq_if set_bit_eq unset_bit_eq)
qed

lemma js_and_sign: "js_and 2147483648 x = (if bit x 31 then - 2147483648 else 0)"
proof -
  have "- 2147483648 = NOT (mask 31 :: int)"
    by (simp add: mask_eq_exp_minus_1 not_eq_complement)
  then have "to_int32 2147483648 = NOT (mask 31)"
    by (simp add: to_int32_def)
  then have "js_and 2147483648 x = signed_take_bit 31 x AND NOT (mask 31)"
    by (simp add: js_and_def to_int32_signed_take_bit and.commute)
  also have "\<dots> = (if bit x 31 then NOT (mask 31) else 0)"
    by (rule bit_eqI) (auto simp: bit_simps min_def)
  finally show ?thesis
    by (simp add: mask_eq_exp_minus_1 not_eq_complement)
qed

lemma w32_split:
  "w32 x = (if bit x 31 then 2147483648 else 0) + (if bit x 30 then 1073741824 else 0) + w32 (x mod 1073741824)"
proof -
  have "take_bit (Suc (Suc 30)) x = 2 ^ 31 * of_bool (bit x 31) + (2 ^ 30 * of_bool (bit x 30) + take_bit 30 x)"
    by (simp only: take_bit_Suc_from_most) simp
  then have "w32 (take_bit 32 x) = w32 (2 ^ 31 * of_bool (bit x 31) + (2 ^ 30 * of_bool (bit x 30) + x mod 1073741824))"
    by (simp add: take_bit_eq_mod)
  moreover have "w32 (take_bit 32 x) = w32 x"
    by (simp flip: to_uint32_take_bit add: w32_to_uint32)
  ultimately show ?thesis by simp
qed

lemma yd_r_word: "w32 (yd_r e t) = w32 e + w32 t"
proof -
  define a where "a = e mod 1073741824 + t mod 1073741824"
  have low: "js_and 1073741823 x = x mod 1073741824" for x
    using js_and_mask [of 30 x] by (simp add: js_and_comm)
  have mid: "js_and 1073741824 x = (if bit x 30 then 1073741824 else 0)" for x
    using js_and_bit [of 30 x] by simp
  have sum: "w32 e + w32 t = w32 a + (if bit e 31 then 2147483648 else 0) + (if bit t 31 then 2147483648 else 0)
      + (if bit e 30 then 1073741824 else 0) + (if bit t 30 then 1073741824 else 0)"
    by (subst w32_split [of e], subst w32_split [of t]) (simp add: a_def)
  have top: "w XOR 2147483648 = w + 2147483648" for w :: "32 word"
    using word_xor_bit [of w 31] by (simp split: if_splits)
  have flip: "w XOR 1073741824 = (if bit w 30 then w - 1073741824 else w + 1073741824)" for w :: "32 word"
    using word_xor_bit [of w 30] by simp
  have xors: "w32 (js_xor (js_xor x i) k) = w32 x XOR w32 i XOR w32 k" for x i k
    by (simp add: js_w32 xor.assoc)
  have bit30: "bit (w32 a) 30 = bit a 30"
    by (simp add: bit_simps)
  have "(3221225472 :: 32 word) = 2147483648 XOR 1073741824"
    by simp
  then have both: "3221225472 XOR w = (w XOR 1073741824) XOR 2147483648" for w :: "32 word"
    by (simp only: xor.assoc xor.commute xor.left_commute)
  have wrap: "(- 2147483648 :: 32 word) = 2147483648" "(6442450944 :: 32 word) = 2147483648"
    "(5368709120 :: 32 word) = 1073741824" "(4294967296 :: 32 word) = 0"
    by simp_all
  show ?thesis
    unfolding yd_r_def low mid js_and_sign a_def [symmetric] Let_def sum
    by (simp add: xors top flip both bit30 wrap js_w32 xor.commute [of "1073741824 :: 32 word"]
        xor.commute [of "2147483648 :: 32 word"] js_and_def js_or_def)
qed

section \<open>The script meets the contract\<close>

lemma yd_mix_word:
  "0 < l \<Longrightarrow> l < 32 \<Longrightarrow> w32 (yd_r (yd_n (yd_r e (yd_r (yd_r f s) c)) l) t) =
     w32 t + word_rotl (nat l) (w32 e + w32 f + w32 s + w32 c)"
  by (simp add: yd_r_word yd_n_def w32_js_rotate algebra_simps)

lemmas yd_round_defs =
  round_ok_def md5_mix_def yd_l_def yd_c_def yd_u_def yd_d_def yd_mix_word
  yd_i_def yd_o_def yd_a_def yd_s_def md5_F_def md5_G_def md5_H_def md5_I_def js_w32 xor.assoc

interpretation yd_rounds: md5_rounds yd_l yd_c yd_u yd_d
  by unfold_locales (simp_all add: yd_round_defs)

lemma yd_stmts_refine:
  "list_all2 (\<lambda>st op. refines_op st (\<lambda>k. w32 (X (int k))) op) (yd_stmts X) (md5_ops md5_T)"
  unfolding yd_stmts_def md5_ops_def md5_schedule_list md5_T_def
  by (simp add: asg_refines yd_rounds.ff_ok yd_rounds.gg_ok yd_rounds.hh_ok yd_rounds.ii_ok)

interpretation yd_script: md5_script yd_l yd_c yd_u yd_d md5_T yd_r yd_stmts yd_loop
proof
  show "w32 (yd_r x y) = w32 x + w32 y" for x y
    by (rule yd_r_word)
  show "list_all2 (\<lambda>st op. refines_op st (\<lambda>k. w32 (X (int k))) op) (yd_stmts X) (md5_ops md5_T)" for X
    by (rule yd_stmts_refine)
  show "yd_loop e d r =
      (if d < int (length e)
       then yd_loop e (d + 16) (add_regs yd_r (run_stmts (yd_stmts (\<lambda>k. arr_bits e (d + k))) r) r)
       else r)" for e d r
    unfolding yd_loop_def by (subst js_for.simps) simp
qed

lemma yd_or_at:
  assumes "8 * int n < 2147483648"
  shows "arr_set p ((int n - int n mod 4) div 4)
      (js_or (arr_bits p ((int n - int n mod 4) div 4)) (js_shl v (int n mod 4 * 8))) = or_at p (8 * int n) v"
proof -
  have "(int n - int n mod 4) div 4 = int (n div 4)" and "int n mod 4 * 8 = int (8 * (n mod 4))"
    by (simp_all add: zdiv_int zmod_int minus_mod_eq_mult_div)
  then show ?thesis by (simp only: or_at_position [OF assms])
qed

lemma yd_f_room: "k \<le> n \<Longrightarrow> k div 4 < 16 * ((n + 8) div 64 + 1) - 2" for k n :: nat
proof -
  assume "k \<le> n"
  moreover have "n + 8 < 64 * ((n + 8) div 64) + 64"
    using div_mult_mod_eq [of "n + 8" 64] mod_less_divisor [of 64 "n + 8"] by linarith
  ultimately have "k < (16 * ((n + 8) div 64 + 1) - 2) * 4"
    by simp
  then show ?thesis by (rule less_mult_imp_div_less)
qed

lemma yd_f_words:
  assumes "byte_string e" and "8 * int (length e) < 2147483648"
  shows "w32 (arr_bits (yd_f e) (int j)) = le_word (md5_pad e) j"
    and "length (yd_f e) = 16 * ((length e + 8) div 64 + 1)"
proof -
  let ?N = "16 * ((length e + 8) div 64 + 1)"
  define p where "p = js_for 0 (1 * int (length e)) 1
    (\<lambda>s p. or_at p (8 * s) (bits_of (char_code_at e s))) (replicate (?N - 1) None)"
  let ?P = "\<lambda>k a. msg_words a (take k e) \<and> length a = ?N - 1"
  have "?P (length e) p"
    unfolding p_def
  proof (rule js_for_inv [where P = ?P])
    fix k a
    assume k: "k < length e" and P: "?P k a"
    have "8 * int k < 2147483648"
      using k assms(2) by simp
    moreover have "k div 4 < ?N - 1"
      using k yd_f_room [of k "length e"] by linarith
    ultimately show "?P (Suc k) (or_at a (8 * (1 * int k)) (bits_of (char_code_at e (1 * int k))))"
      using k P or_at_words [of a "take k e" "e ! k"]
      by (auto simp: take_Suc_conv_app_nth or_at_length)
  qed (auto simp: msg_words_def le_word_beyond arr_get_def)
  then have p: "msg_words p e" "length p = ?N - 1" by simp_all
  have last: "length e div 4 < ?N - 1"
    using yd_f_room [of "length e" "length e"] by linarith
  have q: "msg_words (or_at p (8 * int (length e)) 128) (e @ [128])"
      "length (or_at p (8 * int (length e)) 128) = ?N - 1"
    using or_at_words [OF p(1) assms(2)] assms(2) last by (auto simp: or_at_length p(2))
  have i: "16 * ((int (length e) + 8 - (int (length e) + 8) mod 64) div 64 + 1) = int ?N"
    by (simp add: minus_mod_eq_mult_div zdiv_int)
  have loop: "js_for 0 (int (length e)) 1
      (\<lambda>s p. let a = s mod 4 * 8; t = (s - s mod 4) div 4 in
         arr_set p t (js_or (arr_bits p t) (js_shl (bits_of (char_code_at e s)) a)))
      (replicate (nat (int ?N - 1)) None) = p"
    unfolding p_def js_for_unit mult_1
  proof (rule fold_cong)
    fix k
    assume "k \<in> set [0..<length e]"
    then have "8 * int k < 2147483648"
      using assms(2) by simp
    then show "(\<lambda>p. let a = int k mod 4 * 8; t = (int k - int k mod 4) div 4 in
         arr_set p t (js_or (arr_bits p t) (js_shl (bits_of (char_code_at e (int k))) a)))
      = (\<lambda>p. or_at p (8 * int k) (bits_of (char_code_at e (int k))))"
      by (simp add: yd_or_at Let_def)
  qed (simp_all add: nat_diff_distrib)
  have f: "yd_f e = arr_set (arr_set (or_at p (8 * int (length e)) 128) (int (?N - 2)) (js_shl (int (length e)) 3))
      (int (?N - 1)) (js_ushr (int (length e)) 29)"
    unfolding yd_f_def Let_def [of "int (length e)"] Let_def [of "int (length e) + 8"] i
    unfolding Let_def [of "int ?N"] loop
    by (simp add: Let_def yd_or_at [OF assms(2)])
  show "length (yd_f e) = ?N"
    unfolding f by (simp add: js_arr q(2) del: of_nat_diff)
  have "js_ushr (int (length e)) 29 = 0"
    using assms(2) by (subst js_ushr_div) auto
  moreover have "js_shl (int (length e)) 3 = 8 * int (length e)"
    using assms(2) by (simp add: js_shl_def push_bit_eq_mult)
  moreover have "le_word (e @ [128]) (?N - 1) = 0"
    using yd_f_room [of "length e" "length e"] by (intro le_word_beyond) simp
  moreover have "?N - 2 = 14 + 16 * ((length e + 8) div 64)" "?N - 1 \<noteq> ?N - 2"
    by simp_all
  ultimately show "w32 (arr_bits (yd_f e) (int j)) = le_word (md5_pad e) j"
    using q(1) assms(2) unfolding f
    by (auto simp: js_arr le_word_md5_pad msg_words_def simp del: of_nat_diff of_nat_add of_nat_mult)
qed

section \<open>UTF-8 by hand\<close>

text \<open>
  What \<^verbatim>\<open>h\<close> makes of a string that is not well-formed UTF-16: an unpaired high surrogate is
  dropped, an unpaired low one is encoded as if it were a code point.
\<close>

fun utf16_lossy :: "jstr \<Rightarrow> int list" where
  "utf16_lossy [] = []"
| "utf16_lossy (c # s) =
     (if 55296 \<le> c \<and> c \<le> 56319 then
        (case s of
           [] \<Rightarrow> []
         | d # s' \<Rightarrow>
             if 56320 \<le> d \<and> d \<le> 57343
             then (65536 + (c - 55296) * 1024 + (d - 56320)) # utf16_lossy s'
             else utf16_lossy s)
      else c # utf16_lossy s)"

lemma utf16_lossy_decode: "utf16_decode s = Some ps \<Longrightarrow> utf16_lossy s = ps"
proof (induction s arbitrary: ps rule: utf16_decode.induct)
  case (2 c s)
  then show ?case by (cases s) (auto split: if_splits)
qed simp

lemma yd_octets:
  "0 \<le> r \<Longrightarrow> r < 128 \<Longrightarrow> from_char_code r = utf8_octets r"
  "128 \<le> r \<Longrightarrow> r < 2048 \<Longrightarrow>
     from_char_code (js_or (js_shr r 6) 192) @ from_char_code (js_or (js_and 63 r) 128) = utf8_octets r"
  "2048 \<le> r \<Longrightarrow> r < 65536 \<Longrightarrow>
     from_char_code (js_or (js_shr r 12) 224) @ from_char_code (js_or (js_and (js_shr r 6) 63) 128) @
     from_char_code (js_or (js_and 63 r) 128) = utf8_octets r"
  "65536 \<le> r \<Longrightarrow> r < 1114112 \<Longrightarrow>
     from_char_code (js_or 240 (js_and (js_shr r 18) 7)) @ from_char_code (js_or 128 (js_and (js_shr r 12) 63)) @
     from_char_code (js_or 128 (js_and (js_shr r 6) 63)) @ from_char_code (js_or 128 (js_and 63 r)) = utf8_octets r"
  subgoal by (simp add: from_char_code_def utf8_octets_def)
  subgoal
  proof -
    assume r: "128 \<le> r" "r < 2048"
    then have "0 \<le> r div 64" "r div 64 < 32" by simp_all
    with r show ?thesis by (simp add: from_char_code_def utf8_octets_def utf8_or utf8_masks js_shr_div)
  qed
  subgoal
  proof -
    assume r: "2048 \<le> r" "r < 65536"
    then have "0 \<le> r div 4096" "r div 4096 < 16" by simp_all
    with r show ?thesis by (simp add: from_char_code_def utf8_octets_def utf8_or utf8_masks js_shr_div)
  qed
  subgoal
  proof -
    assume r: "65536 \<le> r" "r < 1114112"
    then have "0 \<le> r div 262144" "r div 262144 < 5" by simp_all
    with r show ?thesis by (simp add: from_char_code_def utf8_octets_def utf8_or utf8_masks js_shr_div)
  qed
  done

lemma yd_h_loop_lossy:
  assumes "code_units e" and "n \<le> length e"
  shows "yd_h_loop e (int n) t = t @ concat (map utf8_octets (utf16_lossy (drop n e)))"
  using assms(2)
proof (induction "length e - n" arbitrary: n t rule: less_induct)
  case less
  show ?case
  proof (cases "n < length e")
    case False
    then show ?thesis using less.prems by (subst yd_h_loop.simps) simp
  next
    case True
    define r where "r = e ! n"
    have d: "drop n e = r # drop (Suc n) e"
      using True by (simp add: r_def Cons_nth_drop_Suc)
    have r: "0 \<le> r" "r < 65536"
      using assms(1) True by (auto simp: code_units_def r_def)
    have IH: "yd_h_loop e (int m) t = t @ concat (map utf8_octets (utf16_lossy (drop m e)))"
      if "n < m" "m \<le> length e" for m t
      using that by (intro less.hyps) auto
    have step: "yd_h_loop e (int n + 1) t = t @ concat (map utf8_octets (utf16_lossy (drop (Suc n) e)))" for t
      using IH [of "Suc n" t] True by (simp add: add.commute)
    show ?thesis
    proof (cases "55296 \<le> r \<and> r \<le> 56319")
      case False
      then show ?thesis
        using True r yd_octets [of r]
        by (subst yd_h_loop.simps) (auto simp: d step r_def [symmetric])
    next
      case high: True
      show ?thesis
      proof (cases "Suc n < length e \<and> 56320 \<le> e ! Suc n \<and> e ! Suc n \<le> 57343")
        case pair: True
        define i where "i = e ! Suc n"
        define p where "p = 1024 * (r - 55296) + (i - 56320) + 65536"
        have d2: "drop (Suc n) e = i # drop (Suc (Suc n)) e"
          using pair by (simp add: i_def Cons_nth_drop_Suc)
        have at: "char_code_at e (int n + 1) = Some i"
          using pair char_code_at_nth [of "Suc n" e] by (simp add: i_def add.commute)
        have "yd_h_loop e (int n + 2) t = t @ concat (map utf8_octets (utf16_lossy (drop (Suc (Suc n)) e)))" for t
          using IH [of "Suc (Suc n)" t] pair by (simp add: add.commute)
        moreover have "65536 \<le> p" "p < 1114112"
          using high pair by (auto simp: p_def i_def)
        moreover have "1024 * r + i - 56613888 = p"
          by (simp add: p_def)
        ultimately show ?thesis
          using True high pair yd_octets(4) [of p]
          by (subst yd_h_loop.simps) (simp add: d d2 at r_def [symmetric] i_def [symmetric] p_def [symmetric] Let_def
              mult.commute [of r 1024])
      next
        case False
        have "utf16_lossy (drop n e) = utf16_lossy (drop (Suc n) e)"
        proof (cases "drop (Suc n) e")
          case (Cons i s)
          then have "Suc n < length e" "e ! Suc n = i"
            using drop_eq_Nil [of "Suc n" e] by (auto simp: nth_via_drop simp del: drop_eq_Nil)
          with False high Cons show ?thesis by (auto simp: d)
        qed (use high in \<open>simp add: d\<close>)
        moreover have "char_code_at e (int n + 1) = Some (e ! Suc n)" if "Suc n < length e"
          using that char_code_at_nth [of "Suc n" e] by (simp add: add.commute)
        ultimately show ?thesis
          using True high False step [of t]
          by (subst yd_h_loop.simps) (auto simp: r_def [symmetric] Let_def)
      qed
    qed
  qed
qed

lemma code_units_crlf: "code_units s \<Longrightarrow> code_units (yd_crlf s)"
  by (induction s rule: yd_crlf.induct) simp_all

lemma yd_h_lossy: "code_units s \<Longrightarrow> yd_h s = concat (map utf8_octets (utf16_lossy (yd_crlf s)))"
  using yd_h_loop_lossy [of "yd_crlf s" 0 "[]"] by (simp add: yd_h_def code_units_crlf)

lemma utf16_lossy_range:
  "code_units s \<Longrightarrow> p \<in> set (utf16_lossy s) \<Longrightarrow> 0 \<le> p \<and> p < 1114112"
proof (induction s rule: utf16_lossy.induct)
  case (2 c s)
  then show ?case by (cases s) (auto split: if_splits)
qed simp

lemma byte_string_yd_h: "code_units s \<Longrightarrow> byte_string (yd_h s)"
  by (auto simp: yd_h_lossy byte_string_concat code_units_crlf
      dest: utf16_lossy_range [rotated] intro!: byte_string_utf8_octets)

lemma utf16_lossy_length:
  "code_units s \<Longrightarrow> length (concat (map utf8_octets (utf16_lossy s))) \<le> 3 * length s"
proof (induction s rule: utf16_lossy.induct)
  case (2 c s)
  then show ?case
    using utf8_octets_length(1) [of c] utf8_octets_length(2) [of "65536 + (c - 55296) * 1024 + (hd s - 56320)"]
    by (cases s) auto
qed simp

lemma yd_crlf_length: "length (yd_crlf s) \<le> length s"
  by (induction s rule: yd_crlf.induct) auto

lemma yd_h_length: "code_units s \<Longrightarrow> length (yd_h s) \<le> 3 * length s"
  using utf16_lossy_length [of "yd_crlf s"] yd_crlf_length [of s] by (simp add: yd_h_lossy code_units_crlf)

section \<open>The digest\<close>

lemma js_to_hex_byte:
  assumes "0 \<le> b" "b < 256"
  shows "take 2 (drop (length (str ''0'' @ js_to_hex b) - 2) (str ''0'' @ js_to_hex b)) = hex_of_byte b"
proof (cases "b < 16")
  case True
  with assms show ?thesis
    by (simp add: js_to_hex_def nat_to_hex.simps hex_of_byte_def str_def hex_digits_def nat_mod_distrib)
next
  case False
  then have "nat b div 16 < 16" "\<not> nat b < 16"
    using assms by (auto simp: less_mult_imp_div_less)
  then have "js_to_hex b = hex_of_byte b"
    using assms
    by (simp add: js_to_hex_def nat_to_hex.simps [of "nat b"] nat_to_hex.simps [of "nat b div 16"]
        hex_of_byte_def nat_mod_distrib nat_div_distrib)
  then show ?thesis by (simp add: hex_of_byte_def str_def)
qed

lemma yd_p_hex: "yd_p x = hex_of_bytes (le_bytes32 (w32 x))"
proof -
  have byte: "js_and (js_ushr x (8 * int k)) 255 = le_bytes32 (w32 x) ! k" if "k < 4" for k
    using that by (rule unpack_byte)
  have digits: "(let r = str ''0'' @ js_to_hex (js_and (js_ushr x (8 * int k)) 255) in take 2 (drop (length r - 2) r))
      = hex_of_byte (le_bytes32 (w32 x) ! k)" if "k < 4" for k
    using js_to_hex_byte [of "le_bytes32 (w32 x) ! k"] byte_string_nth [of "le_bytes32 (w32 x)" k] that
    by (simp add: byte Let_def)
  define g where "g t = (let r = str ''0'' @ js_to_hex (js_and (js_ushr x (8 * t)) 255) in
      take 2 (drop (length r - 2) r))" for t
  have "yd_p x = js_for 0 (int 4) 1 (\<lambda>t n. n @ g t) []"
    by (simp add: yd_p_def g_def Let_def)
  also have "\<dots> = concat (map (\<lambda>k. g (int k)) [0..<4])"
    by (simp only: js_for_unit fold_snoc append_Nil)
  also have "\<dots> = concat (map (\<lambda>k. hex_of_byte (le_bytes32 (w32 x) ! k)) [0..<4])"
    by (rule arg_cong [where f = concat], rule map_cong) (simp_all only: g_def digits atLeastLessThan_iff set_upt)
  also have "map (\<lambda>k. hex_of_byte (le_bytes32 (w32 x) ! k)) [0..<4] = map hex_of_byte (le_bytes32 (w32 x))"
    by (rule nth_equalityI) simp_all
  finally show ?thesis by (simp add: hex_of_bytes_def)
qed

lemma yd_md5_bytes:
  assumes "code_units e" and "8 * int (length (yd_h e)) < 2147483648"
  shows "yd_md5 e = hex_of_bytes (md5_digest (yd_h e))"
proof -
  let ?n = "(length (yd_h e) + 8) div 64 + 1"
  let ?init = "(1732584193, 4023233417, 2562383102, 271733878) :: js_regs"
  obtain s m g v where r: "yd_loop (yd_f (yd_h e)) 0 ?init = (s, m, g, v)"
    by (metis surj_pair)
  have "regs_w (yd_loop (yd_f (yd_h e)) (int (16 * 0)) ?init) = md5_blocks md5_T (md5_pad (yd_h e)) 0 ?n (regs_w ?init)"
    using yd_f_words [OF byte_string_yd_h [OF assms(1)] assms(2)] by (intro yd_script.loop_blocks) simp_all
  moreover have "regs_w ?init = md5_init"
    by (simp add: md5_init_def)
  ultimately have "regs_w (yd_loop (yd_f (yd_h e)) 0 ?init) = md5_regs md5_T (yd_h e)"
    by (simp only: md5_regs_def length_md5_pad Let_def mult_0_right of_nat_0) simp
  then have "regs_w (s, m, g, v) = md5_regs md5_T (yd_h e)"
    by (simp only: r)
  then have "md5_digest (yd_h e) = le_bytes32 (w32 s) @ le_bytes32 (w32 m) @ le_bytes32 (w32 g) @ le_bytes32 (w32 v)"
    by (metis md5_digest_regs regs_bytes.simps regs_w.simps)
  moreover have "yd_md5 e = ascii_lower (hex_of_bytes (le_bytes32 (w32 s) @ le_bytes32 (w32 m) @ le_bytes32 (w32 g) @ le_bytes32 (w32 v)))"
    by (simp add: yd_md5_def Let_def r yd_p_hex hex_of_bytes_def)
  ultimately show ?thesis by (simp add: ascii_lower_hex)
qed

section \<open>Correctness\<close>

text \<open>
  \<^verbatim>\<open>r\<close>, which adds by cases on the two top bits, is addition modulo 2^32 for any two numbers.
\<close>

theorem yd_r_adds: "to_uint32 (yd_r e t) = (e + t) mod 4294967296"
proof -
  have "to_uint32 (yd_r e t) = uint (w32 (e + t))"
    by (simp add: to_uint32_uint yd_r_word)
  also have "\<dots> = (e + t) mod 4294967296"
    by (simp only: to_uint32_uint [symmetric] to_uint32_def)
  finally show ?thesis .
qed

text \<open>
  C26: the signature of a request, \<^verbatim>\<open>getSign(e, i)\<close>, is the MD5 in hexadecimal of the UTF-8 form of the salted
  text whose line ends CR LF have become LF, when that text is well-formed UTF-16.
\<close>

theorem yd_getSign_correct:
  assumes "code_units e" "code_units i"
    and "utf8_encode (yd_crlf (str ''fanyideskweb'' @ e @ i @ str ''Y2FYu%TNSbMCxc3t2u^XT'')) = Some bs"
    and "8 * int (length bs) < 2147483648"
  shows "yd_getSign e i = hex_of_bytes (md5_digest bs)"
proof -
  let ?m = "str ''fanyideskweb'' @ e @ i @ str ''Y2FYu%TNSbMCxc3t2u^XT''"
  have "code_units (str ''fanyideskweb'')" "code_units (str ''Y2FYu%TNSbMCxc3t2u^XT'')"
    by (simp_all add: str_def code_units_def)
  with assms(1,2) have units: "code_units ?m"
    by (auto simp: code_units_def)
  have "yd_h ?m = bs"
    using yd_h_lossy [OF units] assms(3) utf16_lossy_decode [of "yd_crlf ?m"] by (auto simp: utf8_encode_def)
  with yd_md5_bytes [OF units] assms(4) show ?thesis
    by (simp add: yd_getSign_def)
qed

theorem yd_getSign_correct_witness:
  "yd_getSign (str ''hello'') (str ''17'') = hex_of_bytes (md5_digest (str ''fanyideskwebhello17Y2FYu%TNSbMCxc3t2u^XT''))"
proof -
  have "utf8_encode (yd_crlf (str ''fanyideskweb'' @ str ''hello'' @ str ''17'' @ str ''Y2FYu%TNSbMCxc3t2u^XT''))
      = Some (str ''fanyideskwebhello17Y2FYu%TNSbMCxc3t2u^XT'')"
    by code_simp
  then show ?thesis
    by (intro yd_getSign_correct) (simp_all add: str_def code_units_def)
qed

text \<open>
  On every string, well-formed or not, \<^verbatim>\<open>md5\<close> terminates with a digest: an unpaired high surrogate
  is left out and an unpaired low one is encoded in three bytes.
\<close>

theorem yd_md5_lossy:
  assumes "code_units e" and "length e \<le> 89478000"
  shows "yd_md5 e = hex_of_bytes (md5_digest (concat (map utf8_octets (utf16_lossy (yd_crlf e)))))"
  using yd_md5_bytes [OF assms(1)] yd_h_lossy [OF assms(1)] yd_h_length [OF assms(1)] assms(2) by simp

theorem yd_md5_lossy_witness:
  "yd_md5 [97, 55296, 98] = hex_of_bytes (md5_digest [97, 98])"
  using yd_md5_lossy [of "[97, 55296, 98]"] by (simp add: code_units_def utf8_octets_def)

end
