(* ===== verification/Bigint_Base.thy ===== *)
theory Bigint_Base
  imports Js_Prelude
begin

text \<open>
  The integers of arbitrary size behind the RSA encryption of a login script
  (\<^verbatim>\<open>BigInt\<close>, \<^verbatim>\<open>biCopy\<close>, \<^verbatim>\<open>biHighIndex\<close>, \<^verbatim>\<open>biNumBits\<close>, \<^verbatim>\<open>biCompare\<close>, \<^verbatim>\<open>biAdd\<close>, \<^verbatim>\<open>biSubtract\<close>).

  A \<^verbatim>\<open>BigInt\<close> is an array of 16-bit digits, least significant first, and a sign. The array is a
  JavaScript array: an element may be missing (\<open>None\<close>). The global \<^verbatim>\<open>maxDigits\<close>, the length of
  \<^verbatim>\<open>ZERO_ARRAY\<close>, is the argument \<open>N\<close> of the operations that create numbers. The value of a
  digit list is \<open>bval\<close>; \<open>bi ds s\<close> is the \<^verbatim>\<open>BigInt\<close> with the digits \<open>ds\<close> and the sign \<open>s\<close>.
\<close>

section \<open>Data\<close>

record bigint =
  digits :: "int option list"
  isNeg :: bool

definition newBigInt :: "nat \<Rightarrow> bigint" where
  "newBigInt N = \<lparr>digits = replicate N (Some 0), isNeg = False\<rparr>"

definition biCopy :: "bigint \<Rightarrow> bigint" where
  "biCopy x = \<lparr>digits = digits x, isNeg = isNeg x\<rparr>"

definition bigOne :: "nat \<Rightarrow> bigint" where
  "bigOne N = (newBigInt N)\<lparr>digits := arr_set (replicate N (Some 0)) 0 1\<rparr>"

section \<open>Sizes and comparison\<close>

fun bi_high_from :: "int option list \<Rightarrow> nat \<Rightarrow> nat" where
  "bi_high_from ds 0 = 0"
| "bi_high_from ds (Suc r) = (if arr_get ds (int (Suc r)) = Some 0 then bi_high_from ds r else Suc r)"

definition biHighIndex :: "bigint \<Rightarrow> int" where
  "biHighIndex x = (if digits x = [] then - 1 else int (bi_high_from (digits x) (length (digits x) - 1)))"

function bi_bits_loop :: "int \<Rightarrow> int \<Rightarrow> int \<Rightarrow> int" where
  "bi_bits_loop d r stop =
     (if stop < r then (if js_and d 32768 \<noteq> 0 then r else bi_bits_loop (js_shl d 1) (r - 1) stop) else r)"
  by pat_completeness auto
termination
  by (relation "measure (\<lambda>(d, r, stop). nat (r - stop))") auto

declare bi_bits_loop.simps [simp del]

definition biNumBits :: "bigint \<Rightarrow> int" where
  "biNumBits x =
     (let n = biHighIndex x; d = bits_of (arr_get (digits x) n); m = (n + 1) * 16
      in bi_bits_loop d m (m - 16))"

fun bi_compare_from :: "bigint \<Rightarrow> bigint \<Rightarrow> nat \<Rightarrow> int" where
  "bi_compare_from x y 0 = 0"
| "bi_compare_from x y (Suc i) =
     (if arr_get (digits x) (int i) \<noteq> arr_get (digits y) (int i) then
        (if isNeg x
         then 1 - 2 * of_bool (num_less (arr_get (digits y) (int i)) (arr_get (digits x) (int i)))
         else 1 - 2 * of_bool (num_less (arr_get (digits x) (int i)) (arr_get (digits y) (int i))))
      else bi_compare_from x y i)"

definition biCompare :: "bigint \<Rightarrow> bigint \<Rightarrow> int" where
  "biCompare x y =
     (if isNeg x \<noteq> isNeg y then 1 - 2 * of_bool (isNeg x)
      else bi_compare_from x y (length (digits x)))"

section \<open>Addition and subtraction\<close>

text \<open>
  When the signs differ, each of the two flips the sign of \<^verbatim>\<open>y\<close>, calls the other, whose own test then
  fails, and flips the sign back; the branches for equal signs are \<open>bi_add_same\<close> and \<open>bi_sub_same\<close>.
\<close>

definition bi_add_same :: "nat \<Rightarrow> bigint \<Rightarrow> bigint \<Rightarrow> bigint" where
  "bi_add_same N x y =
     (let (ds, c) = js_for 0 (int (length (digits x))) 1
        (\<lambda>i (ds, c).
           let n = num_add (num_add (arr_get (digits x) i) (arr_get (digits y) i)) (Some c)
           in (arr_set ds i (js_and (bits_of n) 65535), of_bool (\<not> num_less n (Some 65536) \<and> n \<noteq> None)))
        (digits (newBigInt N), 0)
      in \<lparr>digits = ds, isNeg = isNeg x\<rparr>)"

definition bi_borrow_loop :: "(int \<Rightarrow> int option) \<Rightarrow> nat \<Rightarrow> int option list \<Rightarrow> int option list \<times> int" where
  "bi_borrow_loop diff len ds =
     js_for 0 (int len) 1
       (\<lambda>i (ds, c).
          let n = num_add (diff i) (Some c);
              d = js_and (bits_of n) 65535
          in (arr_set ds i (if d < 0 then d + 65536 else d), 0 - of_bool (num_less n (Some 0))))
       (ds, 0)"

definition bi_negate_loop :: "nat \<Rightarrow> int option list \<Rightarrow> int option list \<times> int" where
  "bi_negate_loop len ds =
     js_for 0 (int len) 1
       (\<lambda>i (ds, c).
          let n = num_add (num_sub (Some 0) (arr_get ds i)) (Some c);
              d = js_and (bits_of n) 65535
          in (arr_set ds i (if d < 0 then d + 65536 else d), 0 - of_bool (num_less n (Some 0))))
       (ds, 0)"

definition bi_sub_same :: "nat \<Rightarrow> bigint \<Rightarrow> bigint \<Rightarrow> bigint" where
  "bi_sub_same N x y =
     (let len = length (digits x);
          (ds, c) = bi_borrow_loop (\<lambda>i. num_sub (arr_get (digits x) i) (arr_get (digits y) i)) len
            (digits (newBigInt N))
      in if c = - 1 then \<lparr>digits = fst (bi_negate_loop len ds), isNeg = \<not> isNeg x\<rparr>
         else \<lparr>digits = ds, isNeg = isNeg x\<rparr>)"

definition biAdd :: "nat \<Rightarrow> bigint \<Rightarrow> bigint \<Rightarrow> bigint" where
  "biAdd N x y =
     (if isNeg x \<noteq> isNeg y then bi_sub_same N x (y\<lparr>isNeg := \<not> isNeg y\<rparr>) else bi_add_same N x y)"

definition biSubtract :: "nat \<Rightarrow> bigint \<Rightarrow> bigint \<Rightarrow> bigint" where
  "biSubtract N x y =
     (if isNeg x \<noteq> isNeg y then bi_add_same N x (y\<lparr>isNeg := \<not> isNeg y\<rparr>) else bi_sub_same N x y)"

section \<open>Values of digit lists\<close>

primrec bval :: "int list \<Rightarrow> int" where
  "bval [] = 0"
| "bval (d # ds) = d + 65536 * bval ds"

definition digs :: "int list \<Rightarrow> bool" where
  "digs ds \<longleftrightarrow> (\<forall>d \<in> set ds. 0 \<le> d \<and> d < 65536)"

definition bi :: "int list \<Rightarrow> bool \<Rightarrow> bigint" where
  "bi ds s = \<lparr>digits = map Some ds, isNeg = s\<rparr>"

lemma bi_simps [simp]: "digits (bi ds s) = map Some ds" "isNeg (bi ds s) = s" "(bi ds s)\<lparr>isNeg := s'\<rparr> = bi ds s'"
  by (simp_all add: bi_def)

lemma digs_simps [simp]:
  "digs []" "digs (d # ds) \<longleftrightarrow> 0 \<le> d \<and> d < 65536 \<and> digs ds" "digs (xs @ ys) \<longleftrightarrow> digs xs \<and> digs ys"
  "digs (replicate n 0)"
  by (auto simp: digs_def)

lemma digs_nth: "digs ds \<Longrightarrow> i < length ds \<Longrightarrow> 0 \<le> ds ! i \<and> ds ! i < 65536"
  by (simp add: digs_def)

lemma digs_take [simp]: "digs ds \<Longrightarrow> digs (take n ds)" and digs_drop [simp]: "digs ds \<Longrightarrow> digs (drop n ds)"
  by (auto simp: digs_def dest: in_set_takeD in_set_dropD)

lemma bval_append [simp]: "bval (xs @ ys) = bval xs + 65536 ^ length xs * bval ys"
  by (induction xs) (simp_all add: algebra_simps)

lemma bval_replicate [simp]: "bval (replicate n 0) = 0"
  by (induction n) simp_all

lemma bval_nonneg: "digs ds \<Longrightarrow> 0 \<le> bval ds"
  by (induction ds) simp_all

lemma bval_less: "digs ds \<Longrightarrow> bval ds < 65536 ^ length ds"
  by (induction ds) simp_all

lemma bval_take_Suc: "k < length ds \<Longrightarrow> bval (take (Suc k) ds) = bval (take k ds) + 65536 ^ k * ds ! k"
  by (simp add: take_Suc_conv_app_nth)

lemma bval_split: "bval ds = bval (take k ds) + 65536 ^ min k (length ds) * bval (drop k ds)"
  using bval_append [of "take k ds" "drop k ds"] by (simp add: min.commute)

lemma bval_map_add: "length xs = length ys \<Longrightarrow> bval (map2 (+) xs ys) = bval xs + bval ys"
  by (induction xs ys rule: list_induct2) (simp_all add: algebra_simps)

lemma bval_map_diff: "length xs = length ys \<Longrightarrow> bval (map2 (-) xs ys) = bval xs - bval ys"
  by (induction xs ys rule: list_induct2) (simp_all add: algebra_simps)

lemma bval_map_mult: "bval (map (\<lambda>d. d * y) xs) = bval xs * y"
  by (induction xs) (simp_all add: algebra_simps)

text \<open>Equal values of equally long digit lists are equal lists.\<close>

lemma bval_inj: "digs xs \<Longrightarrow> digs ys \<Longrightarrow> length xs = length ys \<Longrightarrow> bval xs = bval ys \<Longrightarrow> xs = ys"
proof (induction xs arbitrary: ys)
  case (Cons x xs)
  then obtain y ys' where ys: "ys = y # ys'" by (cases ys) auto
  have "(x + 65536 * bval xs) mod 65536 = x" "(y + 65536 * bval ys') mod 65536 = y"
    using Cons.prems(1,2) by (simp_all add: ys)
  moreover have "x + 65536 * bval xs = y + 65536 * bval ys'"
    using Cons.prems by (simp add: ys)
  ultimately have "x = y" by metis
  with Cons show ?case by (simp add: ys)
qed simp

section \<open>Loops that carry\<close>

text \<open>
  Every arithmetic loop of the script writes digit \<open>off + k\<close> as \<open>(f k + c) mod 65536\<close> and keeps
  \<open>(f k + c) div 65536\<close> as the next carry \<open>c\<close>. \<open>C\<close> is the range of the carries.
\<close>

lemma carry_loop:
  assumes "off + M \<le> length zs0" and "0 \<in> C"
    and step: "\<And>k zs c. k < M \<Longrightarrow> length zs = length zs0 \<Longrightarrow> drop (off + k) zs = drop (off + k) zs0 \<Longrightarrow> c \<in> C \<Longrightarrow>
      (f k + c) div 65536 \<in> C \<and>
      body (int k) (map Some zs, c) = (map Some (zs[off + k := (f k + c) mod 65536]), (f k + c) div 65536)"
  obtains zs c where "js_for 0 (int M) 1 body (map Some zs0, 0) = (map Some (take off zs0 @ zs @ drop (off + M) zs0), c)"
    and "length zs = M" "digs zs" "c \<in> C" "bval zs + c * 65536 ^ M = bval (map f [0..<M])"
proof -
  let ?P = "\<lambda>k st. \<exists>zs c. st = (map Some (take off zs0 @ zs @ drop (off + k) zs0), c) \<and> length zs = k \<and> digs zs \<and>
      c \<in> C \<and> bval zs + c * 65536 ^ k = bval (map f [0..<k])"
  have "?P M (js_for 0 (1 * int M) 1 body (map Some zs0, 0))"
  proof (rule js_for_inv [where P = ?P])
    show "?P 0 (map Some zs0, 0)"
      using assms(2) by (simp flip: map_append)
    fix k st
    assume k: "k < M" and "?P k st"
    then obtain zs c where st: "st = (map Some (take off zs0 @ zs @ drop (off + k) zs0), c)" and zs: "length zs = k" "digs zs"
      and c: "c \<in> C" "bval zs + c * 65536 ^ k = bval (map f [0..<k])"
      by blast
    let ?zs = "take off zs0 @ zs @ drop (off + k) zs0"
    let ?n = "f k + c"
    have len: "length ?zs = length zs0" "length (take off zs0) = off"
      using assms(1) k zs by auto
    have "body (int k) (map Some ?zs, c) = (map Some (?zs[off + k := ?n mod 65536]), ?n div 65536)" "?n div 65536 \<in> C"
      using step [OF k len(1) _ c(1)] zs len(2) by simp_all
    moreover have "drop (off + k) zs0 = zs0 ! (off + k) # drop (off + Suc k) zs0"
      using assms(1) k by (simp add: Cons_nth_drop_Suc)
    then have "?zs[off + k := ?n mod 65536] = take off zs0 @ (zs @ [?n mod 65536]) @ drop (off + Suc k) zs0"
      using zs(1) len(2) by (simp add: list_update_append)
    moreover have "bval (zs @ [?n mod 65536]) + ?n div 65536 * 65536 ^ Suc k = bval zs + 65536 ^ k * ?n"
    proof -
      have "65536 ^ k * (?n mod 65536) + ?n div 65536 * 65536 ^ Suc k = 65536 ^ k * (?n mod 65536 + 65536 * (?n div 65536))"
        by (simp only: power_Suc distrib_left mult_ac)
      then show ?thesis using zs(1) by simp
    qed
    then have "bval (zs @ [?n mod 65536]) + ?n div 65536 * 65536 ^ Suc k = bval (map f [0..<Suc k])"
      using c(2) by (simp add: algebra_simps)
    ultimately show "?P (Suc k) (body (1 * int k) st)"
      using zs by (intro exI [of _ "zs @ [?n mod 65536]"] exI [of _ "?n div 65536"]) (simp add: st)
  qed simp
  then show ?thesis using that by auto
qed

lemma digit_mask: "js_and n 65535 = n mod 65536"
  using js_and_mask [of 16 n] by simp

lemma newBigInt_bi: "newBigInt N = bi (replicate N 0) False"
  by (simp add: newBigInt_def bi_def)

lemma bi_add_same_correct:
  assumes "digs xs" "digs ys" "length xs = N" "length ys = N" and "bval xs + bval ys < 65536 ^ N"
  obtains zs where "bi_add_same N (bi xs s) (bi ys s') = bi zs s" "digs zs" "length zs = N" "bval zs = bval xs + bval ys"
proof -
  define body where "body = (\<lambda>i (ds, c).
     let n = num_add (num_add (arr_get (map Some xs) i) (arr_get (map Some ys) i)) (Some c)
     in (arr_set ds i (js_and (bits_of n) 65535), of_bool (\<not> num_less n (Some 65536) \<and> n \<noteq> None) :: int))"
  define f where "f k = xs ! k + ys ! k" for k
  obtain zs c where loop: "js_for 0 (int N) 1 body (map Some (replicate N 0), 0) =
        (map Some (take 0 (replicate N 0) @ zs @ drop (0 + N) (replicate N 0)), c)"
    and zs: "length zs = N" "digs zs" and c: "c \<in> {0, 1}" "bval zs + c * 65536 ^ N = bval (map f [0..<N])"
  proof (rule carry_loop [where off = 0 and M = N and ?zs0.0 = "replicate N 0" and C = "{0, 1}" and f = f and body = body])
    fix k c and zs :: "int list"
    assume k: "k < N" and len: "length zs = length (replicate N (0 :: int))" and c: "c \<in> {0, 1 :: int}"
    have range: "0 \<le> f k + c" "f k + c \<le> 131071"
      using digs_nth [OF assms(1)] digs_nth [OF assms(2)] k assms c by (force simp: f_def)+
    then have carry: "(f k + c) div 65536 = of_bool (65536 \<le> f k + c)"
      by auto
    show "(f k + c) div 65536 \<in> {0, 1} \<and>
      body (int k) (map Some zs, c) = (map Some (zs[0 + k := (f k + c) mod 65536]), (f k + c) div 65536)"
      using k len assms by (simp add: body_def Let_def digit_mask carry not_less) (simp add: f_def)
  qed auto
  have "map f [0..<N] = map2 (+) xs ys"
    using assms by (intro nth_equalityI) (simp_all add: f_def)
  then have sum: "bval zs + c * 65536 ^ N = bval xs + bval ys"
    using c(2) assms by (simp add: bval_map_add)
  have "c = 0"
  proof (rule ccontr)
    assume "c \<noteq> 0"
    with c(1) have "c = 1" by simp
    with sum bval_nonneg [OF zs(2)] assms(5) show False by simp
  qed
  with sum have "bval zs = bval xs + bval ys" by simp
  moreover have "bi_add_same N (bi xs s) (bi ys s') = bi zs s"
    using loop assms zs(1) by (simp add: bi_add_same_def newBigInt_def body_def bi_def)
  ultimately show ?thesis using that zs by blast
qed

text \<open>The borrow of the two subtracting loops.\<close>

lemma borrow_carry:
  fixes n :: int
  assumes "- 65536 \<le> n" "n \<le> 65535"
  shows "- of_bool (n < 0) = n div 65536" and "n div 65536 \<in> {- 1, 0}"
proof -
  have "n div 65536 = - 1" if "n < 0"
    using that assms div_add_self2 [of 65536 n] div_pos_pos_trivial [of "n + 65536" 65536] by linarith
  moreover have "n div 65536 = 0" if "\<not> n < 0"
    using that assms by simp
  ultimately show "- of_bool (n < 0) = n div 65536" and "n div 65536 \<in> {- 1, 0}"
    by (cases "n < 0"; simp)+
qed

lemma digit_not_neg [simp]: "\<not> n mod 65536 < (0 :: int)"
  by (simp add: not_less)

lemma bi_borrow_loop_correct:
  assumes "digs xs" "digs ys" "length xs = N" "length ys = N"
  obtains zs c where "bi_borrow_loop (\<lambda>i. num_sub (arr_get (map Some xs) i) (arr_get (map Some ys) i)) N
      (map Some (replicate N 0)) = (map Some zs, c)"
    and "length zs = N" "digs zs" "c \<in> {- 1, 0}" "bval zs + c * 65536 ^ N = bval xs - bval ys"
proof -
  define diff where "diff i = num_sub (arr_get (map Some xs) i) (arr_get (map Some ys) i)" for i
  define f where "f k = xs ! k - ys ! k" for k
  have diff: "diff (int k) = Some (f k)" if "k < N" for k
    using that assms by (simp add: diff_def f_def)
  have range: "- 65535 \<le> f k" "f k \<le> 65535" if "k < N" for k
    using digs_nth [OF assms(1), of k] digs_nth [OF assms(2), of k] that assms by (auto simp: f_def)
  have "map f [0..<N] = map2 (-) xs ys"
    using assms by (intro nth_equalityI) (simp_all add: f_def)
  then have f: "bval (map f [0..<N]) = bval xs - bval ys"
    using assms by (simp add: bval_map_diff)
  show ?thesis
  proof (rule carry_loop [where off = 0 and M = N and ?zs0.0 = "replicate N 0" and C = "{- 1, 0}" and f = f and
        body = "\<lambda>i (ds, c). let n = num_add (diff i) (Some c); d = js_and (bits_of n) 65535
          in (arr_set ds i (if d < 0 then d + 65536 else d), 0 - of_bool (num_less n (Some 0)))"])
    fix k c and zs :: "int list"
    assume k: "k < N" and len: "length zs = length (replicate N (0 :: int))" and c: "c \<in> {- 1, 0 :: int}"
    have "- 65536 \<le> f k + c" "f k + c \<le> 65535"
      using range [OF k] c by auto
    then show "(f k + c) div 65536 \<in> {- 1, 0} \<and>
      (\<lambda>i (ds, c). let n = num_add (diff i) (Some c); d = js_and (bits_of n) 65535
          in (arr_set ds i (if d < 0 then d + 65536 else d), 0 - of_bool (num_less n (Some 0)))) (int k) (map Some zs, c)
      = (map Some (zs[0 + k := (f k + c) mod 65536]), (f k + c) div 65536)"
      using borrow_carry [of "f k + c"] k len by (simp add: diff Let_def digit_mask)
  qed (use that f in \<open>auto simp: bi_borrow_loop_def diff_def\<close>)
qed

lemma bi_negate_loop_correct:
  assumes "digs xs" "length xs = N"
  obtains zs c where "bi_negate_loop N (map Some xs) = (map Some zs, c)"
    and "length zs = N" "digs zs" "c \<in> {- 1, 0}" "bval zs + c * 65536 ^ N = - bval xs"
proof -
  define f where "f k = - xs ! k" for k
  have range: "- 65535 \<le> f k" "f k \<le> 0" if "k < N" for k
    using digs_nth [OF assms(1), of k] that assms by (auto simp: f_def)
  have "map f [0..<N] = map2 (-) (replicate N 0) xs"
    using assms by (intro nth_equalityI) (simp_all add: f_def)
  then have f: "bval (map f [0..<N]) = - bval xs"
    using assms by (simp add: bval_map_diff)
  show ?thesis
  proof (rule carry_loop [where off = 0 and M = N and ?zs0.0 = xs and C = "{- 1, 0}" and f = f and
        body = "\<lambda>i (ds, c). let n = num_add (num_sub (Some 0) (arr_get ds i)) (Some c); d = js_and (bits_of n) 65535
          in (arr_set ds i (if d < 0 then d + 65536 else d), 0 - of_bool (num_less n (Some 0)))"])
    fix k c and zs :: "int list"
    assume k: "k < N" and len: "length zs = length xs" and c: "c \<in> {- 1, 0 :: int}"
      and d: "drop (0 + k) zs = drop (0 + k) xs"
    have "zs ! k = xs ! k"
      using arg_cong [OF d, of hd] k len assms by (simp add: hd_drop_conv_nth)
    then have "num_sub (Some 0) (arr_get (map Some zs) (int k)) = Some (f k)"
      using k len assms by (simp add: f_def)
    moreover have "- 65536 \<le> f k + c" "f k + c \<le> 65535"
      using range [OF k] c by auto
    ultimately show "(f k + c) div 65536 \<in> {- 1, 0} \<and>
      (\<lambda>i (ds, c). let n = num_add (num_sub (Some 0) (arr_get ds i)) (Some c); d = js_and (bits_of n) 65535
          in (arr_set ds i (if d < 0 then d + 65536 else d), 0 - of_bool (num_less n (Some 0)))) (int k) (map Some zs, c)
      = (map Some (zs[0 + k := (f k + c) mod 65536]), (f k + c) div 65536)"
      using borrow_carry [of "f k + c"] k len assms by (simp add: Let_def digit_mask)
  qed (use that f assms in \<open>auto simp: bi_negate_loop_def\<close>)
qed

lemma bi_sub_same_correct:
  assumes "digs xs" "digs ys" "length xs = N" "length ys = N"
  obtains zs where "bi_sub_same N (bi xs s) (bi ys s') = bi zs (if bval xs < bval ys then \<not> s else s)"
    "digs zs" "length zs = N" "bval zs = \<bar>bval xs - bval ys\<bar>"
proof -
  obtain zs c where loop: "bi_borrow_loop (\<lambda>i. num_sub (arr_get (map Some xs) i) (arr_get (map Some ys) i)) N
      (map Some (replicate N 0)) = (map Some zs, c)"
    and zs: "length zs = N" "digs zs" and c: "c \<in> {- 1, 0}" "bval zs + c * 65536 ^ N = bval xs - bval ys"
    using bi_borrow_loop_correct [OF assms] by blast
  have bounds: "0 \<le> bval zs" "bval zs < 65536 ^ N"
    using bval_nonneg [OF zs(2)] bval_less [OF zs(2)] zs(1) by simp_all
  show ?thesis
  proof (cases "c = - 1")
    case True
    then have less: "bval xs < bval ys" and val: "bval zs = bval xs - bval ys + 65536 ^ N"
      using c(2) bounds by auto
    obtain vs d where neg: "bi_negate_loop N (map Some zs) = (map Some vs, d)"
      and vs: "length vs = N" "digs vs" and d: "d \<in> {- 1, 0}" "bval vs + d * 65536 ^ N = - bval zs"
      using bi_negate_loop_correct [OF zs(2,1)] by blast
    have "0 \<le> bval vs" "bval vs < 65536 ^ N"
      using bval_nonneg [OF vs(2)] bval_less [OF vs(2)] vs(1) by simp_all
    then have "bval vs = bval ys - bval xs"
      using d val bounds less bval_less [OF assms(1)] assms(3) bval_nonneg [OF assms(1)] bval_less [OF assms(2)] assms(4)
      by auto
    moreover have "bi_sub_same N (bi xs s) (bi ys s') = bi vs (\<not> s)"
      using loop neg True assms(3) by (simp add: bi_sub_same_def newBigInt_def bi_def)
    ultimately show ?thesis using that vs less by simp
  next
    case False
    with c have c0: "c = 0" by simp
    then have "bi_sub_same N (bi xs s) (bi ys s') = bi zs s"
      using loop assms(3) by (simp add: bi_sub_same_def newBigInt_def bi_def)
    then show ?thesis using that c0 c(2) bounds(1) zs by simp
  qed
qed

section \<open>Comparison and size\<close>

lemma bi_compare_from_sgn:
  assumes "digs xs" "digs ys" "length xs = length ys" and "i \<le> length xs"
  shows "bi_compare_from (bi xs False) (bi ys False) i = sgn (bval (take i xs) - bval (take i ys))"
  using assms(4)
proof (induction i)
  case (Suc i)
  then have i: "i < length xs" "i < length ys" using assms(3) by auto
  have less: "bval (take (Suc i) us) < bval (take (Suc i) vs)"
    if "us ! i < vs ! i" "digs us" "digs vs" "i < length us" "i < length vs" for us vs
  proof -
    have "bval (take i us) < 65536 ^ i" "0 \<le> bval (take i vs)"
      using bval_less [of "take i us"] bval_nonneg [of "take i vs"] that by simp_all
    moreover have "65536 ^ i * (us ! i + 1) \<le> 65536 ^ i * vs ! i"
      using that(1) by (intro mult_left_mono) auto
    ultimately show ?thesis
      using that by (simp add: bval_take_Suc distrib_left)
  qed
  show ?case
  proof (cases "xs ! i = ys ! i")
    case True
    with Suc i show ?thesis by (simp add: bval_take_Suc)
  next
    case False
    then consider "xs ! i < ys ! i" | "ys ! i < xs ! i" by linarith
    then show ?thesis
    proof cases
      case 1
      with less [of xs ys] assms i show ?thesis by simp
    next
      case 2
      with less [of ys xs] assms i show ?thesis by simp
    qed
  qed
qed simp

lemma biCompare_sgn:
  "digs xs \<Longrightarrow> digs ys \<Longrightarrow> length xs = length ys \<Longrightarrow> biCompare (bi xs False) (bi ys False) = sgn (bval xs - bval ys)"
  using bi_compare_from_sgn [of xs ys "length xs"] by (simp add: biCompare_def)

lemma bi_high_from_spec:
  assumes "r < length ds"
  shows "bi_high_from (map Some ds) r \<le> r \<and>
    (\<forall>i. bi_high_from (map Some ds) r < i \<longrightarrow> i \<le> r \<longrightarrow> ds ! i = 0) \<and>
    (bi_high_from (map Some ds) r = 0 \<or> ds ! bi_high_from (map Some ds) r \<noteq> 0)"
  using assms
proof (induction r)
  case (Suc r)
  have "arr_get (map Some ds) (int (Suc r)) = Some (ds ! Suc r)"
    using Suc.prems by (rule arr_get_Some_nth)
  with Suc show ?case by (auto simp: le_Suc_eq simp del: of_nat_Suc)
qed simp

text \<open>
  The highest index \<open>h\<close>: the digits above it are 0, it is 0 or holds a digit that is not, and it is
  determined by the value.
\<close>

lemma biHighIndex_spec:
  assumes "digs ds" "ds \<noteq> []"
  obtains h where "biHighIndex (bi ds s) = int h" "h < length ds"
    and "drop (Suc h) ds = replicate (length ds - Suc h) 0" "bval (take (Suc h) ds) = bval ds"
    and "h = 0 \<or> 0 < ds ! h" "bval ds < 65536 ^ Suc h" "h = 0 \<or> 65536 ^ h \<le> bval ds"
proof -
  define h where "h = bi_high_from (map Some ds) (length ds - 1)"
  have h: "h < length ds" "\<And>i. h < i \<Longrightarrow> i < length ds \<Longrightarrow> ds ! i = 0" "h = 0 \<or> ds ! h \<noteq> 0"
    using bi_high_from_spec [of "length ds - 1" ds] assms(2) by (auto simp: h_def Suc_le_eq [symmetric] neq_Nil_conv)
  have high: "biHighIndex (bi ds s) = int h"
    using assms(2) by (simp add: biHighIndex_def h_def)
  have rest: "drop (Suc h) ds = replicate (length ds - Suc h) 0"
    using h(2) by (intro nth_equalityI) auto
  then have val: "bval (take (Suc h) ds) = bval ds"
    using bval_split [of ds "Suc h"] by simp
  have pos: "h = 0 \<or> 0 < ds ! h"
    using h(3) digs_nth [OF assms(1) h(1)] by auto
  have "bval (take (Suc h) ds) < 65536 ^ Suc h"
    using bval_less [of "take (Suc h) ds"] assms(1) h(1) by (simp only: length_take digs_take min_absorb2 Suc_leI)
  moreover have "h = 0 \<or> 65536 ^ h \<le> bval ds"
  proof (cases "h = 0")
    case False
    then have "65536 ^ h * 1 \<le> 65536 ^ h * ds ! h"
      using pos by (intro mult_left_mono) auto
    moreover have "0 \<le> bval (take h ds)"
      using assms(1) by (intro bval_nonneg digs_take)
    ultimately show ?thesis
      using bval_take_Suc [OF h(1)] val by linarith
  qed simp
  ultimately show ?thesis
    using that high h(1) rest val pos by simp
qed

lemma bi_bits_loop_spec:
  assumes "0 \<le> d" "d < 65536"
  obtains s where "bi_bits_loop d r (r - int j) = r - int s" "s \<le> j" "d * 2 ^ s < 65536"
    "s = j \<or> 32768 \<le> d * 2 ^ s"
  using assms
proof (induction j arbitrary: d r thesis)
  case 0
  then show ?case by (force simp: bi_bits_loop.simps)
next
  case (Suc j)
  have test: "js_and d 32768 \<noteq> 0 \<longleftrightarrow> 32768 \<le> d"
  proof -
    have "d div 32768 = (if 32768 \<le> d then 1 else 0)"
      using Suc.prems div_pos_pos_trivial [of "d - 32768" 32768] div_add_self2 [of 32768 "d - 32768"] by auto
    then have "bit d 15 \<longleftrightarrow> 32768 \<le> d"
      by (simp add: bit_iff_odd)
    then show ?thesis
      using js_and_bit [of 15 d] by (simp add: js_and_comm [of d])
  qed
  show ?case
  proof (cases "32768 \<le> d")
    case True
    then show ?thesis
      using Suc.prems by (intro Suc.prems(1) [of 0]) (auto simp: bi_bits_loop.simps [of d] test)
  next
    case False
    have shl: "js_shl d 1 = 2 * d"
      using Suc.prems False by (simp add: js_shl_def push_bit_eq_mult)
    have eq: "bi_bits_loop d r (r - int (Suc j)) = bi_bits_loop (2 * d) (r - 1) (r - 1 - int j)"
      using False by (subst bi_bits_loop.simps) (simp add: test shl algebra_simps)
    obtain s where s: "bi_bits_loop (2 * d) (r - 1) (r - 1 - int j) = r - 1 - int s" "s \<le> j" "2 * d * 2 ^ s < 65536"
      "s = j \<or> 32768 \<le> 2 * d * 2 ^ s"
      using Suc.IH [of "2 * d" "r - 1"] Suc.prems(2) False by auto
    then show ?thesis
      using eq by (intro Suc.prems(1) [of "Suc s"]) (auto simp: algebra_simps)
  qed
qed

lemma biNumBits_spec:
  assumes "digs ds" "ds \<noteq> []"
  obtains nb where "biNumBits (bi ds s) = int nb" "bval ds < 2 ^ nb" "nb = 0 \<or> 2 ^ (nb - 1) \<le> bval ds"
    "nb \<le> 16 * length ds"
proof -
  obtain h where h: "biHighIndex (bi ds s) = int h" "h < length ds" "bval (take (Suc h) ds) = bval ds" "h = 0 \<or> 0 < ds ! h"
    using biHighIndex_spec [OF assms] by metis
  let ?d = "ds ! h"
  have d: "0 \<le> ?d" "?d < 65536"
    using digs_nth [OF assms(1) h(2)] by auto
  have val: "bval ds = bval (take h ds) + 65536 ^ h * ?d"
    using h(2,3) by (simp add: bval_take_Suc)
  have low: "0 \<le> bval (take h ds)" "bval (take h ds) < 65536 ^ h"
    using bval_nonneg [of "take h ds"] bval_less [of "take h ds"] assms(1) h(2) by simp_all
  obtain k where k: "bi_bits_loop ?d (int (16 * Suc h)) (int (16 * Suc h) - int 16) = int (16 * Suc h) - int k"
      "k \<le> 16" "?d * 2 ^ k < 65536" "k = 16 \<or> 32768 \<le> ?d * 2 ^ k"
    using bi_bits_loop_spec [OF d] by metis
  define nb where "nb = 16 * Suc h - k"
  have "biNumBits (bi ds s) = int nb"
    using k(1,2) h(1,2) by (simp add: biNumBits_def Let_def nb_def algebra_simps)
  moreover have pow: "(2 :: int) ^ nb * 2 ^ k = 65536 ^ Suc h"
  proof -
    have "(2 :: int) ^ nb * 2 ^ k = 2 ^ (16 * Suc h)"
      using k(2) by (simp add: nb_def flip: power_add)
    also have "(2 :: int) ^ (16 * Suc h) = (2 ^ 16) ^ Suc h"
      by (rule power_mult)
    finally show ?thesis by simp
  qed
  have "bval ds < 2 ^ nb"
  proof -
    have "bval ds * 2 ^ k < 65536 ^ h * ((?d + 1) * 2 ^ k)"
      using val low by (simp add: algebra_simps)
    moreover have "(?d + 1) * 2 ^ k \<le> 65536"
    proof -
      obtain j where "16 = k + j" using k(2) le_Suc_ex by blast
      then have "(2 :: int) ^ 16 = 2 ^ j * 2 ^ k" by (metis add.commute power_add)
      then have B: "(65536 :: int) = 2 ^ j * 2 ^ k" by simp
      have "?d * 2 ^ k < 2 ^ j * 2 ^ k" using k(3) B by linarith
      then have "?d < 2 ^ j" by simp
      then have "(?d + 1) * 2 ^ k \<le> 2 ^ j * 2 ^ k" by (intro mult_right_mono) auto
      then show ?thesis by (simp add: B)
    qed
    then have "65536 ^ h * ((?d + 1) * 2 ^ k) \<le> 65536 ^ h * 65536"
      by (intro mult_left_mono) auto
    ultimately have "bval ds * 2 ^ k < 2 ^ nb * 2 ^ k"
      unfolding pow power_Suc2 by (rule less_le_trans)
    then show ?thesis by simp
  qed
  moreover have "nb = 0 \<or> 2 ^ (nb - 1) \<le> bval ds"
  proof (cases "32768 \<le> ?d * 2 ^ k")
    case True
    have "k \<noteq> 16" using True d(1) k(3) by auto
    then have "nb \<noteq> 0" using k(2) by (simp add: nb_def)
    then have "2 * (2 ^ (nb - 1) * 2 ^ k) = (65536 :: int) ^ Suc h"
      using pow by (metis (no_types) mult.assoc power_eq_if)
    moreover have "65536 ^ h * 32768 \<le> 65536 ^ h * (?d * 2 ^ k)"
      using True by (intro mult_left_mono) auto
    moreover have "bval ds * 2 ^ k = bval (take h ds) * 2 ^ k + 65536 ^ h * (?d * 2 ^ k)"
      by (simp add: val algebra_simps)
    moreover have "0 \<le> bval (take h ds) * 2 ^ k"
      using low(1) by simp
    ultimately have "2 ^ (nb - 1) * 2 ^ k \<le> bval ds * 2 ^ k"
      unfolding power_Suc by linarith
    then show ?thesis by simp
  next
    case False
    with k(4) have k16: "k = 16" by simp
    then have "?d = 0" using d(1) k(3) by simp
    with h(4) k16 show ?thesis by (simp add: nb_def)
  qed
  moreover have "nb \<le> 16 * length ds"
    using h(2) by (simp add: nb_def)
  ultimately show ?thesis using that by blast
qed

section \<open>Signed addition and subtraction\<close>

definition sval :: "int list \<Rightarrow> bool \<Rightarrow> int" where
  "sval ds s = (if s then - bval ds else bval ds)"

lemma biAdd_correct:
  assumes "digs xs" "digs ys" "length xs = N" "length ys = N" and "bval xs + bval ys < 65536 ^ N"
  obtains zs s where "biAdd N (bi xs sx) (bi ys sy) = bi zs s" "digs zs" "length zs = N"
    "sval zs s = sval xs sx + sval ys sy"
proof (cases "sx = sy")
  case True
  obtain zs where "bi_add_same N (bi xs sx) (bi ys sy) = bi zs sx" "digs zs" "length zs = N" "bval zs = bval xs + bval ys"
    using bi_add_same_correct [OF assms] by metis
  with True that show ?thesis by (auto simp: biAdd_def sval_def)
next
  case False
  obtain zs where "bi_sub_same N (bi xs sx) (bi ys (\<not> sy)) = bi zs (if bval xs < bval ys then \<not> sx else sx)"
    "digs zs" "length zs = N" "bval zs = \<bar>bval xs - bval ys\<bar>"
    using bi_sub_same_correct [OF assms(1-4)] by metis
  with False show ?thesis by (intro that) (auto simp: biAdd_def sval_def split: if_splits)
qed

lemma biSubtract_correct:
  assumes "digs xs" "digs ys" "length xs = N" "length ys = N" and "bval xs + bval ys < 65536 ^ N"
  obtains zs s where "biSubtract N (bi xs sx) (bi ys sy) = bi zs s" "digs zs" "length zs = N"
    "sval zs s = sval xs sx - sval ys sy"
proof (cases "sx = sy")
  case False
  obtain zs where "bi_add_same N (bi xs sx) (bi ys (\<not> sy)) = bi zs sx" "digs zs" "length zs = N" "bval zs = bval xs + bval ys"
    using bi_add_same_correct [OF assms] by metis
  with False show ?thesis by (intro that) (auto simp: biSubtract_def sval_def)
next
  case True
  obtain zs where "bi_sub_same N (bi xs sx) (bi ys sy) = bi zs (if bval xs < bval ys then \<not> sx else sx)"
    "digs zs" "length zs = N" "bval zs = \<bar>bval xs - bval ys\<bar>"
    using bi_sub_same_correct [OF assms(1-4)] by metis
  with True show ?thesis by (intro that) (auto simp: biSubtract_def sval_def split: if_splits)
qed

text \<open>The difference of two numbers that are not negative, whatever their size.\<close>

lemma biSubtract_nonneg:
  assumes "digs xs" "digs ys" "length xs = N" "length ys = N"
  obtains zs where "biSubtract N (bi xs False) (bi ys False) = bi zs (bval xs < bval ys)" "digs zs" "length zs = N"
    "bval zs = \<bar>bval xs - bval ys\<bar>"
proof (rule bi_sub_same_correct [OF assms, where s = False and s' = False])
  fix zs
  assume "bi_sub_same N (bi xs False) (bi ys False) = bi zs (if bval xs < bval ys then \<not> False else False)"
    and "digs zs" "length zs = N" "bval zs = \<bar>bval xs - bval ys\<bar>"
  then show ?thesis by (intro that) (simp_all add: biSubtract_def)
qed

text \<open>Adding a greater number to a negative one.\<close>

lemma biAdd_neg:
  assumes "digs xs" "digs ys" "length xs = N" "length ys = N" and "bval xs < bval ys"
  obtains zs where "biAdd N (bi xs True) (bi ys False) = bi zs False" "digs zs" "length zs = N"
    "bval zs = bval ys - bval xs"
proof (rule bi_sub_same_correct [OF assms(1-4), where s = True and s' = True])
  fix zs
  assume "bi_sub_same N (bi xs True) (bi ys True) = bi zs (if bval xs < bval ys then \<not> True else True)"
    and "digs zs" "length zs = N" "bval zs = \<bar>bval xs - bval ys\<bar>"
  then show ?thesis using assms(5) by (intro that) (simp_all add: biAdd_def)
qed

end
