(* ===== verification/Bigint_Mul.thy ===== *)
theory Bigint_Mul
  imports Bigint_Base
begin

text \<open>
  Multiplication, shifts and scaling by powers of the radix: \<^verbatim>\<open>biMultiply\<close>, \<^verbatim>\<open>biMultiplyDigit\<close>,
  \<^verbatim>\<open>arrayCopy\<close>, \<^verbatim>\<open>biShiftLeft\<close>, \<^verbatim>\<open>biShiftRight\<close>, \<^verbatim>\<open>biMultiplyByRadixPower\<close>,
  \<^verbatim>\<open>biDivideByRadixPower\<close> and \<^verbatim>\<open>biModuloByRadixPower\<close>. An index at or above \<open>N\<close> makes the
  array of the result grow, as in JavaScript.
\<close>

section \<open>Multiplication\<close>

definition bi_mul_row :: "int option list \<Rightarrow> int option \<Rightarrow> int \<Rightarrow> int \<Rightarrow> int option list \<Rightarrow> int option list" where
  "bi_mul_row xd yi i n ds =
     (let (ds, c) = js_for 0 (n + 1) 1
        (\<lambda>j (ds, c).
           let uv = num_add (num_add (arr_get ds (i + j)) (num_mul (arr_get xd j) yi)) (Some c)
           in (arr_set ds (i + j) (js_and (bits_of uv) 65535), js_ushr (bits_of uv) 16))
        (ds, 0)
      in arr_set ds (i + n + 1) c)"

definition biMultiply :: "nat \<Rightarrow> bigint \<Rightarrow> bigint \<Rightarrow> bigint" where
  "biMultiply N x y =
     (let n = biHighIndex x;
          t = biHighIndex y;
          ds = js_for 0 (t + 1) 1 (\<lambda>i ds. bi_mul_row (digits x) (arr_get (digits y) i) i n ds) (digits (newBigInt N))
      in \<lparr>digits = ds, isNeg = isNeg x \<noteq> isNeg y\<rparr>)"

definition biMultiplyDigit :: "nat \<Rightarrow> bigint \<Rightarrow> int option \<Rightarrow> bigint" where
  "biMultiplyDigit N x y =
     (let n = biHighIndex x;
          (ds, c) = js_for 0 (n + 1) 1
            (\<lambda>j (ds, c).
               let uv = num_add (num_add (arr_get ds j) (num_mul (arr_get (digits x) j) y)) (Some c)
               in (arr_set ds j (js_and (bits_of uv) 65535), js_ushr (bits_of uv) 16))
            (digits (newBigInt N), 0)
      in \<lparr>digits = arr_set ds (1 + n) c, isNeg = False\<rparr>)"

section \<open>Copying and shifting\<close>

definition arrayCopy :: "int option list \<Rightarrow> int \<Rightarrow> int option list \<Rightarrow> int \<Rightarrow> int \<Rightarrow> int option list" where
  "arrayCopy src srcStart dest destStart n =
     (let m = min (srcStart + n) (int (length src))
      in js_for srcStart m 1 (\<lambda>i dest. arr_put dest (destStart + (i - srcStart)) (arr_get src i)) dest)"

definition highBitMasks :: "int list" where
  "highBitMasks = [0x0000, 0x8000, 0xC000, 0xE000, 0xF000, 0xF800, 0xFC00, 0xFE00, 0xFF00, 0xFF80, 0xFFC0, 0xFFE0,
     0xFFF0, 0xFFF8, 0xFFFC, 0xFFFE, 0xFFFF]"

definition lowBitMasks :: "int list" where
  "lowBitMasks = [0x0000, 0x0001, 0x0003, 0x0007, 0x000F, 0x001F, 0x003F, 0x007F, 0x00FF, 0x01FF, 0x03FF, 0x07FF,
     0x0FFF, 0x1FFF, 0x3FFF, 0x7FFF, 0xFFFF]"

definition biShiftLeft :: "nat \<Rightarrow> bigint \<Rightarrow> nat \<Rightarrow> bigint" where
  "biShiftLeft N x n =
     (let digitCount = int (n div 16);
          ds = arrayCopy (digits x) 0 (digits (newBigInt N)) digitCount (int N - digitCount);
          bits = n mod 16;
          rightBits = 16 - bits;
          ds = js_down (int (length ds) - 1) 0
            (\<lambda>i ds. arr_set ds i
               (js_or (js_and (js_shl (arr_bits ds i) (int bits)) 65535)
                  (js_ushr (js_and (arr_bits ds (i - 1)) (highBitMasks ! bits)) (int rightBits)))) ds
      in \<lparr>digits = arr_set ds 0 (js_and (js_shl (arr_bits ds 0) (int bits)) 65535), isNeg = isNeg x\<rparr>)"

definition biShiftRight :: "nat \<Rightarrow> bigint \<Rightarrow> nat \<Rightarrow> bigint" where
  "biShiftRight N x n =
     (let digitCount = int (n div 16);
          ds = arrayCopy (digits x) digitCount (digits (newBigInt N)) 0 (int (length (digits x)) - digitCount);
          bits = n mod 16;
          leftBits = 16 - bits;
          ds = js_for 0 (int (length ds) - 1) 1
            (\<lambda>i ds. arr_set ds i
               (js_or (js_ushr (arr_bits ds i) (int bits))
                  (js_shl (js_and (arr_bits ds (i + 1)) (lowBitMasks ! bits)) (int leftBits)))) ds
      in \<lparr>digits = arr_set ds (int (length ds) - 1) (js_ushr (arr_bits ds (int (length ds) - 1)) (int bits)),
          isNeg = isNeg x\<rparr>)"

definition biMultiplyByRadixPower :: "nat \<Rightarrow> bigint \<Rightarrow> int \<Rightarrow> bigint" where
  "biMultiplyByRadixPower N x n =
     \<lparr>digits = arrayCopy (digits x) 0 (digits (newBigInt N)) n (int N - n), isNeg = False\<rparr>"

definition biDivideByRadixPower :: "nat \<Rightarrow> bigint \<Rightarrow> int \<Rightarrow> bigint" where
  "biDivideByRadixPower N x n =
     \<lparr>digits = arrayCopy (digits x) n (digits (newBigInt N)) 0 (int N - n), isNeg = False\<rparr>"

definition biModuloByRadixPower :: "nat \<Rightarrow> bigint \<Rightarrow> int \<Rightarrow> bigint" where
  "biModuloByRadixPower N x n =
     \<lparr>digits = arrayCopy (digits x) 0 (digits (newBigInt N)) 0 n, isNeg = False\<rparr>"

section \<open>Multiplication is right\<close>

lemma mul_carry:
  assumes "0 \<le> z" "z < 65536" "0 \<le> x" "x < 65536" "0 \<le> y" "y < 65536" "0 \<le> c" "c < 65536"
  shows "0 \<le> z + x * y + c" "z + x * y + c < 4294967296"
    and "js_ushr (z + x * y + c) 16 = (z + x * y + c) div 65536" "(z + x * y + c) div 65536 < 65536"
proof -
  have "x * y \<le> 65535 * 65535"
    using assms by (intro mult_mono) auto
  then show b: "0 \<le> z + x * y + c" "z + x * y + c < 4294967296"
    using assms by (auto intro: add_nonneg_nonneg)
  then show "js_ushr (z + x * y + c) 16 = (z + x * y + c) div 65536"
    by (simp add: js_ushr_div)
  show "(z + x * y + c) div 65536 < 65536"
    using b by simp
qed

lemma bi_mul_row_correct:
  assumes "digs xs" "digs ds" "0 \<le> y" "y < 65536" and "h < length xs" "i + h + 1 < length ds"
    and "ds ! (i + h + 1) = 0"
  obtains es where "bi_mul_row (map Some xs) (Some y) (int i) (int h) (map Some ds) = map Some es"
    and "length es = length ds" "digs es" "drop (i + h + 2) es = drop (i + h + 2) ds"
    and "bval es = bval ds + 65536 ^ i * (bval (take (Suc h) xs) * y)"
proof -
  define body where "body = (\<lambda>j (ds, c).
     let uv = num_add (num_add (arr_get ds (int i + j)) (num_mul (arr_get (map Some xs) j) (Some y))) (Some c)
     in (arr_set ds (int i + j) (js_and (bits_of uv) 65535), js_ushr (bits_of uv) 16))"
  define f where "f k = ds ! (i + k) + xs ! k * y" for k
  obtain zs c where loop: "js_for 0 (int (Suc h)) 1 body (map Some ds, 0) =
      (map Some (take i ds @ zs @ drop (i + Suc h) ds), c)"
    and zs: "length zs = Suc h" "digs zs" and c: "c \<in> {0..<65536}"
      "bval zs + c * 65536 ^ Suc h = bval (map f [0..<Suc h])"
  proof (rule carry_loop [where off = i and M = "Suc h" and ?zs0.0 = ds and C = "{0..<65536}" and f = f and body = body])
    fix k c and zs :: "int list"
    assume k: "k < Suc h" and len: "length zs = length ds" and d: "drop (i + k) zs = drop (i + k) ds"
      and c: "c \<in> {0..<65536 :: int}"
    have ik: "i + k < length ds" "k < length xs"
      using k assms by auto
    have "zs ! (i + k) = ds ! (i + k)"
      using arg_cong [OF d, of hd] ik len by (simp add: hd_drop_conv_nth)
    then have get: "arr_get (map Some zs) (int i + int k) = Some (ds ! (i + k))"
      using ik len arr_get_Some_nth [of "i + k" zs] by simp
    have set: "arr_set (map Some zs) (int i + int k) v = map Some (zs[i + k := v])" for v
      using ik len arr_set_map_Some [of "i + k" zs v] by simp
    have "0 \<le> ds ! (i + k)" "ds ! (i + k) < 65536" "0 \<le> xs ! k" "xs ! k < 65536"
      using digs_nth [OF assms(1) ik(2)] digs_nth [OF assms(2) ik(1)] by auto
    from mul_carry [OF this assms(3,4), of c] c
    show "(f k + c) div 65536 \<in> {0..<65536} \<and>
      body (int k) (map Some zs, c) = (map Some (zs[i + k := (f k + c) mod 65536]), (f k + c) div 65536)"
      using ik by (simp add: body_def get set f_def digit_mask)
  qed (use assms in auto)
  have mapf: "map f [0..<Suc h] = map2 (+) (take (Suc h) (drop i ds)) (map (\<lambda>d. d * y) (take (Suc h) xs))"
    using assms by (intro nth_equalityI) (simp_all add: f_def del: upt_Suc)
  have sum: "bval zs + c * 65536 ^ Suc h = bval (take (Suc h) (drop i ds)) + bval (take (Suc h) xs) * y"
    using assms(5,6) c(2) unfolding mapf by (simp add: bval_map_add bval_map_mult)
  let ?es = "take i ds @ zs @ c # drop (i + h + 2) ds"
  have rest: "drop (i + Suc h) ds = 0 # drop (i + h + 2) ds"
    using assms(6,7) by (simp add: Cons_nth_drop_Suc [symmetric])
  have "bi_mul_row (map Some xs) (Some y) (int i) (int h) (map Some ds)
      = (let (ds, c) = js_for 0 (int (Suc h)) 1 body (map Some ds, 0) in arr_set ds (int (i + h + 1)) c)"
    by (simp add: bi_mul_row_def body_def add.commute add.left_commute)
  then have "bi_mul_row (map Some xs) (Some y) (int i) (int h) (map Some ds)
      = arr_set (map Some (take i ds @ zs @ drop (i + Suc h) ds)) (int (i + h + 1)) c"
    by (simp only: loop Let_def prod.case)
  also have "\<dots> = map Some ((take i ds @ zs @ drop (i + Suc h) ds)[i + h + 1 := c])"
    using zs(1) assms(6) by (intro arr_set_map_Some) simp
  finally have "bi_mul_row (map Some xs) (Some y) (int i) (int h) (map Some ds)
      = map Some ((take i ds @ zs @ drop (i + Suc h) ds)[i + h + 1 := c])" .
  moreover have "(take i ds @ zs @ drop (i + Suc h) ds)[i + h + 1 := c] = ?es"
    unfolding rest using zs(1) assms(6) by (simp add: list_update_append)
  moreover have "length ?es = length ds"
    using zs(1) assms(6) by simp
  moreover have "digs ?es"
    using assms(2) zs(2) c(1) by simp
  moreover have "drop (i + h + 2) ?es = drop (i + h + 2) ds"
    using zs(1) assms(6) by simp
  moreover have "bval ?es = bval ds + 65536 ^ i * (bval (take (Suc h) xs) * y)"
  proof -
    have "bval ds = bval (take i ds) + 65536 ^ i * bval (drop i ds)"
      using bval_split [of ds i] assms(6) by simp
    also have "bval (drop i ds) = bval (take (Suc h) (drop i ds)) + 65536 ^ Suc h * bval (drop (i + Suc h) ds)"
      using bval_split [of "drop i ds" "Suc h"] assms(6) by (simp add: add.commute)
    finally have "bval ds = bval (take i ds) + 65536 ^ i * (bval (take (Suc h) (drop i ds)) + 65536 ^ Suc h * (65536 * bval (drop (i + h + 2) ds)))"
      unfolding rest by simp
    moreover have "bval ?es = bval (take i ds) + 65536 ^ i * ((bval zs + c * 65536 ^ Suc h) + 65536 ^ Suc h * (65536 * bval (drop (i + h + 2) ds)))"
      using zs(1) assms(6) by (simp add: algebra_simps)
    ultimately show ?thesis
      unfolding sum by (simp add: algebra_simps)
  qed
  ultimately show ?thesis using that by metis
qed

lemma biMultiply_correct:
  assumes "digs xs" "digs ys" "xs \<noteq> []" "ys \<noteq> []"
    and "biHighIndex (bi xs sx) + biHighIndex (bi ys sy) + 1 < int N"
  obtains zs where "biMultiply N (bi xs sx) (bi ys sy) = bi zs (sx \<noteq> sy)" "digs zs" "length zs = N"
    "bval zs = bval xs * bval ys"
proof -
  obtain n where n: "biHighIndex (bi xs sx) = int n" "n < length xs" "bval (take (Suc n) xs) = bval xs"
    using biHighIndex_spec [OF assms(1,3)] by metis
  obtain t where t: "biHighIndex (bi ys sy) = int t" "t < length ys" "bval (take (Suc t) ys) = bval ys"
    using biHighIndex_spec [OF assms(2,4)] by metis
  have N: "n + t + 1 < N"
    using assms(5) n(1) t(1) by linarith
  let ?body = "\<lambda>i ds. bi_mul_row (map Some xs) (arr_get (map Some ys) i) i (int n) ds"
  let ?P = "\<lambda>k st. \<exists>ds. st = map Some ds \<and> length ds = N \<and> digs ds \<and>
      drop (n + k + 1) ds = replicate (N - (n + k + 1)) 0 \<and> bval ds = bval xs * bval (take k ys)"
  have "?P (Suc t) (js_for 0 (1 * int (Suc t)) 1 ?body (map Some (replicate N 0)))"
  proof (rule js_for_inv [where P = ?P])
    show "?P 0 (map Some (replicate N 0))"
      by (intro exI [of _ "replicate N 0"]) simp
    fix k st
    assume k: "k < Suc t" and "?P k st"
    then obtain ds where st: "st = map Some ds" and ds: "length ds = N" "digs ds"
      "drop (n + k + 1) ds = replicate (N - (n + k + 1)) 0" "bval ds = bval xs * bval (take k ys)"
      by blast
    have kl: "k < length ys" "k + n + 1 < length ds"
      using k t(2) N ds(1) by auto
    have zero: "ds ! (k + n + 1) = 0"
      using arg_cong [OF ds(3), of hd] kl ds(1) by (simp add: hd_drop_conv_nth add.commute)
    have y: "0 \<le> ys ! k" "ys ! k < 65536"
      using digs_nth [OF assms(2) kl(1)] by auto
    obtain es where es: "bi_mul_row (map Some xs) (Some (ys ! k)) (int k) (int n) (map Some ds) = map Some es"
      "length es = length ds" "digs es" "drop (k + n + 2) es = drop (k + n + 2) ds"
      "bval es = bval ds + 65536 ^ k * (bval (take (Suc n) xs) * ys ! k)"
      using bi_mul_row_correct [OF assms(1) ds(2) y n(2) kl(2) zero] by metis
    have "drop (k + n + 2) ds = drop 1 (drop (n + k + 1) ds)"
      by (simp add: add.commute)
    also have "\<dots> = replicate (N - (n + Suc k + 1)) 0"
      unfolding ds(3) by simp
    finally have "drop (n + Suc k + 1) es = replicate (N - (n + Suc k + 1)) 0"
      using es(4) by (simp add: add.commute)
    moreover have "bval es = bval xs * bval (take (Suc k) ys)"
      using es(5) ds(4) n(3) kl(1) by (simp add: bval_take_Suc algebra_simps)
    ultimately show "?P (Suc k) (?body (1 * int k) st)"
      using es kl(1) ds(1) by (intro exI [of _ es]) (simp add: st)
  qed simp
  then obtain zs where zs: "js_for 0 (int (Suc t)) 1 ?body (map Some (replicate N 0)) = map Some zs"
    "length zs = N" "digs zs" "bval zs = bval xs * bval ys"
    using t(3) by auto
  moreover have "biMultiply N (bi xs sx) (bi ys sy) = bi zs (sx \<noteq> sy)"
    using zs(1) by (simp add: biMultiply_def n(1) t(1) newBigInt_def bi_def [of zs] add.commute Let_def)
  ultimately show ?thesis using that by blast
qed

lemma biMultiplyDigit_correct:
  assumes "digs xs" "xs \<noteq> []" "0 \<le> y" "y < 65536" and "biHighIndex (bi xs s) + 1 < int N"
  obtains zs where "biMultiplyDigit N (bi xs s) (Some y) = bi zs False" "digs zs" "length zs = N"
    "bval zs = bval xs * y"
proof -
  obtain n where n: "biHighIndex (bi xs s) = int n" "n < length xs" "bval (take (Suc n) xs) = bval xs"
    using biHighIndex_spec [OF assms(1,2)] by metis
  have N: "0 + n + 1 < length (replicate N (0 :: int))"
    using assms(5) n(1) by simp
  obtain zs where zs: "bi_mul_row (map Some xs) (Some y) (int 0) (int n) (map Some (replicate N 0)) = map Some zs"
    "length zs = length (replicate N (0 :: int))" "digs zs"
    "bval zs = bval (replicate N 0) + 65536 ^ 0 * (bval (take (Suc n) xs) * y)"
    using bi_mul_row_correct [OF assms(1) _ assms(3,4) n(2) N] N by (metis digs_simps(4) nth_replicate length_replicate)
  moreover have "biMultiplyDigit N (bi xs s) (Some y) = bi zs False"
    using zs(1) by (simp add: biMultiplyDigit_def bi_mul_row_def n(1) newBigInt_def bi_def [of zs] add.commute Let_def split: prod.splits)
  ultimately show ?thesis using that n(3) by simp
qed

section \<open>Scaling by powers of the radix\<close>

lemma bval_take_mod: "digs xs \<Longrightarrow> n \<le> length xs \<Longrightarrow> bval (take n xs) = bval xs mod 65536 ^ n"
  and bval_drop_div: "digs xs \<Longrightarrow> n \<le> length xs \<Longrightarrow> bval (drop n xs) = bval xs div 65536 ^ n"
proof -
  assume xs: "digs xs" "n \<le> length xs"
  have "bval xs = bval (take n xs) + 65536 ^ n * bval (drop n xs)"
    using bval_split [of xs n] xs(2) by simp
  moreover have "0 \<le> bval (take n xs)" "bval (take n xs) < 65536 ^ n"
    using bval_nonneg [of "take n xs"] bval_less [of "take n xs"] xs by simp_all
  ultimately show "bval (take n xs) = bval xs mod 65536 ^ n" "bval (drop n xs) = bval xs div 65536 ^ n"
    by simp_all
qed

lemma copy_fold:
  assumes "a + c \<le> length xs" "d + c \<le> length ds"
  shows "fold (\<lambda>i dest. arr_put dest (int d + (int i - int a)) (arr_get (map Some xs) (int i))) [a..<a + c] (map Some ds)
    = map Some (take d ds @ take c (drop a xs) @ drop (d + c) ds)"
  using assms
proof (induction c)
  case (Suc c)
  let ?zs = "take d ds @ take c (drop a xs) @ drop (d + c) ds"
  have len: "d + c < length ?zs" "a + c < length xs"
    using Suc.prems by auto
  have ix: "int d + (int (a + c) - int a) = int (d + c)" by simp
  have upt: "[a..<a + Suc c] = [a..<a + c] @ [a + c]" by simp
  have "drop (d + c) ds = ds ! (d + c) # drop (d + Suc c) ds"
    using Suc.prems by (simp add: Cons_nth_drop_Suc)
  then have upd: "?zs[d + c := xs ! (a + c)] = take d ds @ take (Suc c) (drop a xs) @ drop (d + Suc c) ds"
    using Suc.prems by (simp add: list_update_append take_Suc_conv_app_nth)
  have "fold (\<lambda>i dest. arr_put dest (int d + (int i - int a)) (arr_get (map Some xs) (int i))) [a..<a + Suc c] (map Some ds)
      = arr_set (map Some ?zs) (int (d + c)) (xs ! (a + c))"
    unfolding upt fold_append comp_apply using Suc.IH Suc.prems
    by (simp only: fold_simps ix arr_get_Some_nth [OF len(2)] arr_put_Some)
  also have "\<dots> = map Some (?zs[d + c := xs ! (a + c)])"
    by (rule arr_set_map_Some [OF len(1)])
  finally show ?case
    by (simp only: upd)
qed (simp flip: map_append)

lemma arrayCopy_list:
  assumes "nat (min (int a + n) (int (length xs)) - int a) = c" "d + c \<le> length ds"
  shows "arrayCopy (map Some xs) (int a) (map Some ds) (int d) n
    = map Some (take d ds @ take c (drop a xs) @ drop (d + c) ds)"
proof (cases "c = 0")
  case True
  then have "min (int a + n) (int (length xs)) \<le> int a"
    using assms(1) by simp
  then show ?thesis
    using True by (simp add: arrayCopy_def Let_def flip: map_append)
next
  case False
  then have "min (int a + n) (int (length xs)) = int (a + c)"
    using assms(1) by linarith
  moreover from this have "a + c \<le> length xs" by linarith
  ultimately show ?thesis
    using copy_fold [OF _ assms(2), of a xs] js_for_fold [of 1 a "a + c"
        "\<lambda>i dest. arr_put dest (int d + (i - int a)) (arr_get (map Some xs) i)" "map Some ds"]
    by (simp add: arrayCopy_def Let_def)
qed

lemma biMultiplyByRadixPower_correct:
  assumes "digs xs" "length xs = N" "n \<le> N" and "bval xs * 65536 ^ n < 65536 ^ N"
  obtains zs where "biMultiplyByRadixPower N (bi xs s) (int n) = bi zs False" "digs zs" "length zs = N"
    "bval zs = bval xs * 65536 ^ n"
proof -
  let ?zs = "replicate n 0 @ take (N - n) xs"
  have "arrayCopy (map Some xs) (int 0) (map Some (replicate N 0)) (int n) (int N - int n)
      = map Some (take n (replicate N 0) @ take (N - n) (drop 0 xs) @ drop (n + (N - n)) (replicate N 0))"
    using assms by (intro arrayCopy_list) auto
  then have eq: "biMultiplyByRadixPower N (bi xs s) (int n) = bi ?zs False"
    using assms(3) by (simp add: biMultiplyByRadixPower_def newBigInt_def bi_def)
  have "bval xs * 65536 ^ n < 65536 ^ (N - n) * 65536 ^ n"
    using assms(3,4) by (simp flip: power_add)
  then have "bval xs < 65536 ^ (N - n)"
    by simp
  then have "bval (take (N - n) xs) = bval xs"
    using bval_take_mod [OF assms(1), of "N - n"] bval_nonneg [OF assms(1)] assms(2) by simp
  then show ?thesis
    using assms by (intro that [OF eq]) (simp_all add: mult.commute)
qed

lemma biDivideByRadixPower_correct:
  assumes "digs xs" "length xs = N" "n \<le> N"
  obtains zs where "biDivideByRadixPower N (bi xs s) (int n) = bi zs False" "digs zs" "length zs = N"
    "bval zs = bval xs div 65536 ^ n"
proof -
  let ?zs = "drop n xs @ replicate n 0"
  have "arrayCopy (map Some xs) (int n) (map Some (replicate N 0)) (int 0) (int N - int n)
      = map Some (take 0 (replicate N 0) @ take (N - n) (drop n xs) @ drop (0 + (N - n)) (replicate N 0))"
    using assms by (intro arrayCopy_list) auto
  then have eq: "biDivideByRadixPower N (bi xs s) (int n) = bi ?zs False"
    using assms by (simp add: biDivideByRadixPower_def newBigInt_def bi_def)
  show ?thesis
    using assms by (intro that [OF eq]) (simp_all add: bval_drop_div)
qed

lemma biModuloByRadixPower_correct:
  assumes "digs xs" "length xs = N" "n \<le> N"
  obtains zs where "biModuloByRadixPower N (bi xs s) (int n) = bi zs False" "digs zs" "length zs = N"
    "bval zs = bval xs mod 65536 ^ n"
proof -
  let ?zs = "take n xs @ replicate (N - n) 0"
  have "arrayCopy (map Some xs) (int 0) (map Some (replicate N 0)) (int 0) (int n)
      = map Some (take 0 (replicate N 0) @ take n (drop 0 xs) @ drop (0 + n) (replicate N 0))"
    using assms by (intro arrayCopy_list) auto
  then have eq: "biModuloByRadixPower N (bi xs s) (int n) = bi ?zs False"
    using assms by (simp add: biModuloByRadixPower_def newBigInt_def bi_def)
  show ?thesis
    using assms by (intro that [OF eq]) (simp_all add: bval_take_mod)
qed

section \<open>Shifts\<close>

lemma high_mask: "b < 16 \<Longrightarrow> highBitMasks ! b = 65536 - 2 ^ (16 - b)"
  and low_mask: "b < 16 \<Longrightarrow> lowBitMasks ! b = 2 ^ b - 1"
proof -
  have "list_all (\<lambda>b. highBitMasks ! b = 65536 - 2 ^ (16 - b) \<and> lowBitMasks ! b = 2 ^ b - 1) [0..<16]"
    by code_simp
  moreover assume "b < 16"
  ultimately show "highBitMasks ! b = 65536 - 2 ^ (16 - b)" "lowBitMasks ! b = 2 ^ b - 1"
    by (auto simp: list_all_iff)
qed

lemma radix_split: "b \<le> 16 \<Longrightarrow> (65536 :: int) = 2 ^ b * 2 ^ (16 - b)"
proof -
  assume "b \<le> 16"
  then have "(2 :: int) ^ b * 2 ^ (16 - b) = 2 ^ 16"
    by (simp flip: power_add)
  then show ?thesis by simp
qed

lemma carry_bits:
  fixes e :: int
  assumes "0 \<le> e" "e < 65536" "b \<le> 16"
  shows "0 \<le> e div 2 ^ (16 - b)" "e div 2 ^ (16 - b) < 2 ^ b"
proof -
  show "0 \<le> e div 2 ^ (16 - b)"
    using assms(1) by (simp add: pos_imp_zdiv_nonneg_iff)
  have "e div 2 ^ (16 - b) * 2 ^ (16 - b) \<le> e"
  proof -
    have "0 \<le> e mod 2 ^ (16 - b)" by simp
    then show ?thesis using div_mult_mod_eq [of e "2 ^ (16 - b)"] by linarith
  qed
  then have "e div 2 ^ (16 - b) * 2 ^ (16 - b) < 2 ^ b * 2 ^ (16 - b)"
    using assms(2) radix_split [OF assms(3)] by linarith
  then show "e div 2 ^ (16 - b) < 2 ^ b"
    by (simp only: mult_less_cancel_right) auto
qed

lemma shl_digit:
  assumes "0 \<le> d" "d < 65536" "b < 16"
  shows "js_and (js_shl d (int b)) 65535 = d mod 2 ^ (16 - b) * 2 ^ b"
proof -
  have "d * 2 ^ b < 65536 * 2 ^ b"
    using assms by simp
  moreover have "(2 :: int) ^ b \<le> 32768"
    using assms power_increasing [of b 15 "2 :: int"] by simp
  ultimately have "d * 2 ^ b < 2147483648"
    by linarith
  then have "to_int32 (d * 2 ^ b) = d * 2 ^ b"
    using assms by (intro to_int32_id) (auto intro: order_trans [of _ 0])
  then have "js_shl d (int b) = d * 2 ^ b"
    using assms by (simp add: js_shl_def push_bit_eq_mult)
  moreover have "d * 2 ^ b mod 65536 = d mod 2 ^ (16 - b) * 2 ^ b"
  proof -
    have "d mod 2 ^ (16 - b) * 2 ^ b = d * 2 ^ b mod (2 ^ (16 - b) * 2 ^ b)"
      by (simp add: mult_mod_left)
    also have "2 ^ (16 - b) * 2 ^ b = (65536 :: int)"
      using radix_split [of b] assms(3) by (simp add: mult.commute)
    finally show ?thesis by simp
  qed
  ultimately show ?thesis
    by (simp add: digit_mask)
qed

lemma shl_carry:
  assumes "0 \<le> e" "e < 65536" "b < 16"
  shows "js_ushr (js_and e (highBitMasks ! b)) (int (16 - b)) = e div 2 ^ (16 - b)"
proof -
  have m: "highBitMasks ! b = push_bit (16 - b) (mask b)"
    using radix_split [of b] assms(3) high_mask [of b] by (simp add: push_bit_eq_mult mask_eq_exp_minus_1 algebra_simps)
  have r: "0 \<le> highBitMasks ! b" "highBitMasks ! b < 65536"
    using high_mask [OF assms(3)] power_increasing [of "16 - b" 16 "2 :: int"] by auto
  define v where "v = e AND highBitMasks ! b"
  have v: "0 \<le> v" "v < 65536"
    using assms AND_upper1 [of e "highBitMasks ! b"] by (simp_all add: v_def order.strict_trans1)
  have "js_and e (highBitMasks ! b) = v"
    using assms r by (simp add: js_and_def v_def)
  moreover have "js_ushr v (int (16 - b)) = drop_bit (16 - b) v"
  proof (cases "b = 0")
    case True
    then show ?thesis using v by (simp add: js_ushr_div drop_bit_eq_div)
  next
    case False
    then have "js_ushr v (int (16 - b)) = v div 2 ^ nat (int (16 - b))"
      using v assms(3) by (intro js_ushr_div) auto
    then show ?thesis by (simp only: nat_int drop_bit_eq_div)
  qed
  moreover have "drop_bit (16 - b) v = drop_bit (16 - b) e AND mask b"
    unfolding v_def m by (simp add: drop_bit_and drop_bit_push_bit)
  moreover have "take_bit b (e div 2 ^ (16 - b)) = e div 2 ^ (16 - b)"
    using assms carry_bits [of e b] by (intro take_bit_int_eq_self) auto
  ultimately show ?thesis
    by (simp add: take_bit_eq_mask [symmetric] drop_bit_eq_div)
qed

fun shl_digits :: "nat \<Rightarrow> int \<Rightarrow> int list \<Rightarrow> int list" where
  "shl_digits b c [] = []"
| "shl_digits b c (d # ds) = (d mod 2 ^ (16 - b) * 2 ^ b + c) # shl_digits b (d div 2 ^ (16 - b)) ds"

lemma shl_digits_length [simp]: "length (shl_digits b c ds) = length ds"
  by (induction ds arbitrary: c) simp_all

lemma shl_digits_nth:
  "i < length ds \<Longrightarrow> shl_digits b c ds ! i =
     ds ! i mod 2 ^ (16 - b) * 2 ^ b + (if i = 0 then c else ds ! (i - 1) div 2 ^ (16 - b))"
proof (induction ds arbitrary: c i)
  case (Cons d ds)
  show ?case
  proof (cases i)
    case (Suc j)
    with Cons.prems have "shl_digits b (d div 2 ^ (16 - b)) ds ! j = ds ! j mod 2 ^ (16 - b) * 2 ^ b +
        (if j = 0 then d div 2 ^ (16 - b) else ds ! (j - 1) div 2 ^ (16 - b))"
      by (intro Cons.IH) simp
    with Suc show ?thesis by (cases j) simp_all
  qed simp
qed simp

lemma digs_shl_digits:
  assumes "b < 16"
  shows "digs ds \<Longrightarrow> 0 \<le> c \<Longrightarrow> c < 2 ^ b \<Longrightarrow> digs (shl_digits b c ds)"
proof (induction ds arbitrary: c)
  case (Cons d ds)
  have B: "(65536 :: int) = 2 ^ b * 2 ^ (16 - b)"
    using assms by (intro radix_split) simp
  have "d mod 2 ^ (16 - b) \<le> 2 ^ (16 - b) - 1"
    by (simp add: zle_diff1_eq)
  then have "d mod 2 ^ (16 - b) * 2 ^ b \<le> (2 ^ (16 - b) - 1) * 2 ^ b"
    by (intro mult_right_mono) auto
  then have "d mod 2 ^ (16 - b) * 2 ^ b + c < 65536"
    using Cons.prems B by (simp add: algebra_simps)
  moreover have "0 \<le> d mod 2 ^ (16 - b) * 2 ^ b + c"
    using Cons.prems by simp
  moreover have "0 \<le> d div 2 ^ (16 - b)" "d div 2 ^ (16 - b) < 2 ^ b"
    using Cons.prems assms carry_bits [of d b] by auto
  ultimately show ?case
    using Cons by simp
qed simp

lemma bval_shl_digits:
  assumes "b < 16"
  shows "\<exists>c'. bval (shl_digits b c ds) + 65536 ^ length ds * c' = c + bval ds * 2 ^ b"
proof (induction ds arbitrary: c)
  case (Cons d ds)
  have B: "(65536 :: int) = 2 ^ b * 2 ^ (16 - b)"
    using assms by (intro radix_split) simp
  obtain c' where "bval (shl_digits b (d div 2 ^ (16 - b)) ds) + 65536 ^ length ds * c' = d div 2 ^ (16 - b) + bval ds * 2 ^ b"
    using Cons.IH by blast
  then have "65536 * bval (shl_digits b (d div 2 ^ (16 - b)) ds) + 65536 ^ length (d # ds) * c'
      = 65536 * (d div 2 ^ (16 - b)) + 65536 * (bval ds * 2 ^ b)"
    by (simp add: algebra_simps)
  moreover have "65536 * (d div 2 ^ (16 - b)) + d mod 2 ^ (16 - b) * 2 ^ b = d * 2 ^ b"
  proof -
    have "2 ^ b * (2 ^ (16 - b) * (d div 2 ^ (16 - b)) + d mod 2 ^ (16 - b)) = 2 ^ b * d"
      by simp
    then show ?thesis by (simp only: B algebra_simps)
  qed
  ultimately show ?case
    by (intro exI [of _ c']) (simp add: algebra_simps)
qed simp

lemma shift_left_loop:
  assumes "digs ds" "ds \<noteq> []" "b < 16"
  shows "(let es = js_down (int (length ds) - 1) 0
            (\<lambda>i ds. arr_set ds i
               (js_or (js_and (js_shl (arr_bits ds i) (int b)) 65535)
                  (js_ushr (js_and (arr_bits ds (i - 1)) (highBitMasks ! b)) (int (16 - b))))) (map Some ds)
          in arr_set es 0 (js_and (js_shl (arr_bits es 0) (int b)) 65535))
    = map Some (shl_digits b 0 ds)"
proof -
  define new where "new = shl_digits b 0 ds"
  define body where "body = (\<lambda>i ds. arr_set ds i
     (js_or (js_and (js_shl (arr_bits ds i) (int b)) 65535)
        (js_ushr (js_and (arr_bits ds (i - 1)) (highBitMasks ! b)) (int (16 - b)))))"
  have len: "length new = length ds" by (simp add: new_def)
  let ?P = "\<lambda>k es. es = map Some (take (Suc k) ds @ drop (Suc k) new)"
  have "?P 0 (js_down (int (length ds - 1)) 0 body (map Some ds))"
  proof (rule js_down_inv [where P = ?P])
    show "?P (length ds - 1) (map Some ds)"
      using assms(2) len by simp
    fix k es
    assume k: "k < length ds - 1" and P: "?P (Suc k) es"
    let ?ds = "take (Suc (Suc k)) ds @ drop (Suc (Suc k)) new"
    have kl: "Suc k < length ds" "Suc k < length ?ds" "k < length ?ds"
      using k len by auto
    have at: "arr_bits es (int (Suc k)) = ds ! Suc k" "arr_bits es (int (Suc k) - 1) = ds ! k"
      using P kl arr_get_Some_nth [of "Suc k" ?ds] arr_get_Some_nth [of k ?ds] by (simp_all add: nth_append del: map_append)
    have d: "0 \<le> ds ! Suc k" "ds ! Suc k < 65536" "0 \<le> ds ! k" "ds ! k < 65536"
      using digs_nth [OF assms(1), of "Suc k"] digs_nth [OF assms(1), of k] kl by auto
    have digit: "js_or (js_and (js_shl (ds ! Suc k) (int b)) 65535) (js_ushr (js_and (ds ! k) (highBitMasks ! b)) (int (16 - b)))
        = new ! Suc k"
    proof -
      let ?h = "ds ! Suc k mod 2 ^ (16 - b)" and ?c = "ds ! k div 2 ^ (16 - b)"
      have "0 \<le> ?c" "?c < 2 ^ b"
        using carry_bits [OF d(3,4)] assms(3) by auto
      moreover have "?c + ?h * 2 ^ b < 2147483648"
        using digs_nth [OF digs_shl_digits [OF assms(3,1), of 0], of "Suc k"] kl(1)
        by (simp add: shl_digits_nth)
      ultimately have "js_or (?h * 2 ^ b) ?c = ?c + ?h * 2 ^ b"
        by (intro js_or_add(2)) auto
      then show ?thesis
        using kl(1) by (simp only: shl_digit [OF d(1,2) assms(3)] shl_carry [OF d(3,4) assms(3)]) (simp add: new_def shl_digits_nth)
    qed
    have "body (int (Suc k)) es = arr_set (map Some ?ds) (int (Suc k)) (new ! Suc k)"
      unfolding body_def at digit using P by simp
    also have "\<dots> = map Some (?ds[Suc k := new ! Suc k])"
      by (rule arr_set_map_Some [OF kl(2)])
    also have "?ds[Suc k := new ! Suc k] = take (Suc k) ds @ drop (Suc k) new"
      using kl(1) len
      by (simp add: take_Suc_conv_app_nth [of "Suc k"] list_update_append Cons_nth_drop_Suc [of "Suc k" new, symmetric])
    finally show "?P k (body (int (Suc k)) es)" .
  qed
  moreover have "take (Suc 0) ds = [ds ! 0]"
    using assms(2) by (cases ds) auto
  ultimately have es: "js_down (int (length ds) - 1) 0 body (map Some ds) = map Some (ds ! 0 # drop (Suc 0) new)"
    using assms(2) by (simp add: of_nat_diff Suc_le_eq)
  have at: "arr_bits (map Some (ds ! 0 # drop (Suc 0) new)) 0 = ds ! 0"
    by (simp add: arr_get_def)
  have digit: "js_and (js_shl (ds ! 0) (int b)) 65535 = new ! 0"
    using digs_nth [OF assms(1), of 0] assms(2,3) by (simp add: shl_digit new_def shl_digits_nth)
  have "new ! 0 # drop (Suc 0) new = new"
    using assms(2) len by (cases new) auto
  then have "arr_set (map Some (ds ! 0 # drop (Suc 0) new)) 0 (new ! 0) = map Some new"
    using arr_set_map_Some [of 0 "ds ! 0 # drop (Suc 0) new" "new ! 0"] by simp
  then show ?thesis
    unfolding Let_def body_def [symmetric] es at digit by (simp only: new_def)
qed

lemma biShiftLeft_correct:
  assumes "digs xs" "length xs = N" "0 < N" "n \<le> 16 * N" and "bval xs * 2 ^ n < 65536 ^ N"
  obtains zs where "biShiftLeft N (bi xs s) n = bi zs s" "digs zs" "length zs = N" "bval zs = bval xs * 2 ^ n"
proof -
  let ?q = "n div 16" and ?b = "n mod 16"
  have q: "?q \<le> N" using assms(4) by simp
  have pow: "(2 :: int) ^ n = 65536 ^ ?q * 2 ^ ?b"
  proof -
    have "(2 :: int) ^ n = 2 ^ (16 * ?q + ?b)" by simp
    also have "\<dots> = (2 ^ 16) ^ ?q * 2 ^ ?b" by (simp only: power_add power_mult)
    finally show ?thesis by simp
  qed
  have "bval xs * 65536 ^ ?q * 1 \<le> bval xs * 65536 ^ ?q * 2 ^ ?b"
    using bval_nonneg [OF assms(1)] by (intro mult_left_mono) auto
  then have "bval xs * 65536 ^ ?q < 65536 ^ N"
    using assms(5) pow by (simp add: mult.assoc)
  then obtain ds where ds: "biMultiplyByRadixPower N (bi xs s) (int ?q) = bi ds False" "digs ds" "length ds = N"
    "bval ds = bval xs * 65536 ^ ?q"
    using biMultiplyByRadixPower_correct [OF assms(1,2) q] by metis
  then have copy: "arrayCopy (map Some xs) 0 (map Some (replicate N 0)) (int ?q) (int N - int ?q) = map Some ds"
    by (simp add: biMultiplyByRadixPower_def newBigInt_def bi_def)
  let ?zs = "shl_digits ?b 0 ds"
  have "biShiftLeft N (bi xs s) n = bi ?zs s"
    using shift_left_loop [OF ds(2), of ?b] copy assms(3) ds(3)
    by (auto simp: biShiftLeft_def newBigInt_def bi_def Let_def simp del: of_nat_mod of_nat_div)
  moreover have "digs ?zs"
    using ds(2) by (intro digs_shl_digits) auto
  moreover have "bval ?zs = bval xs * 2 ^ n"
  proof -
    obtain c where c: "bval ?zs + 65536 ^ N * c = bval xs * 2 ^ n"
      using bval_shl_digits [of ?b 0 ds] ds(3,4) pow by (auto simp: mult.assoc)
    have "0 \<le> bval ?zs" "bval ?zs < 65536 ^ N"
      using bval_nonneg [OF \<open>digs ?zs\<close>] bval_less [OF \<open>digs ?zs\<close>] ds(3) by simp_all
    then have "bval ?zs = (bval ?zs + 65536 ^ N * c) mod 65536 ^ N"
      by simp
    also have "\<dots> = bval xs * 2 ^ n"
      unfolding c using assms(5) bval_nonneg [OF assms(1)] by simp
    finally show ?thesis .
  qed
  ultimately show ?thesis using that ds(3) by simp
qed

fun shr_digits :: "nat \<Rightarrow> int list \<Rightarrow> int list" where
  "shr_digits b [] = []"
| "shr_digits b [d] = [d div 2 ^ b]"
| "shr_digits b (d # e # ds) = (d div 2 ^ b + e mod 2 ^ b * 2 ^ (16 - b)) # shr_digits b (e # ds)"

lemma shr_digits_length [simp]: "length (shr_digits b ds) = length ds"
  by (induction b ds rule: shr_digits.induct) simp_all

lemma shr_digits_nth:
  "i < length ds \<Longrightarrow> shr_digits b ds ! i =
     ds ! i div 2 ^ b + (if Suc i < length ds then ds ! Suc i mod 2 ^ b * 2 ^ (16 - b) else 0)"
  by (induction b ds arbitrary: i rule: shr_digits.induct) (auto simp: nth_Cons split: nat.splits)

lemma shr_digit_bound:
  fixes d e :: int
  assumes "b < 16" "0 \<le> d" "d < 65536"
  shows "0 \<le> d div 2 ^ b" "d div 2 ^ b < 2 ^ (16 - b)"
    and "0 \<le> e mod 2 ^ b * 2 ^ (16 - b)" "d div 2 ^ b + e mod 2 ^ b * 2 ^ (16 - b) < 65536"
proof -
  show d: "0 \<le> d div 2 ^ b" "d div 2 ^ b < 2 ^ (16 - b)"
    using carry_bits [of d "16 - b"] assms by simp_all
  show "0 \<le> e mod 2 ^ b * 2 ^ (16 - b)"
    by simp
  have "e mod 2 ^ b \<le> 2 ^ b - 1"
    by (simp add: zle_diff1_eq)
  then have "e mod 2 ^ b * 2 ^ (16 - b) \<le> (2 ^ b - 1) * 2 ^ (16 - b)"
    by (intro mult_right_mono) auto
  also have "\<dots> = 65536 - 2 ^ (16 - b)"
    using radix_split [of b] assms(1) by (simp add: left_diff_distrib)
  finally show "d div 2 ^ b + e mod 2 ^ b * 2 ^ (16 - b) < 65536"
    using d(2) by linarith
qed

lemma digs_shr_digits:
  assumes "b < 16"
  shows "digs ds \<Longrightarrow> digs (shr_digits b ds)"
  using assms
proof (induction b ds rule: shr_digits.induct)
  case (2 b d)
  then show ?case using shr_digit_bound(1) [of b d] shr_digit_bound(4) [of b d 0] by simp
next
  case (3 b d e ds)
  then show ?case
    using shr_digit_bound(1) [of b d] shr_digit_bound(3,4) [of b d e] by (simp add: add_nonneg_nonneg)
qed simp

lemma bval_shr_digits:
  assumes "b < 16"
  shows "bval (shr_digits b ds) = bval ds div 2 ^ b"
  using assms
proof (induction b ds rule: shr_digits.induct)
  case (3 b d e ds)
  let ?v = "bval (e # ds)"
  have B: "(65536 :: int) = 2 ^ b * 2 ^ (16 - b)"
    using 3 by (intro radix_split) simp
  have mod: "?v mod 2 ^ b = e mod 2 ^ b"
  proof -
    have "?v = e + 2 ^ b * (2 ^ (16 - b) * bval ds)"
      by (simp only: bval.simps B mult.assoc)
    then show ?thesis by (simp only: mod_mult_self2)
  qed
  have "bval (d # e # ds) div 2 ^ b = (d + 2 ^ b * (2 ^ (16 - b) * ?v)) div 2 ^ b"
    by (subst bval.simps(2) [of d], subst B) (simp only: mult.assoc)
  also have "\<dots> = d div 2 ^ b + 2 ^ (16 - b) * ?v"
    by simp
  also have "2 ^ (16 - b) * ?v = 2 ^ (16 - b) * (2 ^ b * (?v div 2 ^ b) + ?v mod 2 ^ b)"
    by simp
  also have "\<dots> = 65536 * (?v div 2 ^ b) + e mod 2 ^ b * 2 ^ (16 - b)"
    unfolding mod by (simp only: B algebra_simps)
  finally show ?case
    using 3 by simp
qed simp_all

lemma shr_carry:
  assumes "0 \<le> d" "d < 65536" "0 \<le> e" "e < 65536" "b < 16"
  shows "js_or (js_ushr d (int b)) (js_shl (js_and e (lowBitMasks ! b)) (int (16 - b)))
    = d div 2 ^ b + e mod 2 ^ b * 2 ^ (16 - b)"
proof -
  have "js_ushr d (int b) = d div 2 ^ b"
    using js_ushr_div [of d "int b"] assms by simp
  moreover have m: "js_and e (lowBitMasks ! b) = e mod 2 ^ b"
    using js_and_mask [of b e] low_mask [OF assms(5)] assms(5) by simp
  moreover have "js_shl (e mod 2 ^ b) (int (16 - b)) = e mod 2 ^ b * 2 ^ (16 - b)"
  proof -
    have "e mod 2 ^ b * 2 ^ (16 - b) < 65536"
      using shr_digit_bound(1) [OF assms(5,1,2)] shr_digit_bound(4) [OF assms(5,1,2), of e] by linarith
    moreover have "to_int32 (e mod 2 ^ b) = e mod 2 ^ b"
    proof (rule to_int32_id)
      have "0 \<le> e mod 2 ^ b" by simp
      then show "- 2147483648 \<le> e mod 2 ^ b" by linarith
      have "e mod 2 ^ b \<le> e" using assms(3) by (intro zmod_le_nonneg_dividend)
      then show "e mod 2 ^ b < 2147483648" using assms by linarith
    qed
    moreover have "nat (int (16 - b) mod 32) = 16 - b"
      by (simp add: nat_mod_distrib del: of_nat_diff)
    moreover have "to_int32 (e mod 2 ^ b * 2 ^ (16 - b)) = e mod 2 ^ b * 2 ^ (16 - b)"
      using calculation(1) shr_digit_bound(3) [OF assms(5,1,2), of e] by (intro to_int32_id) linarith+
    ultimately show ?thesis
      by (simp only: js_shl_def push_bit_eq_mult)
  qed
  moreover have "js_or (d div 2 ^ b) (e mod 2 ^ b * 2 ^ (16 - b)) = d div 2 ^ b + e mod 2 ^ b * 2 ^ (16 - b)"
    using shr_digit_bound(1,2) [OF assms(5,1,2)] shr_digit_bound(4) [OF assms(5,1,2), of e]
    by (intro js_or_add(1)) auto
  ultimately show ?thesis by (simp only:)
qed

lemma shift_right_loop:
  assumes "digs ds" "ds \<noteq> []" "b < 16"
  shows "(let es = js_for 0 (int (length ds) - 1) 1
            (\<lambda>i ds. arr_set ds i
               (js_or (js_ushr (arr_bits ds i) (int b))
                  (js_shl (js_and (arr_bits ds (i + 1)) (lowBitMasks ! b)) (int (16 - b))))) (map Some ds)
          in arr_set es (int (length es) - 1) (js_ushr (arr_bits es (int (length es) - 1)) (int b)))
    = map Some (shr_digits b ds)"
proof -
  define new where "new = shr_digits b ds"
  define body where "body = (\<lambda>i ds. arr_set ds i
     (js_or (js_ushr (arr_bits ds i) (int b))
        (js_shl (js_and (arr_bits ds (i + 1)) (lowBitMasks ! b)) (int (16 - b)))))"
  have len: "length new = length ds" by (simp add: new_def)
  let ?P = "\<lambda>k es. es = map Some (take k new @ drop k ds)"
  have "?P (length ds - 1) (js_for 0 (1 * int (length ds - 1)) 1 body (map Some ds))"
  proof (rule js_for_inv [where P = ?P])
    fix k es
    assume k: "k < length ds - 1" and P: "?P k es"
    let ?ds = "take k new @ drop k ds"
    have kl: "Suc k < length ds" "Suc k < length ?ds" "k < length ?ds"
      using k len by auto
    have at: "arr_bits es (int k) = ds ! k" "arr_bits es (int k + 1) = ds ! Suc k"
      using P kl len arr_get_Some_nth [of "Suc k" ?ds] arr_get_Some_nth [of k ?ds]
      by (simp_all add: nth_append add.commute del: map_append)
    have d: "0 \<le> ds ! k" "ds ! k < 65536" "0 \<le> ds ! Suc k" "ds ! Suc k < 65536"
      using digs_nth [OF assms(1), of "Suc k"] digs_nth [OF assms(1), of k] kl by auto
    have "body (int k) es = arr_set (map Some ?ds) (int k) (new ! k)"
      unfolding body_def at shr_carry [OF d assms(3)] using P kl(1) by (simp add: new_def shr_digits_nth)
    also have "\<dots> = map Some (?ds[k := new ! k])"
      by (rule arr_set_map_Some [OF kl(3)])
    also have "?ds[k := new ! k] = take (Suc k) new @ drop (Suc k) ds"
      using kl(1) len
      by (simp add: take_Suc_conv_app_nth list_update_append Cons_nth_drop_Suc [of k ds, symmetric])
    finally show "?P (Suc k) (body (1 * int k) es)" by simp
  qed simp_all
  moreover have n: "int (length ds - 1) = int (length ds) - 1"
    using assms(2) by (simp add: of_nat_diff Suc_le_eq)
  ultimately have es: "js_for 0 (int (length ds) - 1) 1 body (map Some ds) = map Some (take (length ds - 1) new @ drop (length ds - 1) ds)"
    by simp
  let ?es = "take (length ds - 1) new @ drop (length ds - 1) ds"
  have last: "drop (length ds - 1) ds = [ds ! (length ds - 1)]" "drop (length ds - 1) new = [new ! (length ds - 1)]"
    using assms(2) len Cons_nth_drop_Suc [of "length ds - 1" ds] Cons_nth_drop_Suc [of "length ds - 1" new] by simp_all
  have digit: "js_ushr (ds ! (length ds - 1)) (int b) = new ! (length ds - 1)"
    using js_ushr_div [of "ds ! (length ds - 1)" "int b"] digs_nth [OF assms(1), of "length ds - 1"] assms(2,3)
    by (simp add: new_def shr_digits_nth)
  have lenes: "length ?es = length ds" "length ds - 1 < length ?es"
    using assms(2) len by simp_all
  have "arr_get (map Some ?es) (int (length ds - 1)) = Some (?es ! (length ds - 1))"
    using lenes(2) by (rule arr_get_Some_nth)
  moreover have "?es ! (length ds - 1) = ds ! (length ds - 1)"
    using len assms(2) by (simp add: nth_append last(1))
  moreover have "arr_set (map Some ?es) (int (length ds - 1)) v = map Some (?es[length ds - 1 := v])" for v
    using lenes(2) by (rule arr_set_map_Some)
  moreover have "?es[length ds - 1 := new ! (length ds - 1)] = new"
    unfolding last(1) using last(2) len append_take_drop_id [of "length ds - 1" new] by (simp add: list_update_append)
  ultimately show ?thesis
    unfolding Let_def body_def [symmetric] es unfolding length_map lenes(1) n [symmetric] new_def [symmetric]
    by (simp only: bits_of_simps digit)
qed

lemma biShiftRight_correct:
  assumes "digs xs" "length xs = N" "0 < N" "n \<le> 16 * N"
  obtains zs where "biShiftRight N (bi xs s) n = bi zs s" "digs zs" "length zs = N" "bval zs = bval xs div 2 ^ n"
proof -
  let ?q = "n div 16" and ?b = "n mod 16"
  have q: "?q \<le> N" using assms(4) by simp
  obtain ds where ds: "biDivideByRadixPower N (bi xs s) (int ?q) = bi ds False" "digs ds" "length ds = N"
    "bval ds = bval xs div 65536 ^ ?q"
    using biDivideByRadixPower_correct [OF assms(1,2) q] by metis
  then have copy: "arrayCopy (map Some xs) (int ?q) (map Some (replicate N 0)) 0 (int N - int ?q) = map Some ds"
    by (simp add: biDivideByRadixPower_def newBigInt_def bi_def)
  let ?zs = "shr_digits ?b ds"
  have "ds \<noteq> []"
    using ds(3) assms(3) by auto
  then have "biShiftRight N (bi xs s) n = bi ?zs s"
    using shift_right_loop [OF ds(2), of ?b] copy assms(2)
    by (simp add: biShiftRight_def newBigInt_def bi_def Let_def del: of_nat_mod of_nat_div of_nat_diff)
  moreover have "bval ?zs = bval xs div 2 ^ n"
  proof -
    have "bval ?zs = bval xs div (65536 ^ ?q) div 2 ^ ?b"
      by (simp add: bval_shr_digits ds(4))
    also have "\<dots> = bval xs div (65536 ^ ?q * 2 ^ ?b)"
      by (simp add: zdiv_zmult2_eq)
    also have "(65536 :: int) ^ ?q * 2 ^ ?b = 2 ^ (16 * ?q + ?b)"
      unfolding power_add power_mult by simp
    finally show ?thesis by simp
  qed
  ultimately show ?thesis
    using that ds digs_shr_digits [of ?b ds] by simp
qed

end
