(* ===== verification/Bigint_Div.thy ===== *)
theory Bigint_Div
  imports Bigint_Mul
begin

text \<open>
  Division with remainder: \<^verbatim>\<open>biDivideModulo\<close>, long division in the manner of Knuth's Algorithm D.
  Its loops that test a condition are \<open>partial_function\<close>s: \<open>None\<close> is a loop that does not end, which
  happens for the divisor 0. The main loop corrects each estimated quotient digit against the three
  leading digits of the remainder; there the source writes \<^verbatim>\<open>(yt * biRadix) | yt1\<close>, which is negative
  because \<^verbatim>\<open>yt\<close> is at least 2^15, so a digit is corrected at most once before the subtraction.
  \<open>estimate_corrected\<close> shows that this is enough.
\<close>

section \<open>Definitions\<close>

partial_function (option) bi_normalize ::
    "nat \<Rightarrow> bigint \<Rightarrow> int \<Rightarrow> nat \<Rightarrow> int \<Rightarrow> (bigint \<times> int \<times> nat) option" where
  "bi_normalize N y t lam tb =
     (if num_less (arr_get (digits y) t) (Some 32768)
      then bi_normalize N (biShiftLeft N y 1) ((tb + 1 + 15) div 16 - 1) (lam + 1) (tb + 1)
      else Some (y, t, lam))"

partial_function (option) bi_top_loop ::
    "nat \<Rightarrow> bigint \<Rightarrow> int \<Rightarrow> bigint \<Rightarrow> int option list \<Rightarrow> (bigint \<times> int option list) option" where
  "bi_top_loop N b k r qd =
     (if biCompare r b \<noteq> - 1
      then bi_top_loop N b k (biSubtract N r b) (arr_put qd k (num_add (arr_get qd k) (Some 1)))
      else Some (r, qd))"

partial_function (option) bi_correct_loop ::
    "int option \<Rightarrow> int option \<Rightarrow> int option \<Rightarrow> int option \<Rightarrow> int option \<Rightarrow> int option option" where
  "bi_correct_loop yt yt1 qi c1 c2 =
     (if num_less c2 c1
      then (let qi = num_sub qi (Some 1)
            in bi_correct_loop yt yt1 qi
                 (num_mul qi (Some (js_or (bits_of (num_mul yt (Some 65536))) (bits_of yt1)))) c2)
      else Some qi)"

definition bi_digit_at :: "bigint \<Rightarrow> int \<Rightarrow> int option" where
  "bi_digit_at x i = (if int (length (digits x)) \<le> i then Some 0 else arr_get (digits x) i)"

definition bi_div_step :: "nat \<Rightarrow> bigint \<Rightarrow> int \<Rightarrow> int \<Rightarrow> int option list \<Rightarrow> bigint \<Rightarrow> (int option list \<times> bigint) option" where
  "bi_div_step N y t i qd r =
     (let ri = bi_digit_at r i; ri1 = bi_digit_at r (i - 1); ri2 = bi_digit_at r (i - 2);
          yt = bi_digit_at y t; yt1 = bi_digit_at y (t - 1);
          qi = (if ri = yt then Some 65535
                else num_lift (div) (num_add (num_mul ri (Some 65536)) ri1) yt);
          c1 = num_mul qi (num_add (num_mul yt (Some 65536)) yt1);
          c2 = num_add (num_mul ri (Some 4294967296)) (num_add (num_mul ri1 (Some 65536)) ri2)
      in case bi_correct_loop yt yt1 qi c1 c2 of
           None \<Rightarrow> None
         | Some qi \<Rightarrow>
             (let b = biMultiplyByRadixPower N y (i - t - 1);
                  r = biSubtract N r (biMultiplyDigit N b qi)
              in if isNeg r then Some (arr_put qd (i - t - 1) (num_sub qi (Some 1)), biAdd N r b)
                 else Some (arr_put qd (i - t - 1) qi, r)))"

function bi_div_loop :: "nat \<Rightarrow> bigint \<Rightarrow> int \<Rightarrow> int \<Rightarrow> int option list \<Rightarrow> bigint \<Rightarrow> (int option list \<times> bigint) option" where
  "bi_div_loop N y t i qd r =
     (if t < i then
        (case bi_div_step N y t i qd r of
           None \<Rightarrow> None
         | Some (qd', r') \<Rightarrow> bi_div_loop N y t (i - 1) qd' r')
      else Some (qd, r))"
  by pat_completeness auto
termination
  by (relation "measure (\<lambda>(N, y, t, i, qd, r). nat (i - t))") auto

declare bi_div_loop.simps [simp del]

definition biDivideModulo :: "nat \<Rightarrow> bigint \<Rightarrow> bigint \<Rightarrow> (bigint \<times> bigint) option" where
  "biDivideModulo N x y =
     (let nb = biNumBits x; tb = biNumBits y
      in if nb < tb then
           (if isNeg x
            then Some ((biCopy (bigOne N))\<lparr>isNeg := \<not> isNeg y\<rparr>, biSubtract N (y\<lparr>isNeg := False\<rparr>) (x\<lparr>isNeg := False\<rparr>))
            else Some (newBigInt N, biCopy x))
         else
           (case bi_normalize N y ((tb + 15) div 16 - 1) 0 tb of
              None \<Rightarrow> None
            | Some (y', t, lam) \<Rightarrow>
                (let n = (nb + int lam + 15) div 16 - 1
                 in case bi_top_loop N (biMultiplyByRadixPower N y' (n - t)) (n - t) (biShiftLeft N x lam)
                           (digits (newBigInt N)) of
                      None \<Rightarrow> None
                    | Some (r, qd) \<Rightarrow>
                        (case bi_div_loop N y' t n qd r of
                           None \<Rightarrow> None
                         | Some (qd, r) \<Rightarrow>
                             (let r = biShiftRight N r lam;
                                  q = \<lparr>digits = qd, isNeg = isNeg x \<noteq> isNeg y\<rparr>;
                                  (q, r) = (if isNeg x
                                            then (if isNeg y then biAdd N q (bigOne N) else biSubtract N q (bigOne N),
                                                  biSubtract N (biShiftRight N y' lam) r)
                                            else (q, r));
                                  r = (if arr_get (digits r) 0 = Some 0 \<and> biHighIndex r = 0
                                       then r\<lparr>isNeg := False\<rparr> else r)
                              in Some (q, r))))))"

definition biDivide :: "nat \<Rightarrow> bigint \<Rightarrow> bigint \<Rightarrow> bigint option" where
  "biDivide N x y = map_option fst (biDivideModulo N x y)"

definition biModulo :: "nat \<Rightarrow> bigint \<Rightarrow> bigint \<Rightarrow> bigint option" where
  "biModulo N x y = map_option snd (biDivideModulo N x y)"

section \<open>The estimate of a quotient digit\<close>

text \<open>
  \<open>b\<close> is the shifted divisor with leading digits \<open>V\<close>, \<open>r\<close> the remainder with leading digits \<open>U\<close>, both
  counted in units of \<open>W\<close>; \<open>qh\<close> is the estimate from \<open>U\<close> and the first digit \<open>yt\<close> of the divisor.
\<close>

lemma div_bounds: "0 < b \<Longrightarrow> a div b * b \<le> a" "0 < b \<Longrightarrow> a < a div b * b + b" for a b :: int
  using div_mult_mod_eq [of a b] pos_mod_bound [of b a] pos_mod_sign [of b a] by linarith+

lemma le_div_iff: "0 < b \<Longrightarrow> q \<le> r div b \<longleftrightarrow> q * b \<le> r" for b q r :: int
proof -
  assume b: "0 < b"
  have r: "r = r div b * b + r mod b" "0 \<le> r mod b" "r mod b < b"
    using b by simp_all
  show ?thesis
  proof
    assume "q \<le> r div b"
    then have "q * b \<le> r div b * b" using b by (intro mult_right_mono) auto
    then show "q * b \<le> r" using r by linarith
  next
    assume "q * b \<le> r"
    moreover have "(r div b + 1) * b = r div b * b + b" by (simp add: distrib_right)
    ultimately have "q * b < (r div b + 1) * b" using r by linarith
    then have "q < r div b + 1" using b by (simp only: mult_less_cancel_right)
    then show "q \<le> r div b" by simp
  qed
qed

lemma estimate_corrected:
  fixes r U W rl b V bl yt y1 qh :: int
  assumes r: "r = U * W + rl" "0 \<le> rl" "rl < W" and b: "b = V * W + bl" "0 \<le> bl" "bl < W"
    and V: "V = yt * 65536 + y1" "0 \<le> y1" "y1 < 65536" and yt: "32768 \<le> yt"
    and qh: "qh \<le> 65535" "0 \<le> qh" "qh * (yt * 65536) \<le> U" "r div b \<le> qh"
  defines "q \<equiv> if U < qh * V then qh - 1 else qh"
  shows "q = r div b \<or> q = r div b + 1 \<and> 0 < r mod b"
proof -
  have W: "0 < W" using r by linarith
  have "65536 \<le> V" using V yt by linarith
  then have VW: "65536 * W \<le> V * W" using W by (intro mult_right_mono) auto
  have bpos: "0 < b" using b VW W by linarith
  have U0: "0 \<le> U" using qh(2,3) yt by (meson mult_nonneg_nonneg order_trans zero_le_numeral)
  have r0: "0 \<le> r" using r U0 W by simp
  have rUW: "U * W \<le> r" "r < (U + 1) * W" using r by (auto simp: algebra_simps)
  have main: ?thesis if "(q - 1) * b < r" "r div b \<le> q"
  proof -
    have "q - 1 \<le> r div b" using that(1) bpos by (simp add: le_div_iff)
    moreover have "0 < r mod b" if "q - 1 = r div b"
      using \<open>(q - 1) * b < r\<close> div_mult_mod_eq [of r b] unfolding that by linarith
    ultimately show ?thesis using that(2) by linarith
  qed
  show ?thesis
  proof (cases "U < qh * V")
    case True
    then have q: "q = qh - 1" by (simp add: q_def)
    have "r div b \<noteq> qh"
    proof
      assume "r div b = qh"
      then have "qh * b \<le> r" using le_div_iff [OF bpos, of qh r] by simp
      moreover have "qh * (V * W) \<le> qh * b" using b qh(2) by (intro mult_left_mono) auto
      ultimately have "qh * V * W < (U + 1) * W" using rUW by (simp add: mult.assoc)
      then have "qh * V < U + 1" using W by (simp only: mult_less_cancel_right)
      with True show False by simp
    qed
    then have up: "r div b \<le> q" using qh(4) q by linarith
    show ?thesis
    proof (cases "qh \<le> 1")
      case True
      then have "q \<le> 0" using q by simp
      moreover have "0 \<le> r div b" using r0 bpos by (simp add: pos_imp_zdiv_nonneg_iff)
      ultimately show ?thesis using up by linarith
    next
      case False
      have "b < (yt + 1) * 65536 * W"
      proof -
        have "(V + 1) * W \<le> (yt + 1) * 65536 * W" using V W by (intro mult_right_mono) auto
        then show ?thesis using b by (simp add: algebra_simps)
      qed
      then have "(q - 1) * b \<le> (q - 1) * ((yt + 1) * 65536 * W)"
        using False q by (intro mult_left_mono) auto
      moreover have "(q - 1) * ((yt + 1) * 65536 * W) < qh * (yt * 65536) * W"
      proof -
        have "(qh - 2) * (yt + 1) = qh * yt + (qh - 2 * yt - 2)" by (simp add: algebra_simps)
        then have "(qh - 2) * (yt + 1) < qh * yt" using qh(1) yt by linarith
        then have "(qh - 2) * (yt + 1) * (65536 * W) < qh * yt * (65536 * W)"
          using W by (intro mult_strict_right_mono) auto
        moreover have "(q - 1) * ((yt + 1) * 65536 * W) = (qh - 2) * (yt + 1) * (65536 * W)"
          unfolding q by (simp add: algebra_simps)
        moreover have "qh * (yt * 65536) * W = qh * yt * (65536 * W)"
          by (simp add: algebra_simps)
        ultimately show ?thesis by linarith
      qed
      moreover have "qh * (yt * 65536) * W \<le> U * W" using qh(3) W by (intro mult_right_mono) auto
      ultimately have "(q - 1) * b < r" using rUW by linarith
      then show ?thesis using main up by blast
    qed
  next
    case False
    then have q: "q = qh" "qh * V \<le> U" by (auto simp: q_def)
    have "qh * V * W \<le> U * W" using q(2) W by (intro mult_right_mono) auto
    moreover have "qh * bl \<le> qh * W" using b qh(2) by (intro mult_left_mono) auto
    moreover have "qh * W < 65536 * W" using qh(1) W by (intro mult_strict_right_mono) auto
    moreover have "qh * b = qh * V * W + qh * bl" by (simp add: b algebra_simps)
    ultimately have "qh * b < r + b" using b VW rUW by linarith
    then have "(q - 1) * b < r" using q by (simp add: algebra_simps)
    then show ?thesis using main qh(4) q by blast
  qed
qed

text \<open>The estimate itself: never too small, and bounded by the leading digits.\<close>

lemma estimate_bounds:
  fixes r U W rl b V bl yt y1 qh :: int
  assumes r: "r = U * W + rl" "0 \<le> rl" "rl < W" and b: "b = V * W + bl" "0 \<le> bl" "bl < W"
    and V: "V = yt * 65536 + y1" "0 \<le> y1" "y1 < 65536" and yt: "32768 \<le> yt"
    and U: "0 \<le> U" and small: "r < b * 65536"
  defines "qh \<equiv> if U div 4294967296 = yt then 65535 else U div 65536 div yt"
  shows "qh \<le> 65535" "0 \<le> qh" "qh * (yt * 65536) \<le> U" "r div b \<le> qh"
proof -
  have W: "0 < W" using r by linarith
  have "65536 \<le> V" using V yt by linarith
  then have VW: "65536 * W \<le> V * W" using W by (intro mult_right_mono) auto
  have bpos: "0 < b" using b VW W by linarith
  have ypos: "0 < yt" using yt by simp
  define u where "u = U div 65536"
  have u: "u * 65536 \<le> U" "U < (u + 1) * 65536" "0 \<le> u" "U div 4294967296 = u div 65536"
    using U div_mult_mod_eq [of U 65536] by (auto simp: u_def algebra_simps zdiv_zmult2_eq [of 65536 U 65536, simplified])
  have "U < (yt + 1) * 65536 * 65536"
  proof -
    have "(V + 1) * W \<le> (yt + 1) * 65536 * W" using V W by (intro mult_right_mono) auto
    then have "b * 65536 \<le> (yt + 1) * 65536 * W * 65536" using b by (simp add: algebra_simps)
    then have "U * W < (yt + 1) * 65536 * 65536 * W" using r small by (simp add: algebra_simps)
    then show ?thesis using W by (simp only: mult_less_cancel_right)
  qed
  then have top: "u div 65536 \<le> yt"
    using u(4) by (simp add: u_def) 
  have q: "r div b * yt * 65536 \<le> U" "r div b < 65536"
  proof -
    have "r div b * b \<le> r" using le_div_iff [OF bpos, of "r div b" r] by simp
    moreover have "r div b * (yt * 65536 * W) \<le> r div b * b"
      using b V W r U bpos by (intro mult_left_mono) (auto simp: algebra_simps pos_imp_zdiv_nonneg_iff)
    ultimately have "r div b * yt * 65536 * W < (U + 1) * W" using r by (simp add: algebra_simps)
    then have "r div b * yt * 65536 < U + 1" using W by (simp only: mult_less_cancel_right)
    then show "r div b * yt * 65536 \<le> U" by simp
    show "r div b < 65536"
      using small bpos le_div_iff [OF bpos, of 65536 r] by (simp add: not_less [symmetric] mult.commute)
  qed
  have "qh \<le> 65535 \<and> 0 \<le> qh \<and> qh * (yt * 65536) \<le> U \<and> r div b \<le> qh"
  proof (cases "u div 65536 = yt")
    case True
    then have "yt * 65536 \<le> u" using le_div_iff [of 65536 yt u] by simp
    with True u q ypos show ?thesis by (simp add: qh_def)
  next
    case False
    then have qh': "qh = u div yt" using u(4) by (simp add: qh_def u_def)
    have "u < yt * 65536" using False top le_div_iff [of 65536 yt u] by linarith
    then have "qh \<le> 65535" using le_div_iff [OF ypos, of 65536 u] by (simp add: qh')
    moreover have "qh * yt \<le> u" using le_div_iff [OF ypos, of qh u] by (simp add: qh')
    then have "qh * (yt * 65536) \<le> U" using u(1) by linarith
    moreover have "r div b * yt * 65536 < (u + 1) * 65536" using q(1) u(2) by linarith
    then have "r div b \<le> qh" using le_div_iff [OF ypos, of "r div b" u] by (simp add: qh')
    moreover have "0 \<le> qh" using u(3) ypos by (simp add: qh' pos_imp_zdiv_nonneg_iff)
    ultimately show ?thesis by blast
  qed
  then show "qh \<le> 65535" "0 \<le> qh" "qh * (yt * 65536) \<le> U" "r div b \<le> qh"
    by auto
qed

section \<open>One step of the main loop\<close>

lemma radix_le_div: "q \<le> v div 65536 ^ i \<longleftrightarrow> q * 65536 ^ i \<le> v" for q v :: int
  by (rule le_div_iff) simp

lemma digit_nth: "digs ds \<Longrightarrow> i < length ds \<Longrightarrow> ds ! i = bval ds div 65536 ^ i mod 65536"
proof -
  assume ds: "digs ds" "i < length ds"
  have "bval (drop i ds) = ds ! i + 65536 * bval (drop (Suc i) ds)"
    using ds by (simp add: Cons_nth_drop_Suc [symmetric])
  then have "bval ds div 65536 ^ i mod 65536 = (ds ! i + 65536 * bval (drop (Suc i) ds)) mod 65536"
    using ds by (simp add: bval_drop_div [symmetric])
  also have "\<dots> = ds ! i"
    using digs_nth [OF ds] by simp
  finally show ?thesis by simp
qed

lemma bval_high_zero:
  assumes "digs ds" "length ds \<le> i"
  shows "bval ds div 65536 ^ i = 0"
proof -
  have "(65536 :: int) ^ length ds \<le> 65536 ^ i"
    using assms(2) by (intro power_increasing) auto
  then show ?thesis
    using bval_less [OF assms(1)] bval_nonneg [OF assms(1)] by (intro div_pos_pos_trivial) linarith+
qed

lemma bi_digit_at_value:
  "digs ds \<Longrightarrow> bi_digit_at (bi ds s) (int i) = Some (bval ds div 65536 ^ i mod 65536)"
  by (simp add: bi_digit_at_def bval_high_zero digit_nth)

lemma biHighIndex_less:
  assumes "digs ds" "ds \<noteq> []" "bval ds < 65536 ^ i" "0 < i"
  shows "biHighIndex (bi ds s) < int i"
proof -
  obtain h where h: "biHighIndex (bi ds s) = int h" "h = 0 \<or> 65536 ^ h \<le> bval ds"
    using biHighIndex_spec [OF assms(1,2)] by metis
  have "h < i"
  proof (cases "h = 0")
    case False
    then have "(65536 :: int) ^ h < 65536 ^ i" using h(2) assms(3) by linarith
    then show ?thesis by (rule power_less_imp_less_exp [rotated]) simp
  qed (use assms(4) in simp)
  then show ?thesis using h(1) by simp
qed

lemma bi_correct_loop_once:
  assumes "32768 \<le> yt" "yt < 65536" "0 \<le> y1" "y1 < 65536" "0 \<le> U" "0 \<le> qh" "0 \<le> V"
  shows "bi_correct_loop (Some yt) (Some y1) (Some qh) (Some (qh * V)) (Some U)
    = Some (Some (if U < qh * V then qh - 1 else qh))"
proof (cases "U < qh * V")
  case True
  define w where "w = js_or (yt * 65536) y1"
  have "to_int32 (yt * 65536) < 0"
  proof -
    have "(yt * 65536 + 2147483648) mod 4294967296 = yt * 65536 - 2147483648"
      using assms(1,2) mod_add_self2 [of "yt * 65536 - 2147483648" 4294967296] by (simp add: add.commute)
    then show ?thesis using assms(2) by (simp add: to_int32_def)
  qed
  then have "w < 0"
    by (simp add: w_def js_or_def not_le [symmetric] or_nonnegative_int_iff)
  moreover have "0 < qh"
    using True assms(5,6) by (cases "qh = 0") auto
  ultimately have "(qh - 1) * w \<le> 0"
    by (intro mult_nonneg_nonpos) auto
  then have "bi_correct_loop (Some yt) (Some y1) (Some (qh - 1)) (Some ((qh - 1) * w)) (Some U) = Some (Some (qh - 1))"
    using assms(5) by (subst bi_correct_loop.simps) simp
  then show ?thesis
    using True by (subst bi_correct_loop.simps) (simp add: w_def Let_def)
qed (subst bi_correct_loop.simps, simp)

lemma bi_div_finish:
  assumes ys: "digs ys" "length ys = N" and rs: "digs rs" "length rs = N"
    and "bval ys < 65536 ^ Suc t" "0 < bval ys" and N: "t + 1 + j < N"
    and q: "0 \<le> q" "q \<le> 65535" "q = bval rs div (bval ys * 65536 ^ j) \<or>
      q = bval rs div (bval ys * 65536 ^ j) + 1 \<and> 0 < bval rs mod (bval ys * 65536 ^ j)"
  obtains zs where "(let b = biMultiplyByRadixPower N (bi ys False) (int j);
        r = biSubtract N (bi rs False) (biMultiplyDigit N b (Some q))
      in if isNeg r then Some (arr_put qd (int j) (num_sub (Some q) (Some 1)), biAdd N r b)
         else Some (arr_put qd (int j) (Some q), r))
      = Some (arr_set qd (int j) (bval rs div (bval ys * 65536 ^ j)), bi zs False)"
    and "digs zs" "length zs = N" "bval zs = bval rs mod (bval ys * 65536 ^ j)"
proof -
  let ?b = "bval ys * 65536 ^ j" and ?r = "bval rs"
  have bi: "?b < 65536 ^ (t + 1 + j)"
    using assms(5) by (simp add: power_add)
  have "(65536 :: int) ^ (t + 1 + j) \<le> 65536 ^ N"
    using N by (intro power_increasing) auto
  then have "?b < 65536 ^ N" using bi by linarith
  then obtain bs where bs: "biMultiplyByRadixPower N (bi ys False) (int j) = bi bs False" "digs bs" "length bs = N" "bval bs = ?b"
    using biMultiplyByRadixPower_correct [OF ys, of j False] N by auto
  have bpos: "0 < ?b" using assms(6) by simp
  have "bs \<noteq> []" using bs(3) N by auto
  then have "biHighIndex (bi bs False) < int (t + 1 + j)"
    using bi bs(2,4) by (intro biHighIndex_less) auto
  then obtain ps where ps: "biMultiplyDigit N (bi bs False) (Some q) = bi ps False" "digs ps" "length ps = N" "bval ps = ?b * q"
    using biMultiplyDigit_correct [OF bs(2) \<open>bs \<noteq> []\<close> q(1), of False N] q(2) N bs(4) by auto
  obtain zs where zs: "biSubtract N (bi rs False) (bi ps False) = bi zs (?r < ?b * q)" "digs zs" "length zs = N" "bval zs = \<bar>?r - ?b * q\<bar>"
    using biSubtract_nonneg [OF rs(1) ps(2) rs(2) ps(3)] ps(4) by metis
  have r: "?r = ?b * (?r div ?b) + ?r mod ?b" "0 \<le> ?r mod ?b" "?r mod ?b < ?b"
    using bpos by simp_all
  show ?thesis
  proof (cases "q = ?r div ?b")
    case True
    have "?r - ?b * q = ?r mod ?b" using r(1) unfolding True by linarith
    then have "\<not> ?r < ?b * q" "bval zs = ?r mod ?b" using r(2) zs(4) by linarith+
    then show ?thesis
      using that [of zs] zs(1-3) bs(1) ps(1) True by (simp add: Let_def)
  next
    case False
    then have q': "q = ?r div ?b + 1" "0 < ?r mod ?b" using q(3) by auto
    have "?b * q = ?b * (?r div ?b) + ?b" unfolding q'(1) by (simp add: distrib_left)
    then have "?r - ?b * q = ?r mod ?b - ?b" using r(1) by linarith
    then have neg: "?r < ?b * q" "bval zs = ?b - ?r mod ?b" using r(3) zs(4) by linarith+
    then have "bval zs < bval bs" using q'(2) bs(4) by linarith
    then obtain vs where vs: "biAdd N (bi zs True) (bi bs False) = bi vs False" "digs vs" "length vs = N" "bval vs = bval bs - bval zs"
      using biAdd_neg [OF zs(2) bs(2) zs(3) bs(3)] by metis
    moreover have "bval vs = ?r mod ?b" using vs(4) neg(2) bs(4) by linarith
    ultimately show ?thesis
      using that [of vs] zs(1) bs(1) ps(1) neg(1) q'(1) by (simp add: Let_def)
  qed
qed

lemma three_digits:
  fixes r :: int
  assumes "0 \<le> r" "r < 65536 ^ (i + 3)"
  shows "r div 65536 ^ i = (r div 65536 ^ (i + 2) mod 65536) * 4294967296 +
      ((r div 65536 ^ (i + 1) mod 65536) * 65536 + r div 65536 ^ i mod 65536)"
    and "r div 65536 ^ i div 4294967296 = r div 65536 ^ (i + 2) mod 65536"
    and "r div 65536 ^ i div 65536 = (r div 65536 ^ (i + 2) mod 65536) * 65536 + r div 65536 ^ (i + 1) mod 65536"
proof -
  define u where "u = r div 65536 ^ i"
  have d1: "r div 65536 ^ (i + 1) = u div 65536"
    by (simp only: u_def power_add power_one_right zdiv_zmult2_eq zero_le_numeral)
  have d2: "r div 65536 ^ (i + 2) = u div 65536 div 65536"
    by (simp only: u_def power_add power2_eq_square zdiv_zmult2_eq zero_le_numeral mult.assoc [symmetric])
  have "u < 281474976710656"
  proof -
    have "65536 ^ (i + 3) = (281474976710656 :: int) * 65536 ^ i" by (simp add: power_add)
    moreover have "u * 65536 ^ i \<le> r"
      using le_div_iff [of "65536 ^ i" u r] by (simp add: u_def)
    ultimately have "u * 65536 ^ i < 281474976710656 * 65536 ^ i"
      using assms(2) by linarith
    then show ?thesis by simp
  qed
  then have top: "u div 65536 div 65536 mod 65536 = u div 65536 div 65536"
    using assms(1) by (intro mod_pos_pos_trivial) (auto simp: u_def pos_imp_zdiv_nonneg_iff)
  have u: "u = u div 65536 * 65536 + u mod 65536" "u div 65536 = u div 65536 div 65536 * 65536 + u div 65536 mod 65536"
    by simp_all
  show "r div 65536 ^ i = (r div 65536 ^ (i + 2) mod 65536) * 4294967296 +
      ((r div 65536 ^ (i + 1) mod 65536) * 65536 + r div 65536 ^ i mod 65536)"
    unfolding d1 d2 top u_def [symmetric] using u by linarith
  show "r div 65536 ^ i div 4294967296 = r div 65536 ^ (i + 2) mod 65536"
    unfolding d2 top u_def [symmetric] using zdiv_zmult2_eq [of 65536 u 65536] by simp
  show "r div 65536 ^ i div 65536 = (r div 65536 ^ (i + 2) mod 65536) * 65536 + r div 65536 ^ (i + 1) mod 65536"
    unfolding d1 d2 top u_def [symmetric] using u(2) by linarith
qed

text \<open>The quotient digit of a divisor of at least two digits.\<close>

lemma bi_div_step_long:
  assumes ys: "digs ys" "length ys = N" and rs: "digs rs" "length rs = N"
    and y: "bval ys < 65536 ^ Suc (Suc t)" "32768 \<le> ys ! Suc t"
    and N: "Suc t + 1 + j < N" and small: "bval rs < bval ys * 65536 ^ j * 65536"
  obtains zs where "bi_div_step N (bi ys False) (int (Suc t)) (int (Suc t + 1 + j)) qd (bi rs False)
      = Some (arr_set qd (int j) (bval rs div (bval ys * 65536 ^ j)), bi zs False)"
    and "digs zs" "length zs = N" "bval zs = bval rs mod (bval ys * 65536 ^ j)"
proof -
  let ?r = "bval rs" and ?y = "bval ys"
  let ?b = "?y * 65536 ^ j"
  let ?W = "65536 ^ (t + j) :: int"
  define U where "U = ?r div ?W"
  define V where "V = ?y div 65536 ^ t"
  define yt where "yt = ?y div 65536 ^ Suc t mod 65536"
  define y1 where "y1 = ?y div 65536 ^ t mod 65536"
  have nonneg: "0 \<le> ?r" "0 \<le> ?y"
    using bval_nonneg rs(1) ys(1) by auto
  have yt: "32768 \<le> yt" "yt < 65536"
    using y(2) digit_nth [OF ys(1), of "Suc t"] N ys(2) by (auto simp: yt_def)
  have V: "V = yt * 65536 + y1" "0 \<le> y1" "y1 < 65536"
  proof -
    have "V div 65536 = ?y div 65536 ^ Suc t"
      by (simp only: V_def power_Suc2 zdiv_zmult2_eq zero_le_numeral)
    moreover have "?y div 65536 ^ Suc t < 65536"
      using le_div_iff [of "65536 ^ Suc t" 65536 ?y] y(1) by (simp add: not_less [symmetric])
    ultimately have "V div 65536 = yt"
      using nonneg(2) by (simp add: yt_def pos_imp_zdiv_nonneg_iff)
    then show "V = yt * 65536 + y1" using div_mult_mod_eq [of V 65536] by (simp add: y1_def V_def)
  qed (simp_all add: y1_def)
  have b: "?b = V * ?W + ?y mod 65536 ^ t * 65536 ^ j" "0 \<le> ?y mod 65536 ^ t * 65536 ^ j" "?y mod 65536 ^ t * 65536 ^ j < ?W"
  proof -
    have "?y = V * 65536 ^ t + ?y mod 65536 ^ t" unfolding V_def by (rule div_mult_mod_eq [symmetric])
    then have "?b = (V * 65536 ^ t + ?y mod 65536 ^ t) * 65536 ^ j" by (rule arg_cong)
    then show "?b = V * ?W + ?y mod 65536 ^ t * 65536 ^ j" by (simp only: distrib_right power_add mult.assoc)
    show "?y mod 65536 ^ t * 65536 ^ j < ?W"
      unfolding power_add by (intro mult_strict_right_mono) auto
  qed simp
  have r: "?r = U * ?W + ?r mod ?W" "0 \<le> ?r mod ?W" "?r mod ?W < ?W"
    unfolding U_def by (rule div_mult_mod_eq [symmetric]) simp_all
  have U0: "0 \<le> U"
    using nonneg(1) by (simp add: U_def pos_imp_zdiv_nonneg_iff)
  have "?r < 65536 ^ (t + j + 3)"
  proof -
    have "?b * 65536 < 65536 ^ Suc (Suc t) * 65536 ^ j * 65536"
      using y(1) by simp
    also have "\<dots> = 65536 ^ (t + j + 3)" by (simp add: power_add)
    finally show ?thesis using small by linarith
  qed
  note digits3 = three_digits [OF nonneg(1) this, folded U_def]
  define ri where "ri = ?r div 65536 ^ (t + j + 2) mod 65536"
  define ri1 where "ri1 = ?r div 65536 ^ (t + j + 1) mod 65536"
  define ri2 where "ri2 = ?r div 65536 ^ (t + j) mod 65536"
  have at: "bi_digit_at (bi rs False) (int (Suc t + 1 + j)) = Some ri"
      "bi_digit_at (bi rs False) (int (Suc t + 1 + j) - 1) = Some ri1"
      "bi_digit_at (bi rs False) (int (Suc t + 1 + j) - 2) = Some ri2"
      "bi_digit_at (bi ys False) (int (Suc t)) = Some yt" "bi_digit_at (bi ys False) (int (Suc t) - 1) = Some y1"
    using bi_digit_at_value [OF rs(1), of False "t + j + 2"] bi_digit_at_value [OF rs(1), of False "t + j + 1"]
      bi_digit_at_value [OF rs(1), of False "t + j"] bi_digit_at_value [OF ys(1), of False "Suc t"]
      bi_digit_at_value [OF ys(1), of False t]
    by (simp_all add: ri_def ri1_def ri2_def yt_def y1_def algebra_simps)
  define qh where "qh = (if U div 4294967296 = yt then 65535 else U div 65536 div yt)"
  have qh: "qh \<le> 65535" "0 \<le> qh" "qh * (yt * 65536) \<le> U" "?r div ?b \<le> qh"
    using estimate_bounds [OF r b V yt(1) U0 small] by (simp_all add: qh_def)
  define q where "q = (if U < qh * V then qh - 1 else qh)"
  have q: "q = ?r div ?b \<or> q = ?r div ?b + 1 \<and> 0 < ?r mod ?b"
    using estimate_corrected [OF r b V yt(1) qh] by (simp add: q_def)
  have ypos: "0 < ?y"
    using nonneg(2) yt(1) by (cases "?y = 0") (simp_all add: yt_def)
  then have bpos: "0 < ?b" by simp
  have q0: "0 \<le> q" "q \<le> 65535"
  proof -
    have "0 \<le> ?r div ?b" using nonneg(1) bpos by (simp add: pos_imp_zdiv_nonneg_iff)
    then show "0 \<le> q" using q by linarith
    show "q \<le> 65535" using qh(1) by (simp add: q_def)
  qed
  have est: "(if Some ri = Some yt then Some 65535
      else num_lift (div) (num_add (num_mul (Some ri) (Some 65536)) (Some ri1)) (Some yt)) = Some qh"
    unfolding qh_def digits3(2,3) by (simp add: ri_def ri1_def)
  have c: "num_mul (Some qh) (num_add (num_mul (Some yt) (Some 65536)) (Some y1)) = Some (qh * V)"
      "num_add (num_mul (Some ri) (Some 4294967296)) (num_add (num_mul (Some ri1) (Some 65536)) (Some ri2)) = Some U"
    using V(1) digits3(1) by (simp_all only: num_simps ri_def ri1_def ri2_def U_def)
  have loop: "bi_correct_loop (Some yt) (Some y1) (Some qh) (Some (qh * V)) (Some U) = Some (Some q)"
    unfolding q_def using yt V U0 qh(2) by (intro bi_correct_loop_once) auto
  have ix: "int (Suc t + 1 + j) - int (Suc t) - 1 = int j" by simp
  show ?thesis
  proof (rule bi_div_finish [OF ys rs y(1) ypos N q0 q, of qd])
    fix zs
    assume fin: "(let b = biMultiplyByRadixPower N (bi ys False) (int j);
        r = biSubtract N (bi rs False) (biMultiplyDigit N b (Some q))
      in if isNeg r then Some (arr_put qd (int j) (num_sub (Some q) (Some 1)), biAdd N r b)
         else Some (arr_put qd (int j) (Some q), r))
      = Some (arr_set qd (int j) (?r div ?b), bi zs False)" and zs: "digs zs" "length zs = N" "bval zs = ?r mod ?b"
    have "bi_div_step N (bi ys False) (int (Suc t)) (int (Suc t + 1 + j)) qd (bi rs False)
        = Some (arr_set qd (int j) (?r div ?b), bi zs False)"
      unfolding bi_div_step_def at ix Let_def [of "Some _"] est c loop option.case fin ..
    then show ?thesis using that zs by blast
  qed
qed

text \<open>The quotient digit of a divisor of one digit is exact: the missing digit makes \<^verbatim>\<open>c1\<close> not a number.\<close>

lemma bi_div_step_short:
  assumes ys: "digs ys" "length ys = N" and rs: "digs rs" "length rs = N"
    and y: "bval ys < 65536" "0 < bval ys"
    and N: "1 + j < N" and small: "bval rs < bval ys * 65536 ^ j * 65536"
  obtains zs where "bi_div_step N (bi ys False) 0 (int (1 + j)) qd (bi rs False)
      = Some (arr_set qd (int j) (bval rs div (bval ys * 65536 ^ j)), bi zs False)"
    and "digs zs" "length zs = N" "bval zs = bval rs mod (bval ys * 65536 ^ j)"
proof -
  let ?r = "bval rs" and ?y = "bval ys"
  let ?b = "?y * 65536 ^ j"
  define u where "u = ?r div 65536 ^ j"
  define ri where "ri = ?r div 65536 ^ (j + 1) mod 65536"
  define ri1 where "ri1 = ?r div 65536 ^ j mod 65536"
  have nonneg: "0 \<le> ?r" using bval_nonneg rs(1) by auto
  have d1: "?r div 65536 ^ (j + 1) = u div 65536"
    by (simp only: u_def power_add power_one_right zdiv_zmult2_eq zero_le_numeral)
  have "u < ?y * 65536"
  proof -
    have "u * 65536 ^ j \<le> ?r"
      using le_div_iff [of "65536 ^ j" u ?r] by (simp add: u_def)
    moreover have "?b * 65536 = ?y * 65536 * 65536 ^ j" by simp
    ultimately have "u * 65536 ^ j < ?y * 65536 * 65536 ^ j" using small by linarith
    then show ?thesis by (rule mult_right_less_imp_less) simp
  qed
  then have top: "u div 65536 < ?y"
    using le_div_iff [of 65536 ?y u] by linarith
  moreover have u0: "0 \<le> u"
    using nonneg by (simp add: u_def pos_imp_zdiv_nonneg_iff)
  ultimately have ri: "ri = u div 65536" "ri \<noteq> ?y"
    using y(1) unfolding ri_def d1 by (auto simp: pos_imp_zdiv_nonneg_iff)
  have u: "ri * 65536 + ri1 = u"
    using div_mult_mod_eq [of u 65536] by (simp add: ri(1) ri1_def u_def)
  define q where "q = u div ?y"
  have q: "q = ?r div ?b"
    using y(2) by (simp add: q_def u_def zdiv_zmult2_eq [symmetric] mult.commute)
  have q0: "0 \<le> q" "q \<le> 65535"
    using \<open>u < ?y * 65536\<close> u0 y(2) le_div_iff [OF y(2), of 65536 u] by (auto simp: q_def pos_imp_zdiv_nonneg_iff mult.commute)
  obtain ri2 where at: "bi_digit_at (bi rs False) (int (1 + j)) = Some ri" "bi_digit_at (bi rs False) (int (1 + j) - 1) = Some ri1"
      "bi_digit_at (bi rs False) (int (1 + j) - 2) = ri2" "bi_digit_at (bi ys False) 0 = Some ?y" "bi_digit_at (bi ys False) (0 - 1) = None"
    using bi_digit_at_value [OF rs(1), of False "j + 1"] bi_digit_at_value [OF rs(1), of False j]
      bi_digit_at_value [OF ys(1), of False 0] y
    by (auto simp: ri_def ri1_def bi_digit_at_def [of "bi ys False" "- 1"] arr_get_def algebra_simps)
  have est: "(if Some ri = Some ?y then Some 65535
      else num_lift (div) (num_add (num_mul (Some ri) (Some 65536)) (Some ri1)) (Some ?y)) = Some q"
    using ri(2) by (simp add: u q_def)
  have loop: "bi_correct_loop (Some ?y) None (Some q)
      (num_mul (Some q) (num_add (num_mul (Some ?y) (Some 65536)) None)) c = Some (Some q)" for c
    by (subst bi_correct_loop.simps) simp
  have ix: "int (1 + j) - 0 - 1 = int j" by simp
  have y1: "?y < 65536 ^ Suc 0" and N': "0 + 1 + j < N" and q1: "q = ?r div ?b \<or> q = ?r div ?b + 1 \<and> 0 < ?r mod ?b"
    using y(1) N q by simp_all
  show ?thesis
  proof (rule bi_div_finish [OF ys rs y1 y(2) N' q0 q1, of qd])
    fix zs
    assume fin: "(let b = biMultiplyByRadixPower N (bi ys False) (int j);
        r = biSubtract N (bi rs False) (biMultiplyDigit N b (Some q))
      in if isNeg r then Some (arr_put qd (int j) (num_sub (Some q) (Some 1)), biAdd N r b)
         else Some (arr_put qd (int j) (Some q), r))
      = Some (arr_set qd (int j) (?r div ?b), bi zs False)" and zs: "digs zs" "length zs = N" "bval zs = ?r mod ?b"
    have "bi_div_step N (bi ys False) 0 (int (1 + j)) qd (bi rs False)
        = Some (arr_set qd (int j) (?r div ?b), bi zs False)"
      unfolding bi_div_step_def at ix Let_def [of "Some _"] Let_def [of None] Let_def [of ri2] est
      unfolding Let_def [of "num_mul _ _"] Let_def [of "num_add _ _"] loop option.case fin ..
    then show ?thesis using that zs by blast
  qed
qed

section \<open>The loops\<close>

lemma bi_div_step_correct:
  assumes "digs ys" "length ys = N" "digs rs" "length rs = N"
    and "bval ys < 65536 ^ Suc t" "32768 \<le> ys ! t"
    and "t + 1 + j < N" "bval rs < bval ys * 65536 ^ j * 65536"
  obtains zs where "bi_div_step N (bi ys False) (int t) (int (t + 1 + j)) qd (bi rs False)
      = Some (arr_set qd (int j) (bval rs div (bval ys * 65536 ^ j)), bi zs False)"
    and "digs zs" "length zs = N" "bval zs = bval rs mod (bval ys * 65536 ^ j)"
proof (cases t)
  case 0
  have "0 < bval ys"
    using digit_nth [OF assms(1), of 0] assms(2,5-7) bval_nonneg [OF assms(1)] 0 by (cases "bval ys = 0") auto
  then show ?thesis
    using bi_div_step_short [OF assms(1-4) _ _ _ assms(8), of qd] assms(5,7) 0 that by auto
next
  case (Suc u)
  then show ?thesis
    using bi_div_step_long [OF assms(1-4), of u j qd] assms(5-8) that by auto
qed

lemma bi_div_loop_correct:
  assumes "digs ys" "length ys = N" and "bval ys < 65536 ^ Suc t" "32768 \<le> ys ! t" and "0 < bval ys"
  shows "digs rs \<Longrightarrow> length rs = N \<Longrightarrow> digs qs \<Longrightarrow> length qs = N \<Longrightarrow> t + m < N \<Longrightarrow>
      bval rs < bval ys * 65536 ^ m \<Longrightarrow>
    \<exists>zs ws. bi_div_loop N (bi ys False) (int t) (int (t + m)) (map Some qs) (bi rs False) =
        Some (map Some (zs @ drop m qs), bi ws False) \<and>
      digs zs \<and> length zs = m \<and> digs ws \<and> length ws = N \<and>
      bval zs = bval rs div bval ys \<and> bval ws = bval rs mod bval ys"
proof (induction m arbitrary: rs qs)
  case 0
  then show ?case
    using bval_nonneg [of rs] by (subst bi_div_loop.simps) auto
next
  case (Suc j)
  let ?b = "bval ys * 65536 ^ j" and ?r = "bval rs"
  have small: "?r < ?b * 65536" using Suc.prems(6) by (simp add: mult_ac)
  have N: "t + 1 + j < N" using Suc.prems(5) by simp
  have bpos: "0 < ?b" using assms(5) by simp
  define q where "q = ?r div ?b"
  have q: "0 \<le> q" "q < 65536"
    using small bpos bval_nonneg [OF Suc.prems(1)] le_div_iff [OF bpos, of 65536 ?r]
    by (auto simp: q_def pos_imp_zdiv_nonneg_iff mult.commute not_le [symmetric])
  obtain vs where step: "bi_div_step N (bi ys False) (int t) (int (t + 1 + j)) (map Some qs) (bi rs False)
      = Some (arr_set (map Some qs) (int j) q, bi vs False)"
    and vs: "digs vs" "length vs = N" "bval vs = ?r mod ?b"
    using bi_div_step_correct [OF assms(1,2) Suc.prems(1,2) assms(3,4) N small] unfolding q_def by metis
  have j: "j < length qs" using N Suc.prems(4) by simp
  have qs: "digs (qs[j := q])" "length (qs[j := q]) = N"
    using Suc.prems(3,4) q by (auto simp: digs_def dest: set_update_subsetI [THEN subsetD, rotated] in_set_conv_nth [THEN iffD1] set_update_subset_insert [THEN subsetD])
  have "\<exists>zs ws. bi_div_loop N (bi ys False) (int t) (int (t + j)) (map Some (qs[j := q])) (bi vs False) =
        Some (map Some (zs @ drop j (qs[j := q])), bi ws False) \<and>
      digs zs \<and> length zs = j \<and> digs ws \<and> length ws = N \<and>
      bval zs = bval vs div bval ys \<and> bval ws = bval vs mod bval ys"
    using Suc.prems(5) vs(3) bpos by (intro Suc.IH vs(1,2) qs) auto
  then obtain zs ws where loop: "bi_div_loop N (bi ys False) (int t) (int (t + j)) (map Some (qs[j := q])) (bi vs False) =
        Some (map Some (zs @ drop j (qs[j := q])), bi ws False)"
    and zs: "digs zs" "length zs = j" "bval zs = bval vs div bval ys"
    and ws: "digs ws" "length ws = N" "bval ws = bval vs mod bval ys"
    by blast
  have "drop j (qs[j := q]) = q # drop (Suc j) qs"
    using j by (simp add: drop_update_swap Cons_nth_drop_Suc [symmetric])
  moreover have "int (t + Suc j) - 1 = int (t + j)" "int (t + 1 + j) = int (t + Suc j)" by simp_all
  ultimately have "bi_div_loop N (bi ys False) (int t) (int (t + Suc j)) (map Some qs) (bi rs False) =
        Some (map Some ((zs @ [q]) @ drop (Suc j) qs), bi ws False)"
    using step loop j by (subst bi_div_loop.simps) simp
  moreover have r: "?r = ?b * q + bval vs"
    using vs(3) by (simp add: q_def)
  then have "?r = bval vs + 65536 ^ j * q * bval ys" by (simp add: mult_ac)
  then have "bval (zs @ [q]) = ?r div bval ys" "bval ws = ?r mod bval ys"
    using zs(2,3) ws(3) assms(5) by simp_all
  ultimately show ?case
    using zs ws q by (intro exI [of _ "zs @ [q]"] exI [of _ ws]) simp
qed

lemma bi_normalize_correct:
  assumes "0 < N"
  shows "digs ys \<Longrightarrow> length ys = N \<Longrightarrow> t < N \<Longrightarrow> tb + k = 16 * Suc t \<Longrightarrow> k \<le> 15 \<Longrightarrow>
      2 ^ (tb - 1) \<le> bval ys \<Longrightarrow> bval ys < 2 ^ tb \<Longrightarrow>
    \<exists>zs. bi_normalize N (bi ys False) (int t) lam (int tb) = Some (bi zs False, int t, lam + k) \<and>
      digs zs \<and> length zs = N \<and> bval zs = bval ys * 2 ^ k \<and> bval zs < 65536 ^ Suc t \<and> 32768 \<le> zs ! t"
proof (induction k arbitrary: ys lam tb)
  case 0
  have "tb = 16 * Suc t" using "0.prems"(4) by simp
  then have "(2 :: int) ^ tb = (2 ^ 16) ^ Suc t" by (simp only: power_mult)
  then have P: "(2 :: int) ^ tb = 65536 ^ Suc t" by simp
  have "(2 :: int) ^ (tb - 1) = 32768 * 65536 ^ t"
  proof -
    have "tb - 1 = 16 * t + 15" using 0 by simp
    then show ?thesis by (simp add: power_add power_mult)
  qed
  then have "32768 \<le> bval ys div 65536 ^ t"
    using "0.prems"(6) radix_le_div [of 32768 "bval ys" t] by simp
  moreover have "bval ys div 65536 ^ t < 65536"
    using "0.prems"(7) P radix_le_div [of 65536 "bval ys" t] by simp
  ultimately have "32768 \<le> ys ! t"
    using digit_nth [OF "0.prems"(1), of t] 0 by simp
  then show ?case
    using 0 P by (subst bi_normalize.simps) (auto intro!: exI [of _ ys])
next
  case (Suc k)
  have tb: "tb + 1 \<le> 16 * Suc t" "16 * t < tb" using Suc.prems(4,5) by auto
  have "(2 :: int) ^ tb \<le> 2 ^ (16 * t + 15)"
    using Suc.prems by (intro power_increasing) auto
  then have "bval ys < 32768 * 65536 ^ t"
    using Suc.prems(7) by (simp add: power_add power_mult)
  then have "bval ys div 65536 ^ t < 32768"
    using radix_le_div [of 32768 "bval ys" t] by simp
  moreover have "0 \<le> bval ys div 65536 ^ t"
    using bval_nonneg [OF Suc.prems(1)] by (simp add: pos_imp_zdiv_nonneg_iff)
  ultimately have small: "ys ! t < 32768"
    using digit_nth [OF Suc.prems(1), of t] Suc.prems(2,3) by simp
  have "bval ys * 2 ^ 1 < 65536 ^ N"
  proof -
    have "(65536 :: int) ^ Suc t \<le> 65536 ^ N" using Suc.prems(3) by (intro power_increasing) auto
    then show ?thesis using \<open>bval ys < 32768 * 65536 ^ t\<close> by simp
  qed
  then obtain zs where zs: "biShiftLeft N (bi ys False) 1 = bi zs False" "digs zs" "length zs = N" "bval zs = bval ys * 2 ^ 1"
    using biShiftLeft_correct [OF Suc.prems(1,2) assms, of 1 False] assms by auto
  have pow: "(2 :: int) ^ tb = 2 * 2 ^ (tb - 1)"
    using tb by (cases tb) auto
  have "\<exists>vs. bi_normalize N (bi zs False) (int t) (lam + 1) (int (tb + 1)) = Some (bi vs False, int t, lam + 1 + k) \<and>
      digs vs \<and> length vs = N \<and> bval vs = bval zs * 2 ^ k \<and> bval vs < 65536 ^ Suc t \<and> 32768 \<le> vs ! t"
    using Suc.prems zs pow by (intro Suc.IH) auto
  moreover have "(int tb + 1 + 15) div 16 - 1 = int t"
  proof -
    have "(tb + 1 + 15) div 16 = Suc t" using tb by (intro div_nat_eqI) auto
    then have "int ((tb + 1 + 15) div 16) = int (Suc t)" by (rule arg_cong)
    then show ?thesis by (simp add: zdiv_int)
  qed
  ultimately show ?case
    using small Suc.prems(2,3) zs(1,4) by (subst bi_normalize.simps) (auto simp: algebra_simps)
qed

lemma bi_top_loop_correct:
  assumes bs: "digs bs" "length bs = N" and rs: "digs rs" "length rs = N" and qs: "length qs = N" "qs ! k = 0" "k < N"
    and less: "bval rs < 2 * bval bs"
  obtains vs where "bi_top_loop N (bi bs False) (int k) (bi rs False) (map Some qs) =
      Some (bi vs False, map Some (qs[k := bval rs div bval bs]))"
    "digs vs" "length vs = N" "bval vs = bval rs mod bval bs"
proof (cases "bval rs < bval bs")
  case True
  then have "biCompare (bi rs False) (bi bs False) = - 1"
    using bs rs by (simp add: biCompare_sgn)
  moreover have "bval rs div bval bs = 0" "bval rs mod bval bs = bval rs"
    using True bval_nonneg [OF rs(1)] by auto
  moreover have "qs[k := 0] = qs" using qs by (metis list_update_id)
  ultimately have "bi_top_loop N (bi bs False) (int k) (bi rs False) (map Some qs) =
      Some (bi rs False, map Some (qs[k := bval rs div bval bs]))"
    by (subst bi_top_loop.simps) simp
  then show ?thesis using that rs \<open>bval rs mod bval bs = bval rs\<close> by simp
next
  case False
  then have ne: "biCompare (bi rs False) (bi bs False) \<noteq> - 1"
    using bs rs by (simp add: biCompare_sgn sgn_if)
  obtain vs where vs: "biSubtract N (bi rs False) (bi bs False) = bi vs (bval rs < bval bs)" "digs vs" "length vs = N"
    "bval vs = \<bar>bval rs - bval bs\<bar>"
    using biSubtract_nonneg [OF rs(1) bs(1) rs(2) bs(2)] by metis
  have v: "bval vs = bval rs - bval bs" "bval vs < bval bs" using vs(4) False less by auto
  have "biCompare (bi vs False) (bi bs False) = - 1"
    using bs vs v by (simp add: biCompare_sgn)
  then have "bi_top_loop N (bi bs False) (int k) (bi vs False) (map Some (qs[k := 1])) = Some (bi vs False, map Some (qs[k := 1]))"
    by (subst bi_top_loop.simps) simp
  then have "bi_top_loop N (bi bs False) (int k) (bi rs False) (map Some qs) = Some (bi vs False, map Some (qs[k := 1]))"
    using ne vs(1) False qs by (subst bi_top_loop.simps) simp
  moreover have "bval rs = bval bs * 1 + bval vs" "0 \<le> bval vs" using v(1) bval_nonneg [OF vs(2)] by auto
  then have "bval rs div bval bs = 1" "bval rs mod bval bs = bval vs"
    using v(2) by (auto intro: int_div_pos_eq int_mod_pos_eq)
  ultimately show ?thesis using that [of vs] vs by simp
qed

section \<open>Division\<close>

lemma biDivideModulo_correct:
  assumes xs: "digs xs" "length xs = N" and ys: "digs ys" "length ys = N"
    and "0 < bval ys" and "bval xs < 65536 ^ (N - 1)" and "1 < N"
  obtains qs rs where "biDivideModulo N (bi xs False) (bi ys False) = Some (bi qs False, bi rs False)"
    and "digs qs" "length qs = N" "digs rs" "length rs = N"
    and "bval qs = bval xs div bval ys" "bval rs = bval xs mod bval ys"
proof -
  have ne: "xs \<noteq> []" "ys \<noteq> []" and N: "0 < N" using xs ys assms(7) by auto
  obtain nb where nb: "biNumBits (bi xs False) = int nb" "bval xs < 2 ^ nb" "nb = 0 \<or> 2 ^ (nb - 1) \<le> bval xs"
    using biNumBits_spec [OF xs(1) ne(1)] by metis
  obtain tb where tb: "biNumBits (bi ys False) = int tb" "bval ys < 2 ^ tb" "tb = 0 \<or> 2 ^ (tb - 1) \<le> bval ys" "tb \<le> 16 * N"
    using biNumBits_spec [OF ys(1) ne(2)] ys(2) by metis
  have tb0: "tb \<noteq> 0" using tb(2) assms(5) by (cases tb) auto
  have x0: "0 \<le> bval xs" using bval_nonneg [OF xs(1)] .
  show ?thesis
  proof (cases "nb < tb")
    case True
    have "(2 :: int) ^ nb \<le> 2 ^ (tb - 1)" using True by (intro power_increasing) auto
    then have "bval xs < bval ys" using nb(2) tb(3) tb0 by linarith
    then show ?thesis
      using that [of "replicate N 0" xs] xs x0 nb(1) tb(1) True
      by (simp add: biDivideModulo_def newBigInt_def biCopy_def bi_def)
  next
    case False
    define t where "t = (tb + 15) div 16 - 1"
    define k where "k = 16 * Suc t - tb"
    have t: "16 * t < tb" "tb \<le> 16 * Suc t" using tb0 by (auto simp: t_def)
    have tN: "t < N" using t tb(4) by linarith
    have kt: "tb + k = 16 * Suc t" "k \<le> 15" using t by (auto simp: k_def)
    obtain zs where norm: "bi_normalize N (bi ys False) (int t) 0 (int tb) = Some (bi zs False, int t, k)"
      and zs: "digs zs" "length zs = N" "bval zs = bval ys * 2 ^ k" "bval zs < 65536 ^ Suc t" "32768 \<le> zs ! t"
      using bi_normalize_correct [OF N ys tN kt, of 0] tb(2,3) tb0 by auto
    define n where "n = (nb + k + 15) div 16 - 1"
    have ntb: "16 * Suc t \<le> nb + k" using False kt(1) by simp
    have n: "nb + k \<le> 16 * Suc n" "16 * n < nb + k" using ntb by (auto simp: n_def)
    have tn: "t \<le> n" using order_trans [OF ntb n(1)] by simp
    have nN: "n < N"
    proof -
      have "(2 :: int) ^ (nb - 1) < 2 ^ (16 * (N - 1))"
        using nb(3) assms(6) False tb0 by (auto simp: power_mult)
      then have "nb - 1 < 16 * (N - 1)" by (rule power_less_imp_less_exp [rotated]) simp
      then show ?thesis using n(2) kt(2) by linarith
    qed
    define m where "m = n - t"
    have m: "n = t + m" "m < N" using tn nN by (simp_all add: m_def)
    have nint: "(int nb + int k + 15) div 16 - 1 = int n" "(int tb + 15) div 16 - 1 = int t"
    proof -
      have "int ((nb + k + 15) div 16) = int n + 1" "int ((tb + 15) div 16) = int t + 1"
        using ntb tb0 by (simp_all add: n_def t_def of_nat_diff)
      then show "(int nb + int k + 15) div 16 - 1 = int n" "(int tb + 15) div 16 - 1 = int t"
        by (simp_all add: zdiv_int)
    qed
    have B: "(2 :: int) ^ (16 * Suc n) = 65536 ^ Suc n"
      by (simp only: power_mult) simp
    have shifted: "bval xs * 2 ^ k < 65536 ^ Suc n"
    proof -
      have "bval xs * 2 ^ k < 2 ^ nb * 2 ^ k" using nb(2) by simp
      also have "\<dots> \<le> 2 ^ (16 * Suc n)" using n(1) by (simp only: power_add [symmetric]) (intro power_increasing, auto)
      finally show ?thesis unfolding B .
    qed
    have BN: "(65536 :: int) ^ Suc n \<le> 65536 ^ N" using nN by (intro power_increasing) auto
    have room: "k \<le> 16 * N" "bval xs * 2 ^ k < 65536 ^ N" using kt(2) N shifted BN by linarith+
    obtain rs where rs: "biShiftLeft N (bi xs False) k = bi rs False" "digs rs" "length rs = N" "bval rs = bval xs * 2 ^ k"
      using biShiftLeft_correct [OF xs N room] by metis
    have "bval zs * 65536 ^ m < 65536 ^ Suc t * 65536 ^ m" using zs(4) by simp
    also have "\<dots> = 65536 ^ Suc n" by (simp add: m(1) power_add)
    finally have "bval zs * 65536 ^ m < 65536 ^ N" using BN by linarith
    then obtain bs where bs: "biMultiplyByRadixPower N (bi zs False) (int m) = bi bs False" "digs bs" "length bs = N"
        "bval bs = bval zs * 65536 ^ m"
      using biMultiplyByRadixPower_correct [OF zs(1,2), of m False] m(2) by auto
    have half: "bval rs < 2 * bval bs"
    proof -
      have "32768 * 65536 ^ t \<le> bval zs"
        using radix_le_div [of 32768 "bval zs" t] digit_nth [OF zs(1), of t] zs(2,4,5) tN
          bval_nonneg [OF zs(1)] radix_le_div [of 65536 "bval zs" t]
        by (cases "65536 \<le> bval zs div 65536 ^ t") (auto simp: pos_imp_zdiv_nonneg_iff)
      then have "32768 * 65536 ^ t * 65536 ^ m \<le> bval bs"
        unfolding bs(4) by (intro mult_right_mono) auto
      then show ?thesis using shifted rs(4) by (simp add: m(1) power_add)
    qed
    obtain vs where top: "bi_top_loop N (bi bs False) (int m) (bi rs False) (map Some (replicate N 0)) =
        Some (bi vs False, map Some ((replicate N 0)[m := bval rs div bval bs]))"
      and vs: "digs vs" "length vs = N" "bval vs = bval rs mod bval bs"
      using bi_top_loop_correct [OF bs(2,3) rs(2,3) _ _ m(2) half, of "replicate N 0"] m(2) by auto
    define q where "q = bval rs div bval bs"
    define qs where "qs = (replicate N 0)[m := q]"
    have bpos: "0 < bval bs" using half bval_nonneg [OF rs(2)] by linarith
    have q: "0 \<le> q" "q < 2"
      using half bpos bval_nonneg [OF rs(2)] le_div_iff [OF bpos, of 2 "bval rs"]
      by (auto simp: q_def pos_imp_zdiv_nonneg_iff)
    have qs: "digs qs" "length qs = N" "drop m qs = q # replicate (N - Suc m) 0"
    proof -
      show "digs qs" using q set_update_subset_insert [of "replicate N 0" m q] by (auto simp: qs_def digs_def)
      show "drop m qs = q # replicate (N - Suc m) 0"
        using m(2) by (simp add: qs_def drop_update_swap Cons_nth_drop_Suc [symmetric] del: replicate.simps)
    qed (simp add: qs_def)
    have "bval vs < bval zs * 65536 ^ m" using vs(3) bs(4) bpos by simp
    moreover have zpos: "0 < bval zs" using zs(3) assms(5) by simp
    ultimately obtain us ws where loop: "bi_div_loop N (bi zs False) (int t) (int n) (map Some qs) (bi vs False) =
        Some (map Some (us @ drop m qs), bi ws False)"
      and us: "digs us" "length us = m" "bval us = bval vs div bval zs"
      and ws: "digs ws" "length ws = N" "bval ws = bval vs mod bval zs"
      using bi_div_loop_correct [OF zs(1,2,4,5) zpos vs(1,2) qs(1,2), of m] m nN by auto
    obtain ts where ts: "biShiftRight N (bi ws False) k = bi ts False" "digs ts" "length ts = N" "bval ts = bval ws div 2 ^ k"
      using biShiftRight_correct [OF ws(1,2) N room(1)] by metis
    have rsum: "bval rs = bval vs + 65536 ^ m * q * bval zs"
    proof -
      have "bval rs = bval vs + q * bval bs" unfolding vs(3) q_def by simp
      then show ?thesis by (simp add: bs(4) mult_ac)
    qed
    have "bval (us @ drop m qs) = bval rs div bval zs" "bval ws = bval rs mod bval zs"
      using us(2,3) ws(3) qs(3) zpos unfolding rsum by simp_all
    then have "bval (us @ drop m qs) = bval xs div bval ys" "bval ts = bval xs mod bval ys"
      unfolding rs(4) zs(3) ts(4) by (simp_all add: mult_mod_left [symmetric])
    moreover have "biDivideModulo N (bi xs False) (bi ys False) = Some (bi (us @ drop m qs) False, bi ts False)"
    proof -
      have "int n - int t = int m" using m(1) by simp
      then show ?thesis
        using False norm loop top rs(1) bs(1) ts(1)
        by (simp add: biDivideModulo_def nb(1) tb(1) nint Let_def newBigInt_def qs_def [symmetric] q_def [symmetric])
    qed
    moreover have "digs (us @ drop m qs)" "length (us @ drop m qs) = N"
      using us qs(1,2) m(2) by simp_all
    ultimately show ?thesis using that ts(2,3) by blast
  qed
qed

end
