(* ===== verification/Bigint_Num.thy ===== *)
theory Bigint_Num
  imports Bigint_Div
begin

text \<open>
  The contract of the \<^verbatim>\<open>BigInt\<close> operations: a well-formed \<^verbatim>\<open>BigInt\<close> has exactly \<open>N\<close> digits (the global
  \<^verbatim>\<open>maxDigits\<close>), each of them a 16-bit number; \<open>ival\<close> is the integer it stands for and \<open>bnat N x v\<close> says that
  \<open>x\<close> is the well-formed \<^verbatim>\<open>BigInt\<close> of the natural number \<open>v\<close>. The arithmetic lemmas of the earlier theories
  are restated over it, so that a chain of operations is a chain of rules.
\<close>

definition wf_bi :: "nat \<Rightarrow> bigint \<Rightarrow> bool" where
  "wf_bi N x \<longleftrightarrow> length (digits x) = N \<and> None \<notin> set (digits x) \<and> digs (map the (digits x))"

definition ival :: "bigint \<Rightarrow> int" where
  "ival x = sval (map the (digits x)) (isNeg x)"

definition bnat :: "nat \<Rightarrow> bigint \<Rightarrow> int \<Rightarrow> bool" where
  "bnat N x v \<longleftrightarrow> wf_bi N x \<and> \<not> isNeg x \<and> ival x = v"

lemma wf_bi_bi [simp]: "wf_bi N (bi ds s) \<longleftrightarrow> length ds = N \<and> digs ds"
  by (auto simp: wf_bi_def o_def)

lemma ival_bi [simp]: "ival (bi ds s) = sval ds s"
  by (simp add: ival_def o_def)

lemma wf_biE:
  assumes "wf_bi N x"
  obtains ds where "x = bi ds (isNeg x)" "digs ds" "length ds = N" "ival x = sval ds (isNeg x)"
proof
  have "map (Some \<circ> the) (digits x) = digits x"
    using assms by (intro map_idI) (metis comp_apply option.collapse wf_bi_def)
  then show "x = bi (map the (digits x)) (isNeg x)" by (simp add: bi_def)
qed (use assms in \<open>auto simp: wf_bi_def ival_def\<close>)

lemma bnatE:
  assumes "bnat N x v"
  obtains ds where "x = bi ds False" "digs ds" "length ds = N" "bval ds = v"
  using assms wf_biE [of N x] unfolding bnat_def by (metis sval_def)

lemma bnatI: "digs ds \<Longrightarrow> length ds = N \<Longrightarrow> bval ds = v \<Longrightarrow> bnat N (bi ds False) v"
  by (simp add: bnat_def sval_def)

lemma bnat_bounds: "bnat N x v \<Longrightarrow> 0 \<le> v \<and> v < 65536 ^ N"
  by (auto elim!: bnatE simp: bval_nonneg intro: bval_less)

lemma bnat_unit:
  assumes "k < N" "0 \<le> d" "d < 65536"
  shows "bnat N \<lparr>digits = arr_set (digits (newBigInt N)) (int k) d, isNeg = False\<rparr> (d * 65536 ^ k)"
proof -
  have "(replicate N (0 :: int))[k := d] = replicate k 0 @ d # replicate (N - Suc k) 0"
    using assms(1) by (simp add: upd_conv_take_nth_drop min_def)
  then have "bnat N (bi ((replicate N 0)[k := d]) False) (d * 65536 ^ k)"
    using assms by (intro bnatI) simp_all
  moreover have "arr_set (replicate N (Some 0)) (int k) d = map Some ((replicate N 0)[k := d])"
    using arr_set_map_Some [of k "replicate N 0" d] assms(1) by simp
  ultimately show ?thesis by (simp add: newBigInt_def bi_def)
qed

lemma bnat_biCopy: "bnat N x v \<Longrightarrow> bnat N (biCopy x) v"
  by (auto simp: biCopy_def bnat_def wf_bi_def ival_def)

lemma bnat_one: "0 < N \<Longrightarrow> bnat N (bigOne N) 1"
  using bnat_unit [of 0 N 1] by (simp add: bigOne_def newBigInt_def)

lemma bnat_digit0: "bnat N x v \<Longrightarrow> 0 < N \<Longrightarrow> arr_get (digits x) 0 = Some (v mod 65536)"
proof (elim bnatE)
  fix ds
  assume "0 < N" and ds: "x = bi ds False" "digs ds" "length ds = N" "bval ds = v"
  then show ?thesis
    using digit_nth [of ds 0] arr_get_Some_nth [of 0 ds] by simp
qed

lemma bnat_high:
  assumes "bnat N x v" "0 < N"
  obtains h where "biHighIndex x = int h" "h < N" "v < 65536 ^ Suc h" "h = 0 \<or> 65536 ^ h \<le> v"
proof -
  obtain ds where "x = bi ds False" "digs ds" "length ds = N" "bval ds = v" using assms(1) by (rule bnatE)
  moreover from this have "ds \<noteq> []" using assms(2) by auto
  ultimately show ?thesis using biHighIndex_spec that by metis
qed

lemma bnat_high_less: "bnat N x v \<Longrightarrow> 0 < N \<Longrightarrow> v < 65536 ^ i \<Longrightarrow> 0 < i \<Longrightarrow> biHighIndex x < int i"
  using biHighIndex_less by (elim bnatE) (metis list.size(3) less_numeral_extra(3))

lemma bnat_high_zero:
  assumes "bnat N x v" "0 < N"
  shows "arr_get (digits x) 0 = Some 0 \<and> biHighIndex x = 0 \<longleftrightarrow> v = 0"
proof -
  obtain h where h: "biHighIndex x = int h" "v < 65536 ^ Suc h" "h = 0 \<or> 65536 ^ h \<le> v"
    using bnat_high [OF assms] by metis
  have d: "arr_get (digits x) 0 = Some (v mod 65536)" using bnat_digit0 [OF assms] .
  show ?thesis
  proof
    assume "arr_get (digits x) 0 = Some 0 \<and> biHighIndex x = 0"
    with h d bnat_bounds [OF assms(1)] show "v = 0" by simp
  next
    assume "v = 0"
    with h(3) have "h = 0" by (metis not_le zero_less_numeral zero_less_power)
    with \<open>v = 0\<close> h(1) d show "arr_get (digits x) 0 = Some 0 \<and> biHighIndex x = 0" by simp
  qed
qed

lemma bnat_compare: "bnat N x v \<Longrightarrow> bnat N y w \<Longrightarrow> biCompare x y = sgn (v - w)"
  by (auto elim!: bnatE simp: biCompare_sgn)

lemma bnat_multiply:
  assumes "bnat N x v" "bnat N y w" and "v < 65536 ^ i" "w < 65536 ^ j" "0 < i" "0 < j" "i + j \<le> N"
  shows "bnat N (biMultiply N x y) (v * w)"
proof -
  have N: "0 < N" using assms by simp
  obtain xs where xs: "x = bi xs False" "digs xs" "length xs = N" "bval xs = v" using assms(1) by (rule bnatE)
  obtain ys where ys: "y = bi ys False" "digs ys" "length ys = N" "bval ys = w" using assms(2) by (rule bnatE)
  have ne: "xs \<noteq> []" "ys \<noteq> []" using xs(3) ys(3) N by auto
  have "biHighIndex x + biHighIndex y + 1 < int N"
    using bnat_high_less [OF assms(1) N assms(3,5)] bnat_high_less [OF assms(2) N assms(4,6)] assms(7) by simp
  then obtain zs where "biMultiply N (bi xs False) (bi ys False) = bi zs (False \<noteq> False)" "digs zs" "length zs = N"
    "bval zs = bval xs * bval ys"
    unfolding xs(1) ys(1) using biMultiply_correct [OF xs(2) ys(2) ne] by blast
  then show ?thesis using xs ys by (simp add: bnatI)
qed

lemma bnat_subtract:
  assumes "bnat N x v" "bnat N y w"
  shows "isNeg (biSubtract N x y) \<longleftrightarrow> v < w"
    and "bnat N (biSubtract N x y \<lparr>isNeg := False\<rparr>) \<bar>v - w\<bar>"
proof -
  obtain xs where xs: "x = bi xs False" "digs xs" "length xs = N" "bval xs = v" using assms(1) by (rule bnatE)
  obtain ys where ys: "y = bi ys False" "digs ys" "length ys = N" "bval ys = w" using assms(2) by (rule bnatE)
  obtain zs where "biSubtract N (bi xs False) (bi ys False) = bi zs (bval xs < bval ys)" "digs zs" "length zs = N"
    "bval zs = \<bar>bval xs - bval ys\<bar>"
    using biSubtract_nonneg [OF xs(2) ys(2) xs(3) ys(3)] by blast
  then show "isNeg (biSubtract N x y) \<longleftrightarrow> v < w" "bnat N (biSubtract N x y \<lparr>isNeg := False\<rparr>) \<bar>v - w\<bar>"
    using xs ys by (simp_all add: bnatI)
qed

lemma bnat_subtract_le:
  assumes "bnat N x v" "bnat N y w" "w \<le> v"
  shows "bnat N (biSubtract N x y) (v - w)"
proof -
  have "\<not> isNeg (biSubtract N x y)" "bnat N (biSubtract N x y \<lparr>isNeg := False\<rparr>) (v - w)"
    using bnat_subtract [OF assms(1,2)] assms(3) by simp_all
  moreover from this(1) have "biSubtract N x y \<lparr>isNeg := False\<rparr> = biSubtract N x y" by simp
  ultimately show ?thesis by simp
qed

lemma bnat_add_neg:
  assumes "isNeg x" "bnat N (x\<lparr>isNeg := False\<rparr>) v" "bnat N y w" "v < w"
  shows "bnat N (biAdd N x y) (w - v)"
proof -
  obtain xs where xs: "x\<lparr>isNeg := False\<rparr> = bi xs False" "digs xs" "length xs = N" "bval xs = v" using assms(2) by (rule bnatE)
  obtain ys where ys: "y = bi ys False" "digs ys" "length ys = N" "bval ys = w" using assms(3) by (rule bnatE)
  have "x = bi xs True" using xs(1) assms(1) by (cases x) (simp add: bi_def)
  then show ?thesis
    using biAdd_neg [OF xs(2) ys(2) xs(3) ys(3)] xs(4) ys assms(4) by (metis bnatI)
qed

lemma bnat_radix:
  assumes "bnat N x v" "n \<le> N"
  shows "bnat N (biDivideByRadixPower N x (int n)) (v div 65536 ^ n)"
    and "bnat N (biModuloByRadixPower N x (int n)) (v mod 65536 ^ n)"
  using assms(1) biDivideByRadixPower_correct [OF _ _ assms(2)] biModuloByRadixPower_correct [OF _ _ assms(2)]
  by (elim bnatE, metis bnatI)+

lemma bnat_shift:
  assumes "bnat N x v" "0 < N" "n \<le> 16 * N"
  shows "bnat N (biShiftRight N x n) (v div 2 ^ n)"
    and "v * 2 ^ n < 65536 ^ N \<Longrightarrow> bnat N (biShiftLeft N x n) (v * 2 ^ n)"
  using assms(1) biShiftRight_correct [OF _ _ assms(2,3)] biShiftLeft_correct [OF _ _ assms(2,3)]
  by (elim bnatE, metis bnatI)+

lemma bnat_divide_modulo:
  assumes "bnat N x v" "bnat N y w" "0 < w" "v < 65536 ^ (N - 1)" "1 < N"
  obtains q r where "biDivideModulo N x y = Some (q, r)" "bnat N q (v div w)" "bnat N r (v mod w)"
proof -
  obtain xs where xs: "x = bi xs False" "digs xs" "length xs = N" "bval xs = v" using assms(1) by (rule bnatE)
  obtain ys where ys: "y = bi ys False" "digs ys" "length ys = N" "bval ys = w" using assms(2) by (rule bnatE)
  from biDivideModulo_correct [OF xs(2,3) ys(2,3)] xs ys assms(3-5) that show ?thesis
    by (metis bnatI)
qed

text \<open>A product below \<open>65536 ^ (N - 1)\<close> fits, whatever the sizes of the factors.\<close>

lemma high_index_product:
  assumes "bnat N x v" "bnat N y w" "0 < N" and "v * w < 65536 ^ n" "0 < v" "0 < w"
  shows "biHighIndex x + biHighIndex y < int n"
proof -
  obtain g where g: "biHighIndex x = int g" "g = 0 \<or> 65536 ^ g \<le> v" using bnat_high [OF assms(1,3)] by metis
  obtain h where h: "biHighIndex y = int h" "h = 0 \<or> 65536 ^ h \<le> w" using bnat_high [OF assms(2,3)] by metis
  have "65536 ^ g \<le> v" "65536 ^ h \<le> w" using g(2) h(2) assms(5,6) by auto
  then have "65536 ^ g * 65536 ^ h \<le> v * w" using assms(5) by (intro mult_mono) auto
  then have "65536 ^ (g + h) < (65536 :: int) ^ n" using assms(4) by (simp only: power_add)
  then have "g + h < n" by (rule power_less_imp_less_exp [rotated]) simp
  then show ?thesis using g(1) h(1) by simp
qed

lemma bnat_multiply_small:
  assumes "bnat N x v" "bnat N y w" "1 < N" and "v * w < 65536 ^ (N - 1)" "0 < v" "0 < w"
  shows "bnat N (biMultiply N x y) (v * w)"
proof -
  have N: "0 < N" using assms(3) by simp
  obtain xs where xs: "x = bi xs False" "digs xs" "length xs = N" "bval xs = v" using assms(1) by (rule bnatE)
  obtain ys where ys: "y = bi ys False" "digs ys" "length ys = N" "bval ys = w" using assms(2) by (rule bnatE)
  have ne: "xs \<noteq> []" "ys \<noteq> []" using xs(3) ys(3) N by auto
  have "biHighIndex x + biHighIndex y + 1 < int N"
    using high_index_product [OF assms(1,2) N assms(4-6)] assms(3) by simp
  then obtain zs where "biMultiply N (bi xs False) (bi ys False) = bi zs (False \<noteq> False)" "digs zs" "length zs = N"
    "bval zs = bval xs * bval ys"
    unfolding xs(1) ys(1) using biMultiply_correct [OF xs(2) ys(2) ne] by blast
  then show ?thesis using xs ys by (simp add: bnatI)
qed

text \<open>Two well-formed numbers with the same value are the same object.\<close>

lemma bval_update: "j < length zs \<Longrightarrow> bval (zs[j := d]) = bval zs + 65536 ^ j * (d - zs ! j)"
proof (induction zs arbitrary: j)
  case (Cons z zs)
  then show ?case
    by (cases j) (simp_all add: distrib_left mult.assoc)
qed simp

lemma digs_update: "digs zs \<Longrightarrow> 0 \<le> d \<Longrightarrow> d < 65536 \<Longrightarrow> digs (zs[j := d])"
  using set_update_subset_insert [of zs j d] by (auto simp: digs_def)

lemma bnat_exists: "0 \<le> v \<Longrightarrow> v < 65536 ^ N \<Longrightarrow> \<exists>x. bnat N x v"
proof -
  have "\<exists>ds. digs ds \<and> length ds = N \<and> bval ds = v" if "0 \<le> v" "v < 65536 ^ N" for v
    using that
  proof (induction N arbitrary: v)
    case (Suc N)
    then have "0 \<le> v div 65536" "v div 65536 < 65536 ^ N" by auto
    then obtain ds where "digs ds" "length ds = N" "bval ds = v div 65536" using Suc.IH by blast
    then show ?case by (intro exI [of _ "v mod 65536 # ds"]) simp
  qed simp
  then show "0 \<le> v \<Longrightarrow> v < 65536 ^ N \<Longrightarrow> \<exists>x. bnat N x v" using bnatI by metis
qed

lemma bnat_unique: "bnat N x v \<Longrightarrow> bnat N y v \<Longrightarrow> x = y"
  by (metis bnatE bval_inj)

lemma bnat_zero: "bnat N (newBigInt N) 0"
  using bnatI [of "replicate N 0" N 0] by (simp add: newBigInt_def bi_def)

lemma bnat_add:
  assumes "bnat N x v" "bnat N y w" "v + w < 65536 ^ N"
  shows "bnat N (biAdd N x y) (v + w)"
proof -
  obtain xs where xs: "x = bi xs False" "digs xs" "length xs = N" "bval xs = v" using assms(1) by (rule bnatE)
  obtain ys where ys: "y = bi ys False" "digs ys" "length ys = N" "bval ys = w" using assms(2) by (rule bnatE)
  obtain zs where "bi_add_same N (bi xs False) (bi ys False) = bi zs False" "digs zs" "length zs = N" "bval zs = bval xs + bval ys"
    using bi_add_same_correct [OF xs(2) ys(2) xs(3) ys(3)] assms(3) xs(4) ys(4) by blast
  then show ?thesis using xs ys by (simp add: biAdd_def bnatI)
qed

lemma bnat_multiply_digit:
  assumes "bnat N x v" "1 < N" "v < 65536 ^ (N - 1)" "0 \<le> y" "y < 65536"
  shows "bnat N (biMultiplyDigit N x (Some y)) (v * y)"
proof -
  obtain xs where xs: "x = bi xs False" "digs xs" "length xs = N" "bval xs = v" using assms(1) by (rule bnatE)
  have ne: "xs \<noteq> []" using xs(3) assms(2) by auto
  have "biHighIndex (bi xs False) + 1 < int N"
    using bnat_high_less [OF assms(1) _ assms(3)] assms(2) xs(1) by auto
  then obtain zs where "biMultiplyDigit N (bi xs False) (Some y) = bi zs False" "digs zs" "length zs = N" "bval zs = bval xs * y"
    using biMultiplyDigit_correct [OF xs(2) ne assms(4,5)] by blast
  then show ?thesis using xs by (simp add: bnatI)
qed

section \<open>Properties\<close>

lemma sval_abs: "digs ds \<Longrightarrow> \<bar>sval ds s\<bar> = bval ds"
  by (simp add: sval_def bval_nonneg)

lemma bi_compare_swap: "bi_compare_from (bi xs True) (bi ys s) i = bi_compare_from (bi ys False) (bi xs s') i"
  by (induction i) auto

text \<open>C28: on well-formed numbers whose magnitudes have a sum below the range, \<open>biAdd\<close> and \<open>biSubtract\<close> return
  well-formed numbers, the exact signed sum and the exact signed difference.\<close>

theorem biAdd_biSubtract_exact:
  assumes "wf_bi N x" "wf_bi N y" "\<bar>ival x\<bar> + \<bar>ival y\<bar> < 65536 ^ N"
  shows "wf_bi N (biAdd N x y) \<and> ival (biAdd N x y) = ival x + ival y \<and>
    wf_bi N (biSubtract N x y) \<and> ival (biSubtract N x y) = ival x - ival y"
proof -
  obtain xs where xs: "x = bi xs (isNeg x)" "digs xs" "length xs = N" "ival x = sval xs (isNeg x)"
    using assms(1) by (rule wf_biE)
  obtain ys where ys: "y = bi ys (isNeg y)" "digs ys" "length ys = N" "ival y = sval ys (isNeg y)"
    using assms(2) by (rule wf_biE)
  have small: "bval xs + bval ys < 65536 ^ N" using assms(3) xs(2,4) ys(2,4) by (simp add: sval_abs)
  from biAdd_correct [OF xs(2) ys(2) xs(3) ys(3) small] biSubtract_correct [OF xs(2) ys(2) xs(3) ys(3) small]
  show ?thesis by (metis xs(1,4) ys(1,4) wf_bi_bi ival_bi)
qed

theorem biAdd_biSubtract_exact_witness:
  "ival (biAdd 3 (bi [65535, 65535, 0] True) (bi [1, 0, 0] False)) = - 4294967294 \<and>
   ival (biSubtract 3 (bi [65535, 65535, 0] True) (bi [1, 0, 0] False)) = - 4294967296"
  using biAdd_biSubtract_exact [of 3 "bi [65535, 65535, 0] True" "bi [1, 0, 0] False"] by (simp add: sval_def)

text \<open>\<open>biCompare\<close> is the sign of the difference of two well-formed numbers, as long as zero carries no minus sign.\<close>

theorem biCompare_sign:
  assumes "wf_bi N x" "wf_bi N y" and "isNeg x \<longrightarrow> ival x \<noteq> 0" "isNeg y \<longrightarrow> ival y \<noteq> 0"
  shows "biCompare x y = sgn (ival x - ival y)"
proof -
  obtain xs where xs: "x = bi xs (isNeg x)" "digs xs" "length xs = N" "ival x = sval xs (isNeg x)"
    using assms(1) by (rule wf_biE)
  obtain ys where ys: "y = bi ys (isNeg y)" "digs ys" "length ys = N" "ival y = sval ys (isNeg y)"
    using assms(2) by (rule wf_biE)
  have len: "length xs = length ys" using xs(3) ys(3) by simp
  have nonneg: "0 \<le> bval xs" "0 \<le> bval ys" using xs(2) ys(2) by (simp_all add: bval_nonneg)
  show ?thesis
  proof (cases "isNeg x = isNeg y")
    case True
    have "bi_compare_from (bi ys False) (bi xs False) (length ys) = sgn (bval ys - bval xs)"
      "bi_compare_from (bi xs False) (bi ys False) (length xs) = sgn (bval xs - bval ys)"
      using bi_compare_from_sgn [OF ys(2) xs(2) len [symmetric], of "length ys"]
        bi_compare_from_sgn [OF xs(2) ys(2) len, of "length xs"] by (simp_all add: len)
    with True show ?thesis
      using bi_compare_swap [of xs ys True "length xs" False]
      by (subst xs(1), subst ys(1)) (auto simp: biCompare_def xs(4) ys(4) sval_def len)
  next
    case False
    with assms(3,4) nonneg show ?thesis
      by (auto simp: biCompare_def xs(4) ys(4) sval_def sgn_if)
  qed
qed

theorem biCompare_sign_witness:
  "biCompare (bi [5, 0, 1] True) (bi [6, 0, 1] True) = 1 \<and> biCompare (bi [0, 1] True) (bi [7, 0] False) = - 1"
  using biCompare_sign [of 3 "bi [5, 0, 1] True" "bi [6, 0, 1] True"]
    biCompare_sign [of 2 "bi [0, 1] True" "bi [7, 0] False"] by (simp add: sval_def)

text \<open>The sign of the divisor only goes into the sign of the quotient when the dividend is not negative: the loops look at its digits.\<close>

lemma biNumBits_sign: "biNumBits (y\<lparr>isNeg := s\<rparr>) = biNumBits y"
  by (simp add: biNumBits_def biHighIndex_def)

lemma biShiftLeft_sign: "biShiftLeft N (y\<lparr>isNeg := s\<rparr>) n = (biShiftLeft N y n)\<lparr>isNeg := s\<rparr>"
  by (simp add: biShiftLeft_def Let_def)

lemma biMultiplyByRadixPower_sign: "biMultiplyByRadixPower N (y\<lparr>isNeg := s\<rparr>) n = biMultiplyByRadixPower N y n"
  by (simp add: biMultiplyByRadixPower_def)

lemma bi_normalize_sign:
  assumes "bi_normalize N y t lam tb = Some (y', t', lam')"
  shows "bi_normalize N (y\<lparr>isNeg := s\<rparr>) t lam tb = Some (y'\<lparr>isNeg := s\<rparr>, t', lam')"
proof -
  let ?P = "\<lambda>N y t lam tb r. bi_normalize N (y\<lparr>isNeg := s\<rparr>) t lam tb = Some ((fst r)\<lparr>isNeg := s\<rparr>, snd r)"
  have "?P N y t lam tb (y', t', lam')"
    by (rule bi_normalize.raw_induct [OF _ assms, where P = ?P])
      (subst bi_normalize.simps, auto simp: biShiftLeft_sign split: if_splits)
  then show ?thesis by simp
qed

lemma bi_div_step_sign: "bi_div_step N (y\<lparr>isNeg := s\<rparr>) t i qd r = bi_div_step N y t i qd r"
proof -
  have "bi_digit_at (y\<lparr>isNeg := s\<rparr>) j = bi_digit_at y j" for j by (simp add: bi_digit_at_def)
  then show ?thesis by (simp only: bi_div_step_def biMultiplyByRadixPower_sign)
qed

lemma bi_div_loop_sign: "bi_div_loop N (y\<lparr>isNeg := s\<rparr>) t i qd r = bi_div_loop N y t i qd r"
proof (induction N y t i qd r rule: bi_div_loop.induct)
  case (1 N y t i qd r)
  then show ?case
    by (subst (1 2) bi_div_loop.simps) (auto simp: bi_div_step_sign split: option.splits)
qed

lemma biDivideModulo_sign:
  assumes "\<not> isNeg x" "\<not> isNeg y" "biDivideModulo N x y = Some (q, r)"
  shows "\<exists>q'. biDivideModulo N x (y\<lparr>isNeg := s\<rparr>) = Some (q', r) \<and> (q' = q\<lparr>isNeg := s\<rparr> \<or> q' = q \<and> q = newBigInt N)"
proof (cases "biNumBits x < biNumBits y")
  case True
  with assms show ?thesis by (simp add: biDivideModulo_def biNumBits_sign)
next
  case False
  obtain y' t lam where n: "bi_normalize N y ((biNumBits y + 15) div 16 - 1) 0 (biNumBits y) = Some (y', t, lam)"
    using assms(3) False by (auto simp: biDivideModulo_def Let_def split: option.splits)
  define k where "k = (biNumBits x + int lam + 15) div 16 - 1"
  obtain r1 qd where top: "bi_top_loop N (biMultiplyByRadixPower N y' (k - t)) (k - t) (biShiftLeft N x lam) (digits (newBigInt N)) = Some (r1, qd)"
    using assms(3) False n by (auto simp: biDivideModulo_def Let_def k_def split: option.splits)
  obtain qd' r2 where loop: "bi_div_loop N y' t k qd r1 = Some (qd', r2)"
    using assms(3) False n top by (auto simp: biDivideModulo_def Let_def k_def split: option.splits)
  have n': "bi_normalize N (y\<lparr>isNeg := s\<rparr>) ((biNumBits y + 15) div 16 - 1) 0 (biNumBits y) = Some (y'\<lparr>isNeg := s\<rparr>, t, lam)"
    by (rule bi_normalize_sign [OF n])
  show ?thesis
    using assms False n n' top loop
    by (simp add: biDivideModulo_def Let_def biNumBits_sign biMultiplyByRadixPower_sign bi_div_loop_sign k_def [symmetric]) auto
qed

lemma natural_part: "wf_bi N x \<Longrightarrow> bnat N (x\<lparr>isNeg := False\<rparr>) \<bar>ival x\<bar>"
proof -
  assume "wf_bi N x"
  then obtain ds where ds: "x = bi ds (isNeg x)" "digs ds" "length ds = N" "ival x = sval ds (isNeg x)" by (rule wf_biE)
  have "x\<lparr>isNeg := False\<rparr> = bi ds False" by (subst ds(1)) (simp add: bi_def)
  then show ?thesis using bnatI [OF ds(2,3)] ds(2,4) by (simp add: sval_abs)
qed

lemma wf_bi_sign [simp]: "wf_bi N (x\<lparr>isNeg := s\<rparr>) = wf_bi N x"
  by (simp add: wf_bi_def)

lemma ival_sign: "ival (x\<lparr>isNeg := s\<rparr>) = (if s = isNeg x then ival x else - ival x)"
  by (simp add: ival_def sval_def)

lemma wf_abs: "wf_bi N x \<Longrightarrow> \<bar>ival x\<bar> = (if isNeg x then - ival x else ival x)"
  by (elim wf_biE) (auto simp: sval_def dest: bval_nonneg)

lemma fewer_bits_less:
  assumes "bnat N x v" "bnat N y w" "0 < N" "biNumBits x < biNumBits y"
  shows "v < w"
proof -
  obtain xs where xs: "x = bi xs False" "digs xs" "length xs = N" "bval xs = v" using assms(1) by (rule bnatE)
  obtain ys where ys: "y = bi ys False" "digs ys" "length ys = N" "bval ys = w" using assms(2) by (rule bnatE)
  have ne: "xs \<noteq> []" "ys \<noteq> []" using xs(3) ys(3) assms(3) by auto
  obtain nb where nb: "biNumBits x = int nb" "v < 2 ^ nb" using biNumBits_spec [OF xs(2) ne(1), of False] xs by metis
  obtain tb where tb: "biNumBits y = int tb" "tb = 0 \<or> 2 ^ (tb - 1) \<le> w" using biNumBits_spec [OF ys(2) ne(2), of False] ys by metis
  have "nb < tb" using assms(4) nb(1) tb(1) by simp
  then have "(2 :: int) ^ nb \<le> 2 ^ (tb - 1)" "tb \<noteq> 0" by (auto intro!: power_increasing)
  with nb(2) tb(2) show ?thesis by linarith
qed

text \<open>C5: \<open>biDivideModulo\<close> terminates and returns the Euclidean division, \<open>x = q * y + r\<close> with \<open>0 \<le> r < \<bar>y\<bar>\<close>, for every divisor other than
  zero, of either sign, and every dividend that leaves the top digit free and is not negative, or is negative and has fewer bits than the
  divisor; for natural numbers quotient and remainder are the well-formed objects of \<open>v div w\<close> and \<open>v mod w\<close>.\<close>

theorem biDivideModulo_euclid:
  assumes "wf_bi N x" "wf_bi N y" "ival y \<noteq> 0" "\<bar>ival x\<bar> < 65536 ^ (N - 1)" "1 < N"
    and "isNeg x \<Longrightarrow> ival x \<noteq> 0 \<and> biNumBits x < biNumBits y"
  shows "\<exists>q r. biDivideModulo N x y = Some (q, r) \<and> wf_bi N q \<and> wf_bi N r \<and> \<not> isNeg r \<and>
    ival x = ival q * ival y + ival r \<and> 0 \<le> ival r \<and> ival r < \<bar>ival y\<bar> \<and>
    (\<not> isNeg x \<and> \<not> isNeg y \<longrightarrow> bnat N q (ival x div ival y) \<and> bnat N r (ival x mod ival y))"
proof -
  let ?x = "x\<lparr>isNeg := False\<rparr>" and ?y = "y\<lparr>isNeg := False\<rparr>"
  have x: "bnat N ?x \<bar>ival x\<bar>" and y: "bnat N ?y \<bar>ival y\<bar>" using assms(1,2) by (simp_all add: natural_part)
  have sgn: "\<bar>ival x\<bar> = (if isNeg x then - ival x else ival x)" "\<bar>ival y\<bar> = (if isNeg y then - ival y else ival y)"
    using assms(1,2) by (simp_all only: wf_abs)
  show ?thesis
  proof (cases "isNeg x")
    case False
    then have xe: "?x = x" by simp
    obtain q r where qr: "biDivideModulo N x ?y = Some (q, r)" "bnat N q (ival x div \<bar>ival y\<bar>)" "bnat N r (ival x mod \<bar>ival y\<bar>)"
    proof -
      have "bnat N x (ival x)" "0 < \<bar>ival y\<bar>" "ival x < 65536 ^ (N - 1)" using x sgn(1) False assms(3,4) unfolding xe by simp_all
      from bnat_divide_modulo [OF this(1) y this(2,3) assms(5)] that show ?thesis by blast
    qed
    obtain q' where q': "biDivideModulo N x y = Some (q', r)" "q' = q\<lparr>isNeg := isNeg y\<rparr> \<or> q' = q \<and> q = newBigInt N"
      using biDivideModulo_sign [OF False _ qr(1), of "isNeg y"] by auto
    have "ival (newBigInt N) = 0" using bnat_zero by (simp add: bnat_def)
    then have iq: "ival q' = (if isNeg y then - ival q else ival q)" using q'(2) qr(2) by (auto simp: ival_sign bnat_def)
    have wq: "wf_bi N q'" using q'(2) qr(2) by (auto simp: bnat_def)
    have same: "\<not> isNeg y \<Longrightarrow> q' = q" using q'(2) qr(2) by (auto simp: bnat_def)
    have "ival x = ival q * \<bar>ival y\<bar> + ival r" using qr(2,3) by (simp add: bnat_def)
    then have "ival x = ival q' * ival y + ival r"
      using iq sgn(2) by (cases "isNeg y") (simp_all only: if_True if_False mult_minus_left mult_minus_right)
    moreover have "0 \<le> ival r" "ival r < \<bar>ival y\<bar>" using qr(3) assms(3) by (simp_all add: bnat_def)
    moreover have "\<not> isNeg y \<Longrightarrow> bnat N q' (ival x div ival y) \<and> bnat N r (ival x mod ival y)"
      using same qr(2,3) sgn(2) by simp
    ultimately show ?thesis using q'(1) qr(3) wq by (auto simp: bnat_def)
  next
    case True
    note neg = assms(6) [OF True]
    have N: "0 < N" using assms(5) by simp
    have less: "\<bar>ival x\<bar> < \<bar>ival y\<bar>" using fewer_bits_less [OF x y N] neg by (simp add: biNumBits_sign)
    define q r where "q = (biCopy (bigOne N))\<lparr>isNeg := \<not> isNeg y\<rparr>" and "r = biSubtract N ?y ?x"
    have "biDivideModulo N x y = Some (q, r)" using True neg by (simp add: biDivideModulo_def q_def r_def)
    moreover have r: "bnat N r (\<bar>ival y\<bar> - \<bar>ival x\<bar>)" unfolding r_def using less by (intro bnat_subtract_le [OF y x]) simp
    moreover have "wf_bi N q" "ival q = (if isNeg y then 1 else - 1)"
      using bnat_biCopy [OF bnat_one [OF N]] by (auto simp: q_def bnat_def ival_sign)
    moreover have "ival x = ival q * ival y + ival r" "0 \<le> ival r" "ival r < \<bar>ival y\<bar>"
    proof -
      have ir: "ival r = \<bar>ival y\<bar> - \<bar>ival x\<bar>" using r by (simp add: bnat_def)
      have ax: "\<bar>ival x\<bar> = - ival x" using sgn(1) True by argo
      have "ival q * ival y = - \<bar>ival y\<bar>" using \<open>ival q = _\<close> sgn(2) by (cases "isNeg y") (simp_all only: if_True if_False)
      then show "ival x = ival q * ival y + ival r" using ir ax by linarith
      show "0 \<le> ival r" "ival r < \<bar>ival y\<bar>" using ir less neg by linarith+
    qed
    ultimately show ?thesis using r True by (auto simp: bnat_def)
  qed
qed

theorem biDivideModulo_euclid_witness:
  "(\<exists>q r. biDivideModulo 4 (bi [1, 2, 3, 0] False) (bi [65535, 7, 0, 0] False) = Some (q, r) \<and>
     bnat 4 q 24576 \<and> bnat 4 r 155649) \<and>
   (\<exists>q r. biDivideModulo 4 (bi [2, 0, 0, 0] True) (bi [65535, 7, 0, 0] True) = Some (q, r) \<and>
     - 2 = ival q * - 524287 + ival r \<and> 0 \<le> ival r \<and> ival r < 524287)"
proof -
  have "biNumBits (bi [2, 0, 0, 0] True) < biNumBits (bi [65535, 7, 0, 0] True)" by code_simp
  then have "\<exists>q r. biDivideModulo 4 (bi [2, 0, 0, 0] True) (bi [65535, 7, 0, 0] True) = Some (q, r) \<and>
     - 2 = ival q * - 524287 + ival r \<and> 0 \<le> ival r \<and> ival r < 524287"
    using biDivideModulo_euclid [of 4 "bi [2, 0, 0, 0] True" "bi [65535, 7, 0, 0] True"] by (simp add: sval_def) blast
  moreover have "\<exists>q r. biDivideModulo 4 (bi [1, 2, 3, 0] False) (bi [65535, 7, 0, 0] False) = Some (q, r) \<and> bnat 4 q 24576 \<and> bnat 4 r 155649"
    using biDivideModulo_euclid [of 4 "bi [1, 2, 3, 0] False" "bi [65535, 7, 0, 0] False"] by (simp add: sval_def) blast
  ultimately show ?thesis by blast
qed

text \<open>A negative dividend with as many bits as the divisor or more is divided wrongly: for -7 and 3 the result is the pair of -2 and 13.\<close>

declare bi_normalize.simps [code] bi_top_loop.simps [code] bi_correct_loop.simps [code]

theorem biDivideModulo_negative_wrong:
  "biDivideModulo 4 (bi [7, 0, 0, 0] True) (bi [3, 0, 0, 0] False) = Some (bi [2, 0, 0, 0] True, bi [13, 0, 0, 0] False)"
  by code_simp

end
