(* ===== verification/Bigint_Barrett.thy ===== *)
theory Bigint_Barrett
  imports Bigint_Num
begin

text \<open>
  Modular arithmetic: \<^verbatim>\<open>BarrettMu\<close> with its methods \<^verbatim>\<open>modulo\<close>, \<^verbatim>\<open>multiplyMod\<close> and \<^verbatim>\<open>powMod\<close>, and the plain
  \<^verbatim>\<open>biMultiplyMod\<close>, \<^verbatim>\<open>biPow\<close> and \<^verbatim>\<open>biPowMod\<close>. The reduction and exponentiation loops are
  \<open>partial_function\<close>s: \<open>None\<close> is a loop that does not end. The lemmas show that they end.
\<close>

section \<open>Definitions\<close>

record barrett =
  bm_modulus :: bigint
  bm_k :: int
  bm_mu :: bigint
  bm_bkplus1 :: bigint

definition BarrettMu :: "nat \<Rightarrow> bigint \<Rightarrow> barrett option" where
  "BarrettMu N m =
     (let modulus = biCopy m;
          k = biHighIndex modulus + 1;
          b2k = \<lparr>digits = arr_set (digits (newBigInt N)) (2 * k) 1, isNeg = False\<rparr>
      in case biDivide N b2k modulus of
           None \<Rightarrow> None
         | Some mu \<Rightarrow>
             Some \<lparr>bm_modulus = modulus, bm_k = k, bm_mu = mu,
                   bm_bkplus1 = \<lparr>digits = arr_set (digits (newBigInt N)) (k + 1) 1, isNeg = False\<rparr>\<rparr>)"

partial_function (option) bi_reduce_loop :: "nat \<Rightarrow> bigint \<Rightarrow> bigint \<Rightarrow> bigint option" where
  "bi_reduce_loop N m r = (if 0 \<le> biCompare r m then bi_reduce_loop N m (biSubtract N r m) else Some r)"

definition BarrettMu_modulo :: "nat \<Rightarrow> barrett \<Rightarrow> bigint \<Rightarrow> bigint option" where
  "BarrettMu_modulo N bm x =
     (let q1 = biDivideByRadixPower N x (bm_k bm - 1);
          q2 = biMultiply N q1 (bm_mu bm);
          q3 = biDivideByRadixPower N q2 (bm_k bm + 1);
          r1 = biModuloByRadixPower N x (bm_k bm + 1);
          r2term = biMultiply N q3 (bm_modulus bm);
          r2 = biModuloByRadixPower N r2term (bm_k bm + 1);
          r = biSubtract N r1 r2;
          r = (if isNeg r then biAdd N r (bm_bkplus1 bm) else r)
      in bi_reduce_loop N (bm_modulus bm) r)"

definition BarrettMu_multiplyMod :: "nat \<Rightarrow> barrett \<Rightarrow> bigint \<Rightarrow> bigint \<Rightarrow> bigint option" where
  "BarrettMu_multiplyMod N bm x y = BarrettMu_modulo N bm (biMultiply N x y)"

text \<open>The exponentiation loop, for a multiplication \<open>mul\<close> that may fail.\<close>

partial_function (option) bi_pow_loop ::
    "nat \<Rightarrow> (bigint \<Rightarrow> bigint \<Rightarrow> bigint option) \<Rightarrow> bigint \<Rightarrow> bigint \<Rightarrow> bigint \<Rightarrow> bigint option" where
  "bi_pow_loop N mul result a k =
     Option.bind (if js_and (arr_bits (digits k) 0) 1 \<noteq> 0 then mul result a else Some result) (\<lambda>result.
       let k = biShiftRight N k 1
       in if arr_get (digits k) 0 = Some 0 \<and> biHighIndex k = 0 then Some result
          else Option.bind (mul a a) (\<lambda>a. bi_pow_loop N mul result a k))"

definition BarrettMu_powMod :: "nat \<Rightarrow> barrett \<Rightarrow> bigint \<Rightarrow> bigint \<Rightarrow> bigint option" where
  "BarrettMu_powMod N bm x y =
     bi_pow_loop N (BarrettMu_multiplyMod N bm) \<lparr>digits = arr_set (digits (newBigInt N)) 0 1, isNeg = False\<rparr> x y"

definition biMultiplyMod :: "nat \<Rightarrow> bigint \<Rightarrow> bigint \<Rightarrow> bigint \<Rightarrow> bigint option" where
  "biMultiplyMod N x y m = biModulo N (biMultiply N x y) m"

definition biPowMod :: "nat \<Rightarrow> bigint \<Rightarrow> bigint \<Rightarrow> bigint \<Rightarrow> bigint option" where
  "biPowMod N x y m = bi_pow_loop N (\<lambda>a b. biMultiplyMod N a b m) (bigOne N) x y"

partial_function (option) bi_small_pow_loop :: "nat \<Rightarrow> bigint \<Rightarrow> bigint \<Rightarrow> int \<Rightarrow> bigint option" where
  "bi_small_pow_loop N result a y =
     (let result = (if js_and y 1 \<noteq> 0 then biMultiply N result a else result);
          y = js_shr y 1
      in if y = 0 then Some result else bi_small_pow_loop N result (biMultiply N a a) y)"

definition biPow :: "nat \<Rightarrow> bigint \<Rightarrow> int \<Rightarrow> bigint option" where
  "biPow N x y = bi_small_pow_loop N (bigOne N) x y"

section \<open>Barrett reduction\<close>

text \<open>The quotient that Barrett's method finds is at most 2 too small.\<close>

lemma barrett_quotient:
  fixes x m P S :: int
  assumes m: "0 < m" "P \<le> m" and P: "0 < P" "0 < S" and x: "0 \<le> x" "x < P * S"
  defines "mu \<equiv> (P * S) div m"
  defines "q \<equiv> (x div P * mu) div S"
  shows "0 \<le> q" "q * m \<le> x" "x < (q + 3) * m"
proof -
  let ?X = "x div P"
  have mu: "mu * m \<le> P * S" "P * S \<le> mu * m + m" "0 \<le> mu"
    using div_bounds [OF m(1), of "P * S"] m(1) P by (simp_all add: mu_def pos_imp_zdiv_nonneg_iff)
  have X: "?X * P \<le> x" "x < ?X * P + P" "0 \<le> ?X"
    using div_bounds [OF P(1), of x] x(1) P(1) by (simp_all add: pos_imp_zdiv_nonneg_iff)
  have q: "q * S \<le> ?X * mu" "?X * mu < q * S + S"
    using div_bounds [OF P(2), of "?X * mu"] by (simp_all add: q_def)
  show "0 \<le> q" using X(3) mu(3) P(2) by (simp add: q_def pos_imp_zdiv_nonneg_iff)
  have "?X * (mu * m) \<le> ?X * (P * S)" using mu(1) X(3) by (rule mult_left_mono)
  moreover have "q * S * m \<le> ?X * mu * m" using q(1) m(1) by (intro mult_right_mono) auto
  moreover have "?X * P * S \<le> x * S" using X(1) P(2) by (intro mult_right_mono) auto
  ultimately have "q * m * S \<le> x * S" by (simp add: mult_ac)
  then show "q * m \<le> x" using P(2) by simp
  have "?X * P < S * P" using X(1) x(2) by (simp add: mult.commute)
  then have "?X < S" using P(1) by simp
  then have "?X * m < S * m" using m(1) by simp
  moreover have "?X * mu * m < (q * S + S) * m" using q(2) m(1) by (intro mult_strict_right_mono) auto
  moreover have "?X * (P * S) \<le> ?X * (mu * m + m)" using mu(2) X(3) by (rule mult_left_mono)
  moreover have "P * S \<le> m * S" using m(2) P(2) by (intro mult_right_mono) auto
  moreover have "x * S < (?X * P + P) * S" using X(2) P(2) by (intro mult_strict_right_mono) auto
  ultimately have "x * S < (q + 3) * m * S" by (simp add: algebra_simps)
  then show "x < (q + 3) * m" using P(2) by simp
qed

text \<open>What a Barrett context for the modulus \<open>m\<close> of \<open>k\<close> digits holds.\<close>

definition barrett_ok :: "nat \<Rightarrow> int \<Rightarrow> nat \<Rightarrow> barrett \<Rightarrow> bool" where
  "barrett_ok N m k bm \<longleftrightarrow>
     0 < k \<and> 2 * k + 2 < N \<and> 65536 ^ (k - 1) \<le> m \<and> m < 65536 ^ k \<and>
     bnat N (bm_modulus bm) m \<and> bm_k bm = int k \<and> bnat N (bm_mu bm) (65536 ^ (2 * k) div m) \<and>
     bnat N (bm_bkplus1 bm) (65536 ^ (k + 1))"

lemma BarrettMu_ok:
  assumes x: "bnat N x m" "0 < m" and k: "biHighIndex x + 1 = int k" "2 * k + 2 < N"
  obtains bm where "BarrettMu N x = Some bm" "barrett_ok N m k bm"
proof -
  have N: "0 < N" "1 < N" using k by simp_all
  obtain h where h: "biHighIndex x = int h" "m < 65536 ^ Suc h" "h = 0 \<or> 65536 ^ h \<le> m"
    using bnat_high [OF x(1) N(1)] by metis
  have kh: "k = Suc h" using k(1) h(1) by simp
  have low: "65536 ^ (k - 1) \<le> m" using h(3) x(2) kh by auto
  have copy: "bnat N (biCopy x) m" "biHighIndex (biCopy x) = biHighIndex x"
    using bnat_biCopy [OF x(1)] by (simp_all add: biCopy_def biHighIndex_def)
  let ?unit = "\<lambda>i. \<lparr>digits = arr_set (digits (newBigInt N)) i 1, isNeg = False\<rparr>"
  have units: "bnat N (?unit (int (2 * k))) (65536 ^ (2 * k))" "bnat N (?unit (int (k + 1))) (65536 ^ (k + 1))"
    using bnat_unit [of "2 * k" N 1] bnat_unit [of "k + 1" N 1] k(2) by simp_all
  have "65536 ^ (2 * k) < (65536 :: int) ^ (N - 1)"
    using k(2) by (intro power_strict_increasing) auto
  then obtain q r where q: "biDivideModulo N (?unit (int (2 * k))) (biCopy x) = Some (q, r)"
    "bnat N q (65536 ^ (2 * k) div m)"
    using bnat_divide_modulo [OF units(1) copy(1) x(2) _ N(2)] by metis
  have ints: "2 * int k = int (2 * k)" "int k + 1 = int (k + 1)" by simp_all
  let ?bm = "\<lparr>bm_modulus = biCopy x, bm_k = int k, bm_mu = q, bm_bkplus1 = ?unit (int (k + 1))\<rparr>"
  have "BarrettMu N x = Some ?bm"
    unfolding BarrettMu_def Let_def copy(2) k(1) biDivide_def ints q(1) by simp
  moreover have "barrett_ok N m k ?bm"
    using copy(1) units(2) q(2) k low h(2) kh by (simp add: barrett_ok_def)
  ultimately show ?thesis using that by blast
qed

lemma bi_reduce_loop_ok:
  assumes m: "bnat N mm m" "0 < m"
  shows "bnat N r v \<Longrightarrow> \<exists>z. bi_reduce_loop N mm r = Some z \<and> bnat N z (v mod m)"
proof (induction "nat v" arbitrary: r v rule: less_induct)
  case less
  have v: "0 \<le> v" using bnat_bounds [OF less.prems] by simp
  have cmp: "0 \<le> biCompare r mm \<longleftrightarrow> m \<le> v"
    using bnat_compare [OF less.prems m(1)] by (simp add: sgn_if)
  show ?case
  proof (cases "m \<le> v")
    case True
    then have "bnat N (biSubtract N r mm) (v - m)"
      using bnat_subtract_le [OF less.prems m(1)] by simp
    moreover have "nat (v - m) < nat v" using True m(2) by simp
    ultimately obtain z where "bi_reduce_loop N mm (biSubtract N r mm) = Some z" "bnat N z ((v - m) mod m)"
      using less.hyps by blast
    then show ?thesis using True cmp by (subst bi_reduce_loop.simps) simp
  next
    case False
    then show ?thesis using less.prems cmp v by (subst bi_reduce_loop.simps) simp
  qed
qed

text \<open>
  The difference of the two truncated numbers, with \<^verbatim>\<open>bkplus1\<close> added when it is negative, is the
  difference of the numbers themselves.
\<close>

lemma barrett_difference:
  fixes a b S :: int
  assumes "0 \<le> a - b" "a - b < S"
  shows "a mod S < b mod S \<Longrightarrow> S - (b mod S - a mod S) = a - b"
    and "b mod S \<le> a mod S \<Longrightarrow> a mod S - b mod S = a - b"
proof -
  have S: "0 < S" using assms by simp
  have eq: "a - b = (a mod S - b mod S) mod S" using assms by (simp add: mod_diff_eq)
  have range: "0 \<le> a mod S" "a mod S < S" "0 \<le> b mod S" "b mod S < S" using S by simp_all
  show "b mod S \<le> a mod S \<Longrightarrow> a mod S - b mod S = a - b"
    unfolding eq using range by (intro mod_pos_pos_trivial [symmetric]) linarith+
  assume less: "a mod S < b mod S"
  have "(a mod S - b mod S) mod S = (a mod S - b mod S + S) mod S" by simp
  also have "\<dots> = a mod S - b mod S + S" using less range by (intro mod_pos_pos_trivial) linarith+
  finally show "S - (b mod S - a mod S) = a - b" unfolding eq by simp
qed

lemma barrett_bounds:
  fixes x m :: int
  assumes "0 < k" "65536 ^ (k - 1) \<le> m" "0 \<le> x" "x < 65536 ^ (2 * k)"
  defines "mu \<equiv> 65536 ^ (2 * k) div m"
  defines "q \<equiv> (x div 65536 ^ (k - 1) * mu) div 65536 ^ (k + 1)"
  shows "0 \<le> q" "q * m \<le> x" "x < (q + 3) * m"
    and "x div 65536 ^ (k - 1) < 65536 ^ (k + 1)" "mu < 65536 ^ (k + 2)" "q < 65536 ^ (k + 1)"
proof -
  let ?P = "65536 ^ (k - 1) :: int" and ?S = "65536 ^ (k + 1) :: int"
  have "k - 1 + (k + 1) = 2 * k" using assms(1) by simp
  then have PS: "?P * ?S = 65536 ^ (2 * k)" by (simp only: power_add [symmetric])
  have P: "0 < ?P" "0 < ?S" by simp_all
  then have m: "0 < m" using assms(2) by linarith
  show quot: "0 \<le> q" "q * m \<le> x" "x < (q + 3) * m"
    using barrett_quotient [OF m assms(2) P assms(3)] assms(4) unfolding PS q_def mu_def by simp_all
  have up: "v \<le> ?S" if "v * m \<le> ?P * ?S" "0 \<le> v" for v
  proof -
    have "v * ?P \<le> v * m" using assms(2) that(2) by (rule mult_left_mono)
    then have "v * ?P \<le> ?S * ?P" using that(1) by (simp only: mult.commute)
    then show ?thesis using P(1) by (rule mult_right_le_imp_le)
  qed
  have "mu * m \<le> ?P * ?S" "0 \<le> mu"
    using div_bounds(1) [OF m, of "65536 ^ (2 * k)"] m unfolding mu_def PS by (simp_all add: pos_imp_zdiv_nonneg_iff)
  then have "mu \<le> ?S" by (rule up)
  also have "?S < 65536 ^ (k + 2)" by (intro power_strict_increasing) auto
  finally show "mu < 65536 ^ (k + 2)" .
  have "x < ?S * ?P" using assms(4) PS by (simp only: mult.commute)
  then show "x div ?P < ?S" using radix_le_div [of ?S x "k - 1"] by linarith
  have "q * ?P \<le> q * m" using assms(2) quot(1) by (rule mult_left_mono)
  then have "q * ?P < ?S * ?P" using quot(2) \<open>x < ?S * ?P\<close> by linarith
  then show "q < ?S" by (rule mult_right_less_imp_less) (rule less_imp_le [OF P(1)])
qed

lemma BarrettMu_modulo_ok:
  assumes ok: "barrett_ok N m k bm" and x: "bnat N x v" "v < 65536 ^ (2 * k)"
  obtains z where "BarrettMu_modulo N bm x = Some z" "bnat N z (v mod m)"
proof -
  have k: "0 < k" "2 * k + 2 < N" and m: "65536 ^ (k - 1) \<le> m" "m < 65536 ^ k"
    and bm: "bnat N (bm_modulus bm) m" "bm_k bm = int k" "bnat N (bm_mu bm) (65536 ^ (2 * k) div m)"
      "bnat N (bm_bkplus1 bm) (65536 ^ (k + 1))"
    using ok by (simp_all add: barrett_ok_def)
  let ?P = "65536 ^ (k - 1) :: int" and ?S = "65536 ^ (k + 1) :: int"
  define q where "q = v div ?P * (65536 ^ (2 * k) div m) div ?S"
  have v: "0 \<le> v" using bnat_bounds [OF x(1)] by simp
  have q: "0 \<le> q" "q * m \<le> v" "v < (q + 3) * m" "v div ?P < ?S" "65536 ^ (2 * k) div m < 65536 ^ (k + 2)" "q < ?S"
    using barrett_bounds [OF k(1) m(1) v x(2)] unfolding q_def by simp_all
  have S: "0 < ?S" and "0 < ?P" by simp_all
  then have mpos: "0 < m" using m(1) by linarith
  have ix: "int k - 1 = int (k - 1)" "int k + 1 = int (k + 1)" using k(1) by (simp_all add: of_nat_diff)
  have kN: "k - 1 \<le> N" "k + 1 \<le> N" "k + 1 + (k + 2) \<le> N" "k + 1 + k \<le> N" using k by simp_all
  let ?q1 = "biDivideByRadixPower N x (int (k - 1))"
  let ?q2 = "biMultiply N ?q1 (bm_mu bm)"
  let ?q3 = "biDivideByRadixPower N ?q2 (int (k + 1))"
  let ?r1 = "biModuloByRadixPower N x (int (k + 1))"
  let ?r2 = "biModuloByRadixPower N (biMultiply N ?q3 (bm_modulus bm)) (int (k + 1))"
  let ?r = "biSubtract N ?r1 ?r2"
  let ?rr = "if isNeg ?r then biAdd N ?r (bm_bkplus1 bm) else ?r"
  have q2: "bnat N ?q2 (v div ?P * (65536 ^ (2 * k) div m))"
    using bnat_multiply [OF bnat_radix(1) [OF x(1) kN(1)] bm(3) q(4,5) _ _ kN(3)] by simp
  have q3: "bnat N ?q3 q" unfolding q_def by (rule bnat_radix(1) [OF q2 kN(2)])
  have r2: "bnat N ?r2 (q * m mod ?S)"
    using bnat_multiply [OF q3 bm(1) q(6) m(2) _ k(1) kN(4)] by (intro bnat_radix(2) kN(2)) simp
  note r = bnat_subtract [OF bnat_radix(2) [OF x(1) kN(2)] r2]
  have "3 * m < 65536 * 65536 ^ k" using m(2) mpos by simp
  then have t: "0 \<le> v - q * m" "v - q * m < ?S" using q(2,3) by (simp_all add: distrib_right)
  have "bnat N ?rr (v - q * m)"
  proof (cases "v mod ?S < q * m mod ?S")
    case True
    then have "isNeg ?r" "bnat N (?r\<lparr>isNeg := False\<rparr>) (q * m mod ?S - v mod ?S)" using r by simp_all
    moreover have "q * m mod ?S - v mod ?S < ?S"
      using pos_mod_bound [OF S, of "q * m"] pos_mod_sign [OF S, of v] by linarith
    ultimately have "bnat N ?rr (?S - (q * m mod ?S - v mod ?S))" using bnat_add_neg [OF _ _ bm(4)] by presburger
    then show ?thesis unfolding barrett_difference(1) [OF t True] .
  next
    case False
    then have "bnat N ?r (v mod ?S - q * m mod ?S)"
      using bnat_subtract_le [OF bnat_radix(2) [OF x(1) kN(2)] r2] by simp
    then show ?thesis
      using False r(1) barrett_difference(2) [OF t] by simp
  qed
  then obtain z where "bi_reduce_loop N (bm_modulus bm) ?rr = Some z" "bnat N z ((v - q * m) mod m)"
    using bi_reduce_loop_ok [OF bm(1) mpos] by blast
  moreover have "(v - q * m) mod m = v mod m" by (simp add: mod_diff_right_eq [symmetric])
  ultimately show ?thesis
    using that unfolding BarrettMu_modulo_def Let_def bm(2) ix by simp
qed

section \<open>Exponentiation\<close>

text \<open>
  What the exponentiation loop needs of the product it is given: on numbers below a bound that the
  modulus respects, it returns the product modulo \<open>m\<close>. Both \<^verbatim>\<open>powMod\<close> and \<^verbatim>\<open>biPowMod\<close> run the loop.
\<close>

lemma power_half: "0 \<le> e \<Longrightarrow> v ^ nat e = (if odd e then v else 1) * (v * v) ^ nat (e div 2)" for e v :: int
proof -
  assume "0 \<le> e"
  moreover have "e = of_bool (odd e) + 2 * (e div 2)" by (simp add: mod2_eq_if [symmetric] of_bool_odd_eq_mod_2)
  ultimately have "nat e = of_bool (odd e) + 2 * nat (e div 2)" by (cases "odd e") auto
  then show ?thesis by (simp add: power_add power_mult power2_eq_square)
qed

locale modular_product =
  fixes ctx_ok :: "'c \<Rightarrow> nat \<Rightarrow> int \<Rightarrow> int \<Rightarrow> bool" and mul :: "nat \<Rightarrow> 'c \<Rightarrow> bigint \<Rightarrow> bigint \<Rightarrow> bigint option"
  assumes ctx: "ctx_ok c N m B \<Longrightarrow> 0 < N \<and> 1 < m \<and> m \<le> B"
    and mul: "\<lbrakk>ctx_ok c N m B; bnat N a u; bnat N b v; u < B; v < B\<rbrakk> \<Longrightarrow>
      \<exists>z. mul N c a b = Some z \<and> bnat N z (u * v mod m)"
begin

lemma mod_less: "ctx_ok c N m B \<Longrightarrow> u mod m < B"
  using ctx [of c N m B] pos_mod_bound [of m u] by linarith

lemma pow_loop:
  assumes ok: "ctx_ok c N m B"
  shows "\<lbrakk>bnat N r u; bnat N a v; bnat N k e; u < B; v < B; 0 < e \<or> u < m\<rbrakk> \<Longrightarrow>
    \<exists>z. bi_pow_loop N (mul N c) r a k = Some z \<and> bnat N z (u * v ^ nat e mod m)"
proof (induction "nat e" arbitrary: r u a v k e rule: less_induct)
  case less
  have N: "0 < N" and m: "1 < m" using ctx [OF ok] by simp_all
  have e: "0 \<le> e" and u: "0 \<le> u" using bnat_bounds [OF less.prems(3)] bnat_bounds [OF less.prems(1)] by simp_all
  have bit: "js_and (arr_bits (digits k) 0) 1 \<noteq> 0 \<longleftrightarrow> odd e"
    using bnat_digit0 [OF less.prems(3) N] by (simp add: js_and_one mod_mod_cancel odd_iff_mod_2_eq_one)
  define u' where "u' = (if odd e then u * v mod m else u)"
  obtain r' where r': "(if odd e then mul N c r a else Some r) = Some r'" "bnat N r' u'"
    using mul [OF ok less.prems(1,2,4,5)] less.prems(1) unfolding u'_def by (cases "odd e") auto
  have k': "bnat N (biShiftRight N k 1) (e div 2)"
    using bnat_shift(1) [OF less.prems(3) N, of 1] N by simp
  note stop = bnat_high_zero [OF k' N]
  have pow: "u * v ^ nat e mod m = u' * (v * v) ^ nat (e div 2) mod m"
    using power_half [OF e, of v] by (auto simp: u'_def mod_mult_left_eq mult.assoc)
  show ?case
  proof (cases "e div 2 = 0")
    case True
    then have "u' < m" using less.prems(6) e m by (auto simp: u'_def)
    moreover have "0 \<le> u'" using u m by (simp add: u'_def)
    ultimately have "u' = u * v ^ nat e mod m" unfolding pow using True by simp
    then show ?thesis
      using r' stop True bit by (subst bi_pow_loop.simps) (simp add: Let_def)
  next
    case False
    obtain a' where a': "mul N c a a = Some a'" "bnat N a' (v * v mod m)"
      using mul [OF ok less.prems(2,2,5,5)] by blast
    have "u' < B" using less.prems(4) mod_less [OF ok] by (simp add: u'_def)
    moreover have "nat (e div 2) < nat e" "0 < e div 2" using False e by auto
    ultimately obtain z where "bi_pow_loop N (mul N c) r' a' (biShiftRight N k 1) = Some z"
      "bnat N z (u' * (v * v mod m) ^ nat (e div 2) mod m)"
      using less.hyps [OF _ r'(2) a'(2) k'] mod_less [OF ok] by blast
    moreover have "u' * (v * v mod m) ^ nat (e div 2) mod m = u * v ^ nat e mod m"
      unfolding pow by (metis mod_mult_right_eq power_mod)
    ultimately show ?thesis
      using r' a'(1) stop False bit by (subst bi_pow_loop.simps) (auto simp: Let_def)
  qed
qed

lemma pow_correct:
  assumes "ctx_ok c N m B" and "bnat N r 1" "bnat N x v" "bnat N y e" "v < B"
  shows "\<exists>z. bi_pow_loop N (mul N c) r x y = Some z \<and> bnat N z (v ^ nat e mod m)"
  using pow_loop [OF assms(1-4) _ assms(5)] ctx [OF assms(1)] by simp

end

text \<open>The product of \<^verbatim>\<open>BarrettMu\<close>: operands below the bound have a product of at most \<open>2k\<close> digits.\<close>

definition barrett_ctx :: "barrett \<Rightarrow> nat \<Rightarrow> int \<Rightarrow> int \<Rightarrow> bool" where
  "barrett_ctx bm N m B \<longleftrightarrow> 1 < m \<and> barrett_ok N m (nat (bm_k bm)) bm \<and> B = 65536 ^ nat (bm_k bm)"

lemma product_less:
  fixes u v :: int
  assumes "0 \<le> u" "u < b ^ k" "0 \<le> v" "v < b ^ k"
  shows "u * v < b ^ (2 * k)"
  using mult_strict_mono' [OF assms(2,4,1,3)] by (simp add: mult_2 power_add)

interpretation bar: modular_product barrett_ctx BarrettMu_multiplyMod
proof
  show "0 < N \<and> 1 < m \<and> m \<le> B" if "barrett_ctx c N m B" for c N m B
    using that by (auto simp: barrett_ctx_def barrett_ok_def)
next
  fix c N m B a u b v
  assume ok: "barrett_ctx c N m B" and a: "bnat N a u" and b: "bnat N b v" and B: "u < B" "v < B"
  define k where "k = nat (bm_k c)"
  have k: "barrett_ok N m k c" "B = 65536 ^ k" "0 < k" "k + k \<le> N"
    using ok by (auto simp: barrett_ctx_def barrett_ok_def k_def)
  have "bnat N (biMultiply N a b) (u * v)"
    using bnat_multiply [OF a b _ _ k(3,3,4)] B k(2) by simp
  moreover have "u * v < 65536 ^ (2 * k)"
    using product_less B k(2) bnat_bounds [OF a] bnat_bounds [OF b] by simp
  ultimately show "\<exists>z. BarrettMu_multiplyMod N c a b = Some z \<and> bnat N z (u * v mod m)"
    unfolding BarrettMu_multiplyMod_def using BarrettMu_modulo_ok [OF k(1)] by metis
qed

lemma BarrettMu_powMod_ok:
  assumes "barrett_ok N m k bm" "1 < m" "bnat N x v" "v < 65536 ^ k" "bnat N y e"
  obtains z where "BarrettMu_powMod N bm x y = Some z" "bnat N z (v ^ nat e mod m)"
proof -
  have "nat (bm_k bm) = k" "0 < N" using assms(1) by (auto simp: barrett_ok_def)
  with assms(1,2) have ctx: "barrett_ctx bm N m (65536 ^ k)" by (simp only: barrett_ctx_def)
  have one: "bnat N \<lparr>digits = arr_set (digits (newBigInt N)) 0 1, isNeg = False\<rparr> 1"
    using bnat_unit [of 0 N 1] \<open>0 < N\<close> by simp
  show ?thesis
    using bar.pow_correct [OF ctx one assms(3,5,4)] that unfolding BarrettMu_powMod_def by blast
qed

text \<open>The product of the plain \<^verbatim>\<open>biMultiplyMod\<close>, for a modulus of at most half of the digits.\<close>

definition plain_ctx :: "bigint \<Rightarrow> nat \<Rightarrow> int \<Rightarrow> int \<Rightarrow> bool" where
  "plain_ctx c N m B \<longleftrightarrow> 1 < m \<and> bnat N c m \<and> m \<le> B \<and> 2 < N \<and> B = 65536 ^ ((N - 1) div 2)"

interpretation plain: modular_product plain_ctx "\<lambda>N m a b. biMultiplyMod N a b m"
proof
  show "0 < N \<and> 1 < m \<and> m \<le> B" if "plain_ctx c N m B" for c N m B
    using that by (auto simp: plain_ctx_def)
next
  fix c N m B a u b v
  assume ok: "plain_ctx c N m B" and a: "bnat N a u" and b: "bnat N b v" and B: "u < B" "v < B"
  define k where "k = (N - 1) div 2"
  have k: "1 < m" "bnat N c m" "1 < N" "B = 65536 ^ k" "0 < k" "k + k \<le> N" "2 * k \<le> N - 1"
    using ok by (auto simp: plain_ctx_def k_def)
  have "bnat N (biMultiply N a b) (u * v)"
    using bnat_multiply [OF a b _ _ k(5,5,6)] B k(4) by simp
  moreover have "u * v < 65536 ^ (2 * k)"
    using product_less B k(4) bnat_bounds [OF a] bnat_bounds [OF b] by simp
  then have "u * v < 65536 ^ (N - 1)"
    by (rule order.strict_trans2) (use k(7) in \<open>intro power_increasing; simp\<close>)
  ultimately obtain q r where "biDivideModulo N (biMultiply N a b) c = Some (q, r)" "bnat N r (u * v mod m)"
    using bnat_divide_modulo [OF _ k(2) _ _ k(3)] k(1) by (metis less_trans zero_less_one)
  then show "\<exists>z. biMultiplyMod N a b c = Some z \<and> bnat N z (u * v mod m)"
    by (simp add: biMultiplyMod_def biModulo_def)
qed

section \<open>Powers with a machine-integer exponent\<close>

lemma bi_small_pow_loop_ok:
  assumes N: "1 < N"
  shows "\<lbrakk>bnat N r u; bnat N a v; 0 < u; 0 < v; 0 \<le> y; y < 2147483648; u * v ^ nat y < 65536 ^ (N - 1)\<rbrakk> \<Longrightarrow>
    \<exists>z. bi_small_pow_loop N r a y = Some z \<and> bnat N z (u * v ^ nat y)"
proof (induction "nat y" arbitrary: r u a v y rule: less_induct)
  case less
  note y = \<open>0 \<le> y\<close> and pos = \<open>0 < u\<close> \<open>0 < v\<close>
  define u' where "u' = (if odd y then u * v else u)"
  have pow: "u * v ^ nat y = u' * (v * v) ^ nat (y div 2)"
    using power_half [OF y, of v] by (simp add: u'_def mult.assoc)
  have pos': "0 < u'" "0 < v * v" using pos by (simp_all add: u'_def)
  have ge: "1 \<le> (v * v) ^ n" for n using pos'(2) by (intro one_le_power) simp
  have "u' \<le> u * v ^ nat y"
    unfolding pow using ge [of "nat (y div 2)"] pos'(1) by simp
  then have "u' < 65536 ^ (N - 1)" using less.prems(7) by linarith
  define r' where "r' = (if js_and y 1 \<noteq> 0 then biMultiply N r a else r)"
  have r': "bnat N r' u'"
    using bnat_multiply_small [OF less.prems(1,2) N _ pos] less.prems(1) \<open>u' < _\<close>
    by (auto simp: r'_def u'_def js_and_one odd_iff_mod_2_eq_one)
  have y': "js_shr y 1 = y div 2" using js_shr_div [of y 1] y less.prems(6) by simp
  show ?case
  proof (cases "y div 2 = 0")
    case True
    then have "bi_small_pow_loop N r a y = Some r'"
      using y' by (subst bi_small_pow_loop.simps) (simp add: Let_def r'_def)
    then show ?thesis using r' True unfolding pow by simp
  next
    case False
    then have half: "0 \<le> y div 2" "y div 2 < 2147483648" "nat (y div 2) < nat y" "0 < nat (y div 2)"
      using y less.prems(6) by auto
    have "v * v \<le> (v * v) ^ nat (y div 2)"
      using self_le_power [OF _ half(4), of "v * v"] ge [of 1] by (simp only: power_one_right)
    also have "\<dots> \<le> u * v ^ nat y" unfolding pow using pos' by (simp add: mult_le_cancel_right1)
    finally have "v * v < 65536 ^ (N - 1)" using less.prems(7) by linarith
    then have "bnat N (biMultiply N a a) (v * v)"
      using bnat_multiply_small [OF less.prems(2,2) N _ pos(2,2)] by simp
    then obtain z where z: "bi_small_pow_loop N r' (biMultiply N a a) (y div 2) = Some z"
      "bnat N z (u' * (v * v) ^ nat (y div 2))"
      using less.hyps [OF half(3) r' _ pos' half(1,2)] less.prems(7) pow by auto
    have "bi_small_pow_loop N r a y = bi_small_pow_loop N r' (biMultiply N a a) (y div 2)"
      using y' False by (subst bi_small_pow_loop.simps) (simp add: Let_def r'_def)
    then show ?thesis using z unfolding pow by simp
  qed
qed

section \<open>Properties\<close>

text \<open>C7: for a modulus of \<open>k\<close> digits with \<open>2 * k + 2 < N\<close>, the Barrett context is built, its \<open>modulo\<close>
  terminates on every number of at most \<open>2 * k\<close> digits, and it returns the very object that the plain
  \<open>biModulo\<close> returns: the remainder.\<close>

theorem barrett_modulo_equals_biModulo:
  assumes "bnat N mm m" "0 < m" "2 * (biHighIndex mm + 1) + 2 < int N"
    and "bnat N x v" "v < 65536 ^ nat (2 * (biHighIndex mm + 1))"
  shows "\<exists>bm z. BarrettMu N mm = Some bm \<and> BarrettMu_modulo N bm x = Some z \<and> biModulo N x mm = Some z \<and>
    bnat N z (v mod m)"
proof -
  have "0 < N" using assms(1,3) by (cases N) (auto simp: bnat_def wf_bi_def biHighIndex_def split: if_splits)
  then obtain h where h: "biHighIndex mm = int h" using bnat_high [OF assms(1)] by metis
  define k where "k = Suc h"
  have k: "biHighIndex mm + 1 = int k" "2 * k + 2 < N" "nat (2 * (biHighIndex mm + 1)) = 2 * k"
    using h assms(3) by (simp_all add: k_def nat_add_distrib nat_mult_distrib)
  obtain bm where bm: "BarrettMu N mm = Some bm" "barrett_ok N m k bm"
    using BarrettMu_ok [OF assms(1,2) k(1,2)] by metis
  obtain z where z: "BarrettMu_modulo N bm x = Some z" "bnat N z (v mod m)"
    using BarrettMu_modulo_ok [OF bm(2) assms(4)] assms(5) k(3) by auto
  have "v < 65536 ^ (N - 1)"
    using assms(5) unfolding k(3) by (rule order.strict_trans2) (use k(2) in \<open>intro power_increasing; simp\<close>)
  then obtain q r where "biDivideModulo N x mm = Some (q, r)" "bnat N r (v mod m)"
    using bnat_divide_modulo [OF assms(4,1,2)] k(2) by (metis add_lessD1 less_trans one_less_numeral_iff semiring_norm(76) add.commute)
  then have "biModulo N x mm = Some z" using bnat_unique [OF z(2)] by (simp add: biModulo_def)
  with bm z show ?thesis by blast
qed

theorem barrett_modulo_equals_biModulo_witness:
  "\<exists>bm z. BarrettMu 8 (bi [9, 3, 0, 0, 0, 0, 0, 0] False) = Some bm \<and>
     BarrettMu_modulo 8 bm (bi [1, 2, 3, 4, 0, 0, 0, 0] False) = Some z \<and>
     biModulo 8 (bi [1, 2, 3, 4, 0, 0, 0, 0] False) (bi [9, 3, 0, 0, 0, 0, 0, 0] False) = Some z \<and>
     bnat 8 z (1125912791875585 mod 196617)"
proof -
  have high: "biHighIndex (bi [9, 3, 0, 0, 0, 0, 0, 0] False) = 1" by code_simp
  show ?thesis
    by (rule barrett_modulo_equals_biModulo) (auto simp: high intro!: bnatI)
qed

text \<open>C6: for a modulus \<open>m > 1\<close> of \<open>k\<close> digits with \<open>2 * k + 2 < N\<close> and a base of at most \<open>k\<close> digits,
  \<open>powMod\<close> of the Barrett context and the plain \<open>biPowMod\<close> both terminate, for every exponent, with the same
  object: the power modulo \<open>m\<close>.\<close>

theorem powMod_equals_biPowMod:
  assumes "bnat N mm m" "1 < m" "2 * (biHighIndex mm + 1) + 2 < int N"
    and "bnat N x v" "v < 65536 ^ nat (biHighIndex mm + 1)" and "bnat N y e"
  shows "\<exists>bm z. BarrettMu N mm = Some bm \<and> BarrettMu_powMod N bm x y = Some z \<and> biPowMod N x y mm = Some z \<and>
    bnat N z (v ^ nat e mod m)"
proof -
  have N: "0 < N" using assms(1,3) by (cases N) (auto simp: bnat_def wf_bi_def biHighIndex_def split: if_splits)
  then obtain h where h: "biHighIndex mm = int h" "m < 65536 ^ Suc h" using bnat_high [OF assms(1)] by metis
  have k: "biHighIndex mm + 1 = int (Suc h)" "2 * Suc h + 2 < N" using h assms(3) by simp_all
  have v: "v < 65536 ^ Suc h" using assms(5) h(1) by (simp add: nat_add_distrib)
  have m0: "0 < m" using assms(2) by simp
  obtain bm where bm: "BarrettMu N mm = Some bm" "barrett_ok N m (Suc h) bm"
    using BarrettMu_ok [OF assms(1) m0 k] by metis
  then obtain z where z: "BarrettMu_powMod N bm x y = Some z" "bnat N z (v ^ nat e mod m)"
    using BarrettMu_powMod_ok [OF _ assms(2,4) v assms(6)] by metis
  have le: "65536 ^ Suc h \<le> (65536 :: int) ^ ((N - 1) div 2)" using k(2) by (intro power_increasing) auto
  then have plain: "plain_ctx mm N m (65536 ^ ((N - 1) div 2))"
    using assms(1,2) h(2) k(2) by (auto simp: plain_ctx_def)
  obtain z' where "biPowMod N x y mm = Some z'" "bnat N z' (v ^ nat e mod m)"
    using plain.pow_correct [OF plain bnat_one [OF N] assms(4,6)] v le unfolding biPowMod_def by auto
  with bm(1) z bnat_unique show ?thesis by blast
qed

theorem powMod_equals_biPowMod_witness:
  "\<exists>bm z. BarrettMu 6 (bi [3233, 0, 0, 0, 0, 0] False) = Some bm \<and>
     BarrettMu_powMod 6 bm (bi [65, 0, 0, 0, 0, 0] False) (bi [17, 0, 0, 0, 0, 0] False) = Some z \<and>
     biPowMod 6 (bi [65, 0, 0, 0, 0, 0] False) (bi [17, 0, 0, 0, 0, 0] False) (bi [3233, 0, 0, 0, 0, 0] False) = Some z \<and>
     bnat 6 z (65 ^ nat 17 mod 3233)"
proof -
  have high: "biHighIndex (bi [3233, 0, 0, 0, 0, 0] False) = 0" by code_simp
  show ?thesis
    by (rule powMod_equals_biPowMod) (auto simp: high intro!: bnatI)
qed

text \<open>\<open>biPow\<close> with a 31-bit exponent terminates with the exact power of a positive number, as long as the power
  leaves the top digit free.\<close>

theorem biPow_exact:
  assumes "bnat N x v" "0 < v" "0 \<le> y" "y < 2147483648" "v ^ nat y < 65536 ^ (N - 1)" "1 < N"
  shows "\<exists>z. biPow N x y = Some z \<and> bnat N z (v ^ nat y)"
  using bi_small_pow_loop_ok [OF assms(6) bnat_one assms(1) _ assms(2-4)] assms(5,6) by (simp add: biPow_def)

theorem biPow_exact_witness:
  "\<exists>z. biPow 3 (bi [7, 0, 0] False) 11 = Some z \<and> bnat 3 z (7 ^ nat 11)"
  by (rule biPow_exact) (auto intro!: bnatI)

end
