(* ===== verification/Js_Text.thy ===== *)
theory Js_Text
  imports Js_Prelude
begin

text \<open>
  String and array methods of the language that the larger scripts use: \<^verbatim>\<open>split\<close>, \<^verbatim>\<open>join\<close>, \<^verbatim>\<open>indexOf\<close>,
  \<^verbatim>\<open>startsWith\<close>, \<^verbatim>\<open>endsWith\<close>, \<^verbatim>\<open>replace\<close> with a string pattern, and matches of a regular expression with one lazy group.
\<close>

section \<open>Decimal texts\<close>

lemma radval_nat_to_dec: "radval 10 (nat_to_dec n) = int n"
proof (induction n rule: nat_to_dec.induct)
  case (1 n)
  have "digit_value (48 + int (n mod 10)) = int (n mod 10)" by (simp add: digit_value_def)
  with 1 show ?case by (cases "n < 10") (simp_all add: nat_to_dec.simps [of n] radval_Cons zdiv_int zmod_int)
qed

lemma nat_to_dec_inj: "nat_to_dec m = nat_to_dec n \<longleftrightarrow> m = n"
  by (metis radval_nat_to_dec of_nat_eq_iff)

lemma nat_to_dec_ne: "nat_to_dec n \<noteq> []"
  by (simp add: nat_to_dec.simps [of n])

section \<open>Splitting and joining\<close>

text \<open>\<^verbatim>\<open>split\<close> at a single character.\<close>

fun js_split_char :: "int \<Rightarrow> jstr \<Rightarrow> jstr list" where
  "js_split_char c [] = [[]]"
| "js_split_char c (x # s) =
     (if x = c then [] # js_split_char c s
      else case js_split_char c s of [] \<Rightarrow> [[x]] | t # ts \<Rightarrow> (x # t) # ts)"

fun js_join :: "jstr \<Rightarrow> jstr list \<Rightarrow> jstr" where
  "js_join sep [] = []"
| "js_join sep [t] = t"
| "js_join sep (t # u # ts) = t @ sep @ js_join sep (u # ts)"

lemma js_split_char_single: "c \<notin> set s \<Longrightarrow> js_split_char c s = [s]"
  by (induction s) auto

lemma js_split_char_ne: "js_split_char c s \<noteq> []"
  by (induction s) (auto split: list.splits)

lemma js_split_char_append: "c \<notin> set s \<Longrightarrow> js_split_char c (s @ c # t) = s # js_split_char c t"
  by (induction s) auto

lemma js_split_join: "ts \<noteq> [] \<Longrightarrow> (\<And>t. t \<in> set ts \<Longrightarrow> c \<notin> set t) \<Longrightarrow> js_split_char c (js_join [c] ts) = ts"
  by (induction "[c]" ts rule: js_join.induct) (auto simp: js_split_char_single js_split_char_append)

text \<open>The text that \<^verbatim>\<open>+=\<close> appends for a string or for \<^verbatim>\<open>undefined\<close>.\<close>

definition undef_text :: "jstr option \<Rightarrow> jstr" where
  "undef_text t = (case t of None \<Rightarrow> str ''undefined'' | Some t \<Rightarrow> t)"

section \<open>Searching\<close>

definition starts_with :: "jstr \<Rightarrow> jstr \<Rightarrow> bool" where
  "starts_with s t \<longleftrightarrow> take (length t) s = t"

definition ends_with :: "jstr \<Rightarrow> jstr \<Rightarrow> bool" where
  "ends_with s t \<longleftrightarrow> length t \<le> length s \<and> drop (length s - length t) s = t"

text \<open>\<^verbatim>\<open>indexOf\<close>; \<open>- 1\<close> when the text does not occur.\<close>

fun index_of :: "jstr \<Rightarrow> jstr \<Rightarrow> int" where
  "index_of [] t = (if t = [] then 0 else - 1)"
| "index_of (c # s) t =
     (if starts_with (c # s) t then 0 else let i = index_of s t in if i = - 1 then - 1 else i + 1)"

definition contains :: "jstr \<Rightarrow> jstr \<Rightarrow> bool" where
  "contains s t \<longleftrightarrow> index_of s t \<noteq> - 1"

lemma starts_with_append: "starts_with s t \<longleftrightarrow> (\<exists>v. s = t @ v)"
  by (auto simp: starts_with_def) (metis append_take_drop_id)

lemma ends_with_append: "ends_with s t \<longleftrightarrow> (\<exists>u. s = u @ t)"
  by (auto simp: ends_with_def) (metis append_take_drop_id)

lemma index_of_range: "- 1 \<le> index_of s t"
  by (induction s t rule: index_of.induct) (auto simp: Let_def)

lemma contains_append: "contains s t \<longleftrightarrow> (\<exists>u v. s = u @ t @ v)"
proof (induction s)
  case Nil
  then show ?case by (simp add: contains_def)
next
  case (Cons c s)
  have "contains (c # s) t \<longleftrightarrow> starts_with (c # s) t \<or> contains s t"
    using index_of_range [of s t] by (auto simp: contains_def Let_def)
  also have "\<dots> \<longleftrightarrow> (\<exists>u v. c # s = u @ t @ v)"
    unfolding Cons starts_with_append by (auto simp: Cons_eq_append_conv)
  finally show ?case .
qed

section \<open>Replacing\<close>

text \<open>
  The replacement text of \<^verbatim>\<open>replace\<close> with a string pattern: \<^verbatim>\<open>$$\<close> is a dollar sign, \<^verbatim>\<open>$&\<close> the matched text, a dollar with
  a back quote the text before the match and a dollar with a quote the text after it.
\<close>

fun expand_replacement :: "jstr \<Rightarrow> jstr \<Rightarrow> jstr \<Rightarrow> jstr \<Rightarrow> jstr" where
  "expand_replacement pre mat post (a # b # r) =
     (if a = 36 then
        if b = 36 then 36 # expand_replacement pre mat post r
        else if b = 38 then mat @ expand_replacement pre mat post r
        else if b = 96 then pre @ expand_replacement pre mat post r
        else if b = 39 then post @ expand_replacement pre mat post r
        else a # expand_replacement pre mat post (b # r)
      else a # expand_replacement pre mat post (b # r))"
| "expand_replacement pre mat post r = r"

definition js_replace :: "jstr \<Rightarrow> jstr \<Rightarrow> jstr \<Rightarrow> jstr" where
  "js_replace s pat rep =
     (let i = index_of s pat
      in if i = - 1 then s
         else let pre = take (nat i) s; post = drop (nat i + length pat) s
              in pre @ expand_replacement pre pat post rep @ post)"

section \<open>Lazy groups\<close>

definition line_terminator :: "int \<Rightarrow> bool" where
  "line_terminator c \<longleftrightarrow> c = 10 \<or> c = 13 \<or> c = 8232 \<or> c = 8233"

text \<open>What \<^verbatim>\<open>.+?\<close> matches in front of the character \<open>close\<close>: at least one character, as few as possible, on one line.\<close>

fun lazy_upto :: "int \<Rightarrow> jstr \<Rightarrow> jstr option" where
  "lazy_upto close (a # b # s) =
     (if line_terminator a then None
      else if b = close then Some [a]
      else map_option ((#) a) (lazy_upto close (b # s)))"
| "lazy_upto close _ = None"

text \<open>The group of the leftmost match of the expression \<open>open(.+?)close\<close>, where \<open>open\<close> is a literal text.\<close>

fun lazy_group :: "jstr \<Rightarrow> int \<Rightarrow> jstr \<Rightarrow> jstr option" where
  "lazy_group open close [] = None"
| "lazy_group open close (c # s) =
     (case (if starts_with (c # s) open then lazy_upto close (drop (length open) (c # s)) else None) of
        Some g \<Rightarrow> Some g
      | None \<Rightarrow> lazy_group open close s)"

lemma find_unique:
  assumes "i < n" "P i" "\<And>j. j < n \<Longrightarrow> P j \<Longrightarrow> j = i"
  shows "find P [0..<n] = Some i"
proof -
  have "\<not> P j" if "j < i" for j using assms(1) assms(3) [of j] that by linarith
  with assms(1,2) show ?thesis unfolding find_Some_iff by (intro exI [of _ i]) simp
qed

end
