(* ===== verification/Bigint_Text.thy ===== *)
theory Bigint_Text
  imports Bigint_Num Js_Text
begin

text \<open>
  Conversions of \<^verbatim>\<open>BigInt\<close>: \<^verbatim>\<open>biFromNumber\<close>, hexadecimal text (\<^verbatim>\<open>digitToHex\<close>, \<^verbatim>\<open>biToHex\<close>, \<^verbatim>\<open>charToHex\<close>,
  \<^verbatim>\<open>hexToDigit\<close>, \<^verbatim>\<open>biFromHex\<close>), text in another radix (\<^verbatim>\<open>biToString\<close>, \<^verbatim>\<open>biToDecimal\<close>, \<^verbatim>\<open>biFromString\<close>),
  bytes (\<^verbatim>\<open>digitToBytes\<close>, \<^verbatim>\<open>biToBytes\<close>) and \<^verbatim>\<open>biDump\<close>.

  \<open>biToString\<close> and \<open>biToDecimal\<close> are \<open>None\<close> when the division does not end, and \<open>biToString\<close> also when
  \<^verbatim>\<open>reverseStr\<close> is applied to \<^verbatim>\<open>undefined\<close>, which raises a TypeError.
\<close>

section \<open>Definitions\<close>

function bi_number_loop :: "int \<Rightarrow> int \<Rightarrow> int option list \<Rightarrow> int option list" where
  "bi_number_loop i j ds =
     (if 0 < i then bi_number_loop (js_shr i 16) (j + 1) (arr_set ds j (js_and i 65535)) else ds)"
  by pat_completeness auto
termination
proof (relation "measure (\<lambda>(i, j, ds). nat i)", simp, clarsimp)
  fix i :: int
  assume "0 < i"
  have "to_int32 i \<le> i"
    using zmod_le_nonneg_dividend [of "i + 2147483648" 4294967296] \<open>0 < i\<close> by (simp add: to_int32_def)
  moreover have "to_int32 i div 65536 < i" using \<open>0 < i\<close> calculation by linarith
  ultimately show "js_shr i 16 < i" by (simp add: js_shr_def drop_bit_eq_div)
qed

declare bi_number_loop.simps [simp del]

definition biFromNumber :: "nat \<Rightarrow> int \<Rightarrow> bigint" where
  "biFromNumber N i = \<lparr>digits = bi_number_loop \<bar>i\<bar> 0 (digits (newBigInt N)), isNeg = i < 0\<rparr>"

definition lr10 :: bigint where
  "lr10 = biFromNumber 20 1000000000000000"

definition reverseStr :: "jstr \<Rightarrow> jstr" where
  "reverseStr s = js_down (int (length s) - 1) (- 1) (\<lambda>i r. r @ char_at s i) []"

definition hexatrigesimalToChar :: jstr where
  "hexatrigesimalToChar = str ''0123456789abcdefghijklmnopqrstuvwxyz''"

definition hexToChar :: jstr where
  "hexToChar = str ''0123456789abcdef''"

text \<open>The digit of \<open>d\<close>, or the text \<^verbatim>\<open>undefined\<close> that \<^verbatim>\<open>+=\<close> appends for an index outside the table.\<close>

definition radix_char :: "int option \<Rightarrow> jstr option" where
  "radix_char d = (case d of None \<Rightarrow> None
     | Some d \<Rightarrow> if 0 \<le> d \<and> d < 36 then Some [hexatrigesimalToChar ! nat d] else None)"

partial_function (option) bi_string_loop :: "nat \<Rightarrow> bigint \<Rightarrow> bigint \<Rightarrow> jstr \<Rightarrow> jstr option" where
  "bi_string_loop N b q result =
     (if biCompare q (newBigInt N) = 1 then
        Option.bind (biDivideModulo N q b) (\<lambda>qr.
          bi_string_loop N b (fst qr) (result @ undef_text (radix_char (arr_get (digits (snd qr)) 0))))
      else Some result)"

definition biToString :: "nat \<Rightarrow> bigint \<Rightarrow> int \<Rightarrow> jstr option" where
  "biToString N x radix =
     (let b = \<lparr>digits = arr_set (digits (newBigInt N)) 0 radix, isNeg = False\<rparr>
      in Option.bind (biDivideModulo N x b) (\<lambda>qr.
         let result = radix_char (arr_get (digits (snd qr)) 0)
         in if biCompare (fst qr) (newBigInt N) = 1 then
              map_option (\<lambda>r. (if isNeg x then str ''-'' else []) @ reverseStr r)
                (bi_string_loop N b (fst qr) (undef_text result))
            else map_option (\<lambda>r. (if isNeg x then str ''-'' else []) @ reverseStr r) result))"

text \<open>\<^verbatim>\<open>String(d)\<close> of a number or of \<^verbatim>\<open>undefined\<close>.\<close>

definition js_String :: "int option \<Rightarrow> jstr" where
  "js_String d = (case d of None \<Rightarrow> str ''undefined''
     | Some d \<Rightarrow> if d < 0 then str ''-'' @ nat_to_dec (nat (- d)) else nat_to_dec (nat d))"

partial_function (option) bi_decimal_loop :: "nat \<Rightarrow> bigint \<Rightarrow> bigint \<Rightarrow> jstr \<Rightarrow> jstr option" where
  "bi_decimal_loop N b q result =
     (if biCompare q (newBigInt N) = 1 then
        Option.bind (biDivideModulo N q b) (\<lambda>qr.
          bi_decimal_loop N b (fst qr) (result @ js_String (arr_get (digits (snd qr)) 0)))
      else Some result)"

definition biToDecimal :: "nat \<Rightarrow> bigint \<Rightarrow> jstr option" where
  "biToDecimal N x =
     (let b = \<lparr>digits = arr_set (digits (newBigInt N)) 0 10, isNeg = False\<rparr>
      in Option.bind (biDivideModulo N x b) (\<lambda>qr.
         map_option (\<lambda>r. (if isNeg x then str ''-'' else []) @ reverseStr r)
           (bi_decimal_loop N b (fst qr) (js_String (arr_get (digits (snd qr)) 0)))))"

definition digitToHex :: "int option \<Rightarrow> jstr" where
  "digitToHex n =
     reverseStr (fst (js_for 0 4 1 (\<lambda>i (result, n). (result @ [hexToChar ! nat (js_and n 15)], js_ushr n 4)) ([], bits_of n)))"

definition biToHex :: "bigint \<Rightarrow> jstr" where
  "biToHex x = js_down (biHighIndex x) (- 1) (\<lambda>i result. result @ digitToHex (arr_get (digits x) i)) []"

definition charToHex :: "int \<Rightarrow> int" where
  "charToHex c =
     (if 48 \<le> c \<and> c \<le> 57 then c - 48
      else if 65 \<le> c \<and> c \<le> 90 then 10 + c - 65
      else if 97 \<le> c \<and> c \<le> 122 then 10 + c - 97
      else 0)"

definition hexToDigit :: "jstr \<Rightarrow> int" where
  "hexToDigit s =
     js_for 0 (min (int (length s)) 4) 1 (\<lambda>i result. js_or (js_shl result 4) (charToHex (bits_of (char_code_at s i)))) 0"

function bi_hex_loop :: "jstr \<Rightarrow> int \<Rightarrow> int \<Rightarrow> int option list \<Rightarrow> int option list" where
  "bi_hex_loop s i j ds =
     (if 0 < i then bi_hex_loop s (i - 4) (j + 1) (arr_set ds j (hexToDigit (js_substr s (max (i - 4) 0) (min i 4))))
      else ds)"
  by pat_completeness auto
termination
  by (relation "measure (\<lambda>(s, i, j, ds). nat i)") auto

declare bi_hex_loop.simps [simp del]

definition biFromHex :: "nat \<Rightarrow> jstr \<Rightarrow> bigint" where
  "biFromHex N s = \<lparr>digits = bi_hex_loop s (int (length s)) 0 (digits (newBigInt N)), isNeg = False\<rparr>"

definition biFromString :: "nat \<Rightarrow> jstr \<Rightarrow> int \<Rightarrow> bigint" where
  "biFromString N s radix =
     (let neg = (char_at s 0 = str ''-'');
          istop = (if neg then 1 else 0);
          place = \<lparr>digits = arr_set (digits (newBigInt N)) 0 1, isNeg = False\<rparr>;
          (result, place) = js_down (int (length s) - 1) (istop - 1)
            (\<lambda>i (result, place).
               (biAdd N result (biMultiplyDigit N place (Some (charToHex (bits_of (char_code_at s i))))),
                biMultiplyDigit N place (Some radix)))
            (newBigInt N, place)
      in result\<lparr>isNeg := neg\<rparr>)"

definition digitToBytes :: "int option \<Rightarrow> jstr" where
  "digitToBytes n =
     (let c1 = from_char_code (js_and (bits_of n) 255);
          n = js_ushr (bits_of n) 8;
          c2 = from_char_code (js_and n 255)
      in c2 @ c1)"

definition biToBytes :: "bigint \<Rightarrow> jstr" where
  "biToBytes x = js_down (biHighIndex x) (- 1) (\<lambda>i result. result @ digitToBytes (arr_get (digits x) i)) []"

text \<open>\<^verbatim>\<open>Array.join\<close> writes the empty string for a missing element.\<close>

definition biDump :: "bigint \<Rightarrow> jstr" where
  "biDump b =
     (if isNeg b then str ''-'' else []) @
     js_join (str '' '') (map (\<lambda>d. case d of None \<Rightarrow> [] | Some _ \<Rightarrow> js_String d) (digits b))"

section \<open>Hexadecimal text\<close>

lemma reverseStr_rev: "reverseStr s = rev s"
proof -
  have "reverseStr s = concat (map (\<lambda>k. char_at s (int k)) (rev [0..<length s]))"
    unfolding reverseStr_def js_down_concat by simp
  also have "map (\<lambda>k. char_at s (int k)) (rev [0..<length s]) = map (\<lambda>k. [s ! k]) (rev [0..<length s])"
    by (simp add: char_at_def)
  also have "concat \<dots> = map ((!) s) (rev [0..<length s])" by (rule concat_map_singleton)
  also have "\<dots> = rev s" by (simp add: rev_map [symmetric] map_nth)
  finally show ?thesis .
qed

lemma charToHex_digit: "digit_value c < 36 \<Longrightarrow> charToHex c = digit_value c"
  by (auto simp: charToHex_def digit_value_def split: if_splits)

lemma hexToDigit_value:
  assumes "radix_string 16 s" "length s \<le> 4"
  shows "hexToDigit s = radval 16 s"
proof -
  let ?f = "\<lambda>i result. js_or (js_shl result 4) (charToHex (bits_of (char_code_at s i)))"
  have "js_for 0 (1 * int (length s)) 1 ?f 0 = radval 16 (take (length s) s)"
  proof (rule js_for_inv)
    fix k v
    assume k: "k < length s" and v: "v = radval 16 (take k s)"
    have bounds: "0 \<le> v" "v < 16 ^ k"
      using radval_bounds [of 16 "take k s"] assms(1) k v by (simp_all add: min_def)
    have "(16 :: int) ^ k \<le> 16 ^ 3" using k assms(2) by (intro power_increasing) auto
    then have small: "v < 4096" using bounds(2) by simp
    have dv: "digit_value (s ! k) < 16" using assms(1) k by (simp add: radix_string_def)
    have "js_shl v 4 = v * 2 ^ 4"
      using bounds(1) small by (simp add: js_shl_def push_bit_eq_mult)
    then have "js_or (js_shl v 4) (charToHex (s ! k)) = digit_value (s ! k) + v * 2 ^ 4"
      using js_or_add(2) [of "digit_value (s ! k)" 4 v] digit_value_nonneg dv bounds(1) small charToHex_digit
      by simp
    then show "?f (1 * int k) v = radval 16 (take (Suc k) s)"
      using k v by (simp add: take_Suc_conv_app_nth)
  qed simp_all
  then show ?thesis using assms(2) by (simp add: hexToDigit_def)
qed

lemma hex_digit_char: "0 \<le> d \<Longrightarrow> d < 16 \<Longrightarrow> digit_value (hexToChar ! nat d) = d"
proof -
  have "\<forall>d \<in> set [0..15]. digit_value (hexToChar ! nat d) = d" by code_simp
  then show "0 \<le> d \<Longrightarrow> d < 16 \<Longrightarrow> digit_value (hexToChar ! nat d) = d" by simp
qed

lemma digitToHex_map:
  assumes "0 \<le> n" "n < 65536"
  shows "digitToHex (Some n) = map (\<lambda>d. hexToChar ! nat d) [n div 4096, n div 256 mod 16, n div 16 mod 16, n mod 16]"
proof -
  have nib: "js_and a 15 = a mod 16" for a using js_and_mask [of 4 a] by simp
  have sh: "js_ushr a 4 = a div 16" if "0 \<le> a" "a < 65536" for a using js_ushr_div [of a 4] that by simp
  have r: "0 \<le> n div 16 \<and> n div 16 < 65536" "0 \<le> n div 256 \<and> n div 256 < 65536"
    "0 \<le> n div 4096 \<and> n div 4096 < 16" using assms by auto
  have eq: "n div 16 div 16 = n div 256" "n div 256 div 16 = n div 4096"
    by (simp_all add: zdiv_zmult2_eq [symmetric])
  show ?thesis
    using assms r by (simp add: digitToHex_def reverseStr_rev js_for.simps nib sh eq)
qed

lemma digitToHex_value:
  assumes "0 \<le> n" "n < 65536"
  shows "length (digitToHex (Some n)) = 4" "radix_string 16 (digitToHex (Some n))" "radval 16 (digitToHex (Some n)) = n"
proof -
  have r: "0 \<le> n div 4096" "n div 4096 < 16" using assms by auto
  have eq: "n div 16 div 16 = n div 256" "n div 256 div 16 = n div 4096"
    by (simp_all add: zdiv_zmult2_eq [symmetric])
  have sum: "n div 4096 * 4096 + (n div 256 mod 16 * 256 + (n div 16 mod 16 * 16 + n mod 16)) = n"
    using mult_div_mod_eq [of 16 n] mult_div_mod_eq [of 16 "n div 16"] mult_div_mod_eq [of 16 "n div 256"] eq by linarith
  show "length (digitToHex (Some n)) = 4" "radix_string 16 (digitToHex (Some n))"
    unfolding digitToHex_map [OF assms] using r by (simp_all add: hex_digit_char)
  have "radval 16 (digitToHex (Some n)) = n div 4096 * 4096 + (n div 256 mod 16 * 256 + (n div 16 mod 16 * 16 + n mod 16))"
    unfolding digitToHex_map [OF assms] using r by (simp add: hex_digit_char radval_Cons)
  then show "radval 16 (digitToHex (Some n)) = n" unfolding sum .
qed

lemma biToHex_concat:
  "biHighIndex x = int h \<Longrightarrow> biToHex x = concat (map (\<lambda>k. digitToHex (arr_get (digits x) (int k))) (rev [0..<Suc h]))"
  using js_down_concat [of "Suc h" "\<lambda>i. digitToHex (arr_get (digits x) i)" "[]"] by (simp add: biToHex_def)

lemma digits_to_hex:
  fixes t :: "nat \<Rightarrow> jstr"
  assumes "digs ds"
  defines "t n \<equiv> concat (map (\<lambda>k. digitToHex (Some (ds ! k))) (rev [0..<n]))"
  shows "n \<le> length ds \<Longrightarrow> length (t n) = 4 * n \<and> radix_string 16 (t n) \<and> radval 16 (t n) = bval (take n ds)"
proof (induction n)
  case (Suc n)
  have d: "0 \<le> ds ! n" "ds ! n < 65536" using digs_nth [OF assms(1), of n] Suc.prems by simp_all
  have "(16 :: int) ^ (4 * n) = 65536 ^ n" by (simp add: power_mult)
  moreover have "t (Suc n) = digitToHex (Some (ds ! n)) @ t n" by (simp add: t_def)
  ultimately show ?case
    using Suc d by (simp add: digitToHex_value radval_append bval_take_Suc mult.commute)
qed (simp add: t_def)

lemma biToHex_value:
  assumes "bnat N x v" "0 < N"
  shows "radix_string 16 (biToHex x)" "radval 16 (biToHex x) = v" "length (biToHex x) \<le> 4 * N"
proof -
  obtain ds where ds: "x = bi ds False" "digs ds" "length ds = N" "bval ds = v" using assms(1) by (rule bnatE)
  then have "ds \<noteq> []" using assms(2) by auto
  then obtain h where h: "biHighIndex x = int h" "h < N" "bval (take (Suc h) ds) = v"
    using biHighIndex_spec [OF ds(2)] ds by metis
  have "biToHex x = concat (map (\<lambda>k. digitToHex (Some (ds ! k))) (rev [0..<Suc h]))"
    unfolding biToHex_concat [OF h(1)] using h(2) ds(1,3) by (intro arg_cong [where f = concat] map_cong) auto
  with digits_to_hex [OF ds(2), of "Suc h"] h(2,3) ds(3)
  show "radix_string 16 (biToHex x)" "radval 16 (biToHex x) = v" "length (biToHex x) \<le> 4 * N" by simp_all
qed

text \<open>The numeral that \<^verbatim>\<open>biToHex\<close> writes: four hexadecimal digits per digit of the number.\<close>

definition hex_quad :: "int \<Rightarrow> jstr" where
  "hex_quad d = map (\<lambda>d. hex_digits ! nat d) [d div 4096 mod 16, d div 256 mod 16, d div 16 mod 16, d mod 16]"

function hex_quads :: "int \<Rightarrow> jstr" where
  "hex_quads v = (if v < 65536 then [] else hex_quads (v div 65536)) @ hex_quad (v mod 65536)"
  by pat_completeness auto
termination
  by (relation "measure nat") auto

declare hex_quads.simps [simp del]

lemma digitToHex_quad: "0 \<le> d \<Longrightarrow> d < 65536 \<Longrightarrow> digitToHex (Some d) = hex_quad d"
proof -
  assume d: "0 \<le> d" "d < 65536"
  then have "d div 4096 mod 16 = d div 4096" by (intro mod_pos_pos_trivial) auto
  with digitToHex_map [OF d] show ?thesis by (simp add: hex_quad_def hexToChar_def hex_digits_def)
qed

lemma bval_pos_last: "digs ds \<Longrightarrow> ds \<noteq> [] \<Longrightarrow> 0 < last ds \<Longrightarrow> 0 < bval ds"
  by (induction ds) (auto split: if_splits)

lemma map_nth_take: "n \<le> length xs \<Longrightarrow> map ((!) xs) [0..<n] = take n xs"
  by (rule nth_equalityI) simp_all

lemma concat_hex_quads:
  "digs ds \<Longrightarrow> ds \<noteq> [] \<Longrightarrow> length ds = 1 \<or> 0 < last ds \<Longrightarrow>
   concat (map (\<lambda>d. digitToHex (Some d)) (rev ds)) = hex_quads (bval ds)"
proof (induction ds)
  case (Cons d ds)
  have v: "hex_quads (d + 65536 * w) = (if d + 65536 * w < 65536 then [] else hex_quads w) @ hex_quad d" for w
    using Cons.prems(1) by (subst hex_quads.simps) simp
  have q: "digitToHex (Some d) = hex_quad d" using Cons.prems(1) by (intro digitToHex_quad) simp_all
  show ?case
  proof (cases "ds = []")
    case True
    then show ?thesis using v [of 0] q Cons.prems(1) by simp
  next
    case False
    then have "0 < last ds" "digs ds" using Cons.prems by auto
    then have "0 < bval ds" using False bval_pos_last by blast
    then show ?thesis using Cons.IH False \<open>0 < last ds\<close> \<open>digs ds\<close> v [of "bval ds"] q Cons.prems(1) by simp
  qed
qed simp

lemma biToHex_quads:
  assumes "bnat N x v" "0 < N"
  shows "biToHex x = hex_quads v"
proof -
  obtain ds where ds: "x = bi ds False" "digs ds" "length ds = N" "bval ds = v" using assms(1) by (rule bnatE)
  then have "ds \<noteq> []" using assms(2) by auto
  then obtain h where h: "biHighIndex x = int h" "h < N" "bval (take (Suc h) ds) = v" "h = 0 \<or> 0 < ds ! h"
    using biHighIndex_spec [OF ds(2)] ds by metis
  have "biToHex x = concat (map (\<lambda>k. digitToHex (Some (ds ! k))) (rev [0..<Suc h]))"
    unfolding biToHex_concat [OF h(1)] using h(2) ds(1,3) by (intro arg_cong [where f = concat] map_cong) auto
  also have "map (\<lambda>k. digitToHex (Some (ds ! k))) (rev [0..<Suc h]) =
      map (\<lambda>d. digitToHex (Some d)) (rev (map ((!) ds) [0..<Suc h]))"
    by (simp add: rev_map o_def)
  also have "map ((!) ds) [0..<Suc h] = take (Suc h) ds" using h(2) ds(3) by (intro map_nth_take) simp
  also have "concat (map (\<lambda>d. digitToHex (Some d)) (rev (take (Suc h) ds))) = hex_quads (bval (take (Suc h) ds))"
    using h(2,4) ds(2,3) digs_nth [OF ds(2)] by (intro concat_hex_quads) (auto simp: take_Suc_conv_app_nth)
  finally show ?thesis using h(3) by simp
qed

lemma bi_hex_loop_value:
  assumes "radix_string 16 s"
  shows "i \<le> length s \<Longrightarrow> i \<le> 4 * (length zs - j) \<Longrightarrow> j \<le> length zs \<Longrightarrow> digs zs \<Longrightarrow> drop j zs = replicate (length zs - j) 0 \<Longrightarrow>
    \<exists>ys. bi_hex_loop s (int i) (int j) (map Some zs) = map Some ys \<and> digs ys \<and> length ys = length zs \<and>
      bval ys = bval zs + 65536 ^ j * radval 16 (take i s)"
proof (induction i arbitrary: j zs rule: less_induct)
  case (less i)
  show ?case
  proof (cases "i = 0")
    case True
    with less.prems show ?thesis by (subst bi_hex_loop.simps) auto
  next
    case False
    define g where "g = drop (i - 4) (take i s)"
    have sub: "js_substr s (max (int i - 4) 0) (min (int i) 4) = g"
      by (cases "4 \<le> i") (auto simp: js_substr_def g_def take_drop min_def nat_diff_distrib)
    have g: "radix_string 16 g" "length g \<le> 4" "hexToDigit g = radval 16 g" "0 \<le> radval 16 g" "radval 16 g < 65536"
    proof -
      show "radix_string 16 g" "length g \<le> 4" using assms less.prems(1) by (simp_all add: g_def min_def)
      then show "hexToDigit g = radval 16 g" by (rule hexToDigit_value)
      have "(16 :: int) ^ length g \<le> 16 ^ 4" using \<open>length g \<le> 4\<close> by (intro power_increasing) auto
      then show "0 \<le> radval 16 g" "radval 16 g < 65536" using radval_bounds [OF \<open>radix_string 16 g\<close>] by auto
    qed
    have j: "j < length zs" using less.prems(2) False by auto
    have split: "radval 16 (take i s) = radval 16 (take (i - 4) s) * 65536 + radval 16 g"
    proof -
      have "take i s = take (i - 4) s @ g" by (simp add: g_def) (metis append_take_drop_id diff_le_self min.absorb1 take_take)
      moreover have "take (i - 4) s = [] \<or> length g = 4" using less.prems(1) by (auto simp: g_def)
      ultimately show ?thesis by (auto simp: radval_append)
    qed
    let ?zs = "zs[j := radval 16 g]"
    have z: "zs ! j = 0" using less.prems(5) j by (metis add_0_right nth_drop nth_replicate zero_less_diff less_imp_le)
    have val: "bval ?zs = bval zs + 65536 ^ j * radval 16 g" using bval_update [OF j] z by simp
    have "drop (Suc j) zs = replicate (length zs - Suc j) 0"
      using arg_cong [OF less.prems(5), of tl] by (simp add: drop_Suc tl_drop)
    moreover have "i - 4 \<le> length s" "i - 4 \<le> 4 * (length ?zs - Suc j)" using less.prems(1,2) j by auto
    ultimately obtain ys where ys: "bi_hex_loop s (int (i - 4)) (int (Suc j)) (map Some ?zs) = map Some ys" "digs ys" "length ys = length zs"
      "bval ys = bval ?zs + 65536 ^ Suc j * radval 16 (take (i - 4) s)"
      using less.IH [of "i - 4" ?zs "Suc j"] False less.prems g(4,5) j by (auto simp: digs_update)
    have "bi_hex_loop s (int i) (int j) (map Some zs) = bi_hex_loop s (int i - 4) (int j + 1) (map Some ?zs)"
      using False j sub g(3) by (subst bi_hex_loop.simps) simp
    also have "\<dots> = map Some ys"
    proof (cases "4 \<le> i")
      case True
      then show ?thesis using ys(1) by (simp add: of_nat_diff add.commute)
    next
      case False
      then have "bi_hex_loop s (int i - 4) (int j + 1) (map Some ?zs) = map Some ?zs"
        "bi_hex_loop s (int (i - 4)) (int (Suc j)) (map Some ?zs) = map Some ?zs"
        by (subst bi_hex_loop.simps, simp)+
      with ys(1) show ?thesis by simp
    qed
    finally show ?thesis using ys val split by (auto simp: algebra_simps)
  qed
qed

lemma biFromHex_value:
  assumes "radix_string 16 s" "length s \<le> 4 * N"
  shows "bnat N (biFromHex N s) (radval 16 s)"
proof -
  obtain ys where "bi_hex_loop s (int (length s)) (int 0) (map Some (replicate N 0)) = map Some ys" "digs ys" "length ys = N"
    "bval ys = radval 16 s"
    using bi_hex_loop_value [OF assms(1), of "length s" "replicate N 0" 0] assms(2) by auto
  then have "biFromHex N s = bi ys False" by (simp add: biFromHex_def newBigInt_def bi_def)
  with \<open>digs ys\<close> \<open>length ys = N\<close> \<open>bval ys = _\<close> show ?thesis by (simp add: bnatI)
qed

section \<open>Text in any radix\<close>

lemma radix_char_digit: "0 \<le> d \<Longrightarrow> d < 36 \<Longrightarrow> \<exists>c. radix_char (Some d) = Some [c] \<and> digit_value c = d"
proof -
  have "\<forall>d \<in> set [0..35]. digit_value (hexatrigesimalToChar ! nat d) = d" by code_simp
  then show "0 \<le> d \<Longrightarrow> d < 36 \<Longrightarrow> \<exists>c. radix_char (Some d) = Some [c] \<and> digit_value c = d"
    by (simp add: radix_char_def)
qed

text \<open>The division by the radix that both loops take.\<close>

lemma radix_step:
  assumes "bnat N q v" "1 < N" "v < 65536 ^ (N - 1)" "2 \<le> radix" "radix \<le> 36"
  defines "b \<equiv> \<lparr>digits = arr_set (digits (newBigInt N)) 0 radix, isNeg = False\<rparr>"
  obtains q' r c where "biDivideModulo N q b = Some (q', r)" "bnat N q' (v div radix)"
    "arr_get (digits r) 0 = Some (v mod radix)"
    "radix_char (Some (v mod radix)) = Some [c]" "digit_value c = v mod radix"
proof -
  have "bnat N b radix" using bnat_unit [of 0 N radix] assms(2,4,5) by (simp add: b_def)
  moreover have "0 < radix" using assms(4) by simp
  ultimately obtain q' r where qr: "biDivideModulo N q b = Some (q', r)" "bnat N q' (v div radix)" "bnat N r (v mod radix)"
    using bnat_divide_modulo [OF assms(1)] assms(2,3) by metis
  have d: "0 \<le> v mod radix" "v mod radix < 36"
    using pos_mod_sign [of radix v] pos_mod_bound [of radix v] assms(4,5) by linarith+
  then have "arr_get (digits r) 0 = Some (v mod radix)"
    using bnat_digit0 [OF qr(3)] assms(2) by simp
  with qr that radix_char_digit [OF d] show ?thesis by blast
qed

lemma radix_grow:
  assumes "2 \<le> radix" "u = [] \<or> radix ^ (length u - 1) \<le> v div radix" "u \<noteq> [] \<or> 0 < v"
  shows "radix ^ length u \<le> (v :: int)"
proof (cases u)
  case Nil
  with assms(3) show ?thesis by simp
next
  case (Cons c w)
  then have "radix * radix ^ length w \<le> radix * (v div radix)" using assms(1,2) by (intro mult_left_mono) auto
  also have "\<dots> \<le> v" using div_bounds(1) [of radix v] assms(1) by (simp add: mult.commute)
  finally show ?thesis using Cons by simp
qed

lemma compare_zero: "bnat N q v \<Longrightarrow> biCompare q (newBigInt N) = 1 \<longleftrightarrow> 0 < v"
  using bnat_compare [OF _ bnat_zero] by (auto simp: sgn_if)

lemma bi_string_loop_value:
  assumes "1 < N" "2 \<le> radix" "radix \<le> 36"
  defines "b \<equiv> \<lparr>digits = arr_set (digits (newBigInt N)) 0 radix, isNeg = False\<rparr>"
  shows "bnat N q v \<Longrightarrow> v < 65536 ^ (N - 1) \<Longrightarrow>
    \<exists>u. bi_string_loop N b q res = Some (res @ u) \<and> radix_string radix (rev u) \<and> radval radix (rev u) = v \<and>
      (u = [] \<or> radix ^ (length u - 1) \<le> v)"
proof (induction "nat v" arbitrary: q v res rule: less_induct)
  case less
  note v0 = bnat_bounds [OF less.prems(1), THEN conjunct1]
  show ?case
  proof (cases "0 < v")
    case False
    with v0 compare_zero [OF less.prems(1)] show ?thesis
      by (subst bi_string_loop.simps) auto
  next
    case True
    obtain q' r c where qr: "biDivideModulo N q b = Some (q', r)" "bnat N q' (v div radix)"
      "arr_get (digits r) 0 = Some (v mod radix)" and c: "radix_char (Some (v mod radix)) = Some [c]" "digit_value c = v mod radix"
      using radix_step [OF less.prems(1) assms(1) less.prems(2) assms(2,3)] unfolding b_def by metis
    have "v div radix < v" using True assms(2) by (simp add: int_div_less_self)
    then have lt: "nat (v div radix) < nat v" "v div radix < 65536 ^ (N - 1)"
      using True less.prems(2) by simp_all
    obtain u where u: "bi_string_loop N b q' (res @ [c]) = Some ((res @ [c]) @ u)" "radix_string radix (rev u)"
      "radval radix (rev u) = v div radix" "u = [] \<or> radix ^ (length u - 1) \<le> v div radix"
      using less.hyps [OF lt(1) qr(2) lt(2), of "res @ [c]"] by blast
    have "radix ^ length u \<le> v" using radix_grow [OF assms(2) u(4)] True by blast
    moreover have "bi_string_loop N b q res = Some (res @ (c # u))"
      using compare_zero [OF less.prems(1)] True qr c(1) u(1) by (subst bi_string_loop.simps) (simp add: undef_text_def)
    moreover have "radix_string radix (rev (c # u))" "radval radix (rev (c # u)) = v"
      using u(2,3) c(2) assms(2) by simp_all
    ultimately show ?thesis by (intro exI [of _ "c # u"]) simp
  qed
qed

lemma biToString_value:
  assumes "bnat N x v" "1 < N" "v < 65536 ^ (N - 1)" "2 \<le> radix" "radix \<le> 36"
  obtains t where "biToString N x radix = Some t" "radix_string radix t" "radval radix t = v" "t \<noteq> []"
    "length t = 1 \<or> radix ^ (length t - 1) \<le> v"
proof -
  let ?b = "\<lparr>digits = arr_set (digits (newBigInt N)) 0 radix, isNeg = False\<rparr>"
  have v0: "0 \<le> v" using bnat_bounds [OF assms(1)] by simp
  obtain q' r c where qr: "biDivideModulo N x ?b = Some (q', r)" "bnat N q' (v div radix)"
    "arr_get (digits r) 0 = Some (v mod radix)" and c: "radix_char (Some (v mod radix)) = Some [c]" "digit_value c = v mod radix"
    using radix_step [OF assms] by metis
  have "v div radix \<le> v" using zdiv_mono2 [OF v0, of 1 radix] assms(4) by simp
  then have lt: "v div radix < 65536 ^ (N - 1)" using assms(3) by linarith
  obtain u where u: "bi_string_loop N ?b q' [c] = Some ([c] @ u)" "radix_string radix (rev u)"
    "radval radix (rev u) = v div radix" "u = [] \<or> radix ^ (length u - 1) \<le> v div radix"
    using bi_string_loop_value [OF assms(2,4,5) qr(2) lt, of "[c]"] by blast
  have stop: "\<not> biCompare q' (newBigInt N) = 1 \<Longrightarrow> u = []"
    using u(1) by (subst (asm) bi_string_loop.simps) simp
  let ?t = "rev ([c] @ u)"
  have "biToString N x radix = Some ?t"
    using qr c(1) u(1) stop assms(1)
    by (cases "biCompare q' (newBigInt N) = 1") (auto simp: biToString_def undef_text_def reverseStr_rev bnat_def)
  moreover have "radix_string radix ?t" "radval radix ?t = v" using u(2,3) c(2) assms(4) by simp_all
  moreover have "length ?t = 1 \<or> radix ^ (length ?t - 1) \<le> v"
    using radix_grow [OF assms(4) u(4)] by (cases "u = []") simp_all
  ultimately show ?thesis using that [of ?t] by simp
qed

lemma biFromString_value:
  assumes s: "radix_string radix s" and r: "2 \<le> radix" "radix \<le> 36" and N: "1 < N"
    and small: "s = [] \<or> radix ^ (length s - 1) < 65536 ^ (N - 1)"
  shows "bnat N (biFromString N s radix) (radval radix s)"
proof -
  let ?n = "length s"
  define f where "f = (\<lambda>k :: nat. \<lambda>(result, place).
     (biAdd N result (biMultiplyDigit N place (Some (charToHex (bits_of (char_code_at s (int k)))))),
      biMultiplyDigit N place (Some radix)))"
  have r36: "radix_string 36 s" using s r(2) by (auto simp: radix_string_def)
  have loop: "bnat N (fst (fold f (rev [k..<?n]) (newBigInt N, bigOne N))) (radval radix (drop k s)) \<and>
      bnat N (snd (fold f (rev [k..<?n]) (newBigInt N, bigOne N))) (radix ^ (?n - k))" if "k \<le> ?n" for k
    using that
  proof (induction k rule: inc_induct)
    case base
    then show ?case using bnat_zero bnat_one [of N] N by simp
  next
    case (step k)
    obtain res pl where st: "fold f (rev [Suc k..<?n]) (newBigInt N, bigOne N) = (res, pl)" by fastforce
    have res: "bnat N res (radval radix (drop (Suc k) s))" and pl: "bnat N pl (radix ^ (?n - Suc k))"
      using step.IH st by simp_all
    have "radix ^ (?n - Suc k) \<le> radix ^ (?n - 1)" using r(1) by (intro power_increasing) auto
    then have plB: "radix ^ (?n - Suc k) < 65536 ^ (N - 1)" using small step.hyps by auto
    let ?d = "digit_value (s ! k)"
    have d: "0 \<le> ?d" "?d < radix" "charToHex (s ! k) = ?d"
      using s r36 step.hyps by (simp_all add: radix_string_def digit_value_nonneg charToHex_digit)
    have split: "radval radix (drop k s) = ?d * radix ^ (?n - Suc k) + radval radix (drop (Suc k) s)"
      using step.hyps by (simp add: Cons_nth_drop_Suc [symmetric] radval_Cons)
    have "radval radix (drop k s) < radix ^ (?n - k)"
      using radval_bounds [of radix "drop k s"] s r(1) step.hyps by simp
    also have "radix ^ (?n - k) = radix * radix ^ (?n - Suc k)"
      using step.hyps by (metis Suc_diff_Suc power_Suc)
    also have "\<dots> \<le> 65536 * 65536 ^ (N - 1)" using r plB by (intro mult_mono) auto
    also have "\<dots> = 65536 ^ N" using N by (cases N) auto
    finally have "bnat N (biAdd N res (biMultiplyDigit N pl (Some ?d))) (radval radix (drop k s))"
      using bnat_add [OF res bnat_multiply_digit [OF pl N plB d(1)]] d(2) r(2) split by (simp add: mult.commute add.commute)
    moreover have "bnat N (biMultiplyDigit N pl (Some radix)) (radix ^ (?n - k))"
      using bnat_multiply_digit [OF pl N plB, of radix] r step.hyps
      by (simp add: Suc_diff_Suc power_Suc2 [symmetric] del: power_Suc)
    moreover have "rev [k..<?n] = rev [Suc k..<?n] @ [k]" using step.hyps by (simp add: upt_conv_Cons)
    ultimately show ?case using st d(3) step.hyps by (simp add: f_def)
  qed
  have "digit_value 45 = 36" by (simp add: digit_value_def)
  then have sign: "char_at s 0 \<noteq> str ''-''" using s r(2) by (cases s) (auto simp: char_at_def str_def)
  have one: "\<lparr>digits = arr_set (digits (newBigInt N)) 0 1, isNeg = False\<rparr> = bigOne N"
    by (simp add: bigOne_def newBigInt_def)
  have "biFromString N s radix = (fst (fold f (rev [0..<?n]) (newBigInt N, bigOne N)))\<lparr>isNeg := False\<rparr>"
    unfolding biFromString_def Let_def one using sign
    by (simp add: f_def js_down_fold split_beta)
  moreover have "x\<lparr>isNeg := False\<rparr> = x" if "bnat N x v" for x v using that by (simp add: bnat_def)
  ultimately show ?thesis using loop [of 0] by (metis drop0 zero_le)
qed

text \<open>The decimal loop appends the same digits as the general one.\<close>

lemma js_String_digit: "0 \<le> d \<Longrightarrow> d < 10 \<Longrightarrow> js_String (Some d) = undef_text (radix_char (Some d))"
proof -
  have "\<forall>d \<in> set [0..9]. js_String (Some d) = undef_text (radix_char (Some d))" by code_simp
  then show "0 \<le> d \<Longrightarrow> d < 10 \<Longrightarrow> js_String (Some d) = undef_text (radix_char (Some d))" by simp
qed

lemma bi_decimal_loop_eq:
  assumes "1 < N"
  defines "b \<equiv> \<lparr>digits = arr_set (digits (newBigInt N)) 0 10, isNeg = False\<rparr>"
  shows "bnat N q v \<Longrightarrow> v < 65536 ^ (N - 1) \<Longrightarrow> bi_decimal_loop N b q res = bi_string_loop N b q res"
proof (induction "nat v" arbitrary: q v res rule: less_induct)
  case less
  show ?case
  proof (cases "0 < v")
    case False
    with compare_zero [OF less.prems(1)] show ?thesis
      by (subst bi_decimal_loop.simps, subst bi_string_loop.simps) simp
  next
    case True
    obtain q' r where qr: "biDivideModulo N q b = Some (q', r)" "bnat N q' (v div 10)" "arr_get (digits r) 0 = Some (v mod 10)"
      by (rule radix_step [OF less.prems(1) assms(1) less.prems(2), of 10, folded b_def]) simp_all
    have lt: "nat (v div 10) < nat v" "v div 10 < 65536 ^ (N - 1)" using True less.prems(2) by linarith+
    have "js_String (Some (v mod 10)) = undef_text (radix_char (Some (v mod 10)))" by (simp add: js_String_digit)
    with less.hyps [OF lt(1) qr(2) lt(2)] qr show ?thesis
      by (subst bi_decimal_loop.simps, subst bi_string_loop.simps) simp
  qed
qed

section \<open>Properties\<close>

text \<open>\<open>biToHex\<close> of a well-formed number is a hexadecimal numeral of its value, and \<open>biFromHex\<close> reads it back to the
  very same object. \<open>biFromHex\<close> of any hexadecimal text of at most \<open>4 * N\<close> characters is the number it denotes.\<close>

theorem hex_round_trip:
  assumes "bnat N x v" "0 < N" "radix_string 16 s" "length s \<le> 4 * N"
  shows "radix_string 16 (biToHex x) \<and> radval 16 (biToHex x) = v \<and> biFromHex N (biToHex x) = x \<and>
    bnat N (biFromHex N s) (radval 16 s)"
  using biToHex_value [OF assms(1,2)] biFromHex_value bnat_unique [OF _ assms(1)] assms(3,4) by metis

theorem hex_round_trip_witness:
  "biFromHex 3 (biToHex (bi [48879, 1, 0] False)) = bi [48879, 1, 0] False \<and>
   bnat 3 (biFromHex 3 (str ''10001'')) 65537 \<and> biToHex (bi [48879, 1, 0] False) = str ''0001beef''"
proof -
  have s: "radix_string 16 (str ''10001'')" "length (str ''10001'') \<le> 4 * 3" "radval 16 (str ''10001'') = 65537" by code_simp+
  have x: "bnat 3 (bi [48879, 1, 0] False) 114415" by (rule bnatI) simp_all
  have t: "biToHex (bi [48879, 1, 0] False) = str ''0001beef''" by code_simp
  show ?thesis using hex_round_trip [OF x _ s(1,2)] s(3) t by simp
qed

text \<open>A minus sign in front of a numeral sets the sign and nothing else.\<close>

lemma js_down_shift: "js_down (int n) 0 (\<lambda>i. f (i - 1)) x = js_down (int n - 1) (- 1) f x"
proof (induction n arbitrary: x)
  case (Suc n)
  then show ?case by (subst (1 2) js_down.simps) simp
qed (simp add: js_down.simps)

lemma biFromString_minus:
  assumes "radix_string radix s" "radix \<le> 36"
  shows "biFromString N (str ''-'' @ s) radix = (biFromString N s radix)\<lparr>isNeg := True\<rparr>"
proof -
  define f where "f s = (\<lambda>i (result, place).
    (biAdd N result (biMultiplyDigit N place (Some (charToHex (bits_of (char_code_at s i))))), biMultiplyDigit N place (Some radix)))" for s
  have "digit_value 45 = 36" by (simp add: digit_value_def)
  moreover have "digit_value c < radix" if "c \<in> set s" for c using assms(1) that by (simp add: radix_string_def)
  ultimately have "45 \<notin> set s" using assms(2) by fastforce
  then have sign: "char_at s 0 \<noteq> str ''-''" by (cases s) (auto simp: char_at_def str_def)
  have sign': "char_at (str ''-'' @ s) 0 = str ''-''" by (simp add: char_at_def str_def)
  have "f (str ''-'' @ s) i = f s (i - 1)" if "0 < i" for i
  proof -
    obtain k where k: "i = int (Suc k)" using \<open>0 < i\<close> by (metis Suc_pred' zero_less_imp_eq_int)
    have "char_code_at (str ''-'' @ s) (int (Suc k)) = char_code_at s (int k)"
      by (simp add: str_def char_code_at_def del: of_nat_Suc)
    then show ?thesis unfolding k by (simp add: f_def)
  qed
  then have "js_down (int n) 0 (f (str ''-'' @ s)) x = js_down (int n) 0 (\<lambda>i. f s (i - 1)) x" for n x
  proof (induction n arbitrary: x)
    case (Suc n)
    then show ?case by (subst (1 2) js_down.simps) simp
  qed (simp add: js_down.simps)
  then have "js_down (int (length (str ''-'' @ s)) - 1) 0 (f (str ''-'' @ s)) x = js_down (int (length s) - 1) (- 1) (f s) x" for x
    by (simp add: js_down_shift str_def)
  then show ?thesis
    using sign sign' unfolding biFromString_def f_def Let_def by (simp add: split_beta)
qed

text \<open>C27: for every radix from 2 to 36, \<open>biToString\<close> of a natural number that leaves the top digit free terminates with a numeral of
  its value in that radix, \<open>biFromString\<close> reads it back to the same object, and with a minus sign in front to the negative number, and
  \<open>biToDecimal\<close> is \<open>biToString\<close> in radix 10.\<close>

theorem radix_round_trip:
  assumes "bnat N x v" "1 < N" "v < 65536 ^ (N - 1)" "2 \<le> radix" "radix \<le> 36"
  shows "\<exists>t. biToString N x radix = Some t \<and> radix_string radix t \<and> radval radix t = v \<and> biFromString N t radix = x \<and>
    biFromString N (str ''-'' @ t) radix = x\<lparr>isNeg := True\<rparr> \<and> biToDecimal N x = biToString N x 10"
proof -
  obtain t where t: "biToString N x radix = Some t" "radix_string radix t" "radval radix t = v" "t \<noteq> []"
    "length t = 1 \<or> radix ^ (length t - 1) \<le> v"
    using biToString_value [OF assms] by metis
  have "radix ^ (length t - 1) < 65536 ^ (N - 1)"
    using t(5) assms(2,3) by (elim disjE) simp_all
  then have "bnat N (biFromString N t radix) v"
    using biFromString_value [OF t(2) assms(4,5,2)] t(3) by simp
  then have same: "biFromString N t radix = x" using bnat_unique assms(1) by blast
  obtain q' r where qr: "biDivideModulo N x \<lparr>digits = arr_set (digits (newBigInt N)) 0 10, isNeg = False\<rparr> = Some (q', r)"
    "bnat N q' (v div 10)" "arr_get (digits r) 0 = Some (v mod 10)"
    by (rule radix_step [OF assms(1-3), of 10]) simp_all
  have "0 \<le> v" using bnat_bounds [OF assms(1)] by simp
  then have "v div 10 < 65536 ^ (N - 1)" using assms(3) by linarith
  note loop = bi_decimal_loop_eq [OF assms(2) qr(2) this]
  have "0 \<le> v mod 10" "v mod 10 < 36" "v mod 10 < 10" by linarith+
  then obtain c where c: "radix_char (Some (v mod 10)) = Some [c]" "js_String (Some (v mod 10)) = [c]"
    using radix_char_digit js_String_digit by (metis option.simps(5) undef_text_def)
  have stop: "bi_string_loop N b q' u = Some u" if "biCompare q' (newBigInt N) \<noteq> 1" for b u
    using that by (subst bi_string_loop.simps) simp
  have "biToDecimal N x = biToString N x 10"
    using qr(1,3) loop [of "[c]"] c stop
    by (cases "biCompare q' (newBigInt N) = 1") (simp_all add: biToDecimal_def biToString_def undef_text_def Let_def)
  moreover have "biFromString N (str ''-'' @ t) radix = x\<lparr>isNeg := True\<rparr>"
    using biFromString_minus [OF t(2) assms(5)] same by simp
  ultimately show ?thesis using t same by blast
qed

theorem radix_round_trip_witness:
  "\<exists>t. biToString 4 (bi [57920, 1, 0, 0] False) 36 = Some t \<and> biFromString 4 t 36 = bi [57920, 1, 0, 0] False \<and>
     biFromString 4 (str ''-'' @ t) 36 = bi [57920, 1, 0, 0] True \<and>
     biToDecimal 4 (bi [57920, 1, 0, 0] False) = biToString 4 (bi [57920, 1, 0, 0] False) 10"
proof -
  have "bnat 4 (bi [57920, 1, 0, 0] False) 123456" by (rule bnatI) simp_all
  from radix_round_trip [OF this, of 36] show ?thesis by (simp add: bi_def) blast
qed

text \<open>The minus branch of \<open>biToString\<close> prints the digits of a wrong division: -7 becomes \<^verbatim>\<open>-3\<close>, which does not read back.\<close>

declare bi_string_loop.simps [code]

theorem biToString_negative_wrong:
  "biToString 4 (bi [7, 0, 0, 0] True) 10 = Some (str ''-3'') \<and> biFromString 4 (str ''-7'') 10 = bi [7, 0, 0, 0] True"
  by (intro conjI; code_simp)

text \<open>\<open>biFromNumber\<close> is exact for every 32-bit signed integer above the least one.\<close>

theorem biFromNumber_exact:
  assumes "\<bar>i\<bar> < 2147483648" "2 \<le> N"
  shows "wf_bi N (biFromNumber N i) \<and> ival (biFromNumber N i) = i"
proof -
  define a where "a = \<bar>i\<bar>"
  have a: "0 \<le> a" "a < 2147483648" using assms(1) by (simp_all add: a_def)
  have mask: "js_and c 65535 = c mod 65536" for c using js_and_mask [of 16 c] by simp
  have sh: "js_shr c 16 = c div 65536" if "0 \<le> c" "c < 2147483648" for c using js_shr_div [of c 16] that by simp
  obtain M where N: "N = Suc (Suc M)" using assms(2) by (metis Suc_le_D numeral_2_eq_2 Suc_le_mono)
  have put: "arr_set (Some d # xs) 0 e = Some e # xs" "arr_set (Some d # Some f # map Some ds) 1 e = map Some (d # e # ds)"
    for d e f :: int and ds xs
    using arr_set_map_Some [of 1 "d # f # ds" e] by (simp_all add: arr_set_def)
  have zero: "bi_number_loop 0 j ds = ds" for j ds by (subst bi_number_loop.simps) simp
  have one: "bi_number_loop b 1 (map Some (d # 0 # ds)) = map Some (d # b # ds)" if "0 \<le> b" "b < 65536" for b d ds
    using that by (subst bi_number_loop.simps) (auto simp: mask sh put zero)
  have "bi_number_loop a 0 (map Some (replicate N 0)) = map Some (a mod 65536 # a div 65536 # replicate M 0)"
    using a one [of "a div 65536" "a mod 65536" "replicate M 0"]
    by (subst bi_number_loop.simps) (auto simp: N mask sh put)
  then have "biFromNumber N i = bi (a mod 65536 # a div 65536 # replicate M 0) (i < 0)"
    by (simp add: biFromNumber_def newBigInt_def bi_def a_def)
  then show ?thesis
    using a by (auto simp: N sval_def a_def)
qed

theorem biFromNumber_exact_witness:
  "ival (biFromNumber 2 (- 70000)) = - 70000"
  using biFromNumber_exact [of "- 70000" 2] by simp

text \<open>The constant \<open>lr10\<close>, which \<open>biFromDecimal\<close> uses as 10 to the power 15, has the value 32768:
  \<open>>>=\<close> first reduces its operand to 32 bits.\<close>

theorem lr10_truncated: "wf_bi 20 lr10 \<and> ival lr10 = 32768"
  by code_simp

end
