(* ===== verification/Rsa.thy ===== *)
theory Rsa
  imports Bigint_Barrett Bigint_Text
begin

text \<open>
  RSA with the \<^verbatim>\<open>BigInt\<close> arithmetic: \<^verbatim>\<open>RSAKeyPair\<close>, \<^verbatim>\<open>encryptedString\<close>, \<^verbatim>\<open>decryptedString\<close> and the entry point
  \<^verbatim>\<open>getPwd\<close>. The argument \<^verbatim>\<open>keylen\<close> of \<^verbatim>\<open>RSAKeyPair\<close> is given as its number of bytes, an integer. The bytes
  \<^verbatim>\<open>Math.floor(Math.random() * 256)\<close> are read from the parameter \<open>rnd\<close>, one position after the other. The value
  \<open>None\<close> stands for a computation that does not end.
\<close>

section \<open>Definitions\<close>

record rsakey =
  rk_e :: bigint
  rk_d :: bigint
  rk_m :: bigint
  rk_chunkSize :: int
  rk_radix :: int
  rk_barrett :: barrett

definition RSAKeyPair :: "nat \<Rightarrow> jstr \<Rightarrow> jstr \<Rightarrow> jstr \<Rightarrow> int option \<Rightarrow> rsakey option" where
  "RSAKeyPair N encryptionExponent decryptionExponent modulus keybytes =
     (let e = biFromHex N encryptionExponent;
          d = biFromHex N decryptionExponent;
          m = biFromHex N modulus;
          chunkSize = (case keybytes of None \<Rightarrow> 2 * biHighIndex m | Some n \<Rightarrow> n)
      in map_option (\<lambda>bm. \<lparr>rk_e = e, rk_d = d, rk_m = m, rk_chunkSize = chunkSize, rk_radix = 16, rk_barrett = bm\<rparr>)
           (BarrettMu N m))"

definition padtype_of :: "jstr option \<Rightarrow> int" where
  "padtype_of pad = (case pad of None \<Rightarrow> 0
     | Some p \<Rightarrow> if p = str ''NoPadding'' then 1 else if p = str ''PKCS1Padding'' then 2 else 0)"

definition encodingtype_of :: "jstr option \<Rightarrow> int" where
  "encodingtype_of enc = (if enc = Some (str ''RawEncoding'') then 1 else 0)"

definition enc_clip :: "int \<Rightarrow> int \<Rightarrow> int \<Rightarrow> int" where
  "enc_clip padtype chunkSize sl =
     (if padtype = 1 then (if chunkSize < sl then chunkSize else sl)
      else if padtype = 2 then (if chunkSize - 11 < sl then chunkSize - 11 else sl)
      else sl)"

definition enc_fill :: "int \<Rightarrow> int \<Rightarrow> int \<Rightarrow> jstr \<Rightarrow> int option list" where
  "enc_fill padtype chunkSize sl s =
     fst (js_for 0 sl 1
       (\<lambda>i (a, j). (if padtype \<noteq> 0 then arr_put a j (char_code_at s i) else arr_put a i (char_code_at s i), j - 1))
       ([], if padtype = 2 then sl - 1 else chunkSize - 1))"

text \<open>A random byte other than zero: \<^verbatim>\<open>while (!rpad)\<close>. The second component is the next position of \<open>rnd\<close>.\<close>

partial_function (option) rand_pad :: "(nat \<Rightarrow> int) \<Rightarrow> nat \<Rightarrow> (int \<times> nat) option" where
  "rand_pad rnd p = (if rnd p = 0 then rand_pad rnd (p + 1) else Some (rnd p, p + 1))"

function enc_pad_loop :: "(nat \<Rightarrow> int) \<Rightarrow> int \<Rightarrow> int \<Rightarrow> int \<Rightarrow> int option list \<Rightarrow> nat \<Rightarrow> int option list option" where
  "enc_pad_loop rnd padtype j i a p =
     (if 0 < j then
        if padtype = 2 then
          (case rand_pad rnd p of None \<Rightarrow> None
           | Some (b, p) \<Rightarrow> enc_pad_loop rnd padtype (j - 1) (i + 1) (arr_set a i b) p)
        else enc_pad_loop rnd padtype (j - 1) (i + 1) (arr_set a i 0) p
      else Some a)"
  by pat_completeness auto
termination
  by (relation "measure (\<lambda>(rnd, padtype, j, i, a, p). nat j)") auto

declare enc_pad_loop.simps [simp del]

text \<open>The remainder \<^verbatim>\<open>%\<close> has the sign of the dividend; by zero it is \<^verbatim>\<open>NaN\<close>, and \<^verbatim>\<open>NaN > 0\<close> is false.\<close>

definition enc_pad_count :: "int \<Rightarrow> int \<Rightarrow> int" where
  "enc_pad_count chunkSize sl = (if chunkSize = 0 then 0 else chunkSize - sgn sl * (\<bar>sl\<bar> mod \<bar>chunkSize\<bar>))"

definition enc_array :: "(nat \<Rightarrow> int) \<Rightarrow> int \<Rightarrow> int \<Rightarrow> jstr \<Rightarrow> int option list option" where
  "enc_array rnd padtype chunkSize s =
     (let sl = enc_clip padtype chunkSize (int (length s));
          a = enc_fill padtype chunkSize sl s;
          i = (if padtype = 1 then 0 else max 0 sl)
      in map_option (\<lambda>a. if padtype = 2 then arr_set (arr_set (arr_set a sl 0) (chunkSize - 2) 2) (chunkSize - 1) 0 else a)
           (enc_pad_loop rnd padtype (enc_pad_count chunkSize sl) i a 0))"

definition enc_block :: "nat \<Rightarrow> int option list \<Rightarrow> int \<Rightarrow> int \<Rightarrow> bigint" where
  "enc_block N a i chunkSize =
     \<lparr>digits = fst (js_for i (i + chunkSize) 2
        (\<lambda>k (ds, j). (arr_put ds j (num_add (arr_get a k) (Some (js_shl (bits_of (arr_get a (k + 1))) 8))), j + 1))
        (digits (newBigInt N), 0)), isNeg = False\<rparr>"

definition enc_text :: "nat \<Rightarrow> rsakey \<Rightarrow> int \<Rightarrow> bigint \<Rightarrow> jstr option" where
  "enc_text N key encodingtype crypt =
     (if encodingtype = 1 then Some (biToBytes crypt)
      else if rk_radix key = 16 then Some (biToHex crypt) else biToString N crypt (rk_radix key))"

partial_function (option) enc_blocks :: "nat \<Rightarrow> rsakey \<Rightarrow> int \<Rightarrow> int option list \<Rightarrow> int \<Rightarrow> jstr \<Rightarrow> jstr option" where
  "enc_blocks N key encodingtype a i result =
     (if i < int (length a) then
        Option.bind (BarrettMu_powMod N (rk_barrett key) (enc_block N a i (rk_chunkSize key)) (rk_e key)) (\<lambda>crypt.
        Option.bind (enc_text N key encodingtype crypt) (\<lambda>text.
        enc_blocks N key encodingtype a (i + rk_chunkSize key) (result @ text)))
      else Some result)"

definition encryptedString :: "nat \<Rightarrow> (nat \<Rightarrow> int) \<Rightarrow> rsakey \<Rightarrow> jstr \<Rightarrow> jstr option \<Rightarrow> jstr option \<Rightarrow> jstr option" where
  "encryptedString N rnd key s pad encoding =
     Option.bind (enc_array rnd (padtype_of pad) (rk_chunkSize key) s) (\<lambda>a.
       enc_blocks N key (encodingtype_of encoding) a 0 [])"

definition dec_chars :: "bigint \<Rightarrow> jstr" where
  "dec_chars b =
     js_for 0 (biHighIndex b + 1) 1
       (\<lambda>j result. result @ from_char_code (js_and (arr_bits (digits b) j) 255) @ from_char_code (js_shr (arr_bits (digits b) j) 8)) []"

fun dec_blocks :: "nat \<Rightarrow> rsakey \<Rightarrow> jstr list \<Rightarrow> jstr \<Rightarrow> jstr option" where
  "dec_blocks N key [] result = Some result"
| "dec_blocks N key (c # cs) result =
     (let b = (if rk_radix key = 16 then biFromHex N c else biFromString N c (rk_radix key))
      in Option.bind (BarrettMu_powMod N (rk_barrett key) b (rk_d key)) (\<lambda>b.
           dec_blocks N key cs (result @ dec_chars b)))"

definition decryptedString :: "nat \<Rightarrow> rsakey \<Rightarrow> jstr \<Rightarrow> jstr option" where
  "decryptedString N key c =
     map_option (\<lambda>result. if char_code_at result (int (length result) - 1) = Some 0 then butlast result else result)
       (dec_blocks N key (js_split_char 32 c) [])"

definition getPwd :: "(nat \<Rightarrow> int) \<Rightarrow> jstr \<Rightarrow> jstr \<Rightarrow> jstr option" where
  "getPwd rnd rsa_n pwd =
     Option.bind (RSAKeyPair 131 (str ''10001'') [] rsa_n None) (\<lambda>key. encryptedString 131 rnd key pwd None None)"

section \<open>Blocks of bytes\<close>

text \<open>The number whose base-256 digits, least significant first, are the bytes of a block.\<close>

primrec le_val :: "int list \<Rightarrow> int" where
  "le_val [] = 0"
| "le_val (b # bs) = b + 256 * le_val bs"

lemma le_val_append: "le_val (xs @ ys) = le_val xs + 256 ^ length xs * le_val ys"
  by (induction xs) (simp_all add: algebra_simps)

lemma le_val_zeros [simp]: "le_val (replicate n 0) = 0"
  by (induction n) simp_all

lemma le_val_bounds: "byte_string bs \<Longrightarrow> 0 \<le> le_val bs \<and> le_val bs < 256 ^ length bs"
  by (induction bs) auto

lemma le_val_inj: "byte_string xs \<Longrightarrow> byte_string ys \<Longrightarrow> length xs = length ys \<Longrightarrow> le_val xs = le_val ys \<Longrightarrow> xs = ys"
proof (induction xs arbitrary: ys)
  case (Cons x xs)
  then obtain y zs where ys: "ys = y # zs" by (cases ys) auto
  have "(x + 256 * le_val xs) mod 256 = (y + 256 * le_val zs) mod 256" using Cons.prems(4) ys by simp
  then have "x = y" using Cons.prems(1,2) ys by simp
  with Cons ys show ?case by simp
qed simp

lemma le_val_last: "byte_string bs \<Longrightarrow> bs \<noteq> [] \<Longrightarrow> last bs \<noteq> 0 \<Longrightarrow> 256 ^ (length bs - 1) \<le> le_val bs"
proof -
  assume b: "byte_string bs" "bs \<noteq> []" "last bs \<noteq> 0"
  then obtain as a where bs: "bs = as @ [a]" by (metis rev_exhaust)
  then have "1 \<le> a" "0 \<le> le_val as" using b le_val_bounds [of as] by auto
  then show ?thesis using bs by (simp add: le_val_append add_increasing)
qed

text \<open>The 16-bit digits of a list of bytes.\<close>

fun pair_digits :: "int list \<Rightarrow> int list" where
  "pair_digits (a # b # bs) = (a + 256 * b) # pair_digits bs"
| "pair_digits bs = []"

lemma pair_digits_value:
  "byte_string bs \<Longrightarrow> even (length bs) \<Longrightarrow>
   digs (pair_digits bs) \<and> length (pair_digits bs) = length bs div 2 \<and> bval (pair_digits bs) = le_val bs"
  by (induction bs rule: pair_digits.induct) auto

lemma pair_digits_snoc: "even (length bs) \<Longrightarrow> pair_digits (bs @ [a, b]) = pair_digits bs @ [a + 256 * b]"
  by (induction bs rule: pair_digits.induct) auto

section \<open>The padded array\<close>

lemma arr_set_append: "arr_set (map Some xs) (int (length xs)) v = map Some (xs @ [v])"
  by (simp add: arr_set_def)

lemma enc_fill_plain: "enc_fill 0 c (int (length s)) s = map Some s"
proof -
  let ?f = "\<lambda>i (a, j). (if (0::int) \<noteq> 0 then arr_put a j (char_code_at s i) else arr_put a i (char_code_at s i), j - 1)"
  have "fst (js_for 0 (1 * int (length s)) 1 ?f ([], c - 1)) = map Some (take (length s) s)"
  proof (rule js_for_inv)
    fix k and y :: "int option list \<times> int"
    assume k: "k < length s" and y: "fst y = map Some (take k s)"
    have "arr_set (map Some (take k s)) (int k) (s ! k) = map Some (take k s @ [s ! k])"
      using arr_set_append [of "take k s" "s ! k"] k by (simp add: min_def)
    then show "fst (?f (1 * int k) y) = map Some (take (Suc k) s)"
      using k y by (simp add: split_beta take_Suc_conv_app_nth)
  qed simp_all
  then show ?thesis by (simp add: enc_fill_def)
qed

lemma enc_pad_loop_plain:
  "enc_pad_loop rnd 0 (int n) (int (length xs)) (map Some xs) p = Some (map Some (xs @ replicate n 0))"
proof (induction n arbitrary: xs)
  case (Suc n)
  have "enc_pad_loop rnd 0 (int (Suc n)) (int (length xs)) (map Some xs) p =
      enc_pad_loop rnd 0 (int n) (int (length (xs @ [0]))) (map Some (xs @ [0])) p"
    by (subst enc_pad_loop.simps) (simp add: arr_set_append add.commute)
  then show ?case using Suc.IH [of "xs @ [0]"] by simp
qed (simp add: enc_pad_loop.simps)

lemma enc_array_plain:
  assumes "0 < c"
  shows "enc_array rnd 0 (int c) s = Some (map Some (s @ replicate (c - length s mod c) 0))"
proof -
  have "enc_pad_count (int c) (int (length s)) = int (c - length s mod c)"
    using assms by (cases "s = []") (simp_all add: enc_pad_count_def of_nat_diff zmod_int less_imp_le)
  then show ?thesis
    by (simp add: enc_array_def enc_clip_def enc_fill_plain enc_pad_loop_plain Let_def)
qed

section \<open>Encryption\<close>

lemma enc_block_value:
  assumes "byte_string bs" "2 * (i + h) \<le> length bs" "h \<le> N"
  shows "bnat N (enc_block N (map Some bs) (int (2 * i)) (int (2 * h))) (le_val (take (2 * h) (drop (2 * i) bs)))"
proof -
  define f where "f = (\<lambda>k (ds, j :: int).
    (arr_put ds j (num_add (arr_get (map Some bs) k) (Some (js_shl (bits_of (arr_get (map Some bs) (k + 1))) 8))), j + 1))"
  define g where "g n = take (2 * n) (drop (2 * i) bs)" for n
  have g: "byte_string (g n)" "length (g n) = 2 * n" if "n \<le> h" for n
    using assms(1,2) that by (auto simp: g_def byte_string_def dest: in_set_takeD in_set_dropD)
  have fold: "fold (\<lambda>k. f (2 * int k)) [i..<i + n] (map Some (replicate N 0), 0) =
      (map Some (pair_digits (g n) @ replicate (N - n) 0), int n)" if "n \<le> h" for n
    using that
  proof (induction n)
    case (Suc n)
    let ?a = "bs ! (2 * (i + n))" and ?b = "bs ! (2 * (i + n) + 1)"
    have ix: "2 * (i + n) < length bs" "2 * (i + n) + 1 < length bs" using assms(2) Suc.prems by simp_all
    have b: "0 \<le> ?b" "?b < 256" using byte_string_nth [OF assms(1) ix(2)] by simp_all
    have get: "arr_get (map Some bs) (2 * int (i + n)) = Some ?a" "arr_get (map Some bs) (2 * int (i + n) + 1) = Some ?b"
      using arr_get_Some_nth [OF ix(1)] arr_get_Some_nth [OF ix(2)] by (simp_all add: algebra_simps)
    have sh: "js_shl ?b 8 = 256 * ?b" using b by (simp add: js_shl_def push_bit_eq_mult)
    have len: "length (pair_digits (g n)) = n"
      using pair_digits_value [of "g n"] g [of n] Suc.prems by simp
    have rep: "replicate (N - n) 0 = 0 # replicate (N - Suc n) (0 :: int)"
      using Suc.prems assms(3) by (metis Suc_diff_Suc Suc_le_lessD le_trans replicate_Suc)
    have "arr_set (map Some (pair_digits (g n) @ replicate (N - n) 0)) (int n) (?a + 256 * ?b) =
        map Some (pair_digits (g n) @ (?a + 256 * ?b) # replicate (N - Suc n) 0)"
      using arr_set_map_Some [of n "pair_digits (g n) @ replicate (N - n) 0"] len Suc.prems assms(3)
      by (simp add: rep list_update_append)
    moreover have "g (Suc n) = g n @ [?a, ?b]"
      using ix by (simp add: g_def take_Suc_conv_app_nth algebra_simps)
    ultimately show ?case
      using Suc g(2) [of n] get sh by (simp add: f_def pair_digits_snoc)
  qed (simp add: g_def)
  have "js_for (2 * int i) (2 * int (i + h)) 2 f (map Some (replicate N 0), 0) =
      (map Some (pair_digits (g h) @ replicate (N - h) 0), int h)"
    using js_for_fold [of 2 i "i + h" f] fold [of h] by simp
  then have "enc_block N (map Some bs) (int (2 * i)) (int (2 * h)) = bi (pair_digits (g h) @ replicate (N - h) 0) False"
    by (simp add: enc_block_def f_def newBigInt_def bi_def algebra_simps)
  moreover have "bnat N (bi (pair_digits (g h) @ replicate (N - h) 0) False) (le_val (g h))"
    using pair_digits_value [of "g h"] g [of h] assms(3) by (intro bnatI) (auto simp: bval_append)
  ultimately show ?thesis by (simp add: g_def)
qed

text \<open>A key with the exponents \<open>e\<close> and \<open>d\<close> whose modulus \<open>m\<close> has \<open>h + 1\<close> digits, as \<open>RSAKeyPair\<close> builds it.\<close>

definition key_ok :: "nat \<Rightarrow> rsakey \<Rightarrow> int \<Rightarrow> int \<Rightarrow> int \<Rightarrow> nat \<Rightarrow> bool" where
  "key_ok N key e d m h \<longleftrightarrow>
     0 < h \<and> 1 < m \<and> barrett_ok N m (Suc h) (rk_barrett key) \<and> bnat N (rk_e key) e \<and> bnat N (rk_d key) d \<and>
     rk_radix key = 16 \<and> rk_chunkSize key = int (2 * h)"

lemma RSAKeyPair_ok:
  assumes "radix_string 16 es" "length es \<le> 4 * N" "radix_string 16 ds" "length ds \<le> 4 * N"
    "radix_string 16 ms" "length ms \<le> 4 * N"
    and m: "65536 \<le> radval 16 ms" "radval 16 ms < 65536 ^ k" and N: "2 * k + 2 < N"
  obtains key h where "RSAKeyPair N es ds ms None = Some key"
    "key_ok N key (radval 16 es) (radval 16 ds) (radval 16 ms) h" "65536 ^ h \<le> radval 16 ms" "radval 16 ms < 65536 ^ Suc h"
proof -
  let ?m = "radval 16 ms"
  have bm: "bnat N (biFromHex N ms) ?m" using assms(5,6) by (rule biFromHex_value)
  obtain h where h: "biHighIndex (biFromHex N ms) = int h" "?m < 65536 ^ Suc h" "h = 0 \<or> 65536 ^ h \<le> ?m"
    using bnat_high [OF bm] N by (metis gr_implies_not0 gr0I)
  have h0: "0 < h" using h(2) m(1) by (cases h) auto
  then have "65536 ^ h < (65536 :: int) ^ k" using h(3) m(2) by linarith
  then have "h < k" by (rule power_less_imp_less_exp [rotated]) simp
  then have N': "2 * Suc h + 2 < N" using N by simp
  obtain b where b: "BarrettMu N (biFromHex N ms) = Some b" "barrett_ok N ?m (Suc h) b"
    using BarrettMu_ok [OF bm _ _ N'] h(1) m(1) by auto
  let ?key = "\<lparr>rk_e = biFromHex N es, rk_d = biFromHex N ds, rk_m = biFromHex N ms, rk_chunkSize = 2 * int h,
    rk_radix = 16, rk_barrett = b\<rparr>"
  have "RSAKeyPair N es ds ms None = Some ?key" using b(1) h(1) by (simp add: RSAKeyPair_def Let_def)
  moreover have "key_ok N ?key (radval 16 es) (radval 16 ds) ?m h"
    using b(2) h0 m(1) biFromHex_value [OF assms(1,2)] biFromHex_value [OF assms(3,4)] by (simp add: key_ok_def)
  ultimately show ?thesis using that h h0 by blast
qed

text \<open>What encryption should give: each block of \<open>c\<close> bytes, read least significant byte first, is raised to the power
  \<open>e\<close> modulo \<open>m\<close> and printed in hexadecimal; zeros fill the last block.\<close>

definition rsa_pad :: "nat \<Rightarrow> jstr \<Rightarrow> int list" where
  "rsa_pad c s = s @ replicate (c - length s mod c) 0"

definition rsa_encrypt :: "nat \<Rightarrow> int \<Rightarrow> int \<Rightarrow> jstr \<Rightarrow> jstr" where
  "rsa_encrypt c e m s =
     concat (map (\<lambda>k. hex_quads (le_val (take c (drop (c * k) (rsa_pad c s))) ^ nat e mod m)) [0..<Suc (length s div c)])"

lemma length_rsa_pad:
  assumes "0 < c"
  shows "length (rsa_pad c s) = c * Suc (length s div c)"
proof -
  have "length s = c * (length s div c) + length s mod c" "length s mod c < c" using assms by simp_all
  then have "length s + (c - length s mod c) = c + c * (length s div c)" by linarith
  then show ?thesis by (simp add: rsa_pad_def)
qed

lemma byte_string_rsa_pad: "byte_string s \<Longrightarrow> byte_string (rsa_pad c s)"
  by (simp add: rsa_pad_def)

lemma block_less:
  assumes "byte_string bs"
  shows "0 \<le> le_val (take (2 * h) bs)" "le_val (take (2 * h) bs) < 65536 ^ h"
proof -
  have b: "byte_string (take (2 * h) bs)" using assms by (auto simp: byte_string_def dest: in_set_takeD)
  have "256 ^ length (take (2 * h) bs) \<le> (256 :: int) ^ (2 * h)" by (intro power_increasing) auto
  also have "(256 :: int) ^ (2 * h) = 65536 ^ h" by (simp add: power_mult)
  finally show "0 \<le> le_val (take (2 * h) bs)" "le_val (take (2 * h) bs) < 65536 ^ h"
    using le_val_bounds [OF b] by linarith+
qed

lemma enc_blocks_correct:
  assumes key: "key_ok N key e d m h" and bs: "byte_string bs" "length bs = 2 * h * n"
  shows "t \<le> n \<Longrightarrow> enc_blocks N key 0 (map Some bs) (int (2 * h * t)) res =
    Some (res @ concat (map (\<lambda>k. hex_quads (le_val (take (2 * h) (drop (2 * h * k) bs)) ^ nat e mod m)) [t..<n]))"
proof (induction "n - t" arbitrary: t res)
  case 0
  then show ?case using bs(2) by (subst enc_blocks.simps) simp
next
  case (Suc u)
  then have t: "t < n" by simp
  have k: "0 < h" "1 < m" "barrett_ok N m (Suc h) (rk_barrett key)" "bnat N (rk_e key) e" "rk_chunkSize key = int (2 * h)"
    "rk_radix key = 16" "h \<le> N" "0 < N"
    using key by (auto simp: key_ok_def barrett_ok_def)
  let ?v = "le_val (take (2 * h) (drop (2 * (h * t)) bs))"
  have "2 * h * Suc t \<le> 2 * h * n" using t by (intro mult_le_mono2) simp
  then have fits: "2 * (h * t + h) \<le> length bs" using bs(2) by (simp add: algebra_simps)
  have block: "bnat N (enc_block N (map Some bs) (int (2 * (h * t))) (int (2 * h))) ?v"
    using enc_block_value [OF bs(1) fits k(7)] by simp
  have "?v < 65536 ^ h" using block_less(2) bs(1) by (metis append_take_drop_id byte_string_append)
  also have "(65536 :: int) ^ h \<le> 65536 ^ Suc h" by (intro power_increasing) auto
  finally obtain z where z: "BarrettMu_powMod N (rk_barrett key) (enc_block N (map Some bs) (int (2 * (h * t))) (int (2 * h))) (rk_e key) = Some z"
    "bnat N z (?v ^ nat e mod m)"
    using BarrettMu_powMod_ok [OF k(3,2) block _ k(4)] by metis
  have tx: "enc_text N key 0 z = Some (hex_quads (?v ^ nat e mod m))"
    using biToHex_quads [OF z(2) k(8)] k(6) by (simp add: enc_text_def)
  have "int (2 * h * t) < int (length (map Some bs))" using t k(1) bs(2) by simp
  then have "enc_blocks N key 0 (map Some bs) (int (2 * h * t)) res =
      enc_blocks N key 0 (map Some bs) (int (2 * h * Suc t)) (res @ hex_quads (?v ^ nat e mod m))"
    using z(1) tx k(5) by (subst enc_blocks.simps) (simp add: algebra_simps)
  also have "\<dots> = Some ((res @ hex_quads (?v ^ nat e mod m)) @
      concat (map (\<lambda>k. hex_quads (le_val (take (2 * h) (drop (2 * h * k) bs)) ^ nat e mod m)) [Suc t..<n]))"
    using Suc.hyps(1) [of "Suc t"] Suc.hyps(2) t by simp
  finally show ?case using t by (simp add: upt_conv_Cons mult.assoc)
qed

lemma encryptedString_plain:
  assumes "key_ok N key e d m h" "byte_string s"
  shows "encryptedString N rnd key s None None = Some (rsa_encrypt (2 * h) e m s)"
proof -
  have h: "0 < 2 * h" "rk_chunkSize key = int (2 * h)" using assms(1) by (simp_all add: key_ok_def)
  have "enc_array rnd 0 (int (2 * h)) s = Some (map Some (rsa_pad (2 * h) s))"
    using enc_array_plain [OF h(1)] by (simp add: rsa_pad_def)
  moreover have "enc_blocks N key 0 (map Some (rsa_pad (2 * h) s)) (int (2 * h * 0)) [] = Some ([] @ rsa_encrypt (2 * h) e m s)"
    unfolding rsa_encrypt_def
    using enc_blocks_correct [OF assms(1) byte_string_rsa_pad [OF assms(2)] length_rsa_pad [OF h(1)]] by blast
  ultimately show ?thesis
    using h(2) by (simp add: encryptedString_def padtype_of_def encodingtype_of_def)
qed

section \<open>Decryption\<close>

lemma fold_append_upt: "fold (\<lambda>k r. r @ g k) [0..<n] r = r @ concat (map g [0..<n])"
  by (rule fold_append_concat)

lemma unpair_value:
  assumes "digs ds"
  defines "bs \<equiv> concat (map (\<lambda>d. [d mod 256, d div 256]) ds)"
  shows "byte_string bs" "length bs = 2 * length ds" "le_val bs = bval ds"
proof -
  show "byte_string bs" using assms(1) unfolding bs_def by (induction ds) auto
  show "length bs = 2 * length ds" unfolding bs_def by (induction ds) auto
  show "le_val bs = bval ds" unfolding bs_def by (induction ds) auto
qed

lemma dec_chars_value:
  assumes "bnat N b v" "0 < N"
  obtains h where "byte_string (dec_chars b)" "length (dec_chars b) = 2 * Suc h" "le_val (dec_chars b) = v"
    "h = 0 \<or> 65536 ^ h \<le> v" "v < 65536 ^ Suc h"
proof -
  obtain ds where ds: "b = bi ds False" "digs ds" "length ds = N" "bval ds = v" using assms(1) by (rule bnatE)
  then have "ds \<noteq> []" using assms(2) by auto
  then obtain h where h: "biHighIndex b = int h" "h < N" "bval (take (Suc h) ds) = v" "h = 0 \<or> 65536 ^ h \<le> v" "v < 65536 ^ Suc h"
    using biHighIndex_spec [OF ds(2)] ds by metis
  let ?g = "\<lambda>j. from_char_code (js_and (arr_bits (digits b) j) 255) @ from_char_code (js_shr (arr_bits (digits b) j) 8)"
  have g: "?g (int k) = [ds ! k mod 256, ds ! k div 256]" if "k < Suc h" for k
  proof -
    have d: "0 \<le> ds ! k" "ds ! k < 65536" using digs_nth [OF ds(2), of k] that h(2) ds(3) by simp_all
    have "js_and (ds ! k) 255 = ds ! k mod 256" using js_and_mask [of 8 "ds ! k"] by simp
    moreover have "js_shr (ds ! k) 8 = ds ! k div 256" using js_shr_div [of "ds ! k" 8] d by simp
    moreover have "ds ! k mod 256 mod 65536 = ds ! k mod 256" "ds ! k div 256 mod 65536 = ds ! k div 256"
      using d by (auto intro!: mod_pos_pos_trivial simp: pos_imp_zdiv_nonneg_iff)
    ultimately show ?thesis using that h(2) ds(1,3) by (simp add: from_char_code_def)
  qed
  have "dec_chars b = concat (map (\<lambda>k. ?g (int k)) [0..<Suc h])"
    unfolding dec_chars_def h(1) using js_for_unit [of "Suc h" "\<lambda>j r. r @ ?g j" "[]"] fold_append_upt [of "\<lambda>k. ?g (int k)" "Suc h" "[]"]
    by (simp add: add.commute)
  also have "map (\<lambda>k. ?g (int k)) [0..<Suc h] = map (\<lambda>k. [ds ! k mod 256, ds ! k div 256]) [0..<Suc h]"
    using g by (intro map_cong) auto
  also have "\<dots> = map (\<lambda>d. [d mod 256, d div 256]) (map ((!) ds) [0..<Suc h])" by (simp add: o_def)
  also have "map ((!) ds) [0..<Suc h] = take (Suc h) ds" using h(2) ds(3) by (intro map_nth_take) simp
  finally show ?thesis
    using that unpair_value [of "take (Suc h) ds"] ds(2,3) h by (metis Suc_leI digs_take length_take min.absorb2)
qed

text \<open>The bytes of a number, from a multiple of two of them, are the message and at most one zero.\<close>

lemma strip_padding:
  assumes s: "byte_string s" "s \<noteq> []" "last s \<noteq> 0" and bs: "byte_string bs" "length bs = 2 * Suc h"
    and v: "le_val bs = le_val s" "h = 0 \<or> 65536 ^ h \<le> le_val s" "le_val s < 65536 ^ Suc h"
  shows "(if char_code_at bs (int (length bs) - 1) = Some 0 then butlast bs else bs) = s"
proof -
  let ?L = "length s"
  have L0: "0 < ?L" using s(2) by simp
  have low: "256 ^ (?L - 1) \<le> le_val s" using le_val_last [OF s] .
  have up: "le_val s < 256 ^ ?L" using le_val_bounds [OF s(1)] by simp
  have pw: "(65536 :: int) ^ n = 256 ^ (2 * n)" for n by (simp add: power_mult)
  have "(256 :: int) ^ (?L - 1) < 256 ^ (2 * Suc h)" using low v(3) unfolding pw by linarith
  then have "?L - 1 < 2 * Suc h" by (rule power_less_imp_less_exp [rotated]) simp
  moreover have "2 * h < ?L" if "h \<noteq> 0"
  proof -
    have "(256 :: int) ^ (2 * h) < 256 ^ ?L" using v(2) up that unfolding pw by linarith
    then show ?thesis by (rule power_less_imp_less_exp [rotated]) simp
  qed
  ultimately have L: "?L = length bs \<or> Suc ?L = length bs" using bs(2) L0 by (cases "h = 0"; cases "?L") auto
  define z where "z = length bs - ?L"
  have "byte_string (s @ replicate z 0)" "length (s @ replicate z 0) = length bs" "le_val (s @ replicate z 0) = le_val bs"
    using s(1) L v(1) by (auto simp: z_def le_val_append)
  then have bs_eq: "bs = s @ replicate z 0" using le_val_inj bs(1) by metis
  consider "z = 0" | "z = 1" using L by (auto simp: z_def)
  then show ?thesis
  proof cases
    case 1
    then have "bs = s" using bs_eq by simp
    moreover have "char_code_at s (int (?L - 1)) = Some (last s)"
      using L0 s(2) by (simp add: last_conv_nth)
    then have "char_code_at s (int ?L - 1) = Some (last s)" using L0 by (simp add: of_nat_diff)
    ultimately show ?thesis using s(3) by simp
  next
    case 2
    then have "bs = s @ [0]" using bs_eq by simp
    moreover have "char_code_at (s @ [0]) (int ?L) = Some 0" by (simp add: char_code_at_def)
    ultimately show ?thesis by simp
  qed
qed

lemma round_trip:
  assumes key: "key_ok N key e d m h" and m: "65536 ^ h \<le> m"
    and inv: "\<And>v. 0 \<le> v \<Longrightarrow> v < m \<Longrightarrow> (v ^ nat e mod m) ^ nat d mod m = v"
    and s: "byte_string s" "s \<noteq> []" "last s \<noteq> 0" "length s < 2 * h"
  shows "decryptedString N key (rsa_encrypt (2 * h) e m s) = Some s"
proof -
  have k: "0 < h" "1 < m" "barrett_ok N m (Suc h) (rk_barrett key)" "bnat N (rk_d key) d" "rk_radix key = 16" "0 < N"
    "m < 65536 ^ Suc h" "2 * Suc h + 2 < N"
    using key by (auto simp: key_ok_def barrett_ok_def)
  let ?v = "le_val s" and ?w = "le_val s ^ nat e mod m"
  have v: "0 \<le> ?v" "?v < m" using block_less [OF s(1), of h] s(4) m by auto
  have "take (2 * h) (rsa_pad (2 * h) s) = rsa_pad (2 * h) s" using s(4) by (simp add: rsa_pad_def)
  then have enc: "rsa_encrypt (2 * h) e m s = hex_quads ?w"
    using s(4) by (simp add: rsa_encrypt_def) (simp add: rsa_pad_def le_val_append)
  have w: "0 \<le> ?w" "?w < m" using k(2) by simp_all
  have "(65536 :: int) ^ Suc h \<le> 65536 ^ N" using k(8) by (intro power_increasing) auto
  then have "?w < 65536 ^ N" using w(2) k(7) by linarith
  then obtain x where x: "bnat N x ?w" using bnat_exists [OF w(1)] by blast
  have hex: "hex_quads ?w = biToHex x" using biToHex_quads [OF x k(6)] by simp
  have "biFromHex N (biToHex x) = x"
    using biToHex_value [OF x k(6)] biFromHex_value bnat_unique [OF _ x] by metis
  moreover have "js_split_char 32 (biToHex x) = [biToHex x]"
    using biToHex_value(1) [OF x k(6)] by (intro js_split_char_single) (auto simp: radix_string_def digit_value_def)
  moreover have "?w < 65536 ^ Suc h" using w(2) k(7) by linarith
  then obtain z where z: "BarrettMu_powMod N (rk_barrett key) x (rk_d key) = Some z" "bnat N z ?v"
    using BarrettMu_powMod_ok [OF k(3,2) x _ k(4)] inv [OF v] by metis
  moreover obtain g where g: "byte_string (dec_chars z)" "length (dec_chars z) = 2 * Suc g" "le_val (dec_chars z) = ?v"
    "g = 0 \<or> 65536 ^ g \<le> ?v" "?v < 65536 ^ Suc g"
    using dec_chars_value [OF z(2) k(6)] by metis
  ultimately show ?thesis
    using strip_padding [OF s(1-3) g] k(5) unfolding enc hex decryptedString_def by (simp add: Let_def)
qed

section \<open>A full block without padding\<close>

lemma enc_fill_length:
  assumes "0 < c" "c \<le> length s"
  shows "length (enc_fill 1 (int c) (int c) s) = c"
proof -
  let ?f = "\<lambda>i (a, j). (if (1::int) \<noteq> 0 then arr_put a j (char_code_at s i) else arr_put a i (char_code_at s i), j - 1)"
  let ?P = "\<lambda>k (a :: int option list, j). j = int c - 1 - int k \<and> (length a = (if k = 0 then 0 else c))"
  have "?P c (js_for 0 (1 * int c) 1 ?f ([], int c - 1))"
  proof (rule js_for_inv [where P = ?P])
    fix k and y :: "int option list \<times> int"
    assume k: "k < c" and y: "?P k y"
    obtain a j where aj: "y = (a, j)" by fastforce
    have j: "0 \<le> j" "nat j < c" "k = 0 \<Longrightarrow> nat j = c - 1" using k y aj by auto
    have "char_code_at s (int k) = Some (s ! k)" using k assms(2) by simp
    then show "?P (Suc k) (?f (1 * int k) y)"
      using k y aj j by (auto simp: length_arr_set)
  qed simp_all
  then show ?thesis using assms(1) by (auto simp: enc_fill_def split: prod.splits)
qed

lemma enc_pad_loop_zeros:
  "length a = i + n \<Longrightarrow> enc_pad_loop rnd 1 (int n) (int i) a p = Some (take i a @ replicate n (Some 0))"
proof (induction n arbitrary: i a)
  case 0
  then show ?case by (simp add: enc_pad_loop.simps)
next
  case (Suc n)
  have "enc_pad_loop rnd 1 (int (Suc n)) (int i) a p = enc_pad_loop rnd 1 (int n) (int (Suc i)) (a[i := Some 0]) p"
    using Suc.prems by (subst enc_pad_loop.simps) (simp add: arr_set_def add.commute)
  also have "\<dots> = Some (take (Suc i) (a[i := Some 0]) @ replicate n (Some 0))"
    using Suc.prems by (intro Suc.IH) simp
  also have "take (Suc i) (a[i := Some 0]) = take i a @ [Some 0]"
    using Suc.prems by (simp add: take_Suc_conv_app_nth)
  finally show ?case by simp
qed

lemma enc_array_noPadding:
  assumes "0 < c" "c \<le> length s"
  shows "enc_array rnd 1 (int c) s = Some (map Some (replicate c 0))"
proof -
  have "enc_clip 1 (int c) (int (length s)) = int c" "enc_pad_count (int c) (int c) = int c"
    using assms by (auto simp: enc_clip_def enc_pad_count_def)
  then show ?thesis
    using enc_pad_loop_zeros [of "enc_fill 1 (int c) (int c) s" 0 c rnd 0] enc_fill_length [OF assms]
    by (simp add: enc_array_def Let_def)
qed

section \<open>Properties\<close>

text \<open>C1: with a hexadecimal modulus \<open>m\<close> of at most 1024 bits and at least 17, \<open>getPwd\<close> terminates, and its result is the
  concatenation of the blocks of the zero-padded password, each read as a little-endian number, raised to the power
  65537 modulo \<open>m\<close> and printed in hexadecimal.\<close>

theorem getPwd_encrypts:
  assumes "radix_string 16 rsa_n" "length rsa_n \<le> 524"
    and "65536 \<le> radval 16 rsa_n" "radval 16 rsa_n < 65536 ^ 64" and "byte_string pwd"
  shows "\<exists>h. 65536 ^ h \<le> radval 16 rsa_n \<and> radval 16 rsa_n < 65536 ^ Suc h \<and>
    getPwd rnd rsa_n pwd = Some (rsa_encrypt (2 * h) 65537 (radval 16 rsa_n) pwd)"
proof -
  have e: "radix_string 16 (str ''10001'')" "radval 16 (str ''10001'') = 65537" "length (str ''10001'') \<le> 4 * 131" by code_simp+
  obtain key h where "RSAKeyPair 131 (str ''10001'') [] rsa_n None = Some key"
    "key_ok 131 key (radval 16 (str ''10001'')) (radval 16 []) (radval 16 rsa_n) h"
    "65536 ^ h \<le> radval 16 rsa_n" "radval 16 rsa_n < 65536 ^ Suc h"
    using RSAKeyPair_ok [OF e(1,3) _ _ assms(1) _ assms(3,4), of "[]"] assms(2) by auto
  then show ?thesis
    using encryptedString_plain [OF _ assms(5)] e(2) by (auto simp: getPwd_def)
qed

theorem getPwd_encrypts_witness:
  "\<exists>h. 65536 ^ h \<le> (84630 :: int) \<and> 84630 < (65536 :: int) ^ Suc h \<and>
     getPwd (\<lambda>_. 0) (str ''14a96'') (str ''pwd'') = Some (rsa_encrypt (2 * h) 65537 84630 (str ''pwd''))"
proof -
  have n: "radix_string 16 (str ''14a96'')" "radval 16 (str ''14a96'') = 84630" "length (str ''14a96'') \<le> 524" by code_simp+
  have "byte_string (str ''pwd'')" by code_simp
  from getPwd_encrypts [OF n(1,3) _ _ this] show ?thesis unfolding n(2) by simp
qed

text \<open>C2: for a modulus \<open>m\<close> with \<open>h + 1\<close> digits of 16 bits the key has blocks of \<open>2 * h\<close> characters, and \<open>decryptedString\<close> recovers
  what \<open>encryptedString\<close> encrypted: for exponents that are inverse to each other modulo \<open>m\<close>, every non-empty byte string that is shorter than a
  block and does not end in a zero byte comes back.\<close>

theorem rsa_round_trip:
  assumes "radix_string 16 es" "length es \<le> 4 * N" "radix_string 16 ds" "length ds \<le> 4 * N"
    "radix_string 16 ms" "length ms \<le> 4 * N"
    and "65536 ^ h \<le> radval 16 ms" "radval 16 ms < 65536 ^ Suc h" "2 * Suc h + 2 < N"
    and "\<And>v. 0 \<le> v \<Longrightarrow> v < radval 16 ms \<Longrightarrow>
      (v ^ nat (radval 16 es) mod radval 16 ms) ^ nat (radval 16 ds) mod radval 16 ms = v"
    and "byte_string s" "s \<noteq> []" "last s \<noteq> 0" "length s < 2 * h"
  shows "\<exists>key c. RSAKeyPair N es ds ms None = Some key \<and> rk_chunkSize key = int (2 * h) \<and>
    encryptedString N rnd key s None None = Some c \<and> decryptedString N key c = Some s"
proof -
  have "(65536 :: int) ^ 1 \<le> 65536 ^ h" using assms(14) by (intro power_increasing) auto
  then have m: "65536 \<le> radval 16 ms" using assms(7) by simp
  obtain key g where key: "RSAKeyPair N es ds ms None = Some key"
    "key_ok N key (radval 16 es) (radval 16 ds) (radval 16 ms) g" "65536 ^ g \<le> radval 16 ms" "radval 16 ms < 65536 ^ Suc g"
    by (rule RSAKeyPair_ok [OF assms(1-6) m assms(8,9)])
  have "(65536 :: int) ^ g < 65536 ^ Suc h" "(65536 :: int) ^ h < 65536 ^ Suc g" using assms(7,8) key(3,4) by linarith+
  then have "g < Suc h" "h < Suc g" by (simp_all only: power_strict_increasing_iff one_less_numeral_iff semiring_norm)
  then have g: "g = h" by simp
  have "decryptedString N key (rsa_encrypt (2 * h) (radval 16 es) (radval 16 ms) s) = Some s"
    by (rule round_trip [OF key(2,3) [unfolded g] _ assms(11-14)]) (rule assms(10))
  then show ?thesis
    using key(1,2) encryptedString_plain [OF key(2) assms(11)] unfolding g by (auto simp: key_ok_def)
qed

text \<open>For the witness: 11 is inverse to itself as an exponent modulo \<open>3 * 5 * 7 * 11 * 13 * 31 * 41\<close>.\<close>

lemma residue_power:
  fixes p v :: int
  assumes "0 < p" "list_all (\<lambda>r. (r ^ 11 mod p) ^ 11 mod p = r) [0..p - 1]"
  shows "v ^ 121 mod p = v mod p"
proof -
  have "v mod p \<in> set [0..p - 1]" using pos_mod_bound [OF assms(1)] pos_mod_sign [OF assms(1)] by simp
  then have "((v mod p) ^ 11 mod p) ^ 11 mod p = v mod p" using assms(2) by (simp only: list_all_iff)
  then show ?thesis by (simp add: power_mod power_mult [symmetric])
qed

lemma power_mod_coprime:
  fixes a b v :: int
  assumes "v ^ 121 mod a = v mod a" "v ^ 121 mod b = v mod b" "coprime a b"
  shows "v ^ 121 mod (a * b) = v mod (a * b)"
  using assms by (simp add: mod_eq_dvd_iff divides_mult)

lemma key_exponents: "0 \<le> v \<Longrightarrow> v < 19084065 \<Longrightarrow> (v ^ 11 mod 19084065) ^ 11 mod 19084065 = v" for v :: int
proof -
  assume v: "0 \<le> v" "v < 19084065"
  have r: "v ^ 121 mod 3 = v mod 3" "v ^ 121 mod 5 = v mod 5" "v ^ 121 mod 7 = v mod 7" "v ^ 121 mod 11 = v mod 11"
    "v ^ 121 mod 13 = v mod 13" "v ^ 121 mod 31 = v mod 31" "v ^ 121 mod 41 = v mod 41"
    by (rule residue_power, simp, code_simp)+
  have c: "coprime (3 :: int) 5" "coprime (15 :: int) 7" "coprime (105 :: int) 11" "coprime (1155 :: int) 13"
    "coprime (15015 :: int) 31" "coprime (465465 :: int) 41"
    by (simp_all add: coprime_iff_gcd_eq_1 gcd_non_0_int)
  have "v ^ 121 mod 15 = v mod 15" using power_mod_coprime [OF r(1,2) c(1)] by simp
  from power_mod_coprime [OF this r(3) c(2)] have "v ^ 121 mod 105 = v mod 105" by simp
  from power_mod_coprime [OF this r(4) c(3)] have "v ^ 121 mod 1155 = v mod 1155" by simp
  from power_mod_coprime [OF this r(5) c(4)] have "v ^ 121 mod 15015 = v mod 15015" by simp
  from power_mod_coprime [OF this r(6) c(5)] have "v ^ 121 mod 465465 = v mod 465465" by simp
  from power_mod_coprime [OF this r(7) c(6)] have "v ^ 121 mod 19084065 = v mod 19084065" by simp
  then show ?thesis using v by (simp add: power_mod power_mult [symmetric])
qed

theorem rsa_round_trip_witness:
  "\<exists>key c. RSAKeyPair 7 (str ''b'') (str ''b'') (str ''1233321'') None = Some key \<and> rk_chunkSize key = int (2 * 1) \<and>
     encryptedString 7 (\<lambda>_. 0) key (str ''A'') None None = Some c \<and> decryptedString 7 key c = Some (str ''A'')"
proof -
  have e: "radix_string 16 (str ''b'')" "length (str ''b'') \<le> 4 * 7" "radval 16 (str ''b'') = 11" by code_simp+
  have m: "radix_string 16 (str ''1233321'')" "length (str ''1233321'') \<le> 4 * 7" "radval 16 (str ''1233321'') = 19084065"
    by code_simp+
  have s: "byte_string (str ''A'')" "str ''A'' \<noteq> []" "last (str ''A'') \<noteq> 0" "length (str ''A'') = 1" by code_simp+
  show ?thesis
    by (rule rsa_round_trip [OF e(1,2) e(1,2) m(1,2)]) (simp_all add: e(3) m(3) s key_exponents)
qed

text \<open>With the pad type \<^verbatim>\<open>NoPadding\<close> a message that fills the block is lost: for every such message the number
  encrypted is zero, and with an exponent other than zero the result is always the text 0000.\<close>

theorem noPadding_full_block_lost:
  assumes "RSAKeyPair N es ds ms None = Some key"
    and "radix_string 16 es" "length es \<le> 4 * N" "radix_string 16 ds" "length ds \<le> 4 * N"
    "radix_string 16 ms" "length ms \<le> 4 * N"
    and "65536 \<le> radval 16 ms" "radval 16 ms < 65536 ^ k" "2 * k + 2 < N" "0 < radval 16 es"
    and "rk_chunkSize key \<le> int (length s)"
  shows "encryptedString N rnd key s (Some (str ''NoPadding'')) None = Some (str ''0000'')"
proof -
  obtain h where key: "key_ok N key (radval 16 es) (radval 16 ds) (radval 16 ms) h"
    using RSAKeyPair_ok [OF assms(2-10)] assms(1) by (metis option.inject)
  have h: "0 < 2 * h" "rk_chunkSize key = int (2 * h)" "2 * h \<le> length s"
    using key assms(12) by (auto simp: key_ok_def)
  have "enc_array rnd 1 (rk_chunkSize key) s = Some (map Some (replicate (2 * h) 0))"
    using enc_array_noPadding [OF h(1,3)] h(2) by simp
  moreover have "byte_string (replicate (2 * h) 0)" by simp
  then have "enc_blocks N key 0 (map Some (replicate (2 * h) 0)) (int (2 * h * 0)) [] =
      Some ([] @ hex_quads (0 ^ nat (radval 16 es) mod radval 16 ms))"
    using enc_blocks_correct [OF key, of "replicate (2 * h) 0" 1 0] by simp
  moreover have "hex_quads 0 = str ''0000''" by code_simp
  moreover have "padtype_of (Some (str ''NoPadding'')) = 1" by (simp add: padtype_of_def)
  moreover have "(0 :: int) ^ nat (radval 16 es) mod radval 16 ms = 0" using assms(11) by (simp add: zero_power)
  ultimately show ?thesis
    by (simp add: encryptedString_def encodingtype_of_def)
qed

theorem noPadding_full_block_lost_witness:
  "\<exists>key. RSAKeyPair 7 (str ''b'') (str ''b'') (str ''1233321'') None = Some key \<and>
     encryptedString 7 (\<lambda>_. 0) key (str ''secret'') (Some (str ''NoPadding'')) None = Some (str ''0000'')"
proof -
  have e: "radix_string 16 (str ''b'')" "length (str ''b'') \<le> 4 * 7" "radval 16 (str ''b'') = 11" by code_simp+
  have m: "radix_string 16 (str ''1233321'')" "length (str ''1233321'') \<le> 4 * 7" "radval 16 (str ''1233321'') = 19084065"
    by code_simp+
  obtain key h where key: "RSAKeyPair 7 (str ''b'') (str ''b'') (str ''1233321'') None = Some key"
    "key_ok 7 key 11 11 19084065 h" "65536 ^ h \<le> (19084065 :: int)"
    by (rule RSAKeyPair_ok [OF e(1,2) e(1,2) m(1,2), of 2, unfolded e(3) m(3)]) simp_all
  have "(65536 :: int) ^ h < 65536 ^ 2" using key(3) by (rule order.strict_trans1) simp
  then have "h < 2" by (rule power_less_imp_less_exp [rotated]) simp
  then have "rk_chunkSize key \<le> int (length (str ''secret''))" using key(2) by (simp add: key_ok_def str_def)
  from noPadding_full_block_lost [OF key(1) e(1,2) e(1,2) m(1,2) _ _ _ _ this, of 2] show ?thesis
    using key(1) by (simp add: e(3) m(3))
qed

end
