(* ===== verification/Js_Uri_Decode.thy ===== *)
theory Js_Uri_Decode
  imports Js_Uri
begin

text \<open>
  \<^verbatim>\<open>decodeURIComponent\<close>, with \<open>None\<close> for a \<^verbatim>\<open>URIError\<close>, and the round trip with \<^verbatim>\<open>encodeURIComponent\<close>.
\<close>

section \<open>Definitions\<close>

definition pct :: "jstr \<Rightarrow> (int \<times> jstr) option" where
  "pct s = (case s of [] \<Rightarrow> None | c # s' \<Rightarrow> if c = 37 then hex2 s' else None)"

text \<open>The \<open>n\<close> continuation octets of a UTF-8 sequence.\<close>

fun pct_conts :: "nat \<Rightarrow> int \<Rightarrow> jstr \<Rightarrow> (int \<times> jstr) option" where
  "pct_conts 0 v s = Some (v, s)"
| "pct_conts (Suc n) v s =
     (case pct s of None \<Rightarrow> None
      | Some (b, r) \<Rightarrow> if 128 \<le> b \<and> b < 192 then pct_conts n (64 * v + (b - 128)) r else None)"

definition utf16_units :: "int \<Rightarrow> jstr" where
  "utf16_units p = (if p < 65536 then [p] else [55296 + (p - 65536) div 1024, 56320 + (p - 65536) mod 1024])"

definition pct_checked :: "int \<Rightarrow> int \<Rightarrow> (int \<times> jstr) option \<Rightarrow> (jstr \<times> jstr) option" where
  "pct_checked lo hi v =
     (case v of None \<Rightarrow> None
      | Some (p, r) \<Rightarrow> if lo \<le> p \<and> p < hi \<and> \<not> (55296 \<le> p \<and> p \<le> 57343) then Some (utf16_units p, r) else None)"

text \<open>The character whose percent-encoded octets a string starts with.\<close>

definition pct_char :: "jstr \<Rightarrow> (jstr \<times> jstr) option" where
  "pct_char s =
     (case pct s of None \<Rightarrow> None
      | Some (b, r) \<Rightarrow>
          if b < 128 then Some ([b], r)
          else if 192 \<le> b \<and> b < 224 then pct_checked 128 2048 (pct_conts 1 (b - 192) r)
          else if 224 \<le> b \<and> b < 240 then pct_checked 2048 65536 (pct_conts 2 (b - 224) r)
          else if 240 \<le> b \<and> b < 248 then pct_checked 65536 1114112 (pct_conts 3 (b - 240) r)
          else None)"

lemma pct_length: "pct s = Some (b, r) \<Longrightarrow> length r < length s"
  by (auto simp: pct_def split: list.splits if_splits dest: hex2_length)

lemma pct_conts_length: "pct_conts n v s = Some (p, r) \<Longrightarrow> length r \<le> length s"
  by (induction n arbitrary: v s) (fastforce split: option.splits if_splits dest: pct_length)+

lemma pct_char_length: "pct_char s = Some (t, r) \<Longrightarrow> length r < length s"
  by (fastforce simp: pct_char_def pct_checked_def split: option.splits if_splits prod.splits
      dest: pct_length pct_conts_length)

function decode_uri_component :: "jstr \<Rightarrow> jstr option" where
  "decode_uri_component [] = Some []"
| "decode_uri_component (c # s) =
     (if c = 37 then
        (case pct_char (c # s) of None \<Rightarrow> None | Some (t, r) \<Rightarrow> map_option ((@) t) (decode_uri_component r))
      else map_option ((#) c) (decode_uri_component s))"
  by pat_completeness auto
termination
  by (relation "measure length") (auto dest: pct_char_length)

declare decode_uri_component.simps(2) [simp del]

section \<open>Round trip\<close>

lemma pct_percent: "0 \<le> b \<Longrightarrow> b < 256 \<Longrightarrow> pct (percent b @ s) = Some (b, s)"
proof -
  assume b: "0 \<le> b" "b < 256"
  then have "hex_value (upper_hex (b div 16)) = Some (b div 16)" "hex_value (upper_hex (b mod 16)) = Some (b mod 16)"
    by (intro hex_value_upper_hex; auto)+
  then show "pct (percent b @ s) = Some (b, s)" by (simp add: pct_def percent_def)
qed

lemma pct_conts_percents:
  "list_all (\<lambda>b. 128 \<le> b \<and> b < 192) bs \<Longrightarrow>
   pct_conts (length bs) v (concat (map percent bs) @ s) = Some (foldl (\<lambda>v b. 64 * v + (b - 128)) v bs, s)"
  by (induction bs arbitrary: v) (simp_all add: pct_percent)

lemma div_chain: "64 * (p div 4096) + p div 64 mod 64 = p div 64" "64 * (p div 262144) + p div 4096 mod 64 = p div 4096"
  "64 * (p div 64) + p mod 64 = p" for p :: int
proof -
  have "p div 4096 = p div 64 div 64" "p div 262144 = p div 4096 div 64" by (simp_all add: zdiv_zmult2_eq [symmetric])
  then show "64 * (p div 4096) + p div 64 mod 64 = p div 64" "64 * (p div 262144) + p div 4096 mod 64 = p div 4096"
    "64 * (p div 64) + p mod 64 = p"
    using mult_div_mod_eq [of 64 "p div 64"] mult_div_mod_eq [of 64 "p div 4096"] mult_div_mod_eq [of 64 p] by simp_all
qed

lemma cont_range: "128 \<le> 128 + p mod (64 :: int) \<and> 128 + p mod 64 < 192"
  by simp

lemma pct_char_percent_encode:
  assumes "0 \<le> p" "p < 1114112" "\<not> (55296 \<le> p \<and> p \<le> 57343)"
  shows "pct_char (percent_encode p @ s) = Some (utf16_units p, s)"
proof -
  have conts: "pct_conts n v (concat (map percent bs) @ s) = Some (w, s)"
    if "list_all (\<lambda>b. 128 \<le> b \<and> b < 192) bs" "length bs = n" "foldl (\<lambda>v b. 64 * v + (b - 128)) v bs = w" for n v bs w
    using pct_conts_percents [OF that(1), of v s] that(2,3) by simp
  consider "p < 128" | "128 \<le> p" "p < 2048" | "2048 \<le> p" "p < 65536" | "65536 \<le> p" by linarith
  then show ?thesis
  proof cases
    case 1
    then show ?thesis
      using assms(1) by (simp add: percent_encode_def utf8_octets_def pct_char_def pct_percent utf16_units_def)
  next
    case 2
    have b: "192 \<le> 192 + p div 64" "192 + p div 64 < 224" using 2 by auto
    have "pct_conts 1 (p div 64) (concat (map percent [128 + p mod 64]) @ s) = Some (p, s)"
      by (rule conts) (simp_all add: cont_range div_chain)
    with 2 assms(3) b show ?thesis
      by (simp add: percent_encode_def utf8_octets_def pct_char_def pct_percent pct_checked_def)
  next
    case 3
    have b: "224 \<le> 224 + p div 4096" "224 + p div 4096 < 240" using 3 by auto
    have "pct_conts 2 (p div 4096) (concat (map percent [128 + p div 64 mod 64, 128 + p mod 64]) @ s) = Some (p, s)"
      by (rule conts) (simp_all add: cont_range div_chain)
    with 3 assms(3) b show ?thesis
      by (simp add: percent_encode_def utf8_octets_def pct_char_def pct_percent pct_checked_def)
  next
    case 4
    have b: "240 \<le> 240 + p div 262144" "240 + p div 262144 < 248" using 4 assms(2) by auto
    have "pct_conts 3 (p div 262144)
        (concat (map percent [128 + p div 4096 mod 64, 128 + p div 64 mod 64, 128 + p mod 64]) @ s) = Some (p, s)"
      by (rule conts) (simp_all add: cont_range div_chain)
    with 4 assms b show ?thesis
      by (simp add: percent_encode_def utf8_octets_def pct_char_def pct_percent pct_checked_def)
  qed
qed

lemma percent_encode_hd: "\<exists>r. percent_encode p = 37 # r"
  by (simp add: percent_encode_def utf8_octets_def percent_def)

lemma decode_percent_encode:
  assumes "0 \<le> p" "p < 1114112" "\<not> (55296 \<le> p \<and> p \<le> 57343)"
  shows "decode_uri_component (percent_encode p @ s) = map_option ((@) (utf16_units p)) (decode_uri_component s)"
proof -
  obtain r where r: "percent_encode p = 37 # r" using percent_encode_hd by blast
  show ?thesis
    using pct_char_percent_encode [OF assms, of s] unfolding r append_Cons
    by (subst decode_uri_component.simps(2)) simp
qed

lemma surrogate_pair:
  assumes "55296 \<le> c" "c \<le> 56319" "56320 \<le> d" "d \<le> (57343 :: int)"
  shows "65536 \<le> 65536 + (c - 55296) * 1024 + (d - 56320)" "65536 + (c - 55296) * 1024 + (d - 56320) < 1114112"
    "utf16_units (65536 + (c - 55296) * 1024 + (d - 56320)) = [c, d]"
proof -
  show "65536 \<le> 65536 + (c - 55296) * 1024 + (d - 56320)" "65536 + (c - 55296) * 1024 + (d - 56320) < 1114112"
    using assms by simp_all
  have split: "(a * 1024 + e) div 1024 = a \<and> (a * 1024 + e) mod 1024 = e" if "0 \<le> e" "e < 1024" for a e :: int
    using that by simp
  have "((c - 55296) * 1024 + (d - 56320)) div 1024 = c - 55296" "((c - 55296) * 1024 + (d - 56320)) mod 1024 = d - 56320"
    using split [of "d - 56320" "c - 55296"] assms by simp_all
  then show "utf16_units (65536 + (c - 55296) * 1024 + (d - 56320)) = [c, d]"
    using assms by (simp add: utf16_units_def)
qed

lemma decode_encode_uri_component:
  "code_units s \<Longrightarrow> encode_uri_component s = Some t \<Longrightarrow> decode_uri_component t = Some s"
proof (induction s arbitrary: t rule: encode_uri_component.induct)
  case 1
  then show ?case by simp
next
  case (2 c s)
  have range: "0 \<le> c" "c < 65536" "code_units s" using "2.prems"(1) by simp_all
  consider (plain) "uri_unreserved c" | (high) "\<not> uri_unreserved c" "55296 \<le> c" "c \<le> 56319"
    | (bmp) "\<not> uri_unreserved c" "\<not> (55296 \<le> c \<and> c \<le> 57343)"
    using "2.prems"(2) by (auto split: if_splits)
  then show ?case
  proof cases
    case plain
    then obtain u where u: "encode_uri_component s = Some u" "t = c # u" using "2.prems"(2) by auto
    have "decode_uri_component u = Some s" using "2.IH"(1) plain range(3) u(1) by blast
    then show ?thesis
      using unreserved_ascii [OF plain] u(2) by (simp add: decode_uri_component.simps(2))
  next
    case high
    then obtain d s' u where u: "s = d # s'" "56320 \<le> d" "d \<le> 57343" "encode_uri_component s' = Some u"
      "t = percent_encode (65536 + (c - 55296) * 1024 + (d - 56320)) @ u"
      using "2.prems"(2) by (auto split: list.splits if_splits)
    have "decode_uri_component u = Some s'" using "2.IH"(2) high u range by auto
    then show ?thesis
      using surrogate_pair [OF high(2,3) u(2,3)] u by (subst u(5), subst decode_percent_encode) simp_all
  next
    case bmp
    then obtain u where u: "encode_uri_component s = Some u" "t = percent_encode c @ u"
      using "2.prems"(2) by (auto split: if_splits)
    have "decode_uri_component u = Some s" using "2.IH"(3) bmp range(3) u(1) by auto
    then show ?thesis
      using range bmp by (subst u(2), subst decode_percent_encode) (simp_all add: utf16_units_def)
  qed
qed

end
