(* ===== verification/Hook_Runtime.thy ===== *)
theory Hook_Runtime
  imports Js_Text Js_Uri_Decode
begin

text \<open>
  The part of the memory-search tool that runs in the page: the hook function of \<^verbatim>\<open>hook.js\<close>, the recorder of
  \<^verbatim>\<open>string-put-to-db-plugins.js\<close> and the local search of \<^verbatim>\<open>search-strings-db-plugins.js\<close>.

  A \<^verbatim>\<open>stack\<close> argument is the text of \<^verbatim>\<open>new Error().stack\<close>. The counters \<^verbatim>\<open>codeLocationExecuteTimesCount\<close> are a map
  from the text of a code location; the location \<^verbatim>\<open>null\<close> is the key \<^verbatim>\<open>null\<close>, as for any property name. A stack line is
  never the name of an array property. A regular expression is a function on its \<^verbatim>\<open>lastIndex\<close> and the text it is tested on.
  Errors are the left values of a sum.
\<close>

section \<open>hook.js\<close>

datatype hvalue =
    HString jstr
  | HNumber int
  | HBool bool
  | HNull
  | HUndefined
  | HObject nat

text \<open>A callback runs on the state of the page; the flag says that it raised an exception.\<close>

type_synonym 's callback = "jstr \<Rightarrow> hvalue \<Rightarrow> jstr \<Rightarrow> 's \<Rightarrow> bool \<times> 's"

primrec run_hook :: "'s callback list \<Rightarrow> jstr \<Rightarrow> hvalue \<Rightarrow> jstr \<Rightarrow> 's \<Rightarrow> 's" where
  "run_hook [] name val ty s = s"
| "run_hook (cb # cbs) name val ty s = (let (raised, s) = cb name val ty s in run_hook cbs name val ty s)"

definition cc11001100_hook :: "'s callback list \<Rightarrow> jstr \<Rightarrow> hvalue \<Rightarrow> jstr \<Rightarrow> 's \<Rightarrow> hvalue \<times> 's" where
  "cc11001100_hook cbs name val ty s = (val, run_hook cbs name val ty s)"

section \<open>string-put-to-db-plugins.js\<close>

record entry =
  en_name :: jstr
  en_value :: jstr
  en_type :: jstr
  en_execOrder :: int
  en_codeLocation :: "jstr option"

record stringsDB =
  varValueDb :: "entry list"
  codeLocationExecuteTimesCount :: "jstr \<Rightarrow> int option"
  execOrderCounter :: int

definition emptyDB :: stringsDB where
  "emptyDB = \<lparr>varValueDb = [], codeLocationExecuteTimesCount = (\<lambda>_. None), execOrderCounter = 100000\<rparr>"

definition getCodeLocation :: "jstr \<Rightarrow> jstr option" where
  "getCodeLocation stack =
     (let callstack = dropWhile (\<lambda>l. \<not> contains l (str ''cc11001100'')) (js_split_char 10 stack)
      in if length callstack < 2 then None else Some (callstack ! 1))"

definition truthy :: "hvalue \<Rightarrow> bool" where
  "truthy v = (case v of HString s \<Rightarrow> s \<noteq> [] | HNumber n \<Rightarrow> n \<noteq> 0 | HBool b \<Rightarrow> b
     | HNull \<Rightarrow> False | HUndefined \<Rightarrow> False | HObject _ \<Rightarrow> True)"

definition location_key :: "jstr option \<Rightarrow> jstr" where
  "location_key loc = (case loc of None \<Rightarrow> str ''null'' | Some l \<Rightarrow> l)"

definition stringPutToDB :: "jstr \<Rightarrow> jstr \<Rightarrow> hvalue \<Rightarrow> jstr \<Rightarrow> stringsDB \<Rightarrow> stringsDB" where
  "stringPutToDB stack name val ty db =
     (if \<not> truthy val then db
      else let valueString = (case val of HString s \<Rightarrow> s | _ \<Rightarrow> [])
      in if valueString = [] then db
      else let codeLocation = getCodeLocation stack;
               e = \<lparr>en_name = name, en_value = valueString, en_type = ty, en_execOrder = execOrderCounter db,
                    en_codeLocation = codeLocation\<rparr>;
               cnt = codeLocationExecuteTimesCount db;
               key = location_key codeLocation
           in db\<lparr>varValueDb := varValueDb db @ [e], execOrderCounter := execOrderCounter db + 1,
                 codeLocationExecuteTimesCount :=
                   cnt(key := Some (case cnt key of None \<Rightarrow> 1 | Some n \<Rightarrow> n + 1))\<rparr>)"

text \<open>The recorder as a callback; it does not raise.\<close>

definition putCallback :: "jstr \<Rightarrow> stringsDB callback" where
  "putCallback stack = (\<lambda>name val ty db. (False, stringPutToDB stack name val ty db))"

section \<open>search-strings-db-plugins.js\<close>

datatype field = FName | FValue

datatype pattern = PString jstr | PRegExp "nat \<Rightarrow> jstr \<Rightarrow> bool \<times> nat" | POther

definition entry_field :: "field \<Rightarrow> entry \<Rightarrow> jstr" where
  "entry_field f e = (case f of FName \<Rightarrow> en_name e | FValue \<Rightarrow> en_value e)"

definition push_new :: "jstr option \<Rightarrow> jstr list \<Rightarrow> jstr list" where
  "push_new t result = (case t of None \<Rightarrow> result | Some t \<Rightarrow> if t \<in> set result then result else result @ [t])"

text \<open>\<^verbatim>\<open>expansionS\<close> of a string; a \<^verbatim>\<open>URIError\<close> is caught.\<close>

definition expansionS :: "jstr \<Rightarrow> jstr list" where
  "expansionS s =
     push_new (Some (js_replace_all (str '' '') (str ''+'') s))
       (push_new (decode_uri_component s) (push_new (encode_uri_component s) [s]))"

definition expansion_values :: "pattern \<Rightarrow> bool \<Rightarrow> jstr list" where
  "expansion_values p isNeedExpansion =
     (case p of PString s \<Rightarrow> if isNeedExpansion then expansionS s else [s] | _ \<Rightarrow> [])"

text \<open>Whether an entry matches, and the \<^verbatim>\<open>lastIndex\<close> of the pattern afterwards.\<close>

definition is_match :: "pattern \<Rightarrow> bool \<Rightarrow> jstr list \<Rightarrow> nat \<Rightarrow> jstr \<Rightarrow> bool \<times> nat" where
  "is_match p isEquals expansionValues lastIndex v =
     (case p of
        PString _ \<Rightarrow>
          (if isEquals then list_ex (\<lambda>q. q = v) expansionValues
           else list_ex (\<lambda>q. v \<noteq> [] \<and> contains v q) expansionValues, lastIndex)
      | PRegExp test \<Rightarrow> test lastIndex v
      | POther \<Rightarrow> (False, lastIndex))"

definition abbreviationPattern :: "pattern \<Rightarrow> jstr \<Rightarrow> jstr" where
  "abbreviationPattern p v =
     (case p of
        PString s \<Rightarrow>
          (if length s < 40 then v
           else js_replace v s (take 15 s @ str ''......'' @ drop (length s - 15) s))
      | _ \<Rightarrow> v)"

record codeInfo =
  codeAddress :: jstr
  codeName :: "jstr option"

text \<open>The match on a location \<^verbatim>\<open>null\<close> raises a TypeError.\<close>

datatype hook_error = TypeError | URIError

definition parseCodeLocation :: "jstr option \<Rightarrow> hook_error + codeInfo" where
  "parseCodeLocation loc =
     (case loc of None \<Rightarrow> Inl TypeError
      | Some l \<Rightarrow> Inr \<lparr>codeAddress = (case lazy_group (str ''('') 41 l of Some g \<Rightarrow> g | None \<Rightarrow> l),
                       codeName = lazy_group (str ''at '') 40 l\<rparr>)"

record found =
  fd_name :: jstr
  fd_value :: jstr
  fd_type :: jstr
  fd_execOrder :: int
  fd_codeName :: "jstr option"
  fd_codeAddress :: jstr
  fd_execTimes :: "int option"

fun search_loop :: "stringsDB \<Rightarrow> field \<Rightarrow> pattern \<Rightarrow> bool \<Rightarrow> jstr list \<Rightarrow> nat \<Rightarrow> entry list \<Rightarrow> found list \<Rightarrow> hook_error + found list" where
  "search_loop db f p eq xs li [] result = Inr result"
| "search_loop db f p eq xs li (e # es) result =
     (let (isMatch, li) = is_match p eq xs li (entry_field f e)
      in if \<not> isMatch then search_loop db f p eq xs li es result
         else case parseCodeLocation (en_codeLocation e) of
             Inl err \<Rightarrow> Inl err
           | Inr info \<Rightarrow>
               search_loop db f p eq xs li es
                 (result @ [\<lparr>fd_name = en_name e, fd_value = abbreviationPattern p (entry_field f e), fd_type = en_type e,
                   fd_execOrder = en_execOrder e, fd_codeName = codeName info, fd_codeAddress = codeAddress info,
                   fd_execTimes = codeLocationExecuteTimesCount db (location_key (en_codeLocation e))\<rparr>]))"

text \<open>The list that \<^verbatim>\<open>_search\<close> hands to \<^verbatim>\<open>showResult\<close>.\<close>

definition search_db :: "stringsDB \<Rightarrow> field \<Rightarrow> pattern \<Rightarrow> bool \<Rightarrow> bool \<Rightarrow> hook_error + found list" where
  "search_db db f p isEquals isNeedExpansion =
     search_loop db f p isEquals (expansion_values p isNeedExpansion) 0 (varValueDb db) []"

definition blank :: "int \<Rightarrow> jstr" where
  "blank n = replicate (nat n) 32"

text \<open>
  \<^verbatim>\<open>showResult\<close>: the texts that it writes to the console, for the address \<open>href\<close> of the page. Numbers below \<open>10 ^ 21\<close> print
  in decimal.
\<close>

definition tabs5 :: jstr where
  "tabs5 = replicate 5 9"

definition js_int :: "int \<Rightarrow> jstr" where
  "js_int n = (if n < 0 then 45 # nat_to_dec (nat (- n)) else nat_to_dec (nat n))"

definition showHeader :: jstr where
  "showHeader = js_join tabs5
     [[21464, 37327, 21517],
      [21464, 37327, 20540],
      [21464, 37327, 31867, 22411],
      [25152, 22312, 20989, 25968],
      [25191, 34892, 27425, 25968],
      [25191, 34892, 39034, 24207],
      [20195, 30721, 20301, 32622]] @ replicate 3 10"

definition showFound :: "found \<Rightarrow> jstr list" where
  "showFound r =
     (let indent = blank (int (length (fd_name r)));
          times = undef_text (map_option js_int (fd_execTimes r))
      in (if 90 < length (fd_value r) then
            [fd_name r @ tabs5 @ fd_value r, indent @ tabs5 @ fd_type r @ tabs5 @ undef_text (fd_codeName r),
             indent @ tabs5 @ times @ tabs5 @ js_int (fd_execOrder r)]
          else
            [fd_name r @ tabs5 @ fd_value r @ tabs5 @ fd_type r @ tabs5 @ undef_text (fd_codeName r),
             indent @ tabs5 @ times @ tabs5 @ js_int (fd_execOrder r)]) @
         [indent @ tabs5 @ fd_codeAddress r @ replicate 4 10])"

definition showResult :: "jstr \<Rightarrow> found list \<Rightarrow> jstr list" where
  "showResult href result =
     (let message = [10, 22312, 32447, 31243, 26632, 65306, 32, 10] @ href @ [10]
      in if result = [] then
           [message @ [20013, 27809, 26377, 25628, 32034, 21040, 32467, 26524, 12290] @ [10, 10], [10, 10, 10]]
         else
           [message @ [20013, 25628, 21040] @ js_int (int (length result)) @ [26465, 32467, 26524, 65306, 32] @ [10, 10], showHeader] @
           concat (map showFound result) @ [replicate 4 10])"

section \<open>The recorder\<close>

lemma run_hook_fold: "run_hook cbs name val ty s = fold (\<lambda>cb s. snd (cb name val ty s)) cbs s"
  by (induction cbs arbitrary: s) (simp_all add: split_beta)

text \<open>A call of the hook function: the stack at that time, the name, the value and the type.\<close>

type_synonym hook_call = "jstr \<times> jstr \<times> hvalue \<times> jstr"

definition hook_calls :: "hook_call list \<Rightarrow> stringsDB \<Rightarrow> stringsDB" where
  "hook_calls cs db =
     fold (\<lambda>(stack, name, val, ty) db. snd (cc11001100_hook [putCallback stack] name val ty db)) cs db"

definition recorded :: "hook_call list \<Rightarrow> hook_call list" where
  "recorded cs = filter (\<lambda>(stack, name, val, ty). case val of HString s \<Rightarrow> s \<noteq> [] | _ \<Rightarrow> False) cs"

definition entry_of :: "int \<Rightarrow> hook_call \<Rightarrow> entry" where
  "entry_of n c = (case c of (stack, name, val, ty) \<Rightarrow>
     \<lparr>en_name = name, en_value = (case val of HString s \<Rightarrow> s | _ \<Rightarrow> []), en_type = ty, en_execOrder = n,
      en_codeLocation = getCodeLocation stack\<rparr>)"

text \<open>How often a location occurs in the database, and the counters that agree with it.\<close>

definition occurrences :: "entry list \<Rightarrow> jstr \<Rightarrow> nat" where
  "occurrences es l = length (filter (\<lambda>e. location_key (en_codeLocation e) = l) es)"

definition counts_ok :: "stringsDB \<Rightarrow> bool" where
  "counts_ok db \<longleftrightarrow> (\<forall>l. codeLocationExecuteTimesCount db l =
     (if occurrences (varValueDb db) l = 0 then None else Some (int (occurrences (varValueDb db) l))))"

lemma recorded_Cons: "recorded (c # cs) = recorded [c] @ recorded cs"
  by (simp add: recorded_def)

lemma stringPutToDB_cases:
  obtains (skip) "recorded [(stack, name, val, ty)] = []" "stringPutToDB stack name val ty db = db"
  | (store) "recorded [(stack, name, val, ty)] = [(stack, name, val, ty)]"
      "varValueDb (stringPutToDB stack name val ty db) = varValueDb db @ [entry_of (execOrderCounter db) (stack, name, val, ty)]"
      "execOrderCounter (stringPutToDB stack name val ty db) = execOrderCounter db + 1"
      "codeLocationExecuteTimesCount (stringPutToDB stack name val ty db) =
         (let cnt = codeLocationExecuteTimesCount db; key = location_key (getCodeLocation stack)
          in cnt(key := Some (case cnt key of None \<Rightarrow> 1 | Some n \<Rightarrow> n + 1)))"
proof (cases "\<exists>s. val = HString s \<and> s \<noteq> []")
  case True
  then obtain s where "val = HString s" "s \<noteq> []" by blast
  then show ?thesis
    by (intro store) (simp_all add: stringPutToDB_def recorded_def truthy_def entry_of_def Let_def)
next
  case False
  then show ?thesis
    by (intro skip) (auto simp: stringPutToDB_def recorded_def Let_def split: hvalue.splits)
qed

lemma stringPutToDB_counts:
  assumes "counts_ok db"
  shows "counts_ok (stringPutToDB stack name val ty db)"
proof (cases rule: stringPutToDB_cases [of stack name val ty db])
  case skip
  then show ?thesis using assms by simp
next
  case store
  show ?thesis
    unfolding counts_ok_def store(2,4)
    using assms by (auto simp: counts_ok_def occurrences_def entry_of_def Let_def)
qed

lemma hook_calls_Cons:
  "hook_calls ((stack, name, val, ty) # cs) db = hook_calls cs (stringPutToDB stack name val ty db)"
  by (simp add: hook_calls_def cc11001100_hook_def putCallback_def)

lemma hook_calls_history:
  assumes "counts_ok db"
  shows "varValueDb (hook_calls cs db) =
      varValueDb db @ map2 entry_of (map (\<lambda>i. execOrderCounter db + int i) [0..<length (recorded cs)]) (recorded cs) \<and>
    execOrderCounter (hook_calls cs db) = execOrderCounter db + int (length (recorded cs)) \<and> counts_ok (hook_calls cs db)"
  using assms
proof (induction cs arbitrary: db)
  case Nil
  then show ?case by (simp add: hook_calls_def recorded_def)
next
  case (Cons c cs)
  obtain stack name val ty where c: "c = (stack, name, val, ty)" by (cases c) auto
  let ?db = "stringPutToDB stack name val ty db"
  note IH = Cons.IH [OF stringPutToDB_counts [OF Cons.prems, of stack name val ty]]
  show ?case
  proof (cases rule: stringPutToDB_cases [of stack name val ty db])
    case skip
    then show ?thesis using IH unfolding c hook_calls_Cons recorded_Cons [of _ cs] by simp
  next
    case store
    have "map (\<lambda>i. execOrderCounter db + int i) [0..<Suc n] =
        execOrderCounter db # map (\<lambda>i. execOrderCounter ?db + int i) [0..<n]" for n
      unfolding store(3) by (simp add: upt_conv_Cons map_Suc_upt [symmetric] del: upt_Suc)
    with IH store(1-3) show ?thesis unfolding c hook_calls_Cons recorded_Cons [of _ cs] by simp
  qed
qed

section \<open>The search\<close>

text \<open>What the search should return: the entries that match, in the order of the database.\<close>

definition matches :: "field \<Rightarrow> jstr \<Rightarrow> bool \<Rightarrow> bool \<Rightarrow> entry \<Rightarrow> bool" where
  "matches f s isEquals isNeedExpansion e \<longleftrightarrow>
     (\<exists>q \<in> set (if isNeedExpansion then expansionS s else [s]).
        if isEquals then entry_field f e = q
        else entry_field f e \<noteq> [] \<and> (\<exists>u w. entry_field f e = u @ q @ w))"

definition found_of :: "stringsDB \<Rightarrow> field \<Rightarrow> pattern \<Rightarrow> entry \<Rightarrow> found" where
  "found_of db f p e =
     (let l = location_key (en_codeLocation e)
      in \<lparr>fd_name = en_name e, fd_value = abbreviationPattern p (entry_field f e), fd_type = en_type e,
          fd_execOrder = en_execOrder e, fd_codeName = lazy_group (str ''at '') 40 l,
          fd_codeAddress = (case lazy_group (str ''('') 41 l of Some g \<Rightarrow> g | None \<Rightarrow> l),
          fd_execTimes = codeLocationExecuteTimesCount db l\<rparr>)"

lemma matches_code [code]:
  "matches f s isEquals isNeedExpansion e \<longleftrightarrow>
     list_ex (\<lambda>q. if isEquals then entry_field f e = q else entry_field f e \<noteq> [] \<and> contains (entry_field f e) q)
       (if isNeedExpansion then expansionS s else [s])"
  by (auto simp: matches_def list_ex_iff contains_append)

lemma is_match_string:
  "is_match (PString s) eq (expansion_values (PString s) ex) li (entry_field f e) = (matches f s eq ex e, li)"
  by (auto simp: is_match_def expansion_values_def matches_def list_ex_iff contains_append)

lemma search_loop_string:
  "search_loop db f (PString s) eq (expansion_values (PString s) ex) li es result =
     (if \<exists>e \<in> set es. matches f s eq ex e \<and> en_codeLocation e = None then Inl TypeError
      else Inr (result @ map (found_of db f (PString s)) (filter (matches f s eq ex) es)))"
proof (induction es arbitrary: result)
  case (Cons e es)
  show ?case
  proof (cases "en_codeLocation e")
    case None
    then show ?thesis using Cons by (auto simp: is_match_string parseCodeLocation_def)
  next
    case (Some l)
    then show ?thesis
      using Cons by (auto simp: is_match_string parseCodeLocation_def found_of_def location_key_def Let_def split: option.splits)
  qed
qed simp

lemma expansionS_mem:
  "s \<in> set (expansionS s)" "encode_uri_component s = Some t \<Longrightarrow> t \<in> set (expansionS s)"
  "decode_uri_component s = Some t \<Longrightarrow> t \<in> set (expansionS s)"
  "js_replace_all (str '' '') (str ''+'') s \<in> set (expansionS s)"
  by (auto simp: expansionS_def push_new_def split: option.splits)

section \<open>Properties\<close>

text \<open>C19: after any sequence of hook calls the database holds, in the order of the calls, one entry for every value that is a
  non-empty string, the entries are numbered from 100000 on without gaps, and every counter is the number of entries
  recorded at that code location.\<close>

theorem recorder_history:
  "varValueDb (hook_calls cs emptyDB) =
     map2 entry_of (map (\<lambda>i. 100000 + int i) [0..<length (recorded cs)]) (recorded cs) \<and>
   counts_ok (hook_calls cs emptyDB)"
proof -
  have "counts_ok emptyDB" by (simp add: counts_ok_def emptyDB_def occurrences_def)
  from hook_calls_history [OF this, of cs] show ?thesis by (simp add: emptyDB_def)
qed

text \<open>C34: a search for a string returns exactly the entries whose field equals, or contains, one of the expansions of the string, in
  the order of the database; when one of them has no code location, the search raises a TypeError instead.\<close>

theorem search_exact:
  "search_db db f (PString s) isEquals isNeedExpansion =
     (if \<exists>e \<in> set (varValueDb db). matches f s isEquals isNeedExpansion e \<and> en_codeLocation e = None then Inl TypeError
      else Inr (map (found_of db f (PString s)) (filter (matches f s isEquals isNeedExpansion) (varValueDb db))))"
  by (simp add: search_db_def search_loop_string)

theorem search_exact_witness:
  "search_db (hook_calls [(str ''cc11001100'' @ [10] @ str ''at f (a.js:1:2)'', str ''x'', HString (str ''a b''), str ''assign'')] emptyDB)
     FValue (PString (str ''a%20b'')) True True =
   Inr [\<lparr>fd_name = str ''x'', fd_value = str ''a b'', fd_type = str ''assign'', fd_execOrder = 100000,
     fd_codeName = Some (str ''f ''), fd_codeAddress = str ''a.js:1:2'', fd_execTimes = Some 1\<rparr>]"
proof -
  let ?db = "hook_calls [(str ''cc11001100'' @ [10] @ str ''at f (a.js:1:2)'', str ''x'', HString (str ''a b''), str ''assign'')] emptyDB"
  have "search_db ?db FValue (PString (str ''a%20b'')) True True =
     (if \<exists>e \<in> set (varValueDb ?db). matches FValue (str ''a%20b'') True True e \<and> en_codeLocation e = None then Inl TypeError
      else Inr (map (found_of ?db FValue (PString (str ''a%20b''))) (filter (matches FValue (str ''a%20b'') True True) (varValueDb ?db))))"
    by (rule search_exact)
  then show ?thesis by code_simp
qed

text \<open>C25: the hook function returns the value it is given, and once it has run, a search by value with the default arguments finds
  it for every text of which the value is an expansion, that is, the text itself, its URL-encoded or URL-decoded form, or the text with plus
  signs for blanks: when the stack and all recorded matches have a code location, the result has a line with the name, the type and the
  order number of the call.\<close>

theorem hooked_value_found:
  assumes "v \<noteq> []"
    and "v = s \<or> encode_uri_component s = Some v \<or> decode_uri_component s = Some v \<or>
      v = js_replace_all (str '' '') (str ''+'') s"
    and "getCodeLocation stack = Some l"
    and "\<forall>e \<in> set (varValueDb db). matches FValue s True True e \<longrightarrow> en_codeLocation e \<noteq> None"
  shows "\<exists>db' results r. cc11001100_hook [putCallback stack] name (HString v) ty db = (HString v, db') \<and>
    search_db db' FValue (PString s) True True = Inr results \<and> r \<in> set results \<and>
    fd_name r = name \<and> fd_type r = ty \<and> fd_execOrder r = execOrderCounter db"
proof -
  let ?db = "stringPutToDB stack name (HString v) ty db"
  have rec: "recorded [(stack, name, HString v, ty)] \<noteq> []" using assms(1) by (simp add: recorded_def)
  have db: "varValueDb ?db = varValueDb db @ [entry_of (execOrderCounter db) (stack, name, HString v, ty)]"
    by (cases rule: stringPutToDB_cases [of stack name "HString v" ty db]) (use rec in simp_all)
  let ?e = "entry_of (execOrderCounter db) (stack, name, HString v, ty)"
  have e: "matches FValue s True True ?e" "en_codeLocation ?e = Some l"
    using assms(2,3) expansionS_mem by (auto simp: matches_def entry_of_def entry_field_def)
  have "\<not> (\<exists>e \<in> set (varValueDb ?db). matches FValue s True True e \<and> en_codeLocation e = None)"
    unfolding db using assms(4) e(2) by auto
  then have "search_db ?db FValue (PString s) True True =
      Inr (map (found_of ?db FValue (PString s)) (filter (matches FValue s True True) (varValueDb ?db)))"
    by (simp only: search_db_def search_loop_string append_Nil if_False)
  moreover have "found_of ?db FValue (PString s) ?e \<in>
      set (map (found_of ?db FValue (PString s)) (filter (matches FValue s True True) (varValueDb ?db)))"
    unfolding db using e(1) by simp
  moreover have "fd_name (found_of ?db FValue (PString s) ?e) = name" "fd_type (found_of ?db FValue (PString s) ?e) = ty"
    "fd_execOrder (found_of ?db FValue (PString s) ?e) = execOrderCounter db"
    by (simp_all add: found_of_def entry_of_def Let_def)
  moreover have "cc11001100_hook [putCallback stack] name (HString v) ty db = (HString v, ?db)"
    by (simp add: cc11001100_hook_def putCallback_def)
  ultimately show ?thesis by blast
qed

theorem hooked_value_found_witness:
  "\<exists>db' results r. cc11001100_hook [putCallback (str ''cc11001100'' @ [10] @ str ''at f (a.js:1:2)'')] (str ''x'')
       (HString (str ''a%20b'')) (str ''assign'') emptyDB = (HString (str ''a%20b''), db') \<and>
     search_db db' FValue (PString (str ''a b'')) True True = Inr results \<and> r \<in> set results \<and>
     fd_name r = str ''x'' \<and> fd_type r = str ''assign'' \<and> fd_execOrder r = execOrderCounter emptyDB"
proof (rule hooked_value_found)
  show "str ''a%20b'' = str ''a b'' \<or> encode_uri_component (str ''a b'') = Some (str ''a%20b'') \<or>
      decode_uri_component (str ''a b'') = Some (str ''a%20b'') \<or>
      str ''a%20b'' = js_replace_all (str '' '') (str ''+'') (str ''a b'')" by code_simp
  show "getCodeLocation (str ''cc11001100'' @ [10] @ str ''at f (a.js:1:2)'') = Some (str ''at f (a.js:1:2)'')" by code_simp
qed (simp_all add: emptyDB_def str_def)

end
