(* ===== verification/Hook_Frames.thy ===== *)
theory Hook_Frames
  imports Hook_Runtime
begin

text \<open>
  The search across the frames of a page (\<^verbatim>\<open>search-strings-db-plugins.js\<close>): \<^verbatim>\<open>window.search\<close> and \<^verbatim>\<open>window.searchByName\<close>, the
  listener for messages and \<^verbatim>\<open>_searchParentAndChildren\<close>. Each frame has its own database and its own set of message
  numbers already processed. \<open>children f\<close> are the frames of the \<^verbatim>\<open>iframe\<close> elements of \<open>f\<close>, \<open>parent f\<close> is \<^verbatim>\<open>window.parent\<close>, which is
  the frame itself for the top one. \<^verbatim>\<open>postMessage\<close> puts a message into a queue; a step of the system delivers any one of the
  messages in the queue. The log holds the searches that the frames have run.
\<close>

section \<open>Definitions\<close>

record message =
  ms_domain :: jstr
  ms_type :: jstr
  ms_id :: int
  ms_field :: field
  ms_pattern :: pattern
  ms_isEquals :: bool
  ms_isNeedExpansion :: bool

record 'f world =
  wd_db :: "'f \<Rightarrow> stringsDB"
  wd_done :: "'f \<Rightarrow> int set"
  wd_queue :: "('f \<times> message option) list"
  wd_log :: "('f \<times> int \<times> (hook_error + found list)) list"

definition messageDomain :: jstr where
  "messageDomain = str ''cc11001100_hook''"

definition messageTypeSearch :: jstr where
  "messageTypeSearch = str ''search''"

definition search_message :: "int \<Rightarrow> field \<Rightarrow> pattern \<Rightarrow> bool \<Rightarrow> bool \<Rightarrow> message" where
  "search_message mid f p eq ex =
     \<lparr>ms_domain = messageDomain, ms_type = messageTypeSearch, ms_id = mid, ms_field = f, ms_pattern = p,
      ms_isEquals = eq, ms_isNeedExpansion = ex\<rparr>"

definition searchParentAndChildren ::
    "('f \<Rightarrow> 'f list) \<Rightarrow> ('f \<Rightarrow> 'f) \<Rightarrow> 'f \<Rightarrow> int \<Rightarrow> field \<Rightarrow> pattern \<Rightarrow> bool \<Rightarrow> bool \<Rightarrow> 'f world \<Rightarrow> 'f world" where
  "searchParentAndChildren children parent fr mid f p eq ex w =
     (let m = search_message mid f p eq ex
      in w\<lparr>wd_queue := wd_queue w @ map (\<lambda>c. (c, Some m)) (children fr) @ [(parent fr, Some m)]\<rparr>)"

text \<open>
  \<^verbatim>\<open>_search\<close>, then the number of the message is noted and the message is passed on; when \<^verbatim>\<open>_search\<close> raises an exception, neither
  happens. The entry points first search the current page with the time as the number of the message.
\<close>

definition search_and_post ::
    "('f \<Rightarrow> 'f list) \<Rightarrow> ('f \<Rightarrow> 'f) \<Rightarrow> 'f \<Rightarrow> int \<Rightarrow> field \<Rightarrow> pattern \<Rightarrow> bool \<Rightarrow> bool \<Rightarrow> 'f world \<Rightarrow> 'f world" where
  "search_and_post children parent fr mid f p eq ex w =
     (let r = search_db (wd_db w fr) f p eq ex;
          w = w\<lparr>wd_log := wd_log w @ [(fr, mid, r)]\<rparr>
      in case r of
           Inl _ \<Rightarrow> w
         | Inr _ \<Rightarrow> searchParentAndChildren children parent fr mid f p eq ex
                     (w\<lparr>wd_done := (wd_done w)(fr := insert mid (wd_done w fr))\<rparr>))"

definition searchByValue ::
    "('f \<Rightarrow> 'f list) \<Rightarrow> ('f \<Rightarrow> 'f) \<Rightarrow> int \<Rightarrow> 'f \<Rightarrow> pattern \<Rightarrow> bool \<Rightarrow> bool \<Rightarrow> 'f world \<Rightarrow> 'f world" where
  "searchByValue children parent now fr p eq ex w = search_and_post children parent fr now FValue p eq ex w"

definition searchByName ::
    "('f \<Rightarrow> 'f list) \<Rightarrow> ('f \<Rightarrow> 'f) \<Rightarrow> int \<Rightarrow> 'f \<Rightarrow> pattern \<Rightarrow> bool \<Rightarrow> bool \<Rightarrow> 'f world \<Rightarrow> 'f world" where
  "searchByName children parent now fr p eq ex w = search_and_post children parent fr now FName p eq ex w"

text \<open>The listener; \<open>None\<close> is an event without data.\<close>

definition onMessage ::
    "('f \<Rightarrow> 'f list) \<Rightarrow> ('f \<Rightarrow> 'f) \<Rightarrow> 'f \<Rightarrow> message option \<Rightarrow> 'f world \<Rightarrow> 'f world" where
  "onMessage children parent fr ev w =
     (case ev of
        None \<Rightarrow> w
      | Some m \<Rightarrow>
          if ms_domain m \<noteq> messageDomain then w
          else if ms_id m \<in> wd_done w fr then w
          else if ms_type m = messageTypeSearch then
            search_and_post children parent fr (ms_id m) (ms_field m) (ms_pattern m) (ms_isEquals m) (ms_isNeedExpansion m) w
          else w)"

inductive deliver :: "('f \<Rightarrow> 'f list) \<Rightarrow> ('f \<Rightarrow> 'f) \<Rightarrow> 'f world \<Rightarrow> 'f world \<Rightarrow> bool"
  for children parent where
  deliver: "wd_queue w = q1 @ (fr, ev) # q2 \<Longrightarrow>
     deliver children parent w (onMessage children parent fr ev (w\<lparr>wd_queue := q1 @ q2\<rparr>))"

inductive_cases deliverE [consumes 1, case_names deliver]: "deliver children parent w w'"

section \<open>Propagation\<close>

text \<open>The frames that messages from \<open>fr\<close> can reach.\<close>

inductive frame_reach :: "('f \<Rightarrow> 'f list) \<Rightarrow> ('f \<Rightarrow> 'f) \<Rightarrow> 'f \<Rightarrow> 'f \<Rightarrow> bool"
  for children parent fr where
  self: "frame_reach children parent fr fr"
| next_frame: "frame_reach children parent fr g \<Longrightarrow> h \<in> set (children g) \<or> h = parent g \<Longrightarrow> frame_reach children parent fr h"

definition log_count :: "'f world \<Rightarrow> 'f \<Rightarrow> int \<Rightarrow> nat" where
  "log_count w fr mid = length (filter (\<lambda>(g, i, r). g = fr \<and> i = mid) (wd_log w))"

text \<open>No frame that can be reached raises an exception on the search.\<close>

definition quiet :: "'f set \<Rightarrow> field \<Rightarrow> pattern \<Rightarrow> bool \<Rightarrow> bool \<Rightarrow> ('f \<Rightarrow> stringsDB) \<Rightarrow> bool" where
  "quiet R f p eq ex db \<longleftrightarrow> (\<forall>fr \<in> R. \<not> isl (search_db (db fr) f p eq ex))"

text \<open>The invariant of a search with the number \<open>mid\<close> that started in \<open>fr\<close>.\<close>

definition spread_inv ::
    "('f \<Rightarrow> 'f list) \<Rightarrow> ('f \<Rightarrow> 'f) \<Rightarrow> 'f \<Rightarrow> int \<Rightarrow> field \<Rightarrow> pattern \<Rightarrow> bool \<Rightarrow> bool \<Rightarrow> ('f \<Rightarrow> stringsDB) \<Rightarrow> 'f world \<Rightarrow> bool" where
  "spread_inv children parent fr mid f p eq ex db w \<longleftrightarrow>
     wd_db w = db \<and> mid \<in> wd_done w fr \<and>
     (\<forall>g ev. (g, ev) \<in> set (wd_queue w) \<longrightarrow> ev = Some (search_message mid f p eq ex) \<and> frame_reach children parent fr g) \<and>
     (\<forall>g. mid \<in> wd_done w g \<longrightarrow> frame_reach children parent fr g) \<and>
     (\<forall>g. log_count w g mid = (if mid \<in> wd_done w g then 1 else 0)) \<and>
     (\<forall>g h. mid \<in> wd_done w g \<longrightarrow> h \<in> set (children g) \<or> h = parent g \<longrightarrow>
        mid \<in> wd_done w h \<or> (h, Some (search_message mid f p eq ex)) \<in> set (wd_queue w))"

lemma search_and_post_quiet:
  assumes "\<not> isl (search_db (wd_db w fr) f p eq ex)"
  shows "wd_db (search_and_post children parent fr mid f p eq ex w) = wd_db w"
    and "wd_done (search_and_post children parent fr mid f p eq ex w) = (wd_done w)(fr := insert mid (wd_done w fr))"
    and "wd_queue (search_and_post children parent fr mid f p eq ex w) = wd_queue w @
      map (\<lambda>c. (c, Some (search_message mid f p eq ex))) (children fr) @ [(parent fr, Some (search_message mid f p eq ex))]"
    and "log_count (search_and_post children parent fr mid f p eq ex w) g i =
      log_count w g i + (if g = fr \<and> i = mid then 1 else 0)"
  using assms
  by (cases "search_db (wd_db w fr) f p eq ex";
      simp add: search_and_post_def searchParentAndChildren_def log_count_def Let_def)+

lemma onMessage_search:
  "onMessage children parent fr (Some (search_message mid f p eq ex)) w =
     (if mid \<in> wd_done w fr then w else search_and_post children parent fr mid f p eq ex w)"
  by (simp add: onMessage_def search_message_def)

lemma spread_start:
  assumes "wd_queue w = []" "\<And>g. mid \<notin> wd_done w g" "\<And>g. log_count w g mid = 0"
    and "\<not> isl (search_db (wd_db w fr) f p eq ex)"
  shows "spread_inv children parent fr mid f p eq ex (wd_db w) (search_and_post children parent fr mid f p eq ex w)"
  unfolding spread_inv_def search_and_post_quiet [OF assms(4)]
  using assms(1-3) by (auto intro: frame_reach.intros)

lemma spread_step:
  assumes inv: "spread_inv children parent fr mid f p eq ex db w" and step: "deliver children parent w w'"
    and quiet: "quiet {g. frame_reach children parent fr g} f p eq ex db"
  shows "spread_inv children parent fr mid f p eq ex db w'"
  using step
proof (cases rule: deliverE)
  case (deliver q1 g ev q2)
  let ?m = "search_message mid f p eq ex" and ?w = "w\<lparr>wd_queue := q1 @ q2\<rparr>"
  have g: "ev = Some ?m" "frame_reach children parent fr g"
    using inv deliver(2) by (auto simp: spread_inv_def)
  show ?thesis
  proof (cases "mid \<in> wd_done w g")
    case True
    then have "w' = ?w" using deliver(1) g(1) by (simp add: onMessage_search)
    then show ?thesis
      using inv True deliver(2) g unfolding spread_inv_def log_count_def by auto
  next
    case False
    then have w': "w' = search_and_post children parent g mid f p eq ex ?w"
      using deliver(1) g(1) by (simp add: onMessage_search)
    have "\<not> isl (search_db (wd_db ?w g) f p eq ex)"
      using quiet g(2) inv by (auto simp: quiet_def spread_inv_def)
    note post = search_and_post_quiet [OF this, of children parent mid]
    have nb: "frame_reach children parent fr h" if "h \<in> set (children g) \<or> h = parent g" for h
      using frame_reach.next_frame [OF g(2) that] .
    have "log_count ?w h mid = log_count w h mid" for h by (simp add: log_count_def)
    then show ?thesis
      unfolding w' spread_inv_def post
      using inv False deliver(2) g nb unfolding spread_inv_def
      by (auto split: if_splits)
  qed
qed

text \<open>Every delivery either adds a frame to those that have processed the message or shortens the queue.\<close>

definition spread_measure :: "'f set \<Rightarrow> int \<Rightarrow> ('f world \<times> 'f world) set" where
  "spread_measure R mid = measures [\<lambda>w. card (R - {g. mid \<in> wd_done w g}), \<lambda>w. length (wd_queue w)]"

lemma wf_spread_measure: "wf (spread_measure R mid)"
  by (simp add: spread_measure_def)

lemma spread_decreases:
  assumes inv: "spread_inv children parent fr mid f p eq ex db w" and step: "deliver children parent w w'"
    and quiet: "quiet {g. frame_reach children parent fr g} f p eq ex db" and fin: "finite {g. frame_reach children parent fr g}"
  shows "(w', w) \<in> spread_measure {g. frame_reach children parent fr g} mid"
  using step
proof (cases rule: deliverE)
  case (deliver q1 g ev q2)
  let ?m = "search_message mid f p eq ex" and ?w = "w\<lparr>wd_queue := q1 @ q2\<rparr>"
  let ?R = "{g. frame_reach children parent fr g}"
  have g: "ev = Some ?m" "g \<in> ?R"
    using inv deliver(2) by (auto simp: spread_inv_def)
  show ?thesis
  proof (cases "mid \<in> wd_done w g")
    case True
    then have "w' = ?w" using deliver(1) g(1) by (simp add: onMessage_search)
    then show ?thesis using deliver(2) by (simp add: spread_measure_def)
  next
    case False
    then have w': "w' = search_and_post children parent g mid f p eq ex ?w"
      using deliver(1) g(1) by (simp add: onMessage_search)
    have "\<not> isl (search_db (wd_db ?w g) f p eq ex)"
      using quiet g(2) inv by (auto simp: quiet_def spread_inv_def)
    then have "wd_done w' = (wd_done w)(g := insert mid (wd_done w g))"
      unfolding w' by (simp add: search_and_post_quiet(2))
    then have "?R - {h. mid \<in> wd_done w' h} \<subset> ?R - {h. mid \<in> wd_done w h}"
      using g(2) False by auto
    then have "card (?R - {h. mid \<in> wd_done w' h}) < card (?R - {h. mid \<in> wd_done w h})"
      using fin by (intro psubset_card_mono) auto
    then show ?thesis by (simp add: spread_measure_def)
  qed
qed

lemma spread_runs:
  assumes "(deliver children parent)\<^sup>*\<^sup>* w w'" "spread_inv children parent fr mid f p eq ex db w"
    and "quiet {g. frame_reach children parent fr g} f p eq ex db"
  shows "spread_inv children parent fr mid f p eq ex db w'"
  using assms(1) by (induction rule: rtranclp_induct) (use assms(2) spread_step [OF _ _ assms(3)] in blast)+

lemma deliver_exists: "wd_queue w \<noteq> [] \<Longrightarrow> \<exists>w'. deliver children parent w w'"
proof -
  assume "wd_queue w \<noteq> []"
  then obtain fr ev q where "wd_queue w = [] @ (fr, ev) # q" by (metis append_Nil list.exhaust surj_pair)
  then show "\<exists>w'. deliver children parent w w'" by (blast intro: deliver.deliver)
qed

lemma spread_completes:
  assumes "finite {g. frame_reach children parent fr g}" "quiet {g. frame_reach children parent fr g} f p eq ex db"
  shows "spread_inv children parent fr mid f p eq ex db w \<Longrightarrow> \<exists>w'. (deliver children parent)\<^sup>*\<^sup>* w w' \<and> wd_queue w' = []"
proof (induction w rule: wf_induct_rule [OF wf_spread_measure, of "{g. frame_reach children parent fr g}" mid])
  case (1 w)
  show ?case
  proof (cases "wd_queue w = []")
    case False
    then obtain w' where w': "deliver children parent w w'" using deliver_exists by blast
    then obtain w'' where "(deliver children parent)\<^sup>*\<^sup>* w' w''" "wd_queue w'' = []"
      using "1.IH" spread_decreases [OF "1.prems" w' assms(2,1)] spread_step [OF "1.prems" w' assms(2)] by blast
    then show ?thesis using w' by (meson converse_rtranclp_into_rtranclp)
  qed blast
qed

lemma spread_no_infinite:
  assumes "finite {g. frame_reach children parent fr g}" "quiet {g. frame_reach children parent fr g} f p eq ex db"
    and "spread_inv children parent fr mid f p eq ex db (run 0)" "\<And>i. deliver children parent (run i) (run (Suc i))"
  shows False
proof -
  have inv: "spread_inv children parent fr mid f p eq ex db (run i)" for i
    by (induction i) (use assms(3,4) spread_step [OF _ _ assms(2)] in blast)+
  have "(run (Suc i), run i) \<in> spread_measure {g. frame_reach children parent fr g} mid" for i
    using spread_decreases [OF inv assms(4) assms(2,1)] .
  then show False using wf_spread_measure unfolding wf_iff_no_infinite_down_chain by blast
qed

lemma spread_done:
  assumes "spread_inv children parent fr mid f p eq ex db w" "wd_queue w = []" "frame_reach children parent fr g"
  shows "log_count w g mid = 1"
proof -
  have "mid \<in> wd_done w g"
    using assms(3) by (induction rule: frame_reach.induct) (use assms(1,2) in \<open>auto simp: spread_inv_def\<close>)
  then show ?thesis using assms(1) by (simp add: spread_inv_def)
qed

section \<open>Properties\<close>

text \<open>C14: a search by value started in a frame, with a message number not used before and no database on which the search raises an
  exception, spreads to every frame that can be reached over parents and children: in whatever order the messages are
  delivered, there is no infinite run, every run can be continued until the queue is empty, and then each of these frames has
  run the search exactly once.\<close>

theorem search_reaches_every_frame:
  assumes "wd_queue w = []" "\<And>g. now \<notin> wd_done w g" "\<And>g. log_count w g now = 0"
    and "finite {g. frame_reach children parent fr g}"
    and "\<And>g. frame_reach children parent fr g \<Longrightarrow> \<not> isl (search_db (wd_db w g) FValue p eq ex)"
  defines "start \<equiv> searchByValue children parent now fr p eq ex w"
  shows "(\<nexists>run. run 0 = start \<and> (\<forall>i. deliver children parent (run i) (run (Suc i)))) \<and>
    (\<forall>w1. (deliver children parent)\<^sup>*\<^sup>* start w1 \<longrightarrow>
      (\<exists>w2. (deliver children parent)\<^sup>*\<^sup>* w1 w2 \<and> wd_queue w2 = []) \<and>
      (wd_queue w1 = [] \<longrightarrow> (\<forall>g. frame_reach children parent fr g \<longrightarrow> log_count w1 g now = 1)))"
proof -
  have quiet: "quiet {g. frame_reach children parent fr g} FValue p eq ex (wd_db w)"
    using assms(5) by (simp add: quiet_def)
  have inv: "spread_inv children parent fr now FValue p eq ex (wd_db w) start"
    unfolding start_def searchByValue_def by (rule spread_start) (use assms in \<open>auto intro: frame_reach.self\<close>)
  show ?thesis
    using spread_no_infinite [OF assms(4) quiet] spread_completes [OF assms(4) quiet] spread_runs [OF _ inv quiet]
      spread_done inv by metis
qed

text \<open>For the witness: a page with one inner frame.\<close>

definition two_frames :: "bool world" where
  "two_frames = \<lparr>wd_db = (\<lambda>_. emptyDB), wd_done = (\<lambda>_. {}), wd_queue = [], wd_log = []\<rparr>"

theorem search_reaches_every_frame_witness:
  "\<exists>w1. (deliver (\<lambda>fr. if fr then [False] else []) (\<lambda>_. True))\<^sup>*\<^sup>*
        (searchByValue (\<lambda>fr. if fr then [False] else []) (\<lambda>_. True) 1700000000000 True (PString (str ''sign'')) True True two_frames) w1 \<and>
      wd_queue w1 = [] \<and> log_count w1 True 1700000000000 = 1 \<and> log_count w1 False 1700000000000 = 1"
proof -
  let ?ch = "\<lambda>fr. if fr then [False] else []" and ?pa = "\<lambda>_ :: bool. True"
  have reach: "frame_reach ?ch ?pa True True" "frame_reach ?ch ?pa True False"
    using frame_reach.intros [of ?ch ?pa True] by auto
  have fresh: "wd_queue two_frames = []" "\<And>g. 1700000000000 \<notin> wd_done two_frames g"
    "\<And>g. log_count two_frames g 1700000000000 = 0"
    by (simp_all add: two_frames_def log_count_def)
  have quiet: "\<not> isl (search_db (wd_db two_frames g) FValue (PString (str ''sign'')) True True)" for g
    by (simp add: two_frames_def emptyDB_def search_db_def)
  show ?thesis
    using search_reaches_every_frame [OF fresh, of ?ch ?pa True "PString (str ''sign'')" True True] quiet reach
    by (meson finite_code rtranclp.rtrancl_refl)
qed

text \<open>The number of a message is the time in milliseconds, so a second search in the same millisecond gets lost: as long as all
  frames that can be reached have processed that number, it is run in the frame where it started and, whatever is delivered,
  in no other.\<close>

theorem second_search_in_same_millisecond_lost:
  assumes "wd_queue w = []" "\<And>g. frame_reach children parent fr g \<Longrightarrow> now \<in> wd_done w g"
    and "(deliver children parent)\<^sup>*\<^sup>* (searchByName children parent now fr p eq ex w) w1"
  shows "wd_log w1 = wd_log w @ [(fr, now, search_db (wd_db w fr) FName p eq ex)]"
proof -
  let ?start = "searchByName children parent now fr p eq ex w"
  let ?P = "\<lambda>w1. wd_log w1 = wd_log ?start \<and> wd_done w1 = wd_done ?start \<and>
    (\<forall>(g, ev) \<in> set (wd_queue w1). \<exists>m. ev = Some m \<and> ms_id m \<in> wd_done ?start g)"
  have "?P ?start"
    using assms(1,2) frame_reach.intros [of children parent fr]
    by (cases "search_db (wd_db w fr) FName p eq ex")
       (auto simp: searchByName_def search_and_post_def searchParentAndChildren_def search_message_def Let_def)
  with assms(3) have "?P w1"
  proof (induction rule: rtranclp_induct)
    case (step w1 w2)
    from step.hyps(2) show ?case
    proof (cases rule: deliverE)
      case (deliver q1 g ev q2)
      then obtain m where "ev = Some m" "ms_id m \<in> wd_done w1 g" using step by auto
      then have "w2 = w1\<lparr>wd_queue := q1 @ q2\<rparr>" using deliver(1) by (simp add: onMessage_def)
      with step deliver(2) show ?thesis by auto
    qed
  qed
  moreover have "wd_log ?start = wd_log w @ [(fr, now, search_db (wd_db w fr) FName p eq ex)]"
    by (cases "search_db (wd_db w fr) FName p eq ex")
       (simp_all add: searchByName_def search_and_post_def searchParentAndChildren_def Let_def)
  ultimately show ?thesis by simp
qed

theorem second_search_in_same_millisecond_lost_witness:
  "\<exists>w1. deliver (\<lambda>fr. if fr then [False] else []) (\<lambda>_. True)
       (searchByName (\<lambda>fr. if fr then [False] else []) (\<lambda>_. True) 5 True (PString (str ''sign'')) False False
         (two_frames\<lparr>wd_done := \<lambda>_. {5}\<rparr>)) w1 \<and> wd_log w1 = [(True, 5, Inr [])]"
proof -
  let ?ch = "\<lambda>fr. if fr then [False] else []" and ?pa = "\<lambda>_ :: bool. True"
  let ?w = "two_frames\<lparr>wd_done := \<lambda>_. {5}\<rparr>" and ?p = "PString (str ''sign'')"
  have empty: "search_db (wd_db ?w True) FName ?p False False = Inr []"
    by (simp add: two_frames_def emptyDB_def search_db_def)
  then have "wd_queue (searchByName ?ch ?pa 5 True ?p False False ?w) \<noteq> []"
    by (simp add: searchByName_def search_and_post_def searchParentAndChildren_def Let_def)
  then obtain w1 where w1: "deliver ?ch ?pa (searchByName ?ch ?pa 5 True ?p False False ?w) w1"
    using deliver_exists by blast
  have "wd_log w1 = wd_log ?w @ [(True, 5, search_db (wd_db ?w True) FName ?p False False)]"
    using w1 by (intro second_search_in_same_millisecond_lost [where children = ?ch and parent = ?pa] r_into_rtranclp)
      (simp_all add: two_frames_def)
  with w1 empty show ?thesis by (auto simp: two_frames_def)
qed

end
