(* ===== verification/Js_Json.thy ===== *)
theory Js_Json
  imports Js_Text Js_Uri
begin

text \<open>
  \<^verbatim>\<open>JSON.stringify\<close> and \<^verbatim>\<open>JSON.parse\<close> on texts and whole numbers: a quotation mark, a backslash, the control characters and unpaired
  surrogates are written as escapes, and every escape is read back. A reader takes its part from the front of a text and returns the
  rest, or \<open>None\<close> for a syntax error.
\<close>

section \<open>Texts\<close>

definition json_unicode :: "int \<Rightarrow> jstr" where
  "json_unicode c = str (CHR 0x5C # ''u'') @ map (\<lambda>d. hex_digits ! nat d) [c div 4096 mod 16, c div 256 mod 16, c div 16 mod 16, c mod 16]"

definition json_short :: "(int \<times> int) list" where
  "json_short = [(8, 98), (9, 116), (10, 110), (12, 102), (13, 114), (34, 34), (92, 92)]"

definition json_char :: "int \<Rightarrow> jstr" where
  "json_char c = (case map_of json_short c of Some e \<Rightarrow> [92, e] | None \<Rightarrow> if c < 32 then json_unicode c else [c])"

fun json_chars :: "jstr \<Rightarrow> jstr" where
  "json_chars [] = []"
| "json_chars (c # s) =
     (if 55296 \<le> c \<and> c \<le> 56319 then
        (case s of
           [] \<Rightarrow> json_unicode c
         | d # t \<Rightarrow> if 56320 \<le> d \<and> d \<le> 57343 then c # d # json_chars t else json_unicode c @ json_chars s)
      else (if 56320 \<le> c \<and> c \<le> 57343 then json_unicode c else json_char c) @ json_chars s)"

definition json_quote :: "jstr \<Rightarrow> jstr" where
  "json_quote s = [34] @ json_chars s @ [34]"

definition json_escapes :: "(int \<times> int) list" where
  "json_escapes = [(34, 34), (92, 92), (47, 47), (98, 8), (102, 12), (110, 10), (114, 13), (116, 9)]"

definition hex_number :: "jstr \<Rightarrow> int option" where
  "hex_number h = (if length h = 4 \<and> (\<forall>d \<in> set h. digit_value d < 16) then Some (radval 16 h) else None)"

text \<open>What follows the opening quotation mark.\<close>

function read_chars :: "jstr \<Rightarrow> (jstr \<times> jstr) option" where
  "read_chars [] = None"
| "read_chars (c # s) =
     (if c = 34 then Some ([], s)
      else if c < 32 then None
      else if c \<noteq> 92 then map_option (\<lambda>(t, r). (c # t, r)) (read_chars s)
      else case s of
          [] \<Rightarrow> None
        | e # u \<Rightarrow>
            if e = 117 then
              (case hex_number (take 4 u) of
                 None \<Rightarrow> None
               | Some v \<Rightarrow> map_option (\<lambda>(t, r). (v # t, r)) (read_chars (drop 4 u)))
            else case map_of json_escapes e of
                None \<Rightarrow> None
              | Some v \<Rightarrow> map_option (\<lambda>(t, r). (v # t, r)) (read_chars u))"
  by pat_completeness auto
termination
  by (relation "measure length") auto

definition json_expect :: "jstr \<Rightarrow> jstr \<Rightarrow> jstr option" where
  "json_expect expected s = (if starts_with s expected then Some (drop (length expected) s) else None)"

definition read_string :: "jstr \<Rightarrow> (jstr \<times> jstr) option" where
  "read_string s = Option.bind (json_expect [34] s) read_chars"

section \<open>Whole numbers\<close>

definition json_int :: "int \<Rightarrow> jstr" where
  "json_int n = (if n < 0 then str ''-'' else []) @ nat_to_dec (nat \<bar>n\<bar>)"

definition is_digit :: "int \<Rightarrow> bool" where
  "is_digit c \<longleftrightarrow> 48 \<le> c \<and> c \<le> 57"

definition read_int :: "jstr \<Rightarrow> (int \<times> jstr) option" where
  "read_int s =
     (let neg = starts_with s (str ''-''); u = (if neg then drop 1 s else s); ds = takeWhile is_digit u
      in if ds = [] \<or> 1 < length ds \<and> hd ds = 48 then None
         else Some (if neg then - radval 10 ds else radval 10 ds, dropWhile is_digit u))"

section \<open>What is written is read back\<close>

lemma hex_digit_range: "list_all (\<lambda>k. digit_value (hex_digits ! k) = int k \<and> 32 \<le> hex_digits ! k) [0..<16]"
  by code_simp

lemma hex_digit_at: "0 \<le> d \<Longrightarrow> d < 16 \<Longrightarrow> digit_value (hex_digits ! nat d) = d \<and> 32 \<le> hex_digits ! nat d"
  using upt_all [OF hex_digit_range, of "nat d"] by simp

lemma hex_numberI: "length h = 4 \<Longrightarrow> \<forall>d \<in> set h. digit_value d < 16 \<Longrightarrow> radval 16 h = c \<Longrightarrow> hex_number h = Some c"
  by (simp add: hex_number_def)

lemma hex_number_unicode:
  assumes "0 \<le> c" "c < 65536"
  shows "hex_number (map (\<lambda>d. hex_digits ! nat d) [c div 4096 mod 16, c div 256 mod 16, c div 16 mod 16, c mod 16]) = Some c"
proof -
  have eq: "c div 16 div 16 = c div 256" "c div 256 div 16 = c div 4096" by (simp_all add: zdiv_zmult2_eq [symmetric])
  have "c div 4096 mod 16 = c div 4096" using assms by (intro mod_pos_pos_trivial) auto
  then have sum: "c div 4096 mod 16 * 4096 + (c div 256 mod 16 * 256 + (c div 16 mod 16 * 16 + c mod 16)) = c"
    using mult_div_mod_eq [of 16 c] mult_div_mod_eq [of 16 "c div 16"] mult_div_mod_eq [of 16 "c div 256"] eq by linarith
  let ?h = "map (\<lambda>d. hex_digits ! nat d) [c div 4096 mod 16, c div 256 mod 16, c div 16 mod 16, c mod 16]"
  have "radval 16 ?h = c div 4096 mod 16 * 4096 + (c div 256 mod 16 * 256 + (c div 16 mod 16 * 16 + c mod 16))"
    by (simp add: hex_digit_at radval_Cons)
  then have "radval 16 ?h = c" by (simp only: sum)
  moreover have "length ?h = 4" "\<forall>d \<in> set ?h. digit_value d < 16" by (simp_all add: hex_digit_at)
  ultimately show ?thesis by (intro hex_numberI)
qed

lemma read_unicode:
  assumes "0 \<le> c" "c < 65536"
  shows "read_chars (json_unicode c @ s) = map_option (\<lambda>(t, r). (c # t, r)) (read_chars s)"
  using hex_number_unicode [OF assms] by (simp add: json_unicode_def str_def)

lemma read_char:
  assumes "0 \<le> c" "c < 65536"
  shows "read_chars (json_char c @ s) = map_option (\<lambda>(t, r). (c # t, r)) (read_chars s)"
  using assms read_unicode [OF assms, of s]
  by (auto simp: json_char_def json_short_def json_escapes_def)

lemma read_json_chars: "code_units s \<Longrightarrow> read_chars (json_chars s @ 34 # r) = Some (s, r)"
proof (induction s rule: json_chars.induct)
  case (2 c s)
  then have c: "0 \<le> c" "c < 65536" by simp_all
  show ?case
  proof (cases "55296 \<le> c \<and> c \<le> 56319 \<and> s \<noteq> [] \<and> 56320 \<le> hd s \<and> hd s \<le> 57343")
    case True
    then obtain d t where s: "s = d # t" by (cases s) auto
    then show ?thesis using 2 True by simp
  next
    case False
    then have "json_chars (c # s) = (if 55296 \<le> c \<and> c \<le> 57343 then json_unicode c else json_char c) @ json_chars s"
      by (cases s) auto
    moreover have "read_chars (json_chars s @ 34 # r) = Some (s, r)"
      using 2 False by (cases "55296 \<le> c \<and> c \<le> 56319"; cases s) auto
    ultimately show ?thesis using read_unicode [OF c] read_char [OF c] by simp
  qed
qed simp

lemma read_json_quote: "code_units s \<Longrightarrow> read_string (json_quote s @ r) = Some (s, r)"
  using read_json_chars [of s r] by (simp add: read_string_def json_expect_def json_quote_def starts_with_def)

lemma json_expect_append [simp]: "json_expect t (t @ s) = Some s"
  by (simp add: json_expect_def starts_with_def)

lemma nat_to_dec_lead: "1 < length (nat_to_dec n) \<Longrightarrow> hd (nat_to_dec n) \<noteq> 48"
proof (induction n rule: nat_to_dec.induct)
  case (1 n)
  show ?case
  proof (cases "n < 100")
    case True
    then show ?thesis using "1.prems" by (auto simp: nat_to_dec.simps [of n] nat_to_dec.simps [of "n div 10"])
  next
    case False
    then have "1 < length (nat_to_dec (n div 10))" using nat_to_dec_ne [of "n div 10 div 10"]
      by (auto simp: nat_to_dec.simps [of "n div 10"])
    then show ?thesis using 1 False nat_to_dec_ne [of "n div 10"] by (simp add: nat_to_dec.simps [of n])
  qed
qed

lemma read_json_int:
  assumes "r = [] \<or> \<not> is_digit (hd r)"
  shows "read_int (json_int n @ r) = Some (n, r)"
proof -
  let ?ds = "nat_to_dec (nat \<bar>n\<bar>)"
  have d: "\<forall>c \<in> set ?ds. is_digit c" using nat_to_dec_digits by (fastforce simp: is_digit_def)
  have tw: "takeWhile is_digit (?ds @ r) = ?ds" "dropWhile is_digit (?ds @ r) = r"
    using d assms by (cases r; simp add: takeWhile_append dropWhile_append)+
  have ne: "?ds \<noteq> []" using nat_to_dec_ne .
  then have "\<not> starts_with (?ds @ r) (str ''-'')"
    using d by (cases ?ds) (auto simp: starts_with_def str_def is_digit_def)
  moreover have "starts_with (str ''-'' @ x) (str ''-'')" for x by (simp add: starts_with_def)
  ultimately show ?thesis
    using tw ne nat_to_dec_lead [of "nat \<bar>n\<bar>"] by (auto simp: read_int_def json_int_def Let_def radval_nat_to_dec str_def)
qed

text \<open>No newline is written.\<close>

lemma json_char_newline: "10 \<notin> set (json_char c)"
proof -
  have "10 \<noteq> hex_digits ! nat d" if "0 \<le> d" "d < 16" for d using hex_digit_at [OF that] by auto
  then have "10 \<notin> set (json_unicode c)" by (simp add: json_unicode_def str_def)
  then show ?thesis by (auto simp: json_char_def json_short_def split: option.splits if_splits)
qed

lemma json_quote_newline: "10 \<notin> set (json_quote s)"
proof -
  have u: "10 \<notin> set (json_unicode c)" if "55296 \<le> c" for c :: int
    using hex_digit_at [of "c div 4096 mod 16"] hex_digit_at [of "c div 256 mod 16"] hex_digit_at [of "c div 16 mod 16"] hex_digit_at [of "c mod 16"]
    by (auto simp: json_unicode_def str_def)
  have "10 \<notin> set (json_chars s)"
    by (induction s rule: json_chars.induct) (auto simp: u json_char_newline split: list.splits)
  then show ?thesis by (simp add: json_quote_def)
qed

lemma json_int_newline: "10 \<notin> set (json_int n)"
  using nat_to_dec_digits by (fastforce simp: json_int_def str_def)

end
