(* ===== verification/Hook_Proxy.thy ===== *)
theory Hook_Proxy
  imports Js_Json Js_Uri_Decode
begin

text \<open>
  The server side of the memory-search tool: the cache of plugin code (\<^verbatim>\<open>plugins-manager.js\<close>), the handling of intercepted
  responses (\<^verbatim>\<open>global-assign-hook-component-main.js\<close>, called from \<^verbatim>\<open>rules.js\<close>), the HTTP interface
  (\<^verbatim>\<open>api-server.js\<close>) and the replacement of \<^verbatim>\<open>eval\<close> that calls it (\<^verbatim>\<open>eval-hook-plugins.js\<close>).

  Parameters stand for code outside the repository: \<open>inject\<close> for the code transformation \<^verbatim>\<open>injectHook\<close> on program text, whose
  parser and printer are Babel's, \<open>md5\<close> for \<^verbatim>\<open>crypto.createHash\<close>, the record \<open>cheerio\<close> for the HTML library. The file system
  is a map from paths to contents; the meta file is its text, or \<open>None\<close> when it is missing. The times that \<^verbatim>\<open>new Date().getTime()\<close> returns are arguments. \<^verbatim>\<open>toLowerCase\<close> is lowering of ASCII letters: no
  other character is lowered to one of the characters that the results are compared with.
\<close>

section \<open>State and effects\<close>

datatype perror = JsonError | InjectError | FileError | URIError | NetworkError

record meta =
  mt_url :: jstr
  mt_filepath :: jstr
  mt_cacheTime :: int

record proxy =
  px_cache :: "jstr \<Rightarrow> meta option"
  px_files :: "jstr \<Rightarrow> jstr option"
  px_metaFile :: "jstr option"
  px_lastReadDiskTs :: int
  px_pluginsJsCodeCache :: jstr

text \<open>An operation returns a value or an error, and the state in both cases.\<close>

type_synonym 'a act = "proxy \<Rightarrow> (perror + 'a) \<times> proxy"

definition ret :: "'a \<Rightarrow> 'a act" where
  "ret x s = (Inr x, s)"

definition bnd :: "'a act \<Rightarrow> ('a \<Rightarrow> 'b act) \<Rightarrow> 'b act" where
  "bnd m k s = (case m s of (Inl e, s) \<Rightarrow> (Inl e, s) | (Inr x, s) \<Rightarrow> k x s)"

definition readFileSync :: "jstr \<Rightarrow> jstr act" where
  "readFileSync p s = (case px_files s p of None \<Rightarrow> (Inl FileError, s) | Some c \<Rightarrow> (Inr c, s))"

section \<open>plugins-manager.js\<close>

definition pluginsNames :: "jstr list" where
  "pluginsNames = [str ''string-put-to-db-plugins.js'', str ''search-strings-db-plugins.js'', str ''eval-hook-plugins.js'']"

definition newline :: jstr where
  "newline = [10]"

definition loadOnce :: jstr where
  "loadOnce = newline @ str ''   if (!window) {'' @ newline @ str ''       return; '' @ newline @ str ''   } '' @ newline @
     str ''   if (window.cc11001100_hook_done) {'' @ newline @ str ''       return;'' @ newline @ str ''   }'' @ newline @
     str ''   window.cc11001100_hook_done = true;'' @ newline @ newline"

fun readPlugins :: "jstr list \<Rightarrow> jstr list \<Rightarrow> jstr list act" where
  "readPlugins [] acc = ret acc"
| "readPlugins (n # ns) acc =
     bnd (readFileSync (str ''src/components/global-assign-hook-component/plugins/'' @ str ''/'' @ n)) (\<lambda>c.
     readPlugins ns (acc @ [c]))"

definition hookBanner :: "jstr \<Rightarrow> jstr" where
  "hookBanner what =
     str ''// ----------------------------------------- Hook'' @ what @ str '' ----------------------------------------------------- ''"

definition loadPluginsAsString :: "jstr act" where
  "loadPluginsAsString =
     bnd (readFileSync (str ''src/components/global-assign-hook-component/core/hook.js'')) (\<lambda>hookJsCode.
     bnd (readPlugins pluginsNames []) (\<lambda>pluginsJsContentArray.
     ret (newline @ hookBanner [20195, 30721, 24320, 22987] @ newline @ newline @ str ''(() => {'' @ newline @
       loadOnce @ hookJsCode @ js_join (newline @ newline) pluginsJsContentArray @
       str ''})();'' @ newline @ newline @ hookBanner [20195, 30721, 32467, 26463] @
       newline @ newline @ newline @ newline @ newline)))"

text \<open>\<open>t0\<close> and \<open>t1\<close> are the times of the two calls of \<^verbatim>\<open>getTime\<close>.\<close>

definition loadPluginsAsStringWithCache :: "int \<Rightarrow> int \<Rightarrow> jstr act" where
  "loadPluginsAsStringWithCache t0 t1 s =
     (if t0 - px_lastReadDiskTs s \<le> 1000 then (Inr (px_pluginsJsCodeCache s), s)
      else bnd loadPluginsAsString (\<lambda>c s. (Inr c, s\<lparr>px_pluginsJsCodeCache := c\<rparr>)) (s\<lparr>px_lastReadDiskTs := t1\<rparr>))"

section \<open>global-assign-hook-component-main.js\<close>

definition cacheDirectory :: jstr where
  "cacheDirectory = str ''./js-file-cache''"

text \<open>
  The line of an entry, as \<^verbatim>\<open>JSON.stringify\<close> writes it, and \<^verbatim>\<open>JSON.parse\<close> on such lines. No other program writes the file; a line that
  does not have this form counts as a syntax error.
\<close>

definition stringify_meta :: "meta \<Rightarrow> jstr" where
  "stringify_meta m =
     str ''{'' @ json_quote (str ''url'') @ str '':'' @ json_quote (mt_url m) @ str '','' @
     json_quote (str ''filepath'') @ str '':'' @ json_quote (mt_filepath m) @ str '','' @
     json_quote (str ''cacheTime'') @ str '':'' @ json_int (mt_cacheTime m) @ str ''}''"

definition parse_meta :: "jstr \<Rightarrow> meta option" where
  "parse_meta line =
     Option.bind (json_expect (str ''{'' @ json_quote (str ''url'') @ str '':'') line) (\<lambda>s.
     Option.bind (read_string s) (\<lambda>(url, s).
     Option.bind (json_expect (str '','' @ json_quote (str ''filepath'') @ str '':'') s) (\<lambda>s.
     Option.bind (read_string s) (\<lambda>(filepath, s).
     Option.bind (json_expect (str '','' @ json_quote (str ''cacheTime'') @ str '':'') s) (\<lambda>s.
     Option.bind (read_int s) (\<lambda>(cacheTime, s).
     if s = str ''}'' then Some \<lparr>mt_url = url, mt_filepath = filepath, mt_cacheTime = cacheTime\<rparr> else None))))))"

text \<open>\<^verbatim>\<open>initInjectSuccessJsFileCache\<close>: later lines replace earlier ones; a line that is not JSON raises, and the server does not start.\<close>

fun initLines :: "jstr list \<Rightarrow> (jstr \<Rightarrow> meta option) \<Rightarrow> perror + (jstr \<Rightarrow> meta option)" where
  "initLines [] cache = Inr cache"
| "initLines (line # lines) cache =
     (if line = [] then initLines lines cache
      else case parse_meta line of
          None \<Rightarrow> Inl JsonError
        | Some m \<Rightarrow> initLines lines (cache(mt_url m := Some m)))"

definition initCache :: "jstr option \<Rightarrow> perror + (jstr \<Rightarrow> meta option)" where
  "initCache mf =
     (case mf of
        None \<Rightarrow> Inr (\<lambda>_. None)
      | Some metaStr \<Rightarrow> if metaStr = [] then Inr (\<lambda>_. None) else initLines (js_split_char 10 metaStr) (\<lambda>_. None))"

type_synonym headers = "(jstr \<times> jstr) list"

record response =
  rs_header :: headers
  rs_body :: jstr

text \<open>
  The loop over the header that \<^verbatim>\<open>isHtmlResponse\<close> and \<^verbatim>\<open>isJavaScriptResponse\<close> share: at the first content type that contains
  \<open>what\<close> the character set is added when it is missing.
\<close>

fun checkContentType :: "jstr \<Rightarrow> headers \<Rightarrow> bool \<times> headers" where
  "checkContentType what [] = (False, [])"
| "checkContentType what ((k, v) # hs) =
     (if ascii_lower k = str ''content-type'' \<and> contains (ascii_lower v) what then
        (True, (k, if ends_with (ascii_lower v) (str ''charset=utf-8'') then v else v @ str '';charset=UTF-8'') # hs)
      else let (b, hs) = checkContentType what hs in (b, (k, v) # hs))"

definition isHtmlResponse :: "response \<Rightarrow> bool \<times> response" where
  "isHtmlResponse r = (let (b, h) = checkContentType (str ''text/html'') (rs_header r) in (b, r\<lparr>rs_header := h\<rparr>))"

definition isJavaScriptResponse :: "response \<Rightarrow> bool \<times> response" where
  "isJavaScriptResponse r = (let (b, h) = checkContentType (str ''javascript'') (rs_header r) in (b, r\<lparr>rs_header := h\<rparr>))"

definition isNeedIgnoreHook :: "jstr \<Rightarrow> bool" where
  "isNeedIgnoreHook body = starts_with body (str ''{'')"

definition processFromCache :: "int \<Rightarrow> int \<Rightarrow> jstr \<Rightarrow> jstr act" where
  "processFromCache t0 t1 url s =
     (case px_cache s url of
        None \<Rightarrow> (Inl FileError, s)
      | Some m \<Rightarrow>
          bnd (readFileSync (mt_filepath m)) (\<lambda>fileContent.
          bnd (loadPluginsAsStringWithCache t0 t1) (\<lambda>plugins. ret (plugins @ fileContent))) s)"

definition cacheFilePath :: "(jstr \<Rightarrow> jstr) \<Rightarrow> jstr \<Rightarrow> jstr" where
  "cacheFilePath md5 url = cacheDirectory @ str ''/'' @ md5 url @ str ''.js''"

text \<open>\<^verbatim>\<open>disableCache\<close> is the constant \<^verbatim>\<open>false\<close>. The value is the new body.\<close>

definition processRealtime ::
    "(jstr \<Rightarrow> jstr option) \<Rightarrow> (jstr \<Rightarrow> jstr) \<Rightarrow> int \<Rightarrow> int \<Rightarrow> int \<Rightarrow> jstr \<Rightarrow> jstr \<Rightarrow> jstr act" where
  "processRealtime inject md5 t0 t1 t2 url body s =
     (case inject body of
        None \<Rightarrow> (Inl InjectError, s)
      | Some newJsCode \<Rightarrow>
          let path = cacheFilePath md5 url;
              m = \<lparr>mt_url = url, mt_filepath = path, mt_cacheTime = t2\<rparr>;
              s = s\<lparr>px_files := (px_files s)(path := Some newJsCode),
                    px_metaFile := Some ((case px_metaFile s of None \<Rightarrow> [] | Some metaStr \<Rightarrow> metaStr) @ stringify_meta m @ newline),
                    px_cache := (px_cache s)(url := Some m)\<rparr>
          in bnd (loadPluginsAsStringWithCache t0 t1) (\<lambda>plugins. ret (plugins @ newJsCode)) s)"

definition processJavaScriptResponse ::
    "(jstr \<Rightarrow> jstr option) \<Rightarrow> (jstr \<Rightarrow> jstr) \<Rightarrow> int \<times> int \<times> int \<Rightarrow> jstr \<Rightarrow> response \<Rightarrow> response act" where
  "processJavaScriptResponse inject md5 t url r =
     (let (t0, t1, t2) = t; body = rs_body r
      in if isNeedIgnoreHook body then ret r
         else bnd (\<lambda>s. if length body \<le> 2000 then processRealtime inject md5 t0 t1 t2 url body s
                       else if px_cache s url \<noteq> None then processFromCache t0 t1 url s
                       else processRealtime inject md5 t0 t1 t2 url body s)
                (\<lambda>b. ret (r\<lparr>rs_body := b\<rparr>)))"

text \<open>The HTML library: the document of a text, its script elements, the replacement of a script's code and the text of a document.\<close>

record script =
  sc_src :: bool
  sc_children :: "jstr option list"

record 'd cheerio =
  ch_load :: "jstr \<Rightarrow> 'd"
  ch_scripts :: "'d \<Rightarrow> script list"
  ch_replace :: "'d \<Rightarrow> nat \<Rightarrow> jstr \<Rightarrow> 'd"
  ch_html :: "'d \<Rightarrow> jstr"

text \<open>The loop over the scripts; \<open>None\<close> is the early return that leaves the response as it is.\<close>

fun htmlLoop :: "'d cheerio \<Rightarrow> (jstr \<Rightarrow> jstr option) \<Rightarrow> int \<Rightarrow> int \<Rightarrow> script list \<Rightarrow> nat \<Rightarrow> bool \<Rightarrow> 'd \<Rightarrow> 'd option act" where
  "htmlLoop ch inject t0 t1 [] i done d = ret (Some d)"
| "htmlLoop ch inject t0 t1 (sc # scs) i done d =
     (if sc_src sc then htmlLoop ch inject t0 t1 scs (Suc i) done d
      else if sc_children sc = [] then htmlLoop ch inject t0 t1 scs (Suc i) done d
      else let jsCode = concat (map undef_text (sc_children sc))
      in if jsCode = [] then ret None
      else case inject jsCode of
          None \<Rightarrow> (\<lambda>s. (Inl InjectError, s))
        | Some newJsCode \<Rightarrow>
            bnd (if done then ret newJsCode
                 else bnd (loadPluginsAsStringWithCache t0 t1) (\<lambda>plugins. ret (plugins @ newJsCode))) (\<lambda>code.
            htmlLoop ch inject t0 t1 scs (Suc i) True (ch_replace ch d i code)))"

definition processHtmlResponse ::
    "'d cheerio \<Rightarrow> (jstr \<Rightarrow> jstr option) \<Rightarrow> int \<times> int \<times> int \<Rightarrow> response \<Rightarrow> response act" where
  "processHtmlResponse ch inject t r =
     (let (t0, t1, t2) = t; body = rs_body r
      in if body = [] then ret r
         else let d = ch_load ch body; scripts = ch_scripts ch d
         in if scripts = [] then ret r
         else bnd (htmlLoop ch inject t0 t1 scripts 0 False d) (\<lambda>res.
                ret (case res of None \<Rightarrow> r | Some d \<Rightarrow> r\<lparr>rs_body := ch_html ch d\<rparr>)))"

text \<open>\<^verbatim>\<open>process\<close>: an exception is logged and the response stays as it is then.\<close>

definition caught :: "response \<Rightarrow> response act \<Rightarrow> proxy \<Rightarrow> response \<times> proxy" where
  "caught r m s = (case m s of (Inl _, s) \<Rightarrow> (r, s) | (Inr r, s) \<Rightarrow> (r, s))"

definition process ::
    "'d cheerio \<Rightarrow> (jstr \<Rightarrow> jstr option) \<Rightarrow> (jstr \<Rightarrow> jstr) \<Rightarrow> int \<times> int \<times> int \<Rightarrow> jstr \<Rightarrow> response \<Rightarrow> proxy \<Rightarrow> response \<times> proxy" where
  "process ch inject md5 t url r s =
     (let (html, r) = isHtmlResponse r
      in if html then caught r (processHtmlResponse ch inject t r) s
         else let (js, r) = isJavaScriptResponse r
         in if js then caught r (processJavaScriptResponse inject md5 t url r) s
         else (r, s))"

section \<open>api-server.js and eval-hook-plugins.js\<close>

definition hookJsCode :: "(jstr \<Rightarrow> jstr option) \<Rightarrow> jstr \<Rightarrow> perror + jstr" where
  "hookJsCode inject body =
     (case decode_uri_component body of
        None \<Rightarrow> Inl URIError
      | Some jsCode \<Rightarrow>
          let newJsCode = (case inject jsCode of None \<Rightarrow> jsCode | Some c \<Rightarrow> c)
          in case encode_uri_component newJsCode of None \<Rightarrow> Inl URIError | Some t \<Rightarrow> Inr t)"

text \<open>
  The replaced \<^verbatim>\<open>window.eval\<close> on a string. \<open>server\<close> is the text of the answer to the posted text, \<open>None\<close> when the server
  cannot be reached; \<open>evalHolder\<close> is the original \<^verbatim>\<open>eval\<close>. An exception in the listener leaves the code as it was.
\<close>

definition windowEval :: "(jstr \<Rightarrow> jstr option) \<Rightarrow> (jstr \<Rightarrow> perror + 'v) \<Rightarrow> jstr \<Rightarrow> perror + 'v" where
  "windowEval server evalHolder jsCode =
     (case encode_uri_component jsCode of
        None \<Rightarrow> Inl URIError
      | Some t \<Rightarrow>
          (case server t of
             None \<Rightarrow> Inl NetworkError
           | Some txt \<Rightarrow> evalHolder (case decode_uri_component txt of None \<Rightarrow> jsCode | Some c \<Rightarrow> c)))"

text \<open>
  The answer of the server to a posted text of ASCII characters, as the encoding writes it. The parser of the body has its default limit,
  100 kB: a longer body is answered with the status 413 before the handler is called; when the handler raises, the status is 500.
  \<open>errorPage\<close> is the text that the page can read of such an answer of the framework, \<open>None\<close> when the browser keeps it from the page, since
  only the handler sets the header that allows other origins to read the answer.
\<close>

definition bodyLimit :: nat where
  "bodyLimit = 102400"

definition apiServer :: "(jstr \<Rightarrow> jstr option) \<Rightarrow> (int \<Rightarrow> jstr option) \<Rightarrow> jstr \<Rightarrow> jstr option" where
  "apiServer inject errorPage body =
     (if bodyLimit < length body then errorPage 413
      else case hookJsCode inject body of Inl _ \<Rightarrow> errorPage 500 | Inr b \<Rightarrow> Some b)"

section \<open>The cache\<close>

text \<open>What the cache promises: an entry names the file of its address, that file holds an injected script, and the cache is the one a
  restart would read from the meta file.\<close>

definition meta_lines :: "meta list \<Rightarrow> jstr" where
  "meta_lines ms = concat (map (\<lambda>m. stringify_meta m @ newline) ms)"

definition cache_ok :: "(jstr \<Rightarrow> jstr option) \<Rightarrow> (jstr \<Rightarrow> jstr) \<Rightarrow> proxy \<Rightarrow> bool" where
  "cache_ok inject md5 s \<longleftrightarrow>
     (\<exists>ms. (case px_metaFile s of None \<Rightarrow> [] | Some metaStr \<Rightarrow> metaStr) = meta_lines ms \<and>
        (\<forall>m \<in> set ms. code_units (mt_url m) \<and> code_units (mt_filepath m)) \<and>
        px_cache s = fold (\<lambda>m c. c(mt_url m := Some m)) ms (\<lambda>_. None)) \<and>
     (\<forall>url m. px_cache s url = Some m \<longrightarrow> mt_url m = url \<and> mt_filepath m = cacheFilePath md5 url \<and>
        (\<exists>b c. inject b = Some c \<and> px_files s (cacheFilePath md5 url) = Some c))"

lemma parse_stringify: "code_units (mt_url m) \<Longrightarrow> code_units (mt_filepath m) \<Longrightarrow> parse_meta (stringify_meta m) = Some m"
proof -
  assume u: "code_units (mt_url m)" "code_units (mt_filepath m)"
  have e: "json_expect (a @ b @ c) (a @ b @ c @ s) = Some s" for a b c s using json_expect_append [of "a @ b @ c" s] by simp
  have i: "read_int (json_int n @ str ''}'') = Some (n, str ''}'')" for n by (rule read_json_int) (simp add: str_def is_digit_def)
  show ?thesis
    unfolding parse_meta_def stringify_meta_def
    by (simp only: e read_json_quote [OF u(1)] read_json_quote [OF u(2)] i Option.bind.simps prod.case meta.surjective [symmetric] simp_thms if_True) simp
qed

lemma stringify_newline: "10 \<notin> set (stringify_meta m)" "stringify_meta m \<noteq> []"
  by (simp_all add: stringify_meta_def json_quote_newline json_int_newline str_def)

lemma init_meta_lines:
  assumes "\<forall>m \<in> set ms. code_units (mt_url m) \<and> code_units (mt_filepath m)"
  shows "initLines (js_split_char 10 (meta_lines ms)) c = Inr (fold (\<lambda>m c. c(mt_url m := Some m)) ms c)"
  using assms
proof (induction ms arbitrary: c)
  case (Cons m ms)
  have "js_split_char 10 (meta_lines (m # ms)) = stringify_meta m # js_split_char 10 (meta_lines ms)"
    using js_split_char_append [OF stringify_newline(1) [of m]] by (simp add: meta_lines_def newline_def)
  then show ?case using Cons parse_stringify [of m] stringify_newline(2) [of m] by (simp del: fun_upd_apply)
qed (simp add: meta_lines_def)

lemma cache_ok_init: "cache_ok inject md5 s \<Longrightarrow> initCache (px_metaFile s) = Inr (px_cache s)"
proof -
  assume "cache_ok inject md5 s"
  then obtain ms where ms: "(case px_metaFile s of None \<Rightarrow> [] | Some metaStr \<Rightarrow> metaStr) = meta_lines ms"
    "\<forall>m \<in> set ms. code_units (mt_url m) \<and> code_units (mt_filepath m)" "px_cache s = fold (\<lambda>m c. c(mt_url m := Some m)) ms (\<lambda>_. None)"
    by (auto simp: cache_ok_def)
  have "meta_lines ms = [] \<Longrightarrow> ms = []" using stringify_newline(2) by (cases ms) (simp_all add: meta_lines_def)
  then show ?thesis using init_meta_lines [OF ms(2)] ms(1,3) by (cases "px_metaFile s") (auto simp: initCache_def)
qed

text \<open>The fields of the state that the cache consists of.\<close>

definition same_cache :: "proxy \<Rightarrow> proxy \<Rightarrow> bool" where
  "same_cache s s' \<longleftrightarrow> px_cache s' = px_cache s \<and> px_files s' = px_files s \<and> px_metaFile s' = px_metaFile s"

lemma same_cache_refl: "same_cache s s"
  by (simp add: same_cache_def)

lemma same_cache_trans: "same_cache s s' \<Longrightarrow> same_cache s' s'' \<Longrightarrow> same_cache s s''"
  by (simp add: same_cache_def)

lemma same_cache_ok: "same_cache s s' \<Longrightarrow> cache_ok inject md5 s \<Longrightarrow> cache_ok inject md5 s'"
  by (auto simp: same_cache_def cache_ok_def)

lemma bnd_same:
  assumes "same_cache s (snd (m s))" "\<And>x s. same_cache s (snd (k x s))"
  shows "same_cache s (snd (bnd m k s))"
  using assms(1) assms(2) [where s = "snd (m s)"] by (auto simp: bnd_def split: prod.splits sum.splits intro: same_cache_trans)

lemma readFileSync_same: "same_cache s (snd (readFileSync p s))"
  by (simp add: readFileSync_def same_cache_refl split: option.split)

lemma ret_same: "same_cache s (snd (ret x s))"
  by (simp add: ret_def same_cache_refl)

lemma readPlugins_same: "same_cache s (snd (readPlugins ns acc s))"
  by (induction ns acc arbitrary: s rule: readPlugins.induct) (simp_all add: ret_same bnd_same readFileSync_same)

lemma loadPluginsAsString_same: "same_cache s (snd (loadPluginsAsString s))"
  unfolding loadPluginsAsString_def by (intro bnd_same readFileSync_same readPlugins_same ret_same)

lemma loadPlugins_same: "same_cache s (snd (loadPluginsAsStringWithCache t0 t1 s))"
proof -
  have "same_cache (s\<lparr>px_lastReadDiskTs := t1\<rparr>)
      (snd (bnd loadPluginsAsString (\<lambda>c s. (Inr c, s\<lparr>px_pluginsJsCodeCache := c\<rparr>)) (s\<lparr>px_lastReadDiskTs := t1\<rparr>)))"
    by (intro bnd_same loadPluginsAsString_same) (simp add: same_cache_def)
  then show ?thesis
    by (simp add: loadPluginsAsStringWithCache_def same_cache_def)
qed

lemma processFromCache_same: "same_cache s (snd (processFromCache t0 t1 url s))"
  unfolding processFromCache_def
  by (auto intro!: bnd_same readFileSync_same loadPlugins_same ret_same simp: same_cache_refl split: option.split)

lemma htmlLoop_same: "same_cache s (snd (htmlLoop ch inject t0 t1 scs i done d s))"
proof (induction scs arbitrary: i "done" d s)
  case Nil
  then show ?case by (simp add: ret_same)
next
  case (Cons sc scs)
  then show ?case
    by (auto intro!: bnd_same loadPlugins_same ret_same simp: same_cache_refl Let_def split: option.split)
qed

lemma processHtmlResponse_same: "same_cache s (snd (processHtmlResponse ch inject t r s))"
  by (cases t) (simp add: processHtmlResponse_def Let_def bnd_same htmlLoop_same ret_same)

lemma processRealtime_ok:
  assumes "cache_ok inject md5 s" "code_units url" "code_units (md5 url)"
  shows "cache_ok inject md5 (snd (processRealtime inject md5 t0 t1 t2 url body s))"
proof (cases "inject body")
  case None
  then show ?thesis using assms by (simp add: processRealtime_def)
next
  case (Some c)
  let ?m = "\<lparr>mt_url = url, mt_filepath = cacheFilePath md5 url, mt_cacheTime = t2\<rparr>"
  let ?s = "s\<lparr>px_files := (px_files s)(cacheFilePath md5 url := Some c),
      px_metaFile := Some ((case px_metaFile s of None \<Rightarrow> [] | Some metaStr \<Rightarrow> metaStr) @ stringify_meta ?m @ newline),
      px_cache := (px_cache s)(url := Some ?m)\<rparr>"
  obtain ms where ms: "(case px_metaFile s of None \<Rightarrow> [] | Some metaStr \<Rightarrow> metaStr) = meta_lines ms"
    "\<forall>m \<in> set ms. code_units (mt_url m) \<and> code_units (mt_filepath m)" "px_cache s = fold (\<lambda>m c. c(mt_url m := Some m)) ms (\<lambda>_. None)"
    using assms(1) by (auto simp: cache_ok_def)
  have "code_units (cacheFilePath md5 url)" using assms(3) by (simp add: cacheFilePath_def cacheDirectory_def str_def code_units_def ball_Un)
  then have "\<exists>ms. meta_lines ms = (case px_metaFile s of None \<Rightarrow> [] | Some metaStr \<Rightarrow> metaStr) @ stringify_meta ?m @ newline \<and>
      (\<forall>m \<in> set ms. code_units (mt_url m) \<and> code_units (mt_filepath m)) \<and>
      (px_cache s)(url := Some ?m) = fold (\<lambda>m c. c(mt_url m := Some m)) ms (\<lambda>_. None)"
    using ms assms(2) by (intro exI [of _ "ms @ [?m]"]) (auto simp: meta_lines_def)
  then have "cache_ok inject md5 ?s"
    using assms(1) Some by (auto simp: cache_ok_def eq_commute)
  moreover have "same_cache ?s (snd (processRealtime inject md5 t0 t1 t2 url body s))"
    using Some by (simp add: processRealtime_def Let_def) (intro bnd_same loadPlugins_same ret_same)
  ultimately show ?thesis by (rule same_cache_ok [rotated])
qed

lemma processJavaScript_ok:
  assumes "cache_ok inject md5 s" "code_units url" "code_units (md5 url)"
  shows "cache_ok inject md5 (snd (processJavaScriptResponse inject md5 t url r s))"
proof -
  obtain t0 t1 t2 where t: "t = (t0, t1, t2)" by (cases t)
  have "cache_ok inject md5 (snd (processFromCache t0 t1 url s))"
    using same_cache_ok [OF processFromCache_same assms(1)] .
  then show ?thesis
    using assms processRealtime_ok [OF assms, of t0 t1 t2 "rs_body r"]
    by (auto simp: processJavaScriptResponse_def t Let_def bnd_def ret_def split: prod.splits sum.splits)
qed

lemma process_ok:
  assumes "cache_ok inject md5 s" "code_units url" "code_units (md5 url)"
  shows "cache_ok inject md5 (snd (process ch inject md5 t url r s))"
proof -
  have caught: "snd (caught r m s) = snd (m s)" for r m by (simp add: caught_def split: prod.split sum.split)
  show ?thesis
    by (simp add: assms process_def caught processJavaScript_ok [OF assms] same_cache_ok [OF processHtmlResponse_same assms(1)]
        split: prod.split)
qed

lemma isJavaScriptResponse_body: "rs_body (snd (isJavaScriptResponse r)) = rs_body r"
  by (simp add: isJavaScriptResponse_def split: prod.split)

lemma isHtmlResponse_False: "\<not> fst (isHtmlResponse r) \<Longrightarrow> isHtmlResponse r = (False, r)"
proof -
  have unchanged: "\<not> fst (checkContentType w hs) \<Longrightarrow> checkContentType w hs = (False, hs)" for w hs
    by (induction w hs rule: checkContentType.induct) (auto split: if_splits prod.splits)
  assume "\<not> fst (isHtmlResponse r)"
  then have "\<not> fst (checkContentType (str ''text/html'') (rs_header r))" by (simp add: isHtmlResponse_def split: prod.splits)
  then show "isHtmlResponse r = (False, r)" by (simp add: isHtmlResponse_def unchanged)
qed

section \<open>Properties\<close>

text \<open>C21: whatever responses the proxy has handled since it started with an empty cache, a restart reads the text of the meta file without
  an error, one JSON line for each injected script, and gets the cache that is in memory; every entry is filed under its own address with the
  path derived from the address, and the file at that path holds a successfully injected script.\<close>

theorem cache_survives_restart:
  assumes "px_cache s0 = (\<lambda>_. None)" "px_metaFile s0 = None"
    and "s = fold (\<lambda>(ch, t, url, r) s. snd (process ch inject md5 t url r s)) reqs s0"
    and "\<forall>(ch, t, url, r) \<in> set reqs. code_units url \<and> code_units (md5 url)"
  shows "initCache (px_metaFile s) = Inr (px_cache s) \<and>
    (\<forall>url m. px_cache s url = Some m \<longrightarrow> mt_url m = url \<and> mt_filepath m = cacheFilePath md5 url \<and>
       (\<exists>b c. inject b = Some c \<and> px_files s (cacheFilePath md5 url) = Some c))"
proof -
  have "cache_ok inject md5 (fold (\<lambda>(ch, t, url, r) s. snd (process ch inject md5 t url r s)) reqs s1)"
    if "cache_ok inject md5 s1" for s1
    using that assms(4) by (induction reqs arbitrary: s1) (auto simp: process_ok)
  moreover have "cache_ok inject md5 s0" using assms(1,2) by (auto simp: cache_ok_def meta_lines_def intro: exI [of _ "[]"])
  ultimately have "cache_ok inject md5 s" using assms(3) by blast
  then show ?thesis using cache_ok_init [OF \<open>cache_ok inject md5 s\<close>] unfolding cache_ok_def by blast
qed

text \<open>For the witnesses: a transformation that fails on the empty text, a server without files.\<close>

definition mark_inject :: "jstr \<Rightarrow> jstr option" where
  "mark_inject b = (if b = [] then None else Some (str ''h;'' @ b))"

definition empty_proxy :: proxy where
  "empty_proxy = \<lparr>px_cache = (\<lambda>_. None), px_files = (\<lambda>_. None), px_metaFile = None, px_lastReadDiskTs = 0,
     px_pluginsJsCodeCache = str ''p;''\<rparr>"

definition text_cheerio :: "jstr cheerio" where
  "text_cheerio = \<lparr>ch_load = id, ch_scripts = (\<lambda>_. []), ch_replace = (\<lambda>d i c. c), ch_html = id\<rparr>"

definition js_response :: "jstr \<Rightarrow> response" where
  "js_response b = \<lparr>rs_header = [(str ''Content-Type'', str ''text/javascript'')], rs_body = b\<rparr>"

theorem cache_survives_restart_witness:
  "initCache (px_metaFile (snd (process text_cheerio mark_inject id (0, 0, 7) (str ''u'') (js_response (str ''a'')) empty_proxy))) =
   Inr (px_cache (snd (process text_cheerio mark_inject id (0, 0, 7) (str ''u'') (js_response (str ''a'')) empty_proxy)))"
  using cache_survives_restart [of empty_proxy _ mark_inject id "[(text_cheerio, (0, 0, 7), str ''u'', js_response (str ''a''))]"]
  by (simp add: empty_proxy_def str_def code_units_def)

text \<open>The cache is keyed by the address alone. When an address is cached, the answer to a script of more than 2000
  characters is the old injected file, whatever the script that the server now sends: a changed script never reaches the
  page.\<close>

theorem changed_script_served_stale:
  assumes "\<not> fst (isHtmlResponse r)" "fst (isJavaScriptResponse r)"
    and "2000 < length (rs_body r)" "\<not> isNeedIgnoreHook (rs_body r)"
    and "px_cache s url = Some m" "px_files s (mt_filepath m) = Some c"
    and "fst (loadPluginsAsStringWithCache t0 t1 s) = Inr plugins"
  shows "rs_body (fst (process ch inject md5 (t0, t1, t2) url r s)) = plugins @ c"
proof -
  have r1: "isHtmlResponse r = (False, r)" using isHtmlResponse_False [OF assms(1)] .
  obtain r2 where r2: "isJavaScriptResponse r = (True, r2)" "rs_body r2 = rs_body r"
    using assms(2) isJavaScriptResponse_body [of r] by (cases "isJavaScriptResponse r") simp
  obtain s' where "processFromCache t0 t1 url s = (Inr (plugins @ c), s')"
    using assms(5-7) by (cases "loadPluginsAsStringWithCache t0 t1 s")
      (simp add: processFromCache_def bnd_def readFileSync_def ret_def)
  then have "processJavaScriptResponse inject md5 (t0, t1, t2) url r2 s = (Inr (r2\<lparr>rs_body := plugins @ c\<rparr>), s')"
    using assms(3-5) r2(2) by (simp add: processJavaScriptResponse_def bnd_def ret_def)
  then show ?thesis
    by (simp add: process_def r1 r2(1) caught_def)
qed

theorem changed_script_served_stale_witness:
  "rs_body (fst (process text_cheerio mark_inject id (0, 0, 0) (str ''u'') (js_response (65 # replicate 3000 65))
     (empty_proxy\<lparr>px_cache := [str ''u'' \<mapsto> \<lparr>mt_url = str ''u'', mt_filepath = str ''f'', mt_cacheTime = 0\<rparr>],
        px_files := [str ''f'' \<mapsto> str ''old'']\<rparr>))) = str ''p;'' @ str ''old''"
proof (rule changed_script_served_stale [where m = "\<lparr>mt_url = str ''u'', mt_filepath = str ''f'', mt_cacheTime = 0\<rparr>"])
  show "\<not> fst (isHtmlResponse (js_response (65 # replicate 3000 65)))" "fst (isJavaScriptResponse (js_response (65 # replicate 3000 65)))"
    unfolding js_response_def by code_simp+
qed (simp_all add: js_response_def isNeedIgnoreHook_def starts_with_def empty_proxy_def str_def loadPluginsAsStringWithCache_def)

text \<open>When the transformation of a script fails, the response keeps its body and the proxy its cache and its files.\<close>

lemma inject_failure_keeps_script:
  assumes "inject (rs_body r) = None" "px_cache s url = None \<or> length (rs_body r) \<le> 2000" "\<not> fst (isHtmlResponse r)"
  shows "rs_body (fst (process ch inject md5 t url r s)) = rs_body r \<and> snd (process ch inject md5 t url r s) = s"
proof -
  obtain t0 t1 t2 where t: "t = (t0, t1, t2)" by (cases t)
  have r1: "isHtmlResponse r = (False, r)" using isHtmlResponse_False [OF assms(3)] .
  obtain b r2 where r2: "isJavaScriptResponse r = (b, r2)" "rs_body r2 = rs_body r"
    using isJavaScriptResponse_body [of r] by (cases "isJavaScriptResponse r") simp
  show ?thesis
    using assms(1,2) r1 r2
    by (auto simp: process_def processJavaScriptResponse_def processRealtime_def caught_def bnd_def ret_def t Let_def)
qed

text \<open>C35: with the server of \<open>api-server.js\<close> behind it, the replaced \<open>eval\<close> evaluates the injected code, or the code itself when
  the transformation fails, for every code without unpaired surrogates whose encoding has at most 102400 characters: the two encodings on
  the way cancel out. For longer code it evaluates the error page of the server, or raises when the page cannot read it.\<close>

theorem eval_hook_runs_injected:
  assumes "code_units jsCode" "encode_uri_component jsCode = Some t"
    and "new = (case inject jsCode of None \<Rightarrow> jsCode | Some c \<Rightarrow> c)" "code_units new" "encode_uri_component new \<noteq> None"
  shows "windowEval (apiServer inject errorPage) evalHolder jsCode =
    (if length t \<le> bodyLimit then evalHolder new
     else case errorPage 413 of
         None \<Rightarrow> Inl NetworkError
       | Some page \<Rightarrow> evalHolder (case decode_uri_component page of None \<Rightarrow> jsCode | Some c \<Rightarrow> c))"
proof -
  obtain u where u: "encode_uri_component new = Some u" using assms(5) by auto
  have "decode_uri_component t = Some jsCode" "decode_uri_component u = Some new"
    using decode_encode_uri_component assms(1,2,4) u by blast+
  then show ?thesis
    using u assms(2,3) by (simp add: windowEval_def apiServer_def hookJsCode_def Let_def split: option.split)
qed

theorem eval_hook_runs_injected_witness:
  "windowEval (apiServer mark_inject (\<lambda>_. None)) Inr [97, 61, 39, 20320, 39] = Inr (str ''h;'' @ [97, 61, 39, 20320, 39])"
proof -
  have "code_units [97, 61, 39, 20320, 39]" "encode_uri_component [97, 61, 39, 20320, 39] = Some (str ''a%3D'' @ [39] @ str ''%E4%BD%A0'' @ [39])"
    "str ''h;'' @ [97, 61, 39, 20320, 39] = (case mark_inject [97, 61, 39, 20320, 39] of None \<Rightarrow> [97, 61, 39, 20320, 39] | Some c \<Rightarrow> c)"
    "code_units (str ''h;'' @ [97, 61, 39, 20320, 39])" "encode_uri_component (str ''h;'' @ [97, 61, 39, 20320, 39]) \<noteq> None"
    by code_simp+
  from eval_hook_runs_injected [of _ _ _ mark_inject, OF this, of "\<lambda>_. None" Inr] show ?thesis by (simp add: bodyLimit_def str_def)
qed

end
