(* ===== verification/Js_Ast.thy ===== *)
theory Js_Ast
  imports Js_Text
begin

text \<open>
  The syntax trees that the tools built on Babel read and write, with Babel's node types as constructors; the node types that no
  modelled tool looks at are left out. The tests \<^verbatim>\<open>types.isXxx\<close> are functions to \<open>bool\<close>. A visitor is the body of a
  handler that Babel's \<^verbatim>\<open>traverse\<close> calls on a node; the traversal itself is Babel's.
\<close>

datatype node =
    Identifier jstr
  | StringLiteral jstr
  | NumericLiteral int
  | BooleanLiteral bool
  | ThisExpression
  | ArrayExpression "node list"
  | ObjectExpression "node list"
  | ObjectProperty node node
  | ObjectMethod node "node list" node
  | SpreadElement node
  | FunctionExpression "node list" node
  | UnaryExpression jstr node
  | UpdateExpression jstr node
  | BinaryExpression jstr node node
  | AssignmentExpression jstr node node
  | ConditionalExpression node node node
  | CallExpression node "node list"
  | MemberExpression node node bool
  | SequenceExpression "node list"
  | ExpressionStatement node
  | BlockStatement "node list"
  | ReturnStatement "node option"
  | IfStatement node node "node option"
  | WhileStatement node node
  | SwitchStatement node "node list"
  | SwitchCase node "node list"
  | BreakStatement
  | ContinueStatement
  | VariableDeclaration jstr "node list"
  | VariableDeclarator node "node option"
  | FunctionDeclaration node "node list" node

fun isIdentifier :: "node \<Rightarrow> bool" where
  "isIdentifier (Identifier _) = True" | "isIdentifier _ = False"

fun isStringLiteral :: "node \<Rightarrow> bool" where
  "isStringLiteral (StringLiteral _) = True" | "isStringLiteral _ = False"

fun isNumericLiteral :: "node \<Rightarrow> bool" where
  "isNumericLiteral (NumericLiteral _) = True" | "isNumericLiteral _ = False"

fun isMemberExpression :: "node \<Rightarrow> bool" where
  "isMemberExpression (MemberExpression _ _ _) = True" | "isMemberExpression _ = False"

fun isFunctionExpression :: "node \<Rightarrow> bool" where
  "isFunctionExpression (FunctionExpression _ _) = True" | "isFunctionExpression _ = False"

fun isObjectExpression :: "node \<Rightarrow> bool" where
  "isObjectExpression (ObjectExpression _) = True" | "isObjectExpression _ = False"

fun isBlockStatement :: "node \<Rightarrow> bool" where
  "isBlockStatement (BlockStatement _) = True" | "isBlockStatement _ = False"

fun isReturnStatement :: "node \<Rightarrow> bool" where
  "isReturnStatement (ReturnStatement _) = True" | "isReturnStatement _ = False"

text \<open>A property of a node that may be missing; reading a property of \<^verbatim>\<open>undefined\<close> raises a TypeError.\<close>

datatype ast_error = AstTypeError

fun node_name :: "node \<Rightarrow> jstr option" where
  "node_name (Identifier n) = Some n" | "node_name _ = None"

fun node_value :: "node \<Rightarrow> jstr option" where
  "node_value (StringLiteral v) = Some v" | "node_value _ = None"

fun prop_value :: "node \<Rightarrow> node option" where
  "prop_value (ObjectProperty k v) = Some v" | "prop_value _ = None"

fun prop_key :: "node \<Rightarrow> node option" where
  "prop_key (ObjectProperty k v) = Some k"
| "prop_key (ObjectMethod k ps b) = Some k"
| "prop_key _ = None"

end
