(* ===== verification/Hook_Inject.thy ===== *)
theory Hook_Inject
  imports Js_Ast
begin

text \<open>
  The visitors of \<^verbatim>\<open>inject-hook.js\<close>, which wrap values into calls of the hook function, and the visitor of
  \<^verbatim>\<open>remove-hook-function.js\<close>, which unwraps them. \<open>gen\<close> stands for the code that Babel's generator prints for a node and \<open>call_ok\<close>
  says whether the builder \<^verbatim>\<open>types.callExpression\<close> accepts a list of arguments; when it raises an exception, the handlers log it and
  leave the place as it is.
\<close>

section \<open>inject-hook.js\<close>

definition hookFunctionName :: jstr where
  "hookFunctionName = str ''cc11001100_hook''"

definition hookCall :: "(node list \<Rightarrow> bool) \<Rightarrow> node \<Rightarrow> node \<Rightarrow> jstr \<Rightarrow> node option" where
  "hookCall call_ok name val ty =
     (let args = [name, val, StringLiteral ty]
      in if call_ok args then Some (CallExpression (Identifier hookFunctionName) args) else None)"

definition varName :: "(node \<Rightarrow> jstr) \<Rightarrow> node \<Rightarrow> jstr" where
  "varName gen n = (if isIdentifier n \<or> isMemberExpression n then gen n else [])"

fun hookDeclarator :: "(node \<Rightarrow> jstr) \<Rightarrow> (node list \<Rightarrow> bool) \<Rightarrow> node \<Rightarrow> node" where
  "hookDeclarator gen call_ok (VariableDeclarator i (Some e)) =
     (if isFunctionExpression e then VariableDeclarator i (Some e)
      else case hookCall call_ok (StringLiteral (varName gen i)) e (str ''var-init'') of
          None \<Rightarrow> VariableDeclarator i (Some e)
        | Some c \<Rightarrow> VariableDeclarator i (Some c))"
| "hookDeclarator gen call_ok n = n"

fun visitVariableDeclaration :: "(node \<Rightarrow> jstr) \<Rightarrow> (node list \<Rightarrow> bool) \<Rightarrow> node \<Rightarrow> node" where
  "visitVariableDeclaration gen call_ok (VariableDeclaration k ds) = VariableDeclaration k (map (hookDeclarator gen call_ok) ds)"
| "visitVariableDeclaration gen call_ok n = n"

fun visitAssignmentExpression :: "(node \<Rightarrow> jstr) \<Rightarrow> (node list \<Rightarrow> bool) \<Rightarrow> node \<Rightarrow> node" where
  "visitAssignmentExpression gen call_ok (AssignmentExpression op l r) =
     (case hookCall call_ok (StringLiteral (varName gen l)) r (str ''assign'') of
        None \<Rightarrow> AssignmentExpression op l r
      | Some c \<Rightarrow> AssignmentExpression op l c)"
| "visitAssignmentExpression gen call_ok n = n"

definition hookKey :: "node \<Rightarrow> node" where
  "hookKey k = (case k of Identifier n \<Rightarrow> StringLiteral n | _ \<Rightarrow> k)"

fun wrapProperty :: "(node list \<Rightarrow> bool) \<Rightarrow> node \<Rightarrow> node" where
  "wrapProperty call_ok (ObjectProperty k v) =
     (case hookCall call_ok (hookKey k) v (str ''object-key-init'') of None \<Rightarrow> ObjectProperty k v | Some c \<Rightarrow> ObjectProperty k c)"
| "wrapProperty call_ok n = n"

text \<open>The loop over the properties of an object; the flag says that it returned early, at a property without a value.\<close>

fun hookProperties :: "(node list \<Rightarrow> bool) \<Rightarrow> node list \<Rightarrow> node list \<times> bool" where
  "hookProperties call_ok [] = ([], False)"
| "hookProperties call_ok (p # ps) =
     (case prop_value p of
        None \<Rightarrow> (p # ps, True)
      | Some v \<Rightarrow>
          let p' = (if isFunctionExpression v \<or> isObjectExpression v then p else wrapProperty call_ok p);
              (ps', returned) = hookProperties call_ok ps
          in (p' # ps', returned))"

fun visitObjectExpression :: "(node list \<Rightarrow> bool) \<Rightarrow> node \<Rightarrow> node" where
  "visitObjectExpression call_ok (ObjectExpression ps) = ObjectExpression (fst (hookProperties call_ok ps))"
| "visitObjectExpression call_ok n = n"

definition hookParam :: "(node \<Rightarrow> jstr) \<Rightarrow> (node list \<Rightarrow> bool) \<Rightarrow> node \<Rightarrow> node list \<Rightarrow> node list" where
  "hookParam gen call_ok p body =
     (case hookCall call_ok (StringLiteral (gen p)) p (str ''function-parameter'') of
        None \<Rightarrow> body | Some c \<Rightarrow> ExpressionStatement c # body)"

fun visitFunctionDeclaration :: "(node \<Rightarrow> jstr) \<Rightarrow> (node list \<Rightarrow> bool) \<Rightarrow> node \<Rightarrow> node" where
  "visitFunctionDeclaration gen call_ok (FunctionDeclaration i ps (BlockStatement body)) =
     FunctionDeclaration i ps (BlockStatement (fold (hookParam gen call_ok) (rev ps) body))"
| "visitFunctionDeclaration gen call_ok n = n"

text \<open>
  The visitor of calls: when the called expression is a function, the objects among the arguments of the calls in its body are
  hooked, together with the objects one level below. Reading a property of \<^verbatim>\<open>undefined\<close>, or iterating over it, raises a TypeError. The
  flag says that a loop returned early.
\<close>

fun hookNested :: "(node list \<Rightarrow> bool) \<Rightarrow> node list \<Rightarrow> node list \<times> bool" where
  "hookNested call_ok [] = ([], False)"
| "hookNested call_ok (p # ps) =
     (case prop_value p of
        None \<Rightarrow> (p # ps, True)
      | Some v \<Rightarrow>
          if isFunctionExpression v then
            (let (ps', returned) = hookNested call_ok ps in (p # ps', returned))
          else
            (let (v', inner) = (case v of
                   ObjectExpression qs \<Rightarrow> (let (qs', b) = hookProperties call_ok qs in (ObjectExpression qs', b))
                 | _ \<Rightarrow> (v, False));
                 p' = (case p of ObjectProperty k _ \<Rightarrow> ObjectProperty k v' | _ \<Rightarrow> p)
             in if inner then (p' # ps, True)
                else let (ps', returned) = hookNested call_ok ps
                     in (wrapProperty call_ok p' # ps', returned)))"

fun hookArguments :: "(node list \<Rightarrow> bool) \<Rightarrow> node list \<Rightarrow> ast_error + node list \<times> bool" where
  "hookArguments call_ok [] = Inr ([], False)"
| "hookArguments call_ok (a # as) =
     (case a of
        ObjectExpression ps \<Rightarrow>
          (case hookNested call_ok ps of
             (ps', True) \<Rightarrow> Inr (ObjectExpression ps' # as, True)
           | (ps', False) \<Rightarrow>
               (case hookArguments call_ok as of
                  Inl e \<Rightarrow> Inl e
                | Inr (as', b) \<Rightarrow> Inr (ObjectExpression ps' # as', b)))
      | _ \<Rightarrow> Inl AstTypeError)"

fun hookStatements :: "(node list \<Rightarrow> bool) \<Rightarrow> node list \<Rightarrow> ast_error + node list \<times> bool" where
  "hookStatements call_ok [] = Inr ([], False)"
| "hookStatements call_ok (s # ss) =
     (case s of
        ExpressionStatement (CallExpression f as) \<Rightarrow>
          (case hookArguments call_ok as of
             Inl e \<Rightarrow> Inl e
           | Inr (as', True) \<Rightarrow> Inr (ExpressionStatement (CallExpression f as') # ss, True)
           | Inr (as', False) \<Rightarrow>
               (case hookStatements call_ok ss of
                  Inl e \<Rightarrow> Inl e
                | Inr (ss', b) \<Rightarrow> Inr (ExpressionStatement (CallExpression f as') # ss', b)))
      | _ \<Rightarrow> Inl AstTypeError)"

fun visitCallExpression :: "(node list \<Rightarrow> bool) \<Rightarrow> node \<Rightarrow> ast_error + node" where
  "visitCallExpression call_ok (CallExpression (FunctionExpression ps (BlockStatement body)) as) =
     (case hookStatements call_ok body of
        Inl e \<Rightarrow> Inl e
      | Inr (body', _) \<Rightarrow> Inr (CallExpression (FunctionExpression ps (BlockStatement body')) as))"
| "visitCallExpression call_ok n = Inr n"

text \<open>All visitors on one node, by its type.\<close>

definition injectVisitor :: "(node \<Rightarrow> jstr) \<Rightarrow> (node list \<Rightarrow> bool) \<Rightarrow> node \<Rightarrow> ast_error + node" where
  "injectVisitor gen call_ok n =
     (case n of
        VariableDeclaration _ _ \<Rightarrow> Inr (visitVariableDeclaration gen call_ok n)
      | AssignmentExpression _ _ _ \<Rightarrow> Inr (visitAssignmentExpression gen call_ok n)
      | ObjectExpression _ \<Rightarrow> Inr (visitObjectExpression call_ok n)
      | FunctionDeclaration _ _ _ \<Rightarrow> Inr (visitFunctionDeclaration gen call_ok n)
      | CallExpression _ _ \<Rightarrow> visitCallExpression call_ok n
      | _ \<Rightarrow> Inr n)"

section \<open>remove-hook-function.js\<close>

text \<open>The visitor replaces a call of the hook function by its second argument; \<open>None\<close> is the replacement by \<^verbatim>\<open>undefined\<close>, which raises.\<close>

fun removeVisitor :: "node \<Rightarrow> node option" where
  "removeVisitor (CallExpression f as) =
     (if f = Identifier hookFunctionName then (if 1 < length as then Some (as ! 1) else None) else Some (CallExpression f as))"
| "removeVisitor n = Some n"

section \<open>Erasure\<close>

text \<open>
  A program without its hooks: a call of the hook function with three arguments becomes the second one, and the statements that hook
  a parameter disappear.
\<close>

fun is_param_hook :: "node \<Rightarrow> bool" where
  "is_param_hook (ExpressionStatement (CallExpression f [a, v, StringLiteral t])) \<longleftrightarrow>
     f = Identifier hookFunctionName \<and> t = str ''function-parameter''"
| "is_param_hook _ \<longleftrightarrow> False"

fun erase :: "node \<Rightarrow> node" where
  "erase (Identifier n) = Identifier n"
| "erase (StringLiteral v) = StringLiteral v"
| "erase (NumericLiteral v) = NumericLiteral v"
| "erase (BooleanLiteral b) = BooleanLiteral b"
| "erase ThisExpression = ThisExpression"
| "erase (ArrayExpression es) = ArrayExpression (map erase es)"
| "erase (ObjectExpression ps) = ObjectExpression (map erase ps)"
| "erase (ObjectProperty k v) = ObjectProperty (erase k) (erase v)"
| "erase (ObjectMethod k ps b) = ObjectMethod (erase k) (map erase ps) (erase b)"
| "erase (SpreadElement e) = SpreadElement (erase e)"
| "erase (FunctionExpression ps b) = FunctionExpression (map erase ps) (erase b)"
| "erase (UnaryExpression op e) = UnaryExpression op (erase e)"
| "erase (UpdateExpression op e) = UpdateExpression op (erase e)"
| "erase (BinaryExpression op l r) = BinaryExpression op (erase l) (erase r)"
| "erase (AssignmentExpression op l r) = AssignmentExpression op (erase l) (erase r)"
| "erase (ConditionalExpression c a b) = ConditionalExpression (erase c) (erase a) (erase b)"
| "erase (CallExpression f as) =
     (let es = map erase as
      in if f = Identifier hookFunctionName \<and> length as = 3 then es ! 1 else CallExpression (erase f) es)"
| "erase (MemberExpression ob p c) = MemberExpression (erase ob) (erase p) c"
| "erase (SequenceExpression es) = SequenceExpression (map erase es)"
| "erase (ExpressionStatement e) = ExpressionStatement (erase e)"
| "erase (BlockStatement ss) = BlockStatement (concat (map (\<lambda>s. if is_param_hook s then [] else [erase s]) ss))"
| "erase (ReturnStatement e) = ReturnStatement (map_option erase e)"
| "erase (IfStatement c a b) = IfStatement (erase c) (erase a) (map_option erase b)"
| "erase (WhileStatement c b) = WhileStatement (erase c) (erase b)"
| "erase (SwitchStatement d cs) = SwitchStatement (erase d) (map erase cs)"
| "erase (SwitchCase t ss) = SwitchCase (erase t) (map erase ss)"
| "erase BreakStatement = BreakStatement"
| "erase ContinueStatement = ContinueStatement"
| "erase (VariableDeclaration k ds) = VariableDeclaration k (map erase ds)"
| "erase (VariableDeclarator i e) = VariableDeclarator (erase i) (map_option erase e)"
| "erase (FunctionDeclaration i ps b) = FunctionDeclaration (erase i) (map erase ps) (erase b)"

lemma erase_hookCall: "hookCall call_ok k v ty = Some c \<Longrightarrow> erase c = erase v"
  by (auto simp: hookCall_def Let_def split: if_splits)

lemma erase_hookDeclarator: "erase (hookDeclarator gen call_ok d) = erase d"
  by (cases "(gen, call_ok, d)" rule: hookDeclarator.cases) (auto split: option.split dest: erase_hookCall)

lemma erase_wrapProperty: "erase (wrapProperty call_ok p) = erase p"
  by (cases p) (auto split: option.split dest: erase_hookCall)

lemma erase_hookProperties: "map erase (fst (hookProperties call_ok ps)) = map erase ps"
  by (induction ps) (auto simp: erase_wrapProperty Let_def split: option.split prod.split)

lemma prop_value_SomeE:
  assumes "prop_value p = Some v"
  obtains k where "p = ObjectProperty k v"
  using assms by (cases p) auto

lemma erase_hookNested: "map erase (fst (hookNested call_ok ps)) = map erase ps"
proof (induction ps)
  case (Cons p ps)
  show ?case
  proof (cases "prop_value p")
    case (Some v)
    then obtain k where p: "p = ObjectProperty k v" by (rule prop_value_SomeE)
    show ?thesis
    proof (cases "\<exists>qs. v = ObjectExpression qs")
      case True
      then obtain qs where v: "v = ObjectExpression qs" by blast
      then show ?thesis
        using Cons p erase_hookProperties [of call_ok qs]
        by (auto simp: Let_def erase_wrapProperty split: prod.split simp del: wrapProperty.simps)
    next
      case False
      then show ?thesis
        using Cons p by (cases v) (auto simp: Let_def erase_wrapProperty split: prod.split simp del: wrapProperty.simps)
    qed
  qed simp
qed simp

lemma erase_hookArguments: "hookArguments call_ok as = Inr (as', b) \<Longrightarrow> map erase as' = map erase as"
proof (induction as arbitrary: as' b)
  case (Cons a as)
  then obtain ps where a: "a = ObjectExpression ps" by (cases a) auto
  have "map erase (fst (hookNested call_ok ps)) = map erase ps" by (rule erase_hookNested)
  then show ?case
    using Cons a by (auto split: prod.splits bool.splits sum.splits)
qed simp

lemma hookArguments_similar:
  "hookArguments call_ok as = Inr (as', b) \<Longrightarrow>
   list_all2 (\<lambda>x y. x = y \<or> isObjectExpression x \<and> isObjectExpression y) as as'"
proof (induction as arbitrary: as' b)
  case (Cons a as)
  then obtain ps where a: "a = ObjectExpression ps" by (cases a) auto
  have refl: "list_all2 (\<lambda>x y. x = y \<or> isObjectExpression x \<and> isObjectExpression y) as as" by (simp add: list.rel_refl)
  show ?case
    using Cons a refl by (auto split: prod.splits bool.splits sum.splits)
qed simp

lemma is_param_hook_iff:
  "is_param_hook (ExpressionStatement (CallExpression f as)) \<longleftrightarrow>
     f = Identifier hookFunctionName \<and> length as = 3 \<and> as ! 2 = StringLiteral (str ''function-parameter'')"
proof
  assume "is_param_hook (ExpressionStatement (CallExpression f as))"
  then show "f = Identifier hookFunctionName \<and> length as = 3 \<and> as ! 2 = StringLiteral (str ''function-parameter'')"
    by (cases "ExpressionStatement (CallExpression f as)" rule: is_param_hook.cases) auto
next
  assume r: "f = Identifier hookFunctionName \<and> length as = 3 \<and> as ! 2 = StringLiteral (str ''function-parameter'')"
  then obtain a b c where "as = [a, b, c]" by (auto simp: length_Suc_conv numeral_3_eq_3)
  with r show "is_param_hook (ExpressionStatement (CallExpression f as))" by simp
qed

lemma hookArguments_param_hook:
  assumes "hookArguments call_ok as = Inr (as', b)"
  shows "is_param_hook (ExpressionStatement (CallExpression f as')) = is_param_hook (ExpressionStatement (CallExpression f as))"
proof -
  note sim = hookArguments_similar [OF assms]
  have len: "length as' = length as" using sim by (simp add: list_all2_lengthD)
  moreover have "as' ! 2 = StringLiteral t \<longleftrightarrow> as ! 2 = StringLiteral t" if "length as = 3" for t
    using list_all2_nthD [OF sim, of 2] that by auto
  ultimately show ?thesis by (auto simp: is_param_hook_iff)
qed

text \<open>What \<^const>\<open>erase\<close> makes of the statements of a block.\<close>

definition erase_block :: "node list \<Rightarrow> node list" where
  "erase_block ss = concat (map (\<lambda>s. if is_param_hook s then [] else [erase s]) ss)"

lemma erase_block_simps [simp]:
  "erase_block [] = []" "erase_block (s # ss) = (if is_param_hook s then [] else [erase s]) @ erase_block ss"
  by (simp_all add: erase_block_def)

lemma erase_call_cong:
  assumes "map erase as' = map erase as"
  shows "erase (CallExpression f as') = erase (CallExpression f as)"
  using assms map_eq_imp_length_eq [OF assms] by (simp add: Let_def)

lemma erase_hookStatements: "hookStatements call_ok ss = Inr (ss', b) \<Longrightarrow> erase_block ss' = erase_block ss"
proof (induction ss arbitrary: ss' b)
  case (Cons s ss)
  then obtain f as where s: "s = ExpressionStatement (CallExpression f as)"
    by (auto split: node.splits)
  obtain as' c where as': "hookArguments call_ok as = Inr (as', c)"
    using Cons.prems s by (auto split: sum.splits)
  note same = erase_call_cong [OF erase_hookArguments [OF as'], of f] hookArguments_param_hook [OF as', of f]
  show ?case
  proof (cases c)
    case True
    then show ?thesis using Cons.prems s as' same by (auto simp del: erase.simps simp add: erase.simps(20))
  next
    case False
    then obtain ss1 where "hookStatements call_ok ss = Inr (ss1, b)" "ss' = ExpressionStatement (CallExpression f as') # ss1"
      using Cons.prems s as' by (auto split: sum.splits)
    then show ?thesis using Cons.IH s same by (auto simp del: erase.simps simp add: erase.simps(20))
  qed
qed simp

lemma erase_block_params: "erase_block (fold (hookParam gen call_ok) ps body) = erase_block body"
proof (induction ps arbitrary: body)
  case (Cons p ps)
  have "erase_block (hookParam gen call_ok p body) = erase_block body"
    by (auto simp: hookParam_def hookCall_def Let_def)
  then show ?case using Cons by simp
qed simp

section \<open>Properties\<close>

text \<open>C20: every visitor of \<open>injectHook\<close> only adds hooks: when it does not raise an exception, the node it leaves is the original one
  once the hook calls are replaced by the values they wrap. The visitor of \<open>remove-hook-function.js\<close> turns each of these
  calls back into the wrapped value.\<close>

theorem inject_only_adds_hooks:
  assumes "injectVisitor gen call_ok n = Inr n'"
  shows "erase n' = erase n \<and> (\<forall>k v ty c. hookCall call_ok k v ty = Some c \<longrightarrow> removeVisitor c = Some v)"
proof -
  have "removeVisitor c = Some v" if "hookCall call_ok k v ty = Some c" for k v ty c
    using that by (auto simp: hookCall_def Let_def split: if_splits)
  moreover have "erase n' = erase n"
  proof (cases n)
    case (VariableDeclaration k ds)
    then show ?thesis using assms by (auto simp: injectVisitor_def erase_hookDeclarator)
  next
    case (AssignmentExpression op l r)
    then show ?thesis using assms by (auto simp: injectVisitor_def split: option.splits dest: erase_hookCall)
  next
    case (ObjectExpression ps)
    then show ?thesis using assms by (auto simp: injectVisitor_def erase_hookProperties)
  next
    case (FunctionDeclaration i ps b)
    then show ?thesis
      using assms erase_block_params [unfolded erase_block_def] by (cases b) (auto simp: injectVisitor_def)
  next
    case (CallExpression f as)
    then show ?thesis
    proof (cases "(call_ok, n)" rule: visitCallExpression.cases)
      case (1 c ps body as1)
      then obtain body' b where "hookStatements call_ok body = Inr (body', b)"
        "n' = CallExpression (FunctionExpression ps (BlockStatement body')) as1"
        using assms by (auto simp: injectVisitor_def split: sum.splits)
      with 1 erase_hookStatements [unfolded erase_block_def] show ?thesis by (auto simp: Let_def)
    qed (use assms in \<open>auto simp: injectVisitor_def\<close>)
  qed (use assms in \<open>auto simp: injectVisitor_def\<close>)
  ultimately show ?thesis by blast
qed

theorem inject_only_adds_hooks_witness:
  "\<exists>n'. injectVisitor (\<lambda>_. str ''x'') (\<lambda>_. True) (VariableDeclaration (str ''var'') [VariableDeclarator (Identifier (str ''x'')) (Some (NumericLiteral 1))])
      = Inr n' \<and>
     n' = VariableDeclaration (str ''var'') [VariableDeclarator (Identifier (str ''x'')) (Some (CallExpression (Identifier hookFunctionName)
       [StringLiteral (str ''x''), NumericLiteral 1, StringLiteral (str ''var-init'')]))] \<and>
     erase n' = VariableDeclaration (str ''var'') [VariableDeclarator (Identifier (str ''x'')) (Some (NumericLiteral 1))]"
proof -
  let ?n = "VariableDeclaration (str ''var'') [VariableDeclarator (Identifier (str ''x'')) (Some (NumericLiteral 1))]"
  let ?m = "VariableDeclaration (str ''var'') [VariableDeclarator (Identifier (str ''x'')) (Some (CallExpression (Identifier hookFunctionName)
       [StringLiteral (str ''x''), NumericLiteral 1, StringLiteral (str ''var-init'')]))]"
  have "injectVisitor (\<lambda>_. str ''x'') (\<lambda>_. True) ?n = Inr ?m"
    by (simp add: injectVisitor_def hookCall_def varName_def Let_def)
  with inject_only_adds_hooks [OF this] show ?thesis by simp
qed

text \<open>A function that is called where it is written makes the injection fail unless its first statement is a call: the visitor
  reads the arguments of a call that is not there and raises a TypeError, so that no part of the script is hooked.\<close>

theorem immediately_called_function_rejected:
  assumes "\<nexists>f as. s = ExpressionStatement (CallExpression f as)"
  shows "injectVisitor gen call_ok (CallExpression (FunctionExpression ps (BlockStatement (s # ss))) as) = Inl AstTypeError"
proof -
  have "hookStatements call_ok (s # ss) = Inl AstTypeError"
    using assms by (auto split: node.splits)
  then show ?thesis by (simp add: injectVisitor_def del: hookStatements.simps)
qed

theorem immediately_called_function_rejected_witness:
  "injectVisitor (\<lambda>_. []) (\<lambda>_. True)
     (CallExpression (FunctionExpression [] (BlockStatement [VariableDeclaration (str ''var'') [VariableDeclarator (Identifier (str ''a'')) None]])) [])
   = Inl AstTypeError"
  by (rule immediately_called_function_rejected) simp

end
