(* ===== verification/Js_Base64.thy ===== *)
theory Js_Base64
  imports Js_Text
begin

text \<open>
  Base64 (RFC 4648): the reference encoding of byte strings and the built-in \<^verbatim>\<open>atob\<close>, which decodes (\<open>None\<close> when it raises an
  exception).
\<close>

section \<open>atob\<close>

definition b64_value :: "int \<Rightarrow> int option" where
  "b64_value c =
     (if 65 \<le> c \<and> c \<le> 90 then Some (c - 65)
      else if 97 \<le> c \<and> c \<le> 122 then Some (c - 71)
      else if 48 \<le> c \<and> c \<le> 57 then Some (c + 4)
      else if c = 43 then Some 62
      else if c = 47 then Some 63
      else None)"

fun atob_groups :: "int list \<Rightarrow> jstr option" where
  "atob_groups [] = Some []"
| "atob_groups [a] = None"
| "atob_groups [a, b] = Some [4 * a + b div 16]"
| "atob_groups [a, b, c] = Some [4 * a + b div 16, b mod 16 * 16 + c div 4]"
| "atob_groups (a # b # c # d # r) =
     map_option (\<lambda>t. [4 * a + b div 16, b mod 16 * 16 + c div 4, c mod 4 * 64 + d] @ t) (atob_groups r)"

definition strip_pad :: "jstr \<Rightarrow> jstr" where
  "strip_pad s =
     (if length s mod 4 = 0 then
        if ends_with s (str ''=='') then take (length s - 2) s
        else if ends_with s (str ''='') then take (length s - 1) s
        else s
      else s)"

definition js_atob :: "jstr \<Rightarrow> jstr option" where
  "js_atob s =
     (let s = strip_pad (filter (\<lambda>c. c \<notin> {9, 10, 12, 13, 32}) s);
          vs = map b64_value s
      in if None \<in> set vs then None else atob_groups (map the vs))"

section \<open>The reference encoding\<close>

definition b64_alphabet :: jstr where
  "b64_alphabet = str ''ABCDEFGHIJKLMNOPQRSTUVWXYZabcdefghijklmnopqrstuvwxyz0123456789+/''"

definition b64_char :: "int \<Rightarrow> int" where
  "b64_char d = b64_alphabet ! nat d"

fun b64_encode :: "int list \<Rightarrow> jstr" where
  "b64_encode [] = []"
| "b64_encode [a] = map b64_char [a div 4, a mod 4 * 16] @ [61, 61]"
| "b64_encode [a, b] = map b64_char [a div 4, a mod 4 * 16 + b div 16, b mod 16 * 4] @ [61]"
| "b64_encode (a # b # c # r) =
     map b64_char [a div 4, a mod 4 * 16 + b div 16, b mod 16 * 4 + c div 64, c mod 64] @ b64_encode r"

lemma b64_char_at: "0 \<le> d \<Longrightarrow> d < 64 \<Longrightarrow> char_at b64_alphabet d = [b64_char d]"
  by (simp add: char_at_def b64_char_def b64_alphabet_def str_def)

lemma b64_value_char:
  assumes "0 \<le> d" "d < 64"
  shows "b64_value (b64_char d) = Some d" "b64_char d \<noteq> 61" "b64_char d \<notin> {9, 10, 12, 13, 32}"
proof -
  have vals: "map b64_value b64_alphabet = map (\<lambda>d. Some (int d)) [0..<64]"
    and chars: "list_all (\<lambda>c. c \<noteq> 61 \<and> c \<notin> {9, 10, 12, 13, 32}) b64_alphabet" by code_simp+
  have len: "length b64_alphabet = 64" and d: "nat d < 64" "int (nat d) = d"
    using assms by (simp_all add: b64_alphabet_def str_def)
  have "map b64_value b64_alphabet ! nat d = map (\<lambda>d. Some (int d)) [0..<64] ! nat d" by (simp only: vals)
  then show "b64_value (b64_char d) = Some d" using d len by (simp add: b64_char_def)
  have "b64_char d \<in> set b64_alphabet" using d len by (simp add: b64_char_def)
  with chars show "b64_char d \<noteq> 61" "b64_char d \<notin> {9, 10, 12, 13, 32}" by (simp_all only: list_all_iff) blast+
qed

text \<open>The digits of an encoding without its padding.\<close>

fun b64_digits :: "int list \<Rightarrow> int list" where
  "b64_digits [] = []"
| "b64_digits [a] = [a div 4, a mod 4 * 16]"
| "b64_digits [a, b] = [a div 4, a mod 4 * 16 + b div 16, b mod 16 * 4]"
| "b64_digits (a # b # c # r) = [a div 4, a mod 4 * 16 + b div 16, b mod 16 * 4 + c div 64, c mod 64] @ b64_digits r"

fun b64_padding :: "int list \<Rightarrow> jstr" where
  "b64_padding [] = []"
| "b64_padding [a] = [61, 61]"
| "b64_padding [a, b] = [61]"
| "b64_padding (a # b # c # r) = b64_padding r"

lemma b64_encode_digits: "b64_encode bs = map b64_char (b64_digits bs) @ b64_padding bs"
  by (induction bs rule: b64_encode.induct) simp_all

lemma length_b64: "4 dvd length (b64_digits bs) + length (b64_padding bs)"
proof (induction bs rule: b64_encode.induct)
  case (4 a b c r)
  then have "4 dvd 4 + (length (b64_digits r) + length (b64_padding r))" by (rule dvd_add [OF dvd_refl])
  moreover have "length (b64_digits (a # b # c # r)) + length (b64_padding (a # b # c # r)) =
      4 + (length (b64_digits r) + length (b64_padding r))" by simp
  ultimately show ?case by (simp only:)
qed (simp_all add: numeral_eq_Suc)

lemma b64_digits_range: "byte_string bs \<Longrightarrow> d \<in> set (b64_digits bs) \<Longrightarrow> 0 \<le> d \<and> d < 64"
  by (induction bs rule: b64_encode.induct) auto

lemma b64_padding_cases: "b64_padding bs \<in> {[], [61], [61, 61]}"
  by (induction bs rule: b64_encode.induct) simp_all

lemma sextet_split: "0 \<le> y \<Longrightarrow> y < n \<Longrightarrow> (x * n + y) div n = x \<and> (x * n + y) mod n = (y :: int)"
  by simp

lemma atob_groups_digits: "byte_string bs \<Longrightarrow> atob_groups (b64_digits bs) = Some bs"
proof (induction bs rule: b64_encode.induct)
  case (4 a b c r)
  have b: "0 \<le> b div 16" "b div 16 < 16" and c: "0 \<le> c div 64" "c div 64 < 4"
    using 4(2) by auto
  show ?case
    using 4 sextet_split [OF b, of "a mod 4"] sextet_split [OF c, of "b mod 16"] by simp
qed (auto simp: sextet_split)

lemma strip_pad_b64:
  assumes "61 \<notin> set t" "p \<in> {[], [61], [61, 61]}" "4 dvd length t + length p"
  shows "strip_pad (t @ p) = t"
proof -
  have len: "length (t @ p) mod 4 = 0" using assms(3) by simp
  have "\<not> ends_with (t @ [61]) [61, 61]" "\<not> ends_with t [61, 61]" "\<not> ends_with t [61]"
    using assms(1) by (auto simp: ends_with_append)
  moreover have "ends_with (t @ [61]) [61]" "ends_with (t @ [61, 61]) [61, 61]"
    by (auto simp: ends_with_append)
  moreover have "str ''=='' = [61, 61]" "str ''='' = [61]" by (simp_all add: str_def)
  ultimately show ?thesis
    using assms(2) len by (auto simp: strip_pad_def)
qed

lemma js_atob_b64: "byte_string bs \<Longrightarrow> js_atob (b64_encode bs) = Some bs"
proof -
  assume bytes: "byte_string bs"
  let ?t = "map b64_char (b64_digits bs)"
  have digit: "0 \<le> d \<and> d < 64" if "d \<in> set (b64_digits bs)" for d
    using that bytes by (rule b64_digits_range [rotated])
  have "filter (\<lambda>c. c \<notin> {9, 10, 12, 13, 32}) (b64_encode bs) = b64_encode bs"
    unfolding b64_encode_digits filter_id_conv
    using b64_value_char(3) digit b64_padding_cases [of bs] by fastforce
  moreover have "61 \<notin> set ?t" using b64_value_char(2) digit by fastforce
  then have "strip_pad (b64_encode bs) = ?t"
    unfolding b64_encode_digits using b64_padding_cases length_b64 by (intro strip_pad_b64) simp_all
  moreover have "map b64_value ?t = map Some (b64_digits bs)"
    using b64_value_char(1) digit by simp
  ultimately have "js_atob (b64_encode bs) =
      (if None \<in> set (map Some (b64_digits bs)) then None else atob_groups (map the (map Some (b64_digits bs))))"
    by (simp only: js_atob_def Let_def)
  then show "js_atob (b64_encode bs) = Some bs"
    using atob_groups_digits [OF bytes] by (auto simp: comp_def)
qed

section \<open>Bit operations of the encoders\<close>

lemma and_mask: "x AND (2 ^ k - 1) = x mod 2 ^ k" for x :: int
  by (simp add: take_bit_eq_mask [symmetric] take_bit_eq_mod flip: mask_eq_exp_minus_1)

lemma byte_bits:
  assumes "0 \<le> x" "x < 256"
  shows "js_shr x 2 = x div 4" "js_shr x 4 = x div 16" "js_shr x 6 = x div 64" "js_and 255 x = x" "js_and x 255 = x"
    "js_and x 3 = x mod 4" "js_and 3 x = x mod 4" "js_and x 15 = x mod 16" "js_and 15 x = x mod 16"
    "js_and x 63 = x mod 64" "js_and 63 x = x mod 64" "js_shr (js_and 240 x) 4 = x div 16" "js_shr (js_and 192 x) 6 = x div 64"
proof -
  have shr: "js_shr (js_and m x) n = drop_bit (nat n) m AND drop_bit (nat n) x" if "0 \<le> m" "m < 256" "0 \<le> n" "n < 32" for m n
  proof -
    have "0 \<le> m AND x" "m AND x \<le> m" using that assms by (simp_all add: AND_upper1)
    then have "to_int32 (m AND x) = m AND x" using that by (intro to_int32_id) linarith+
    then show ?thesis using that assms by (simp add: js_shr_def js_and_def drop_bit_and)
  qed
  have "x div 16 < 16" "x div 64 < 4" "0 \<le> x div 16" "0 \<le> x div 64" using assms by auto
  then show "js_shr (js_and 240 x) 4 = x div 16" "js_shr (js_and 192 x) 6 = x div 64"
    using shr [of 240 4] shr [of 192 6] and_mask [of "x div 16" 4] and_mask [of "x div 64" 2]
    by (simp_all add: drop_bit_eq_div and.commute mod_pos_pos_trivial)
  show "js_and x 255 = x" "js_and 255 x = x"
    using js_and_mask [of 8 x] assms by (simp_all add: js_and_comm [of 255])
  show "js_and x 3 = x mod 4" "js_and 3 x = x mod 4" "js_and x 15 = x mod 16" "js_and 15 x = x mod 16"
    "js_and x 63 = x mod 64" "js_and 63 x = x mod 64"
    using js_and_mask [of 2 x] js_and_mask [of 4 x] js_and_mask [of 6 x]
    by (simp_all add: js_and_comm [of 3] js_and_comm [of 15] js_and_comm [of 63])
qed (use assms in \<open>simp_all add: js_shr_div\<close>)

lemma small_shl: "0 \<le> x \<Longrightarrow> x < 256 \<Longrightarrow> js_shl x 4 = x * 16 \<and> js_shl x 2 = x * 4"
  by (simp add: js_shl_def push_bit_eq_mult)

lemma mod_shl: "js_shl (x mod 4) 4 = x mod 4 * 16" "js_shl (x mod 16) 2 = x mod 16 * 4"
  using small_shl [of "x mod 4"] small_shl [of "x mod 16"] pos_mod_bound [of 4 x] pos_mod_bound [of 16 x] by simp_all

lemma nibble_or:
  "0 \<le> a \<Longrightarrow> a < 4 \<Longrightarrow> 0 \<le> b \<Longrightarrow> b < 16 \<Longrightarrow> js_or (a * 16) b = a * 16 + b"
  "0 \<le> c \<Longrightarrow> c < 16 \<Longrightarrow> 0 \<le> d \<Longrightarrow> d < 4 \<Longrightarrow> js_or (c * 4) d = c * 4 + d"
  using js_or_add(2) [of b 4 a] js_or_add(2) [of d 2 c] by simp_all

lemma mod_or:
  assumes "0 \<le> y" "y < 256"
  shows "js_or (x mod 4 * 16) (y div 16) = x mod 4 * 16 + y div 16" "js_or (x mod 16 * 4) (y div 64) = x mod 16 * 4 + y div 64"
    "js_or (x mod 4 * 16) 0 = x mod 4 * 16" "js_or (x mod 16 * 4) 0 = x mod 16 * 4"
proof -
  have "0 \<le> y div 16" "y div 16 < 16" "0 \<le> y div 64" "y div 64 < 4"
    using assms by auto
  moreover have "0 \<le> x mod 4" "x mod 4 < 4" "0 \<le> x mod 16" "x mod 16 < 16" by simp_all
  ultimately show "js_or (x mod 4 * 16) (y div 16) = x mod 4 * 16 + y div 16" "js_or (x mod 16 * 4) (y div 64) = x mod 16 * 4 + y div 64"
    "js_or (x mod 4 * 16) 0 = x mod 4 * 16" "js_or (x mod 16 * 4) 0 = x mod 16 * 4"
    using nibble_or(1) [of "x mod 4" 0] nibble_or(2) [of "x mod 16" 0] by (simp_all only: nibble_or order_refl zero_less_numeral add_0_right)
qed

text \<open>The digits of a group of bytes, as the encoders compute them.\<close>

lemmas b64_bits = byte_bits mod_shl mod_or

lemma b64_group_range:
  fixes x y z :: int
  assumes "0 \<le> x" "x < 256" "0 \<le> y" "y < 256" "0 \<le> z" "z < 256"
  shows "0 \<le> x div 4" "x div 4 < 64" "0 \<le> x mod 4 * 16 + y div 16" "x mod 4 * 16 + y div 16 < 64"
    "0 \<le> y mod 16 * 4 + z div 64" "y mod 16 * 4 + z div 64 < 64" "x mod 4 * 16 < 64" "y mod 16 * 4 < 64"
proof -
  have "x mod 4 < 4" "y mod 16 < 16" "0 \<le> x mod 4" "0 \<le> y mod 16" by simp_all
  moreover have "y div 16 < 16" "z div 64 < 4" "0 \<le> y div 16" "0 \<le> z div 64" "x div 4 < 64" "0 \<le> x div 4"
    using assms by auto
  ultimately show "0 \<le> x div 4" "x div 4 < 64" "0 \<le> x mod 4 * 16 + y div 16" "x mod 4 * 16 + y div 16 < 64"
    "0 \<le> y mod 16 * 4 + z div 64" "y mod 16 * 4 + z div 64 < 64" "x mod 4 * 16 < 64" "y mod 16 * 4 < 64"
    by linarith+
qed

end
