(* ===== verification/Ast_Base64.thy ===== *)
theory Ast_Base64
  imports Js_Base64
begin

text \<open>
  The two Base64 encoders of the obfuscation exercises, \<^verbatim>\<open>base64Encode\<close> of \<^verbatim>\<open>all.js\<close> and the object \<^verbatim>\<open>Base64\<close> of the exercise on string
  constants.
\<close>

section \<open>all.js\<close>

definition base64EncodeChars :: jstr where
  "base64EncodeChars = str ''ABCDEFGHIJKLMNOPQRSTUVWXYZabcdefghijklmnopqrstuvwxyz0123456789+/''"

function base64_loop :: "jstr \<Rightarrow> int \<Rightarrow> jstr \<Rightarrow> jstr" where
  "base64_loop e a r =
     (let c = int (length e); at = char_at base64EncodeChars
      in if a < c then
        let h = js_and 255 (bits_of (char_code_at e a)) in
        if a + 1 = c then r @ at (js_shr h 2) @ at (js_shl (js_and 3 h) 4) @ str ''==''
        else
        let x = bits_of (char_code_at e (a + 1)) in
        if a + 2 = c then
          r @ at (js_shr h 2) @ at (js_or (js_shl (js_and 3 h) 4) (js_shr (js_and 240 x) 4)) @
          at (js_shl (js_and 15 x) 2) @ str ''=''
        else
        let t = bits_of (char_code_at e (a + 2)) in
        base64_loop e (a + 3)
          (r @ at (js_shr h 2) @ at (js_or (js_shl (js_and 3 h) 4) (js_shr (js_and 240 x) 4)) @
           at (js_or (js_shl (js_and 15 x) 2) (js_shr (js_and 192 t) 6)) @ at (js_and 63 t))
      else r)"
  by pat_completeness auto
termination
  by (relation "measure (\<lambda>(e, a, r). nat (int (length e) - a))") auto

declare base64_loop.simps [simp del]

definition base64Encode :: "jstr \<Rightarrow> jstr" where
  "base64Encode e = base64_loop e 0 []"

section \<open>The object Base64\<close>

definition keyStr :: jstr where
  "keyStr = str ''ABCDEFGHIJKLMNOPQRSTUVWXYZabcdefghijklmnopqrstuvwxyz0123456789+/=''"

definition Base64_utf8_char :: "int \<Rightarrow> jstr" where
  "Base64_utf8_char r =
     (if r < 128 then from_char_code r
      else if 127 < r \<and> r < 2048 then
        from_char_code (js_or (js_shr r 6) 192) @ from_char_code (js_or (js_and r 63) 128)
      else
        from_char_code (js_or (js_shr r 12) 224) @ from_char_code (js_or (js_and (js_shr r 6) 63) 128) @
        from_char_code (js_or (js_and r 63) 128))"

definition Base64_utf8_encode :: "jstr \<Rightarrow> jstr" where
  "Base64_utf8_encode e = concat (map Base64_utf8_char (js_replace_all (str ''rn'') (str ''n'') e))"

function Base64_loop :: "jstr \<Rightarrow> int \<Rightarrow> jstr \<Rightarrow> jstr" where
  "Base64_loop e f t =
     (if f < int (length e) then
        let n = bits_of (char_code_at e f); r = char_code_at e (f + 1); i = char_code_at e (f + 2);
            s = js_shr n 2;
            x = js_or (js_shl (js_and n 3) 4) (js_shr (bits_of r) 4);
            u = js_or (js_shl (js_and (bits_of r) 15) 2) (js_shr (bits_of i) 6);
            a = js_and (bits_of i) 63;
            (u, a) = (if r = None then (64, 64) else if i = None then (u, 64) else (u, a))
        in Base64_loop e (f + 3) (t @ char_at keyStr s @ char_at keyStr x @ char_at keyStr u @ char_at keyStr a)
      else t)"
  by pat_completeness auto
termination
  by (relation "measure (\<lambda>(e, f, t). nat (int (length e) - f))") auto

declare Base64_loop.simps [simp del]

definition Base64_encode :: "jstr \<Rightarrow> jstr" where
  "Base64_encode e = Base64_loop (Base64_utf8_encode e) 0 []"

section \<open>Both encode in Base64\<close>

lemma drop_cases:
  assumes "a < length e"
  shows "drop a e = [e ! a] \<and> Suc a = length e \<or>
    drop a e = [e ! a, e ! Suc a] \<and> Suc (Suc a) = length e \<or>
    drop a e = e ! a # e ! Suc a # e ! Suc (Suc a) # drop (a + 3) e \<and> Suc (Suc a) < length e"
proof -
  have 1: "drop a e = e ! a # drop (Suc a) e" using assms by (simp add: Cons_nth_drop_Suc)
  have 2: "drop (Suc a) e = e ! Suc a # drop (Suc (Suc a)) e" if "Suc a < length e"
    using that by (simp add: Cons_nth_drop_Suc)
  have 3: "drop (Suc (Suc a)) e = e ! Suc (Suc a) # drop (a + 3) e" if "Suc (Suc a) < length e"
    using that by (simp add: Cons_nth_drop_Suc numeral_3_eq_3)
  consider "Suc a = length e" | "Suc (Suc a) = length e" | "Suc (Suc a) < length e"
    using assms by linarith
  then show ?thesis by cases (use 1 2 3 in simp_all)
qed

lemma base64_loop_spec:
  assumes "byte_string e"
  shows "base64_loop e (int a) r = r @ b64_encode (drop a e)"
proof (induction "length e - a" arbitrary: a r rule: less_induct)
  case less
  show ?case
  proof (cases "a < length e")
    case False
    then show ?thesis by (subst base64_loop.simps) simp
  next
    case True
    have alph: "base64EncodeChars = b64_alphabet" by (simp add: base64EncodeChars_def b64_alphabet_def)
    have b: "0 \<le> e ! k" "e ! k < 256" if "k < length e" for k
      using byte_string_nth [OF assms that] by simp_all
    consider (one) "drop a e = [e ! a]" "Suc a = length e"
      | (two) "drop a e = [e ! a, e ! Suc a]" "Suc (Suc a) = length e"
      | (three) "drop a e = e ! a # e ! Suc a # e ! Suc (Suc a) # drop (a + 3) e" "Suc (Suc a) < length e"
      using drop_cases [OF True] by blast
    then show ?thesis
    proof cases
      case one
      show ?thesis
        using one b [of a] b64_group_range [of "e ! a" 0 0]
        by (subst base64_loop.simps) (simp add: alph Let_def b64_bits b64_char_at str_def)
    next
      case two
      then have "char_code_at e (int a + 1) = Some (e ! Suc a)"
        using char_code_at_nth [of "Suc a" e] by (simp add: add.commute)
      then show ?thesis
        using two b [of a] b [of "Suc a"] b64_group_range [of "e ! a" "e ! Suc a" 0]
        by (subst base64_loop.simps) (simp add: alph Let_def b64_bits b64_char_at str_def)
    next
      case three
      then have "char_code_at e (int a + 1) = Some (e ! Suc a)" "char_code_at e (int a + 2) = Some (e ! Suc (Suc a))"
        using char_code_at_nth [of "Suc a" e] char_code_at_nth [of "Suc (Suc a)" e] by (simp_all add: add.commute)
      moreover have "base64_loop e (int a + 3) r' = r' @ b64_encode (drop (a + 3) e)" for r'
        using less [of "a + 3" r'] three(2) by simp
      ultimately show ?thesis
        using three b [of a] b [of "Suc a"] b [of "Suc (Suc a)"] b64_group_range [of "e ! a" "e ! Suc a" "e ! Suc (Suc a)"]
        by (subst base64_loop.simps) (simp add: alph Let_def b64_bits b64_char_at)
    qed
  qed
qed

lemma base64Encode_b64: "byte_string e \<Longrightarrow> base64Encode e = b64_encode e"
  using base64_loop_spec [of e 0 "[]"] by (simp add: base64Encode_def)

lemma js_shr_0: "js_shr 0 n = 0"
  by (simp add: js_shr_def)

lemma Base64_loop_spec:
  assumes "byte_string e"
  shows "Base64_loop e (int a) r = r @ b64_encode (drop a e)"
proof (induction "length e - a" arbitrary: a r rule: less_induct)
  case less
  show ?case
  proof (cases "a < length e")
    case False
    then show ?thesis by (subst Base64_loop.simps) simp
  next
    case True
    have alph: "char_at keyStr d = [b64_char d]" if "0 \<le> d" "d < 64" for d
    proof -
      have key: "keyStr = b64_alphabet @ [61]" and len: "length b64_alphabet = 64"
        by (simp_all add: keyStr_def b64_alphabet_def str_def)
      have "nat d < 64" using that by simp
      then show ?thesis using that(1) unfolding key by (simp add: char_at_def b64_char_def nth_append len)
    qed
    have pad: "char_at keyStr 64 = [61]" by (simp add: keyStr_def char_at_def str_def)
    have b: "0 \<le> e ! k" "e ! k < 256" if "k < length e" for k
      using byte_string_nth [OF assms that] by simp_all
    have rest: "Base64_loop e (int a + 3) r' = r' @ b64_encode (drop (a + 3) e)" for r'
      using less [of "a + 3" r'] True by simp
    have none: "char_code_at e (int k) = None" if "length e \<le> k" for k
      using that by (simp add: char_code_at_def)
    have some: "char_code_at e (int k) = Some (e ! k)" if "k < length e" for k
      using that by simp
    have idx: "int a + 1 = int (Suc a)" "int a + 2 = int (Suc (Suc a))" by simp_all
    consider (one) "drop a e = [e ! a]" "Suc a = length e"
      | (two) "drop a e = [e ! a, e ! Suc a]" "Suc (Suc a) = length e"
      | (three) "drop a e = e ! a # e ! Suc a # e ! Suc (Suc a) # drop (a + 3) e" "Suc (Suc a) < length e"
      using drop_cases [OF True] by blast
    then show ?thesis
    proof cases
      case one
      then show ?thesis
        using True b [of a] b64_group_range [of "e ! a" 0 0] unfolding Base64_loop.simps [of e "int a"] rest idx
        by (simp add: none Let_def b64_bits alph pad js_shr_0 mod_or(3) [of 0] del: of_nat_Suc)
    next
      case two
      then show ?thesis
        using True b [of a] b [of "Suc a"] b64_group_range [of "e ! a" "e ! Suc a" 0] unfolding Base64_loop.simps [of e "int a"] rest idx
        by (simp add: none some Let_def b64_bits alph pad mod_or(4) [of 0] del: of_nat_Suc)
    next
      case three
      then show ?thesis
        using True b [of a] b [of "Suc a"] b [of "Suc (Suc a)"] b64_group_range [of "e ! a" "e ! Suc a" "e ! Suc (Suc a)"]
        unfolding Base64_loop.simps [of e "int a"] rest idx
        by (simp add: none some Let_def b64_bits alph pad
            del: of_nat_Suc)
    qed
  qed
qed

lemma utf8_char_bytes:
  assumes "0 \<le> r" "r < 65536"
  shows "byte_string (Base64_utf8_char r)"
proof -
  have or: "0 \<le> js_or x y \<and> js_or x y < 256" if "0 \<le> x" "x < 256" "0 \<le> y" "y < 256" for x y
    using that OR_upper [of x 8 y] by (simp add: js_or_def)
  have "js_shr r 6 < 32" if "r < 2048" using that assms by (simp add: js_shr_div)
  moreover have "js_shr r 12 < 16" "0 \<le> js_shr r 12" "0 \<le> js_shr r 6" using assms by (simp_all add: js_shr_div)
  moreover have "js_and x 63 = x mod 64" for x using js_and_mask [of 6 x] by simp
  moreover have "x mod 64 < 256" for x :: int using pos_mod_bound [of 64 x] by linarith
  ultimately show ?thesis
    using assms or [of "js_shr r 6" 192] or [of "r mod 64" 128] or [of "js_shr r 12" 224] or [of "js_shr r 6 mod 64" 128]
    by (auto simp: Base64_utf8_char_def from_char_code_def mod_pos_pos_trivial)
qed

lemma js_replace_all_units: "code_units s \<Longrightarrow> code_units (js_replace_all (str ''rn'') (str ''n'') s)"
proof (induction "str ''rn''" "str ''n''" s rule: js_replace_all.induct)
  case (2 c s)
  have "code_units (drop 1 s)" "code_units s" using "2.prems" by (auto simp: code_units_def dest: in_set_dropD)
  with 2 show ?case by (auto simp: str_def code_units_def)
qed simp

lemma Base64_encode_b64:
  assumes "code_units e"
  shows "byte_string (Base64_utf8_encode e)" "Base64_encode e = b64_encode (Base64_utf8_encode e)"
proof -
  have "byte_string (concat (map f s))" if "\<And>r. r \<in> set s \<Longrightarrow> byte_string (f r)" for f and s :: "int list"
    using that by (auto simp: byte_string_def)
  moreover have "\<And>r. r \<in> set (js_replace_all (str ''rn'') (str ''n'') e) \<Longrightarrow> 0 \<le> r \<and> r < 65536"
    using js_replace_all_units [OF assms] by (auto simp: code_units_def)
  ultimately show bytes: "byte_string (Base64_utf8_encode e)"
    unfolding Base64_utf8_encode_def using utf8_char_bytes by simp
  show "Base64_encode e = b64_encode (Base64_utf8_encode e)"
    using Base64_loop_spec [OF bytes, of 0 "[]"] by (simp add: Base64_encode_def)
qed

text \<open>What \<open>base64Encode\<close> of \<open>all.js\<close> encodes, the built-in \<open>atob\<close> of the obfuscated program decodes, for every string of
  characters below 256; the result is the Base64 encoding of RFC 4648.\<close>

theorem base64Encode_decodes:
  assumes "byte_string e"
  shows "base64Encode e = b64_encode e \<and> js_atob (base64Encode e) = Some e"
  using assms by (simp add: base64Encode_b64 js_atob_b64)

theorem base64Encode_decodes_witness:
  "base64Encode (str ''light'') = b64_encode (str ''light'') \<and> js_atob (base64Encode (str ''light'')) = Some (str ''light'')"
proof -
  have "byte_string (str ''light'')" by (simp add: str_def)
  then show ?thesis by (rule base64Encode_decodes)
qed

lemma replace_rn:
  "114 \<notin> set u \<Longrightarrow> js_replace_all (str ''rn'') (str ''n'') (u @ str ''rn'' @ v) = js_replace_all (str ''rn'') (str ''n'') (u @ str ''n'' @ v)"
  by (induction u) (auto simp: str_def)

text \<open>The \<open>Base64\<close> object of the exercise on string constants is not invertible: its line-break normalisation, written with the
  letters \<open>rn\<close> instead of the escapes, removes the letter r before an n, so two different texts have the same encoding.\<close>

theorem Base64_encode_conflates:
  assumes "114 \<notin> set u"
  shows "Base64_encode (u @ str ''rn'' @ v) = Base64_encode (u @ str ''n'' @ v)"
  using replace_rn [OF assms] by (simp add: Base64_encode_def Base64_utf8_encode_def)

theorem Base64_encode_conflates_witness: "Base64_encode (str ''turn'') = Base64_encode (str ''tun'')"
  using Base64_encode_conflates [of "str ''tu''" "[]"] by (simp add: str_def)

end
