(* ===== verification/Js_Eval.thy ===== *)
theory Js_Eval
  imports Js_Ast Js_Base64
begin

text \<open>
  A big-step semantics of the expressions that the obfuscators write and the deobfuscators read: literals, variables, properties,
  operators, assignments to variables, comma expressions and calls of functions whose body is one return statement. It is the
  yardstick for the tools: a rewriting is right when the new node evaluates to the same values and effects. What it does not fix, the
  other operators, properties and built-in functions, is a parameter of the semantics.
\<close>

section \<open>Values\<close>

datatype jsv =
    VUndef
  | VNum int
  | VStr jstr
  | VArr "jsv list"
  | VObj "(jstr \<times> jsv) list"
  | VFun "jstr list" node
  | VNative jstr
  | VWindow

type_synonym vars = "jstr \<Rightarrow> jsv option"

record sem =
  sem_binop :: "jstr \<Rightarrow> jsv \<Rightarrow> jsv \<Rightarrow> jsv option"
  sem_prop :: "jsv \<Rightarrow> jstr \<Rightarrow> jsv option"
  sem_native :: "jstr \<Rightarrow> jsv list \<Rightarrow> jsv option"

definition js_binop :: "sem \<Rightarrow> jstr \<Rightarrow> jsv \<Rightarrow> jsv \<Rightarrow> jsv option" where
  "js_binop S op a b =
     (case (a, b) of
        (VNum x, VNum y) \<Rightarrow> if op = str ''^'' then Some (VNum (js_xor x y)) else sem_binop S op a b
      | _ \<Rightarrow> sem_binop S op a b)"

text \<open>The text of a value as a property name; only texts and numbers are names here.\<close>

fun key_text :: "jsv \<Rightarrow> jstr option" where
  "key_text (VStr s) = Some s"
| "key_text (VNum n) = Some (if n < 0 then str ''-'' @ nat_to_dec (nat (- n)) else nat_to_dec (nat n))"
| "key_text _ = None"

text \<open>\<^verbatim>\<open>window\<close> has the global variables as its properties; reading a property of \<^verbatim>\<open>undefined\<close> raises an exception.\<close>

definition js_prop :: "sem \<Rightarrow> vars \<Rightarrow> jsv \<Rightarrow> jstr \<Rightarrow> jsv option" where
  "js_prop S g v k =
     (case v of
        VUndef \<Rightarrow> None
      | VArr xs \<Rightarrow> (case find (\<lambda>i. nat_to_dec i = k) [0..<length xs] of Some i \<Rightarrow> Some (xs ! i) | None \<Rightarrow> sem_prop S v k)
      | VObj ps \<Rightarrow> (case map_of ps k of Some w \<Rightarrow> Some w | None \<Rightarrow> sem_prop S v k)
      | VWindow \<Rightarrow> g k
      | _ \<Rightarrow> sem_prop S v k)"

fun char_codes :: "jsv list \<Rightarrow> jstr option" where
  "char_codes [] = Some []"
| "char_codes (VNum n # vs) = map_option (\<lambda>s. from_char_code n @ s) (char_codes vs)"
| "char_codes _ = None"

definition js_native :: "sem \<Rightarrow> jstr \<Rightarrow> jsv list \<Rightarrow> jsv option" where
  "js_native S f vs =
     (if f = str ''atob'' then (case vs of [VStr s] \<Rightarrow> map_option VStr (js_atob s) | _ \<Rightarrow> sem_native S f vs)
      else if f = str ''String.fromCharCode'' then
        (case char_codes vs of Some s \<Rightarrow> Some (VStr s) | None \<Rightarrow> sem_native S f vs)
      else sem_native S f vs)"

text \<open>The expression a one-line function returns.\<close>

fun return_expr :: "node \<Rightarrow> node option" where
  "return_expr (BlockStatement [ReturnStatement (Some e)]) = Some e"
| "return_expr _ = None"

section \<open>Evaluation\<close>

text \<open>
  \<open>ev S l e g v g'\<close>: with the parameters \<open>l\<close> of the enclosing function and the variables \<open>g\<close>, \<open>e\<close> evaluates to \<open>v\<close> and leaves
  the variables \<open>g'\<close>. A parameter that gets no argument is \<^verbatim>\<open>undefined\<close>.
\<close>

definition bind_params :: "jstr list \<Rightarrow> jsv list \<Rightarrow> vars" where
  "bind_params ps vs = map_of (rev (zip ps (vs @ replicate (length ps) VUndef)))"

inductive ev :: "sem \<Rightarrow> vars \<Rightarrow> node \<Rightarrow> vars \<Rightarrow> jsv \<Rightarrow> vars \<Rightarrow> bool"
  and evs :: "sem \<Rightarrow> vars \<Rightarrow> node list \<Rightarrow> vars \<Rightarrow> jsv list \<Rightarrow> vars \<Rightarrow> bool" for S where
  num: "ev S l (NumericLiteral n) g (VNum n) g"
| lit: "ev S l (StringLiteral s) g (VStr s) g"
| local: "l x = Some v \<Longrightarrow> ev S l (Identifier x) g v g"
| global: "l x = None \<Longrightarrow> g x = Some v \<Longrightarrow> ev S l (Identifier x) g v g"
| func: "ev S l (FunctionExpression (map Identifier ps) b) g (VFun ps b) g"
| binary: "ev S l a g u g1 \<Longrightarrow> ev S l b g1 v g2 \<Longrightarrow> js_binop S op u v = Some w \<Longrightarrow> ev S l (BinaryExpression op a b) g w g2"
| assign: "l x = None \<Longrightarrow> ev S l e g v g1 \<Longrightarrow> ev S l (AssignmentExpression (str ''='') (Identifier x) e) g v (g1(x \<mapsto> v))"
| dot: "ev S l e g u g1 \<Longrightarrow> js_prop S g1 u k = Some v \<Longrightarrow> ev S l (MemberExpression e (Identifier k) False) g v g1"
| computed: "ev S l e g u g1 \<Longrightarrow> ev S l p g1 kv g2 \<Longrightarrow> key_text kv = Some k \<Longrightarrow> js_prop S g2 u k = Some v \<Longrightarrow>
    ev S l (MemberExpression e p True) g v g2"
| comma: "evs S l es g vs g1 \<Longrightarrow> vs \<noteq> [] \<Longrightarrow> ev S l (SequenceExpression es) g (last vs) g1"
| call: "ev S l f g (VFun ps b) g1 \<Longrightarrow> evs S l as g1 vs g2 \<Longrightarrow> return_expr b = Some e \<Longrightarrow>
    ev S (bind_params ps vs) e g2 v g3 \<Longrightarrow> ev S l (CallExpression f as) g v g3"
| native: "ev S l f g (VNative m) g1 \<Longrightarrow> evs S l as g1 vs g2 \<Longrightarrow> js_native S m vs = Some v \<Longrightarrow> ev S l (CallExpression f as) g v g2"
| none: "evs S l [] g [] g"
| more: "ev S l e g v g1 \<Longrightarrow> evs S l es g1 vs g2 \<Longrightarrow> evs S l (e # es) g (v # vs) g2"

inductive_simps ev_literal [simp]: "ev S l (NumericLiteral n) g v g'" "ev S l (StringLiteral s) g v g'"
inductive_simps ev_Identifier: "ev S l (Identifier x) g v g'"
inductive_simps ev_BinaryExpression: "ev S l (BinaryExpression op a b) g v g'"
inductive_simps ev_dot: "ev S l (MemberExpression e p False) g v g'"
inductive_simps ev_computed: "ev S l (MemberExpression e p True) g v g'"
inductive_simps ev_CallExpression: "ev S l (CallExpression f as) g v g'"
inductive_simps ev_SequenceExpression: "ev S l (SequenceExpression es) g v g'"
inductive_simps evs_simps [simp]: "evs S l [] g vs g'" "evs S l (e # es) g vs g'"

lemmas ev_cases = ev_Identifier ev_BinaryExpression ev_dot ev_computed ev_CallExpression ev_SequenceExpression

text \<open>Evaluation is a function of the state.\<close>

lemma ev_det:
  "ev S l e g v g1 \<Longrightarrow> ev S l e g w g2 \<Longrightarrow> v = w \<and> g1 = g2"
  "evs S l es g vs g1 \<Longrightarrow> evs S l es g ws g2 \<Longrightarrow> vs = ws \<and> g1 = g2"
proof (induction arbitrary: w g2 and ws g2 rule: ev_evs.inducts)
  case (func l ps b g)
  have "inj (map Identifier)" by (simp add: inj_def)
  with func.prems show ?case by cases (auto dest: injD)
next
  case (binary l a g u g1 b v g2' op w')
  from binary.prems show ?case by cases (use binary(2,4,5) in force)
next
  case (assign l x e g v g1)
  from assign.prems show ?case by cases (use assign(3) in auto)
next
  case (dot l e g u g1 k v)
  from dot.prems show ?case by cases (use dot(2,3) in force)+
next
  case (computed l e g u g1 p kv g2' k v)
  from computed.prems show ?case by cases (use computed(2,4,5,6) in force)+
next
  case (comma l es g vs g1)
  from comma.prems show ?case by cases (use comma(2) in force)
next
  case (call l f g ps b g1 as vs g2' e v g3)
  from call.prems show ?case
  proof cases
    case (call qs c h1 ws h2 d)
    then have "VFun ps b = VFun qs c" "g1 = h1" using \<open>\<And>w g2. ev S l f g w g2 \<Longrightarrow> VFun ps b = w \<and> g1 = g2\<close> by blast+
    moreover from this call(2) have "vs = ws" "g2' = h2" using \<open>\<And>ws g2. evs S l as g1 ws g2 \<Longrightarrow> vs = ws \<and> g2' = g2\<close> by blast+
    ultimately show ?thesis using call(3,4) \<open>return_expr b = Some e\<close>
        \<open>\<And>w g2. ev S (bind_params ps vs) e g2' w g2 \<Longrightarrow> v = w \<and> g3 = g2\<close> by simp
  qed (use \<open>\<And>w g2. ev S l f g w g2 \<Longrightarrow> VFun ps b = w \<and> g1 = g2\<close> in blast)
next
  case (native l f g m g1 as vs g2' v)
  from native.prems show ?case
  proof cases
    case (native m' h1 ws)
    then have "VNative m = VNative m'" "g1 = h1" using \<open>\<And>w g2. ev S l f g w g2 \<Longrightarrow> VNative m = w \<and> g1 = g2\<close> by blast+
    moreover from this native(2) have "vs = ws" "g2' = g2" using \<open>\<And>ws g2. evs S l as g1 ws g2 \<Longrightarrow> vs = ws \<and> g2' = g2\<close> by blast+
    ultimately show ?thesis using native(3) \<open>js_native S m vs = Some v\<close> by simp
  qed (use \<open>\<And>w g2. ev S l f g w g2 \<Longrightarrow> VNative m = w \<and> g1 = g2\<close> in blast)
next
  case (more l e g v g1 es vs g2')
  from more.prems show ?case by cases (use more(2,4) in force)
qed (simp_all add: ev_Identifier)

lemma js_prop_index:
  assumes "i < length xs"
  shows "js_prop S g (VArr xs) (nat_to_dec i) = Some (xs ! i)"
proof -
  have "find (\<lambda>j. nat_to_dec j = nat_to_dec i) [0..<length xs] = Some i"
    by (rule find_unique) (use assms in \<open>simp_all add: nat_to_dec_inj\<close>)
  then show ?thesis by (simp only: js_prop_def jsv.case option.case)
qed

end
