(* ===== verification/Ast_Confound.thy ===== *)
theory Ast_Confound
  imports Complex_Main Js_Eval Ast_Base64 Js_Uri
begin

text \<open>
  The visitors of the obfuscator \<^verbatim>\<open>all.js\<close> and of the exercises it grew from, as functions on the node they are called on; Babel
  walks the tree, generates code and makes up unused names, so code generation and such names are arguments. The measure of a
  visitor is the semantics of \<open>Js_Eval\<close>: what the new node evaluates to.
\<close>

section \<open>Properties and built-in objects\<close>

fun changeAccessMode :: "node \<Rightarrow> node" where
  "changeAccessMode (MemberExpression e p c) =
     MemberExpression e (case node_name p of Some name \<Rightarrow> StringLiteral name | None \<Rightarrow> p) True"
| "changeAccessMode n = n"

definition builtin_names :: jstr where
  "builtin_names = str ''eval|parseInt|encodeURIComponent|Object|Function|Boolean|Number|Math|Date|String|RegExp|Array''"

fun changeBuiltinObjects :: "node \<Rightarrow> node" where
  "changeBuiltinObjects (Identifier name) =
     (if index_of builtin_names name \<noteq> - 1
      then MemberExpression (Identifier (str ''window'')) (StringLiteral name) True
      else Identifier name)"
| "changeBuiltinObjects n = n"

text \<open>
  The exercises have the same visitors; the one on built-in objects writes the name as an identifier, which the visitor on
  member expressions of the same traversal turns into a text.
\<close>

fun ex1_MemberExpression :: "node \<Rightarrow> node" where
  "ex1_MemberExpression (MemberExpression e p c) =
     MemberExpression e (case node_name p of Some name \<Rightarrow> StringLiteral name | None \<Rightarrow> p) True"
| "ex1_MemberExpression n = n"

definition ex2_names :: jstr where
  "ex2_names = str ''eval|Date|parseInt|Function|Boolean|Number|Math|String|RegExp|Array|Object''"

fun ex2_Identifier :: "node \<Rightarrow> node" where
  "ex2_Identifier (Identifier name) =
     (if index_of ex2_names name \<noteq> - 1
      then MemberExpression (Identifier (str ''window'')) (Identifier name) True
      else Identifier name)"
| "ex2_Identifier n = n"

fun ex2_MemberExpression :: "node \<Rightarrow> node" where
  "ex2_MemberExpression (MemberExpression e p c) =
     MemberExpression e (case node_name p of Some name \<Rightarrow> StringLiteral name | None \<Rightarrow> p) True"
| "ex2_MemberExpression n = n"

section \<open>Numbers\<close>

text \<open>The argument is the value of \<^verbatim>\<open>Math.random()\<close>, a number from 0 up to but not including 1.\<close>

definition random_key :: "rat \<Rightarrow> int" where
  "random_key r = \<lfloor>r * (999999 - 100000) + 100000\<rfloor>"

fun numericEncrypt :: "rat \<Rightarrow> node \<Rightarrow> node" where
  "numericEncrypt r (NumericLiteral v) =
     (let key = random_key r; cipherNum = js_xor v key
      in BinaryExpression (str ''^'') (NumericLiteral cipherNum) (NumericLiteral key))"
| "numericEncrypt r n = n"

fun ex3_NumericLiteral :: "rat \<Rightarrow> node \<Rightarrow> node" where
  "ex3_NumericLiteral r (NumericLiteral v) =
     (let key = random_key r; cipherNum = js_xor v key
      in BinaryExpression (str ''^'') (NumericLiteral cipherNum) (NumericLiteral key))"
| "ex3_NumericLiteral r n = n"

section \<open>Operators as functions\<close>

text \<open>
  \<open>uid\<close> is the name Babel generates; \<open>block\<close> is the body of the closest block around the expression, which
  does not exist for an expression outside functions. The result is the new body and the new node.
\<close>

definition op_function :: "jstr \<Rightarrow> jstr \<Rightarrow> node" where
  "op_function uid operator =
     FunctionDeclaration (Identifier uid) [Identifier (str ''a''), Identifier (str ''b'')]
       (BlockStatement [ReturnStatement (Some (BinaryExpression operator (Identifier (str ''a'')) (Identifier (str ''b''))))])"

fun binaryToFunc :: "jstr \<Rightarrow> node list option \<Rightarrow> node \<Rightarrow> ast_error + node list option \<times> node" where
  "binaryToFunc uid block (BinaryExpression operator left right) =
     (case block of
        None \<Rightarrow> Inl AstTypeError
      | Some body \<Rightarrow> Inr (Some (op_function uid operator # body), CallExpression (Identifier uid) [left, right]))"
| "binaryToFunc uid block n = Inr (block, n)"

fun block1_BinaryExpression :: "jstr \<Rightarrow> node list option \<Rightarrow> node \<Rightarrow> ast_error + node list option \<times> node" where
  "block1_BinaryExpression functionIdentifier blockStatement (BinaryExpression operator left right) =
     (case blockStatement of
        None \<Rightarrow> Inl AstTypeError
      | Some body \<Rightarrow>
          Inr (Some (op_function functionIdentifier operator # body), CallExpression (Identifier functionIdentifier) [left, right]))"
| "block1_BinaryExpression functionIdentifier blockStatement n = Inr (blockStatement, n)"

text \<open>What a function declaration binds its name to.\<close>

fun declared :: "node \<Rightarrow> (jstr \<times> jsv) option" where
  "declared (FunctionDeclaration (Identifier f) ps b) = Some (f, VFun (map (\<lambda>p. case node_name p of Some x \<Rightarrow> x | None \<Rightarrow> []) ps) b)"
| "declared _ = None"

section \<open>Hexadecimal names\<close>

fun hexEnc :: "jstr \<Rightarrow> jstr" where
  "hexEnc [] = []"
| "hexEnc (c # code) = str (CHR 0x5C # ''x'') @ js_to_hex c @ hexEnc code"

fun stringToHex :: "node \<Rightarrow> node" where
  "stringToHex (MemberExpression e p c) =
     MemberExpression e (case node_name p of Some name \<Rightarrow> StringLiteral (hexEnc name) | None \<Rightarrow> p) True"
| "stringToHex n = n"

fun str2hex :: "jstr \<Rightarrow> jstr" where
  "str2hex [] = []"
| "str2hex (c # s) = str (CHR 0x5C # ''x'') @ js_to_hex c @ str2hex s"

fun ex7_MemberExpression :: "node \<Rightarrow> node" where
  "ex7_MemberExpression (MemberExpression e p c) =
     MemberExpression e (case node_name p of Some name \<Rightarrow> StringLiteral (str2hex name) | None \<Rightarrow> p) True"
| "ex7_MemberExpression n = n"

text \<open>
  The generator doubles the backslashes of a text it prints, and \<^verbatim>\<open>main\<close> halves those before an x again; the parser of the
  obfuscated program reads a backslash, an x and two hexadecimal digits as one character. Other escapes do not occur.
\<close>

definition print_text :: "jstr \<Rightarrow> jstr" where
  "print_text s = concat (map (\<lambda>c. if c = 92 then [92, 92] else [c]) s)"

definition halve_backslashes :: "jstr \<Rightarrow> jstr" where
  "halve_backslashes code = js_replace_all [92, 92, 120] [92, 120] code"

fun read_text :: "jstr \<Rightarrow> jstr option" where
  "read_text [] = Some []"
| "read_text (c # s) =
     (if c = 92 then
        (case s of
           x # h # k # t \<Rightarrow>
             if x = 120 \<and> digit_value h < 16 \<and> digit_value k < 16
             then map_option (\<lambda>r. (16 * digit_value h + digit_value k) # r) (read_text t) else None
         | _ \<Rightarrow> None)
      else map_option (\<lambda>r. c # r) (read_text s))"

section \<open>Marked lines\<close>

text \<open>
  A statement with the first comment behind it. \<open>generate\<close> is Babel's generator; a return statement is never encrypted.
\<close>

type_synonym stmt = "node \<times> jstr option"

definition eval_of :: "node \<Rightarrow> stmt" where
  "eval_of code = (ExpressionStatement (CallExpression (Identifier (str ''eval'')) [code]), None)"

definition base64_code :: "jstr \<Rightarrow> node" where
  "base64_code code = CallExpression (Identifier (str ''atob'')) [StringLiteral (base64Encode code)]"

definition ascii_code :: "jstr \<Rightarrow> node" where
  "ascii_code code =
     CallExpression (MemberExpression (Identifier (str ''String'')) (Identifier (str ''fromCharCode'')) False)
       (map NumericLiteral code)"

definition appointedCodeLineEncrypt :: "(node \<Rightarrow> jstr) \<Rightarrow> stmt list \<Rightarrow> stmt list" where
  "appointedCodeLineEncrypt generate body =
     map (\<lambda>(v, comment).
       if isReturnStatement v then (v, comment)
       else if comment \<noteq> Some (str ''Base64Encrypt'') then (v, comment)
       else eval_of (base64_code (generate v))) body"

definition appointedCodeLineAscii :: "(node \<Rightarrow> jstr) \<Rightarrow> stmt list \<Rightarrow> stmt list" where
  "appointedCodeLineAscii generate body =
     map (\<lambda>(v, comment).
       if isReturnStatement v then (v, comment)
       else if comment \<noteq> Some (str ''ASCIIEncrypt'') then (v, comment)
       else eval_of (ascii_code (generate v))) body"

text \<open>
  The exercise encrypts every line but the return statements, with the UTF-8 bytes of the line in Base64. \<^verbatim>\<open>Buffer\<close> writes the
  replacement character for half of a surrogate pair.
\<close>

fun code_points :: "jstr \<Rightarrow> int list" where
  "code_points [] = []"
| "code_points (c # s) =
     (if 55296 \<le> c \<and> c \<le> 56319 then
        (case s of
           [] \<Rightarrow> [65533]
         | d # t \<Rightarrow>
             if 56320 \<le> d \<and> d \<le> 57343 then (65536 + (c - 55296) * 1024 + (d - 56320)) # code_points t
             else 65533 # code_points s)
      else (if 56320 \<le> c \<and> c \<le> 57343 then 65533 else c) # code_points s)"

definition buffer_bytes :: "jstr \<Rightarrow> int list" where
  "buffer_bytes code = concat (map utf8_octets (code_points code))"

definition buffer_code :: "jstr \<Rightarrow> node" where
  "buffer_code code = CallExpression (Identifier (str ''atob'')) [StringLiteral (b64_encode (buffer_bytes code))]"

definition block2_FunctionExpression :: "(node \<Rightarrow> jstr) \<Rightarrow> node list \<Rightarrow> node list" where
  "block2_FunctionExpression generate body =
     map (\<lambda>v. if isReturnStatement v then v else fst (eval_of (buffer_code (generate v)))) body"

section \<open>The rewritten nodes evaluate as before\<close>

lemma changeAccessMode_ev:
  assumes "c = False \<or> \<not> isIdentifier p"
  shows "ev S l (changeAccessMode (MemberExpression e p c)) g v g' \<longleftrightarrow>
    ev S l (MemberExpression e p c) g v g' \<or> \<not> c \<and> \<not> isIdentifier p \<and> ev S l (MemberExpression e p True) g v g'"
proof (cases "node_name p")
  case None
  then have "\<not> isIdentifier p" by (cases p) simp_all
  with None show ?thesis by (cases c) (auto simp: ev_dot)
next
  case (Some k)
  then have "p = Identifier k" by (cases p) simp_all
  with assms show ?thesis by (auto simp: ev_dot ev_computed)
qed

lemma js_xor_twice: "js_xor (js_xor v k) k = to_int32 v"
proof -
  have "to_int32 (to_int32 v XOR to_int32 k) = to_int32 v XOR to_int32 k"
    by (simp add: to_int32_signed_take_bit bit_eq_iff bit_simps)
  then show ?thesis by (simp add: js_xor_def xor.assoc)
qed

lemma numericEncrypt_ev: "ev S l (numericEncrypt r (NumericLiteral v)) g w g' \<longleftrightarrow> w = VNum (to_int32 v) \<and> g' = g"
  by (auto simp: Let_def ev_BinaryExpression js_binop_def js_xor_twice)

lemma bind_two_at:
  assumes "x \<noteq> y"
  shows "bind_params [x, y] [u, v] x = Some u" "bind_params [x, y] [u, v] y = Some v"
  using assms by (simp_all add: bind_params_def)

lemma ev_call_fun:
  assumes "ev S l f g (VFun ps b) g1" "return_expr b = Some e"
  shows "ev S l (CallExpression f as) g v g' \<longleftrightarrow> (\<exists>vs g2. evs S l as g1 vs g2 \<and> ev S (bind_params ps vs) e g2 v g')"
proof
  assume "ev S l (CallExpression f as) g v g'"
  then show "\<exists>vs g2. evs S l as g1 vs g2 \<and> ev S (bind_params ps vs) e g2 v g'"
  proof cases
    case (call ps' b' h1 vs h2 e')
    then have "VFun ps b = VFun ps' b'" "g1 = h1" using ev_det(1) [OF assms(1)] by blast+
    with call assms(2) show ?thesis by auto
  qed (use ev_det(1) [OF assms(1)] in blast)
qed (use assms in \<open>blast intro: ev_evs.call\<close>)

lemma op_call_ev:
  assumes "x \<noteq> y" "ev S l f g (VFun [x, y] b) g" "return_expr b = Some (BinaryExpression op (Identifier x) (Identifier y))"
  shows "ev S l (CallExpression f [left, right]) g v g' \<longleftrightarrow> ev S l (BinaryExpression op left right) g v g'"
proof -
  have "ev S l (CallExpression f [left, right]) g v g' \<longleftrightarrow>
    (\<exists>u w g1. ev S l left g u g1 \<and> ev S l right g1 w g' \<and> js_binop S op u w = Some v)"
    unfolding ev_call_fun [OF assms(2,3)]
  proof safe
    fix vs g2
    assume args: "evs S l [left, right] g vs g2"
      and body: "ev S (bind_params [x, y] vs) (BinaryExpression op (Identifier x) (Identifier y)) g2 v g'"
    from args obtain u w g1 where *: "vs = [u, w]" "ev S l left g u g1" "ev S l right g1 w g2" by auto
    with body show "\<exists>u w g1. ev S l left g u g1 \<and> ev S l right g1 w g' \<and> js_binop S op u w = Some v"
      by (auto simp: ev_BinaryExpression ev_Identifier bind_two_at [OF assms(1)])
  next
    fix u w g1
    assume *: "ev S l left g u g1" "ev S l right g1 w g'" "js_binop S op u w = Some v"
    then have "evs S l [left, right] g [u, w] g'" by (auto intro: ev_evs.intros)
    moreover have "ev S (bind_params [x, y] [u, w]) (BinaryExpression op (Identifier x) (Identifier y)) g' v g'"
      using *(3) by (auto simp: ev_BinaryExpression ev_Identifier bind_two_at [OF assms(1)])
    ultimately show "\<exists>vs g2. evs S l [left, right] g vs g2 \<and>
      ev S (bind_params [x, y] vs) (BinaryExpression op (Identifier x) (Identifier y)) g2 v g'" by blast
  qed
  then show ?thesis by (auto simp: ev_BinaryExpression)
qed

lemma op_function_ev:
  assumes "declared (op_function uid operator) = Some (uid, f)" "l uid = None" "g uid = Some f"
  shows "ev S l (CallExpression (Identifier uid) [left, right]) g v g' \<longleftrightarrow> ev S l (BinaryExpression operator left right) g v g'"
proof (rule op_call_ev)
  show "ev S l (Identifier uid) g (VFun [str ''a'', str ''b''] (BlockStatement [ReturnStatement (Some
    (BinaryExpression operator (Identifier (str ''a'')) (Identifier (str ''b''))))])) g"
    using assms by (simp add: op_function_def ev_Identifier)
qed (simp_all add: str_def)

text \<open>C30: an integer literal evaluates after \<open>numericEncrypt\<close> to its conversion to 32 bits, so to the same value when it is in that range; an
  operator applied to two operands and a property named by an identifier evaluate after \<open>binaryToFunc\<close> and \<open>changeAccessMode\<close> to the same
  value and with the same effects as before, in every state in which the generated function is bound to its unused name.\<close>

theorem confound_keeps_values:
  assumes "binaryToFunc uid (Some body) (BinaryExpression operator left right) = Inr (Some (d # body), n)"
    and "declared d = Some (uid, f)" "l uid = None" "g uid = Some f"
  shows "(ev S l (numericEncrypt r (NumericLiteral v)) g w g' \<longleftrightarrow> w = VNum (to_int32 v) \<and> g' = g) \<and>
    (- 2147483648 \<le> v \<and> v < 2147483648 \<longrightarrow>
      (ev S l (numericEncrypt r (NumericLiteral v)) g w g' \<longleftrightarrow> ev S l (NumericLiteral v) g w g')) \<and>
    (ev S l n g w g' \<longleftrightarrow> ev S l (BinaryExpression operator left right) g w g') \<and>
    (ev S l (changeAccessMode (MemberExpression e (Identifier k) False)) g w g' \<longleftrightarrow> ev S l (MemberExpression e (Identifier k) False) g w g')"
proof -
  have d: "d = op_function uid operator" and n: "n = CallExpression (Identifier uid) [left, right]" using assms(1) by auto
  show ?thesis
    using op_function_ev [of uid operator f l g S left right w g'] assms(2-4) d
      changeAccessMode_ev [of False "Identifier k" S l e g w g']
    unfolding numericEncrypt_ev n by auto
qed

theorem confound_keeps_values_witness:
  "ev \<lparr>sem_binop = (\<lambda>op a b. None), sem_prop = (\<lambda>v k. None), sem_native = (\<lambda>f vs. None)\<rparr> Map.empty
     (CallExpression (Identifier (str ''_xxx'')) [NumericLiteral 6, NumericLiteral 3]) [str ''_xxx'' \<mapsto> VFun [str ''a'', str ''b'']
       (BlockStatement [ReturnStatement (Some (BinaryExpression (str ''^'') (Identifier (str ''a'')) (Identifier (str ''b''))))])]
     (VNum 5) [str ''_xxx'' \<mapsto> VFun [str ''a'', str ''b'']
       (BlockStatement [ReturnStatement (Some (BinaryExpression (str ''^'') (Identifier (str ''a'')) (Identifier (str ''b''))))])]"
    (is "ev ?S _ ?n ?g _ _")
proof -
  have "js_xor 6 3 = 5" by (simp add: js_xor_def)
  then have "ev ?S Map.empty (BinaryExpression (str ''^'') (NumericLiteral 6) (NumericLiteral 3)) ?g (VNum 5) ?g"
    by (simp add: ev_BinaryExpression js_binop_def)
  moreover have "binaryToFunc (str ''_xxx'') (Some []) (BinaryExpression (str ''^'') (NumericLiteral 6) (NumericLiteral 3)) =
      Inr (Some [op_function (str ''_xxx'') (str ''^'')], ?n)"
    by simp
  ultimately show ?thesis
    using confound_keeps_values [of "str ''_xxx''" "[]" "str ''^''" "NumericLiteral 6" "NumericLiteral 3"
      "op_function (str ''_xxx'') (str ''^'')" ?n "the (?g (str ''_xxx''))" Map.empty ?g ?S 0 0 "VNum 5" ?g]
    by (simp add: op_function_def)
qed

text \<open>A literal above that range changes its value.\<close>

theorem numericEncrypt_large: "ev S l (numericEncrypt r (NumericLiteral 4294967295)) g w g' \<longleftrightarrow> w = VNum (- 1) \<and> g' = g"
  unfolding numericEncrypt_ev by (simp add: to_int32_def)

text \<open>A computed property named by a variable becomes the property with the name of the variable.\<close>

lemma changeAccessMode_computed: "changeAccessMode (MemberExpression e (Identifier k) True) = MemberExpression e (StringLiteral k) True"
  by simp

text \<open>The test for built-in objects looks the name up in one long text, so it also holds for a part of a name, such as \<open>e\<close>: the
  visitor makes every variable with such a name a property of \<open>window\<close>, and a parameter of that name is not read any more.\<close>

theorem short_names_become_globals:
  assumes "builtin_names = p @ x @ q" "l (str ''window'') = None" "g (str ''window'') = Some VWindow"
  shows "ev S l (changeBuiltinObjects (Identifier x)) g v g' \<longleftrightarrow> g x = Some v \<and> g' = g"
proof -
  have "index_of builtin_names x \<noteq> - 1" using contains_append [of builtin_names x] assms(1) by (auto simp: contains_def)
  then show ?thesis using assms(2,3) by (auto simp: ev_computed ev_Identifier js_prop_def)
qed

theorem short_names_become_globals_witness:
  "ev \<lparr>sem_binop = (\<lambda>op a b. None), sem_prop = (\<lambda>v k. None), sem_native = (\<lambda>f vs. None)\<rparr> [str ''e'' \<mapsto> VNum 1]
     (changeBuiltinObjects (Identifier (str ''e''))) [str ''window'' \<mapsto> VWindow, str ''e'' \<mapsto> VNum 2] (VNum 2)
     [str ''window'' \<mapsto> VWindow, str ''e'' \<mapsto> VNum 2]"
proof -
  have "builtin_names = [] @ str ''e'' @ tl builtin_names" by (simp add: builtin_names_def str_def)
  from short_names_become_globals [OF this] show ?thesis by (auto simp: str_def)
qed

section \<open>Hexadecimal names are read back\<close>

lemma digit_value_hex_digits: "list_all (\<lambda>k. digit_value (hex_digits ! k) = int k \<and> hex_digits ! k \<noteq> 92) [0..<16]"
  by code_simp

lemma js_to_hex_two:
  assumes "16 \<le> c" "c < 256"
  shows "js_to_hex c = [hex_digits ! nat (c div 16), hex_digits ! nat (c mod 16)]"
proof -
  have "nat c div 16 < 16" using assms by (simp add: div_less_iff_less_mult)
  moreover have "nat (c div 16) = nat c div 16" "nat (c mod 16) = nat c mod 16"
    using assms by (simp_all add: nat_div_distrib nat_mod_distrib)
  moreover have "\<not> nat c < 16" using assms by linarith
  ultimately show ?thesis
    by (simp add: js_to_hex_def nat_to_hex.simps [of "nat c"] nat_to_hex.simps [of "nat c div 16"])
qed

lemma hex_digit_facts:
  assumes "16 \<le> c" "c < 256"
  shows "js_to_hex c = [h, k] \<Longrightarrow> digit_value h < 16 \<and> digit_value k < 16 \<and> 16 * digit_value h + digit_value k = c \<and> h \<noteq> 92 \<and> k \<noteq> 92"
proof -
  assume "js_to_hex c = [h, k]"
  then have hk: "h = hex_digits ! nat (c div 16)" "k = hex_digits ! nat (c mod 16)" using js_to_hex_two [OF assms] by simp_all
  have r: "0 \<le> c div 16" "c div 16 < 16" "0 \<le> c mod 16" "c mod 16 < 16" using assms by simp_all
  then have "nat (c div 16) < 16" "nat (c mod 16) < 16" by linarith+
  from upt_all [OF digit_value_hex_digits this(1)] upt_all [OF digit_value_hex_digits this(2)] r
  show ?thesis unfolding hk by simp
qed

lemma hex_text_read:
  assumes "\<forall>c \<in> set name. 16 \<le> c \<and> c < 256"
  shows "halve_backslashes (print_text (hexEnc name)) = hexEnc name \<and> read_text (hexEnc name) = Some name"
  using assms
proof (induction name)
  case (Cons c name)
  then obtain h k where hk: "js_to_hex c = [h, k]" using js_to_hex_two [of c] by simp
  have "digit_value h < 16" "digit_value k < 16" "16 * digit_value h + digit_value k = c" "h \<noteq> 92" "k \<noteq> 92"
    using hex_digit_facts [of c h k] hk Cons.prems by auto
  with Cons hk show ?case by (simp add: str_def print_text_def halve_backslashes_def)
qed (simp add: print_text_def halve_backslashes_def)

text \<open>A property name with characters from 16 to 255, hence every ASCII identifier, that \<open>stringToHex\<close> writes as hexadecimal escapes is
  read back as the same name from the code that \<open>main\<close> prints.\<close>

theorem hex_names_read_back:
  assumes "\<forall>c \<in> set name. 16 \<le> c \<and> c < 256"
  shows "\<exists>t. stringToHex (MemberExpression e (Identifier name) False) = MemberExpression e (StringLiteral t) True \<and>
    read_text (halve_backslashes (print_text t)) = Some name"
  using hex_text_read [OF assms] by simp

theorem hex_names_read_back_witness:
  "\<exists>t. stringToHex (MemberExpression (Identifier (str ''myArr'')) (Identifier (str ''push'')) False) =
     MemberExpression (Identifier (str ''myArr'')) (StringLiteral t) True \<and>
   read_text (halve_backslashes (print_text t)) = Some (str ''push'')"
  by (rule hex_names_read_back) (simp add: str_def)

text \<open>The exercises do what the methods of \<open>all.js\<close> do; their list of built-in objects lacks one name.\<close>

lemma exercises_agree:
  "ex1_MemberExpression n = changeAccessMode n" "ex2_MemberExpression n = changeAccessMode n"
  "ex3_NumericLiteral r n = numericEncrypt r n" "block1_BinaryExpression uid block n = binaryToFunc uid block n"
  by (cases n; simp)+

lemma str2hex_agrees: "str2hex s = hexEnc s"
  by (induction s) simp_all

lemma ex7_agrees: "ex7_MemberExpression n = stringToHex n"
  by (cases n) (simp_all add: str2hex_agrees split: option.splits)

lemma ex2_agrees:
  "(index_of ex2_names x = - 1) = (index_of builtin_names x = - 1) \<Longrightarrow>
    ex2_MemberExpression (ex2_Identifier (Identifier x)) = changeBuiltinObjects (Identifier x)"
  by simp

section \<open>Encrypted lines\<close>

lemma ev_native_call:
  assumes "ev S l f g (VNative m) g1"
  shows "ev S l (CallExpression f as) g v g' \<longleftrightarrow> (\<exists>vs. evs S l as g1 vs g' \<and> js_native S m vs = Some v)"
proof
  assume "ev S l (CallExpression f as) g v g'"
  then show "\<exists>vs. evs S l as g1 vs g' \<and> js_native S m vs = Some v"
  proof cases
    case (native m' h1 vs)
    then have "VNative m = VNative m'" "g1 = h1" using ev_det(1) [OF assms(1)] by blast+
    with native show ?thesis by auto
  qed (use ev_det(1) [OF assms(1)] in blast)
qed (use assms in \<open>blast intro: ev_evs.native\<close>)

lemma evs_numbers: "evs S l (map NumericLiteral ns) g vs g' \<longleftrightarrow> vs = map VNum ns \<and> g' = g"
  by (induction ns arbitrary: vs) auto

lemma char_codes_numbers: "code_units s \<Longrightarrow> char_codes (map VNum s) = Some s"
  by (induction s) (auto simp: code_units_def from_char_code_def)

lemma atob_text_ev:
  assumes "l (str ''atob'') = None" "g (str ''atob'') = Some (VNative (str ''atob''))" "js_atob c = Some s"
  shows "ev S l (CallExpression (Identifier (str ''atob'')) [StringLiteral c]) g v g' \<longleftrightarrow> v = VStr s \<and> g' = g"
proof -
  have "ev S l (Identifier (str ''atob'')) g (VNative (str ''atob'')) g" using assms by (simp add: ev_Identifier)
  from ev_native_call [OF this] assms(3) show ?thesis by (auto simp: js_native_def)
qed

text \<open>What has to become of a line with its comment: a marked line becomes a call of \<open>eval\<close> on an expression that evaluates to the code of
  the line, without further effects; every other line and every return statement stays.\<close>

definition line_recovered :: "sem \<Rightarrow> vars \<Rightarrow> vars \<Rightarrow> (node \<Rightarrow> jstr) \<Rightarrow> jstr \<Rightarrow> stmt \<Rightarrow> stmt \<Rightarrow> bool" where
  "line_recovered S l g generate mark old new \<longleftrightarrow>
     (if \<not> isReturnStatement (fst old) \<and> snd old = Some mark
      then \<exists>e. new = eval_of e \<and> (\<forall>t g'. ev S l e g t g' \<longleftrightarrow> t = VStr (generate (fst old)) \<and> g' = g)
      else new = old)"

lemma base64_code_ev:
  assumes "l (str ''atob'') = None" "g (str ''atob'') = Some (VNative (str ''atob''))" "byte_string c"
  shows "ev S l (base64_code c) g t g' \<longleftrightarrow> t = VStr c \<and> g' = g"
  unfolding base64_code_def using atob_text_ev [of l g] assms base64Encode_b64 js_atob_b64 by simp

lemma ascii_code_ev:
  assumes "l (str ''String'') = None" "g (str ''String'') = Some (VObj [(str ''fromCharCode'', VNative (str ''String.fromCharCode''))])"
    and "code_units c"
  shows "ev S l (ascii_code c) g t g' \<longleftrightarrow> t = VStr c \<and> g' = g"
proof -
  have "ev S l (MemberExpression (Identifier (str ''String'')) (Identifier (str ''fromCharCode'')) False) g
      (VNative (str ''String.fromCharCode'')) g"
    using assms(1,2) by (auto simp: ev_dot ev_Identifier js_prop_def)
  from ev_native_call [OF this] show ?thesis
    unfolding ascii_code_def using char_codes_numbers [OF assms(3)] by (auto simp: evs_numbers js_native_def str_def)
qed

text \<open>C31: in every function body \<open>appointedCodeLineEncrypt\<close> and \<open>appointedCodeLineAscii\<close> turn each line with their mark, at its place, into
  a call of \<open>eval\<close> whose argument evaluates to the code of that line, without further effects, and leave all other lines and the return
  statements as they are, at their places; for the Base64 form the code of the marked lines must consist of characters below 256.\<close>

theorem marked_lines_recover_code:
  assumes "\<forall>(n, c) \<in> set body. c = Some (str ''Base64Encrypt'') \<longrightarrow> byte_string (generate n)"
    and "\<forall>(n, c) \<in> set body. c = Some (str ''ASCIIEncrypt'') \<longrightarrow> code_units (generate n)"
    and "l (str ''atob'') = None" "g (str ''atob'') = Some (VNative (str ''atob''))"
    and "l (str ''String'') = None" "g (str ''String'') = Some (VObj [(str ''fromCharCode'', VNative (str ''String.fromCharCode''))])"
  shows "list_all2 (line_recovered S l g generate (str ''Base64Encrypt'')) body (appointedCodeLineEncrypt generate body) \<and>
    list_all2 (line_recovered S l g generate (str ''ASCIIEncrypt'')) body (appointedCodeLineAscii generate body)"
  using assms(1,2) base64_code_ev [of l g, OF assms(3,4)] ascii_code_ev [of l g, OF assms(5,6)]
  by (auto simp: appointedCodeLineEncrypt_def appointedCodeLineAscii_def line_recovered_def list_all2_conv_all_nth split: prod.splits
      dest!: nth_mem)

theorem marked_lines_recover_code_witness:
  "\<exists>e. appointedCodeLineEncrypt (\<lambda>n. str ''f()'')
       [(ReturnStatement None, None), (ExpressionStatement (CallExpression (Identifier (str ''f'')) []), Some (str ''Base64Encrypt''))] =
     [(ReturnStatement None, None), eval_of e] \<and>
   ev \<lparr>sem_binop = (\<lambda>op a b. None), sem_prop = (\<lambda>v k. None), sem_native = (\<lambda>f vs. None)\<rparr> Map.empty e
     [str ''atob'' \<mapsto> VNative (str ''atob''), str ''String'' \<mapsto> VObj [(str ''fromCharCode'', VNative (str ''String.fromCharCode''))]]
     (VStr (str ''f()''))
     [str ''atob'' \<mapsto> VNative (str ''atob''), str ''String'' \<mapsto> VObj [(str ''fromCharCode'', VNative (str ''String.fromCharCode''))]]"
    (is "\<exists>e. _ [(?r, None), (?v, _)] = _ \<and> ev ?S _ e ?g _ _")
proof -
  have ne: "str ''atob'' \<noteq> str ''String''" "str ''String'' \<noteq> str ''atob''" by (simp_all add: str_def)
  have "byte_string (str ''f()'')" "code_units (str ''f()'')" by (simp_all add: str_def code_units_def)
  then have "list_all2 (line_recovered ?S Map.empty ?g (\<lambda>n. str ''f()'') (str ''Base64Encrypt'')) [(?r, None), (?v, Some (str ''Base64Encrypt''))]
      (appointedCodeLineEncrypt (\<lambda>n. str ''f()'') [(?r, None), (?v, Some (str ''Base64Encrypt''))])"
    by (intro conjunct1 [OF marked_lines_recover_code]) (simp_all add: ne)
  then obtain e where "appointedCodeLineEncrypt (\<lambda>n. str ''f()'') [(?r, None), (?v, Some (str ''Base64Encrypt''))] = [(?r, None), eval_of e]"
    "\<And>t g'. ev ?S Map.empty e ?g t g' \<longleftrightarrow> t = VStr (str ''f()'') \<and> g' = ?g"
    by (auto simp: list_all2_Cons1 line_recovered_def simp del: fun_upd_apply)
  then show ?thesis by blast
qed

lemma code_points_step:
  assumes "code_units (c # s)"
  shows "(\<exists>d t. s = d # t \<and> code_units t \<and> 55296 \<le> c \<and> (\<exists>p. code_points (c # s) = p # code_points t \<and> 65536 \<le> p \<and> p < 1114112)) \<or>
    (\<exists>q. code_points (c # s) = q # code_points s \<and> 0 \<le> q \<and> q < 65536 \<and> (q = c \<or> 128 \<le> c \<and> 128 \<le> q))"
proof (cases "55296 \<le> c \<and> c \<le> 56319 \<and> s \<noteq> [] \<and> 56320 \<le> hd s \<and> hd s \<le> 57343")
  case True
  then obtain d t where s: "s = d # t" by (cases s) auto
  have "65536 \<le> 65536 + (c - 55296) * 1024 + (d - 56320)" "65536 + (c - 55296) * 1024 + (d - 56320) < 1114112"
    using True s by auto
  then show ?thesis using True s assms by (auto simp: code_units_def)
next
  case False
  then have "code_points (c # s) = (if 55296 \<le> c \<and> c \<le> 57343 then 65533 else c) # code_points s"
    by (cases s) auto
  then show ?thesis using assms by (auto simp: code_units_def)
qed

lemma code_points_induct [consumes 1, case_names Nil pair single]:
  assumes "code_units s" "P []"
    and "\<And>c d t p. code_units t \<Longrightarrow> 55296 \<le> c \<Longrightarrow> code_points (c # d # t) = p # code_points t \<Longrightarrow> 65536 \<le> p \<Longrightarrow> p < 1114112 \<Longrightarrow>
      P t \<Longrightarrow> P (c # d # t)"
    and "\<And>c s q. code_units s \<Longrightarrow> code_points (c # s) = q # code_points s \<Longrightarrow> 0 \<le> q \<Longrightarrow> q < 65536 \<Longrightarrow> q = c \<or> 128 \<le> c \<and> 128 \<le> q \<Longrightarrow>
      P s \<Longrightarrow> P (c # s)"
  shows "P s"
  using assms(1)
proof (induction "length s" arbitrary: s rule: less_induct)
  case less
  show ?case
  proof (cases s)
    case (Cons c s')
    have units: "code_units s'" using less.prems Cons by (simp add: code_units_def)
    have "code_units (c # s')" using less.prems Cons by simp
    from code_points_step [OF this] consider
        (pair) d t p where "s' = d # t" "code_units t" "55296 \<le> c" "code_points (c # s') = p # code_points t" "65536 \<le> p" "p < 1114112"
      | (single) q where "code_points (c # s') = q # code_points s'" "0 \<le> q" "q < 65536" "q = c \<or> 128 \<le> c \<and> 128 \<le> q"
      by blast
    then show ?thesis
    proof cases
      case pair
      then have "P t" using less.hyps [of t] Cons by simp
      then show ?thesis using assms(3) [of t c d p] pair Cons by simp
    next
      case single
      have "P s'" using less.hyps [of s'] Cons units by simp
      then show ?thesis using assms(4) [of s' c q] single Cons units by simp
    qed
  qed (simp add: assms(2))
qed

lemma code_points_range: "code_units s \<Longrightarrow> \<forall>p \<in> set (code_points s). 0 \<le> p \<and> p < 1114112"
  by (induction s rule: code_points_induct) auto

lemma utf8_octets_size: "128 \<le> p \<Longrightarrow> 2 \<le> length (utf8_octets p)" "65536 \<le> p \<Longrightarrow> length (utf8_octets p) = 4" "p < 128 \<Longrightarrow> utf8_octets p = [p]"
  by (simp_all add: utf8_octets_def)

lemma buffer_length:
  assumes "code_units s"
  shows "length s \<le> length (buffer_bytes s) \<and> (length s = length (buffer_bytes s) \<longrightarrow> (\<forall>c \<in> set s. c < 128))"
  using assms
proof (induction s rule: code_points_induct)
  case (pair c d t p)
  then show ?case using utf8_octets_size [of p] by (simp add: buffer_bytes_def)
next
  case (single c s q)
  then show ?case using utf8_octets_size [of q] by (cases "q < 128") (auto simp: buffer_bytes_def)
qed (simp add: buffer_bytes_def)

lemma buffer_ascii: "\<forall>c \<in> set s. 0 \<le> c \<and> c < 128 \<Longrightarrow> buffer_bytes s = s"
  by (induction s) (auto simp: buffer_bytes_def utf8_octets_def)

text \<open>The exercise that encrypts every line with \<open>Buffer\<close> and decrypts it with \<open>atob\<close> changes every line that has a character outside ASCII,
  as the Chinese texts of its own example: \<open>atob\<close> yields the bytes of the UTF-8 encoding, one character for each.\<close>

theorem buffer_lines_garbled:
  assumes "code_units (generate v)" "\<not> isReturnStatement v"
    and "l (str ''atob'') = None" "g (str ''atob'') = Some (VNative (str ''atob''))"
  shows "\<exists>e. block2_FunctionExpression generate [v] = [fst (eval_of e)] \<and>
    (\<forall>t g'. ev S l e g t g' \<longleftrightarrow> t = VStr (buffer_bytes (generate v)) \<and> g' = g) \<and>
    (buffer_bytes (generate v) = generate v \<longleftrightarrow> (\<forall>c \<in> set (generate v). c < 128))"
proof -
  have "byte_string (buffer_bytes (generate v))"
    using code_points_range [OF assms(1)] byte_string_utf8_octets unfolding buffer_bytes_def by (fastforce simp: byte_string_def)
  then have "ev S l (buffer_code (generate v)) g t g' \<longleftrightarrow> t = VStr (buffer_bytes (generate v)) \<and> g' = g" for t g'
    unfolding buffer_code_def using atob_text_ev [of l g] assms(3,4) js_atob_b64 by simp
  moreover have "buffer_bytes (generate v) = generate v \<longleftrightarrow> (\<forall>c \<in> set (generate v). c < 128)"
    using buffer_length [OF assms(1)] buffer_ascii [of "generate v"] assms(1) by (auto simp: code_units_def)
  ultimately show ?thesis using assms(2) by (auto simp: block2_FunctionExpression_def)
qed

theorem buffer_lines_garbled_witness:
  "\<exists>e. block2_FunctionExpression (\<lambda>n. [26085]) [ThisExpression] = [fst (eval_of e)] \<and>
   ev \<lparr>sem_binop = (\<lambda>op a b. None), sem_prop = (\<lambda>v k. None), sem_native = (\<lambda>f vs. None)\<rparr> Map.empty e
     [str ''atob'' \<mapsto> VNative (str ''atob'')] (VStr [230, 151, 165]) [str ''atob'' \<mapsto> VNative (str ''atob'')]"
    (is "\<exists>e. _ \<and> ev ?S _ e ?g _ _")
proof -
  have "code_units [26085]" by (simp add: code_units_def)
  moreover have bytes: "buffer_bytes [26085] = [230, 151, 165]" by (simp add: buffer_bytes_def utf8_octets_def)
  ultimately have "\<exists>e. block2_FunctionExpression (\<lambda>n. [26085]) [ThisExpression] = [fst (eval_of e)] \<and>
      (\<forall>t g'. ev ?S Map.empty e ?g t g' \<longleftrightarrow> t = VStr (buffer_bytes [26085]) \<and> g' = ?g) \<and>
      (buffer_bytes [26085] = [26085] \<longleftrightarrow> (\<forall>c \<in> set [26085 :: int]. c < 128))"
    by (intro buffer_lines_garbled [of "\<lambda>n. [26085]" ThisExpression]) simp_all
  then show ?thesis unfolding bytes by blast
qed

end
