(* ===== verification/Ast_Strings.thy ===== *)
theory Ast_Strings
  imports Ast_Confound
begin

text \<open>
  The texts of the obfuscated program: \<^verbatim>\<open>arrayConfound\<close> moves them into an array, \<^verbatim>\<open>arrayShuffle\<close> rotates the array, and code that is
  put in front of the program rotates it back at run time. Exercises 5 to 7 and \<^verbatim>\<open>all.js\<close> do this with two encoders, so the
  facts about the array are proved once, in a locale on the encoder.
\<close>

section \<open>The array\<close>

fun arr_indexOf :: "jstr list \<Rightarrow> jstr \<Rightarrow> int" where
  "arr_indexOf [] c = - 1"
| "arr_indexOf (x # xs) c = (if x = c then 0 else let i = arr_indexOf xs c in if i = - 1 then - 1 else i + 1)"

definition arr_ref :: "int \<Rightarrow> node" where
  "arr_ref index =
     CallExpression (Identifier (str ''atob'')) [MemberExpression (Identifier (str ''arr'')) (NumericLiteral index) True]"

fun confound_StringLiteral :: "(jstr \<Rightarrow> jstr) \<Rightarrow> jstr list \<Rightarrow> node \<Rightarrow> jstr list \<times> node" where
  "confound_StringLiteral encryptFunc bigArr (StringLiteral value) =
     (let bigArrIndex = arr_indexOf bigArr (encryptFunc value)
      in if bigArrIndex = - 1
         then (let bigArr = bigArr @ [encryptFunc value]; index = int (length bigArr) - 1 in (bigArr, arr_ref index))
         else (bigArr, arr_ref bigArrIndex))"
| "confound_StringLiteral encryptFunc bigArr n = (bigArr, n)"

text \<open>The visitor on the literals of the program in the order of the traversal.\<close>

fun arrayConfound :: "(jstr \<Rightarrow> jstr) \<Rightarrow> jstr list \<Rightarrow> node list \<Rightarrow> jstr list \<times> node list" where
  "arrayConfound encryptFunc bigArr [] = (bigArr, [])"
| "arrayConfound encryptFunc bigArr (n # ns) =
     (let (bigArr, n') = confound_StringLiteral encryptFunc bigArr n;
          (bigArr, ns') = arrayConfound encryptFunc bigArr ns
      in (bigArr, n' # ns'))"



text \<open>
  A rotation moves the last element to the front or the first to the end; \<^verbatim>\<open>pop\<close> and \<^verbatim>\<open>shift\<close> of an empty array yield
  \<^verbatim>\<open>undefined\<close>, which is put back, so that the array grows. The loop ends when the count, decremented before the test, is 0.
\<close>

definition unshift_pop :: "'a option list \<Rightarrow> 'a option list" where
  "unshift_pop xs = (if xs = [] then [None] else last xs # butlast xs)"

definition push_shift :: "'a option list \<Rightarrow> 'a option list" where
  "push_shift xs = (if xs = [] then [None] else tl xs @ [hd xs])"

partial_function (option) while_dec :: "('a \<Rightarrow> 'a) \<Rightarrow> int \<Rightarrow> 'a \<Rightarrow> 'a option" where
  "while_dec f num x = (let num = num - 1 in if num = 0 then Some x else while_dec f num (f x))"

declare while_dec.simps [code]

definition arrayShuffle :: "'a option list \<Rightarrow> 'a option list option" where
  "arrayShuffle myArr = (let num = 0x10; num = num + 1 in while_dec unshift_pop num myArr)"

definition front_fixArray :: "'a option list \<Rightarrow> 'a option list option" where
  "front_fixArray arr = (let num = 0x10 in while_dec push_shift num arr)"

definition confuse :: "'a option list \<Rightarrow> int \<Rightarrow> 'a option list option" where
  "confuse myArr num = while_dec unshift_pop num myArr"

definition ex6_fixArray :: "'a option list \<Rightarrow> 'a option list option" where
  "ex6_fixArray arr = (let num = 0x10; num = num + 1 in while_dec push_shift num arr)"

text \<open>
  The declaration of the array and the code in front, as they are put before the program; Babel's builder refuses an element that is
  \<^verbatim>\<open>undefined\<close>.
\<close>

definition unshiftArrayDeclaration :: "jstr option list \<Rightarrow> node list \<Rightarrow> ast_error + node list" where
  "unshiftArrayDeclaration bigArr body =
     (if None \<in> set bigArr then Inl AstTypeError
      else Inr (VariableDeclaration (str ''var'')
        [VariableDeclarator (Identifier (str ''arr'')) (Some (ArrayExpression (map (StringLiteral \<circ> the) bigArr)))] # body))"

definition astConcatUnshift :: "node \<Rightarrow> node list \<Rightarrow> node list" where
  "astConcatUnshift ast body = ast # body"

text \<open>The end of exercises 6 and 7: rotate the array, then put the declaration and the code in front of the program.\<close>

definition ex6_output :: "node \<Rightarrow> jstr list \<Rightarrow> node list \<Rightarrow> (ast_error + node list) option" where
  "ex6_output fixArrayAst bigArr body =
     map_option (\<lambda>bigArr. unshiftArrayDeclaration bigArr (fixArrayAst # body)) (confuse (map Some bigArr) (0x10 + 1))"

section \<open>Rotations\<close>

lemma while_dec_funpow: "0 < num \<Longrightarrow> while_dec f num x = Some ((f ^^ (nat num - 1)) x)"
proof (induction "nat num" arbitrary: num x)
  case (Suc n)
  show ?case
  proof (cases "num = 1")
    case False
    then have "while_dec f (num - 1) (f x) = Some ((f ^^ (nat (num - 1) - 1)) (f x))" using Suc by simp
    moreover have "nat num - 1 = Suc (nat num - 2)" "nat (num - 1) - 1 = nat num - 2" using False Suc.prems by linarith+
    ultimately show ?thesis using False by (subst while_dec.simps) (simp add: funpow_swap1)
  qed (subst while_dec.simps, simp)
qed simp

lemma unshift_pop_ne: "xs \<noteq> [] \<Longrightarrow> unshift_pop xs \<noteq> [] \<and> push_shift (unshift_pop xs) = xs"
  by (simp add: unshift_pop_def push_shift_def)

lemma rotations_cancel: "xs \<noteq> [] \<Longrightarrow> (push_shift ^^ n) ((unshift_pop ^^ (n + m)) xs) = (unshift_pop ^^ m) xs"
proof (induction n)
  case (Suc n)
  have ne: "(unshift_pop ^^ k) xs \<noteq> []" for k using Suc.prems by (induction k) (simp_all add: unshift_pop_ne)
  have "(push_shift ^^ Suc n) ((unshift_pop ^^ (Suc n + m)) xs) = (push_shift ^^ n) (push_shift (unshift_pop ((unshift_pop ^^ (n + m)) xs)))"
    by (simp add: funpow_swap1)
  also have "\<dots> = (unshift_pop ^^ m) xs" using Suc.IH [OF Suc.prems] unshift_pop_ne [OF ne] by simp
  finally show ?case .
qed simp

lemma shuffle_fixed:
  assumes "xs \<noteq> []"
  shows "\<exists>s. confuse xs (0x10 + 1) = Some s \<and> ex6_fixArray s = Some xs"
    and "\<exists>s. arrayShuffle xs = Some s \<and> front_fixArray s = Some (unshift_pop xs)"
  using rotations_cancel [OF assms, of 16 0] rotations_cancel [OF assms, of 15 1, unfolded funpow_simps_right(2) [of 0, folded One_nat_def] funpow.simps(1)]
  by (simp_all add: confuse_def ex6_fixArray_def arrayShuffle_def front_fixArray_def while_dec_funpow Let_def del: funpow.simps(2))

lemma unshift_pop_nth:
  assumes "i < length xs"
  shows "length (unshift_pop xs) = length xs" "unshift_pop xs ! i = xs ! ((i + (length xs - 1)) mod length xs)"
proof -
  have ne: "xs \<noteq> []" using assms by auto
  then show "length (unshift_pop xs) = length xs" by (simp add: unshift_pop_def)
  show "unshift_pop xs ! i = xs ! ((i + (length xs - 1)) mod length xs)"
  proof (cases i)
    case 0
    then show ?thesis using ne by (simp add: unshift_pop_def last_conv_nth)
  next
    case (Suc j)
    then have "i + (length xs - 1) = j + length xs" "j < length xs - 1" using assms by simp_all
    then show ?thesis using ne Suc by (simp add: unshift_pop_def nth_butlast)
  qed
qed

section \<open>References into the array\<close>

lemma arr_indexOf_spec:
  "arr_indexOf xs c = - 1 \<and> c \<notin> set xs \<or> (\<exists>i < length xs. arr_indexOf xs c = int i \<and> xs ! i = c)"
proof (induction xs)
  case (Cons x xs)
  then show ?case by (cases "x = c") (auto simp: Let_def intro: exI [of _ "Suc _"])
qed simp

lemma arr_ref_ev:
  assumes "l (str ''arr'') = None" "g (str ''arr'') = Some (VArr (map VStr xs))"
    and "l (str ''atob'') = None" "g (str ''atob'') = Some (VNative (str ''atob''))"
    and "i < length xs" "js_atob (xs ! i) = Some s"
  shows "ev S l (arr_ref (int i)) g v g' \<longleftrightarrow> v = VStr s \<and> g' = g"
proof -
  have "ev S l (Identifier (str ''atob'')) g (VNative (str ''atob'')) g" using assms by (simp add: ev_Identifier)
  moreover have "ev S l (MemberExpression (Identifier (str ''arr'')) (NumericLiteral (int i)) True) g w h \<longleftrightarrow> w = VStr (xs ! i) \<and> h = g" for w h
    using assms js_prop_index [of i "map VStr xs" S g] by (auto simp: ev_computed ev_Identifier)
  ultimately show ?thesis
    unfolding arr_ref_def by (auto simp: ev_native_call js_native_def assms(6))
qed

lemma arrayConfound_refs:
  assumes "arrayConfound enc A (map StringLiteral vs) = (B, ns)"
  shows "length ns = length vs \<and> (\<exists>C. B = A @ C) \<and> (distinct A \<longrightarrow> distinct B) \<and> set B \<subseteq> set A \<union> enc ` set vs \<and>
    (\<forall>k < length vs. \<exists>i < length B. ns ! k = arr_ref (int i) \<and> B ! i = enc (vs ! k))"
  using assms
proof (induction vs arbitrary: A B ns)
  case (Cons v vs)
  obtain A' n where step: "confound_StringLiteral enc A (StringLiteral v) = (A', n)" by fastforce
  obtain ns' where rest: "arrayConfound enc A' (map StringLiteral vs) = (B, ns')" and ns: "ns = n # ns'"
    using Cons.prems step by (auto split: prod.splits)
  have first: "(A' = A \<or> A' = A @ [enc v] \<and> enc v \<notin> set A) \<and> (\<exists>i < length A'. n = arr_ref (int i) \<and> A' ! i = enc v)"
    using step arr_indexOf_spec [of A "enc v"] by (auto simp: Let_def split: if_splits)
  from Cons.IH [OF rest] obtain C where IH: "length ns' = length vs" "B = A' @ C" "distinct A' \<longrightarrow> distinct B"
      "set B \<subseteq> set A' \<union> enc ` set vs" "\<forall>k < length vs. \<exists>i < length B. ns' ! k = arr_ref (int i) \<and> B ! i = enc (vs ! k)"
    by blast
  from first obtain i where "i < length A'" "n = arr_ref (int i)" "A' ! i = enc v" by blast
  then have "i < length B \<and> n = arr_ref (int i) \<and> B ! i = enc v" using IH(2) by (simp add: nth_append)
  then have "\<forall>k < length (v # vs). \<exists>i < length B. ns ! k = arr_ref (int i) \<and> B ! i = enc ((v # vs) ! k)"
    using IH(5) ns by (auto simp: nth_Cons split: nat.splits)
  then show ?case using IH(1-4) ns first by auto
qed simp



section \<open>The program reads its texts\<close>

text \<open>The state in which the program runs: the array that the code in front has left, and the decoder.\<close>

definition reads_strings :: "vars \<Rightarrow> vars \<Rightarrow> jstr option list \<Rightarrow> bool" where
  "reads_strings l g arr \<longleftrightarrow> l (str ''arr'') = None \<and> g (str ''arr'') = Some (VArr (map VStr (map the arr))) \<and>
     l (str ''atob'') = None \<and> g (str ''atob'') = Some (VNative (str ''atob''))"

text \<open>What the array needs of an encoder: the decoder of the language turns the encoded texts in \<open>ok\<close> into \<open>dec\<close> of them.\<close>

locale text_encoder =
  fixes enc :: "jstr \<Rightarrow> jstr" and ok :: "jstr \<Rightarrow> bool" and dec :: "jstr \<Rightarrow> jstr"
  assumes decodes: "ok v \<Longrightarrow> js_atob (enc v) = Some (dec v)"
begin

lemma refs_read:
  assumes "arrayConfound enc [] (map StringLiteral vs) = (B, ns)" "\<forall>v \<in> set vs. ok v"
    and "reads_strings l g (map Some B)" "k < length vs"
  shows "ev S l (ns ! k) g v g' \<longleftrightarrow> v = VStr (dec (vs ! k)) \<and> g' = g"
proof -
  obtain i where "i < length B" "ns ! k = arr_ref (int i)" "B ! i = enc (vs ! k)"
    using arrayConfound_refs [OF assms(1)] assms(4) by blast
  moreover have "js_atob (enc (vs ! k)) = Some (dec (vs ! k))" using decodes assms(2,4) by simp
  ultimately show ?thesis
    using arr_ref_ev [of l g B i "dec (vs ! k)" S v g'] assms(3) by (simp add: reads_strings_def comp_def)
qed

lemma refs_shifted:
  assumes "arrayConfound enc [] (map StringLiteral vs) = (B, ns)" "\<forall>v \<in> set vs. ok v"
    and "reads_strings l g (unshift_pop (map Some B))" "k < length vs" "2 \<le> length B"
  shows "\<exists>w \<in> set vs. w \<noteq> vs ! k \<and> (\<forall>v g'. ev S l (ns ! k) g v g' \<longleftrightarrow> v = VStr (dec w) \<and> g' = g)"
proof -
  let ?n = "length B"
  have refs: "distinct B" "set B \<subseteq> enc ` set vs" using arrayConfound_refs [OF assms(1)] by auto
  obtain i where i: "i < ?n" "ns ! k = arr_ref (int i)" "B ! i = enc (vs ! k)"
    using arrayConfound_refs [OF assms(1)] assms(4) by blast
  define j where "j = (i + (?n - 1)) mod ?n"
  have "j < ?n" unfolding j_def using i(1) by (intro mod_less_divisor) auto
  moreover have "j \<noteq> i"
  proof (cases i)
    case 0
    then show ?thesis using assms(5) by (simp add: j_def)
  next
    case (Suc m)
    then have "i + (?n - 1) = m + ?n" "m < ?n" using i(1) by simp_all
    then show ?thesis using Suc by (simp add: j_def)
  qed
  ultimately have "B ! j \<noteq> B ! i" using refs(1) i(1) by (simp add: nth_eq_iff_index_eq)
  moreover obtain w where w: "w \<in> set vs" "B ! j = enc w" using refs(2) \<open>j < ?n\<close> nth_mem [of j B] by blast
  ultimately have "w \<noteq> vs ! k" using i(3) by auto
  have len: "length (unshift_pop (map Some B)) = ?n" using unshift_pop_nth(1) [of i "map Some B"] i(1) by simp
  have at: "map the (unshift_pop (map Some B)) ! i = enc w"
    using unshift_pop_nth(2) [of i "map Some B", unfolded length_map, folded j_def] i(1) len w(2) \<open>j < ?n\<close> by simp
  have "ev S l (ns ! k) g v g' \<longleftrightarrow> v = VStr (dec w) \<and> g' = g" for v g'
    unfolding i(2) using assms(3) i(1) len at decodes [of w] w(1) assms(2) by (intro arr_ref_ev [where xs = "map the (unshift_pop (map Some B))"]) (simp_all add: reads_strings_def)
  with w(1) \<open>w \<noteq> vs ! k\<close> show ?thesis by blast
qed

end

interpretation all_js: text_encoder base64Encode byte_string "\<lambda>v. v"
  by unfold_locales (simp add: base64Encode_b64 js_atob_b64)





text \<open>C29: in \<open>all.js\<close> the array is rotated 16 times, but the code of \<open>demoFront.js\<close> in front of the program rotates it back only 15
  times, since it does not increment the count: with two or more different texts, every literal of the obfuscated program
  evaluates to another text of the program.\<close>

theorem front_rotates_too_little:
  assumes "arrayConfound base64Encode [] (map StringLiteral vs) = (bigArr, ns)" "2 \<le> length bigArr" "\<forall>v \<in> set vs. byte_string v"
  shows "\<exists>s arr. arrayShuffle (map Some bigArr) = Some s \<and> front_fixArray s = Some arr \<and>
    (\<forall>l g. reads_strings l g arr \<longrightarrow> (\<forall>k < length vs. \<forall>S. \<exists>w \<in> set vs. w \<noteq> vs ! k \<and> (\<forall>v g'. ev S l (ns ! k) g v g' \<longleftrightarrow> v = VStr w \<and> g' = g)))"
proof -
  have "bigArr \<noteq> []" using assms(2) by auto
  then obtain s where "arrayShuffle (map Some bigArr) = Some s" "front_fixArray s = Some (unshift_pop (map Some bigArr))"
    using shuffle_fixed(2) [of "map Some bigArr"] by auto
  then show ?thesis
    using all_js.refs_shifted [OF assms(1,3) _ _ assms(2)] by blast
qed

theorem front_rotates_too_little_witness:
  "\<exists>s arr. arrayShuffle (map Some (fst (arrayConfound base64Encode [] (map StringLiteral [str ''a'', str ''b''])))) = Some s \<and>
    front_fixArray s = Some arr \<and>
    ev \<lparr>sem_binop = (\<lambda>op a b. None), sem_prop = (\<lambda>v k. None), sem_native = (\<lambda>f vs. None)\<rparr> Map.empty
      (snd (arrayConfound base64Encode [] (map StringLiteral [str ''a'', str ''b''])) ! 1)
      [str ''arr'' \<mapsto> VArr (map VStr (map the arr)), str ''atob'' \<mapsto> VNative (str ''atob'')] (VStr (str ''a''))
      [str ''arr'' \<mapsto> VArr (map VStr (map the arr)), str ''atob'' \<mapsto> VNative (str ''atob'')]"
proof -
  obtain bigArr ns where c: "arrayConfound base64Encode [] (map StringLiteral [str ''a'', str ''b'']) = (bigArr, ns)" by fastforce
  have ok: "\<forall>v \<in> set [str ''a'', str ''b'']. byte_string v" by (simp add: str_def)
  have "base64Encode (str ''a'') \<noteq> base64Encode (str ''b'')"
    using js_atob_b64 [of "str ''a''"] js_atob_b64 [of "str ''b''"] by (auto simp: base64Encode_b64 str_def)
  then have "2 \<le> length bigArr" using c by auto
  then obtain s arr where "arrayShuffle (map Some bigArr) = Some s" "front_fixArray s = Some arr"
    and reads: "\<forall>l g. reads_strings l g arr \<longrightarrow> (\<forall>k < length [str ''a'', str ''b'']. \<forall>S. \<exists>w \<in> set [str ''a'', str ''b''].
      w \<noteq> [str ''a'', str ''b''] ! k \<and> (\<forall>v g'. ev S l (ns ! k) g v g' \<longleftrightarrow> v = VStr w \<and> g' = g))"
    using front_rotates_too_little [OF c _ ok] by blast
  moreover have "reads_strings Map.empty [str ''arr'' \<mapsto> VArr (map VStr (map the arr)), str ''atob'' \<mapsto> VNative (str ''atob'')] arr"
    by (simp add: reads_strings_def str_def)
  from reads [rule_format, OF this, of 1] show ?thesis using c calculation by auto
qed

end
