(* ===== verification/Ast_Rename.thy ===== *)
theory Ast_Rename
  imports Js_Text
begin

text \<open>
  Renaming of variables: the names that \<^verbatim>\<open>generatorIdentifier\<close> of \<^verbatim>\<open>all.js\<close> and its copies in the exercises make up, and
  \<^verbatim>\<open>renameOwnBinding\<close>, which gives the variables of a function new names. Babel finds the bindings and renames the
  occurrences of a name; here the function is the list of the identifiers in it, each with the answer whether it is bound by the
  function itself, and a renaming acts on the current names of its variables.
\<close>

section \<open>Names\<close>

fun base3 :: "nat \<Rightarrow> nat list" where
  "base3 decNum = (if 0 < decNum then decNum mod 3 # base3 (decNum div 3) else [])"

declare base3.simps [simp del]

definition last_chars :: "nat \<Rightarrow> jstr \<Rightarrow> jstr" where
  "last_chars n s = drop (length s - n) s"

definition generatorIdentifier :: "nat \<Rightarrow> jstr" where
  "generatorIdentifier decNum =
     (let arr = str ''Oo0''; retval = base3 decNum; name = map (\<lambda>v. arr ! v) (rev retval)
      in if length name < 6 then last_chars 6 (str ''OOOOOO'' @ name)
         else if name ! 0 = 48 then str ''O'' @ name
         else name)"

definition generateIdentifier :: "nat \<Rightarrow> jstr" where
  "generateIdentifier decNum =
     (let flag = str ''Oo0''; retVal = base3 decNum; name = map (\<lambda>v. flag ! v) (rev retVal)
      in if length name < 6 then last_chars 6 (str ''OOOOOO'' @ name)
         else if name ! 0 = 48 then str ''O'' @ name
         else name)"


section \<open>renameOwnBinding\<close>

text \<open>The own names as the keys of an object, in the order of their first occurrence, and the names that stay.\<close>

fun collect :: "jstr list \<Rightarrow> jstr list \<Rightarrow> (jstr \<times> bool) list \<Rightarrow> jstr list \<times> jstr list" where
  "collect own glob [] = (own, glob)"
| "collect own glob ((name, binding) # ids) =
     (if binding then collect (if name \<in> set own then own else own @ [name]) glob ids
      else collect own (if name \<in> set glob then glob else glob @ [name]) ids)"

partial_function (option) next_name :: "(nat \<Rightarrow> jstr) \<Rightarrow> jstr list \<Rightarrow> nat \<Rightarrow> (jstr \<times> nat) option" where
  "next_name gen glob i =
     (let newName = gen i; i = i + 1 in if newName \<in> set glob then next_name gen glob i else Some (newName, i))"

declare next_name.simps [code]

definition rename_var :: "jstr \<Rightarrow> jstr \<Rightarrow> jstr list \<Rightarrow> jstr list" where
  "rename_var oldName newName vars = map (\<lambda>x. if x = oldName then newName else x) vars"

fun rename_all :: "(nat \<Rightarrow> jstr) \<Rightarrow> jstr list \<Rightarrow> nat \<Rightarrow> jstr list \<Rightarrow> jstr list \<Rightarrow> jstr list option" where
  "rename_all gen glob i [] vars = Some vars"
| "rename_all gen glob i (oldName # own) vars =
     (case next_name gen glob i of
        None \<Rightarrow> None
      | Some (newName, i) \<Rightarrow> rename_all gen glob i own (rename_var oldName newName vars))"

definition renameOwnBinding :: "(jstr \<times> bool) list \<Rightarrow> jstr list option" where
  "renameOwnBinding ids = (let (own, glob) = collect [] [] ids in rename_all generatorIdentifier glob 0 own own)"



section \<open>The generated names differ\<close>

definition base3_value :: "nat list \<Rightarrow> nat" where
  "base3_value ds = foldr (\<lambda>d v. d + 3 * v) ds 0"

lemma base3_facts: "base3_value (base3 n) = n \<and> (\<forall>d \<in> set (base3 n). d < 3) \<and> (base3 n \<noteq> [] \<longrightarrow> last (base3 n) \<noteq> 0)"
proof (induction n rule: base3.induct)
  case (1 n)
  show ?case
  proof (cases "n = 0")
    case False
    then have "base3 n = n mod 3 # base3 (n div 3)" by (simp add: base3.simps)
    moreover have "base3 (n div 3) = [] \<Longrightarrow> n mod 3 \<noteq> 0"
      using False by (subst (asm) base3.simps) (auto split: if_splits)
    ultimately show ?thesis using 1 False by (auto simp: base3_value_def)
  qed (simp add: base3.simps base3_value_def)
qed

definition flag_digit :: "int \<Rightarrow> nat" where
  "flag_digit c = (if c = 79 then 0 else if c = 111 then 1 else 2)"

lemma flag_digit_inverse: "d < 3 \<Longrightarrow> flag_digit (str ''Oo0'' ! d) = d"
  by (auto simp: less_Suc_eq numeral_3_eq_3 str_def flag_digit_def)

lemma name_value:
  "base3_value (rev (map flag_digit (replicate k 79 @ map (\<lambda>v. str ''Oo0'' ! v) (rev (base3 n))))) = n"
proof -
  have "map flag_digit (map (\<lambda>v. str ''Oo0'' ! v) (rev (base3 n))) = rev (base3 n)"
    using base3_facts [of n] by (auto simp: flag_digit_inverse intro!: map_idI)
  moreover have "base3_value (ds @ replicate k 0) = base3_value ds" for ds
    by (induction ds; induction k) (simp_all add: base3_value_def)
  moreover have "flag_digit 79 = 0" by (simp add: flag_digit_def)
  ultimately show ?thesis using base3_facts [of n] by simp
qed

text \<open>Every generated name is the ternary numeral with the letter for 0 in front.\<close>

lemma generatorIdentifier_padded:
  "\<exists>k. generatorIdentifier n = replicate k 79 @ map (\<lambda>v. str ''Oo0'' ! v) (rev (base3 n)) \<and> generatorIdentifier n ! 0 \<in> {79, 111}"
proof -
  define name where "name = map (\<lambda>v. str ''Oo0'' ! v) (rev (base3 n))"
  have gen: "generatorIdentifier n = (if length name < 6 then last_chars 6 (str ''OOOOOO'' @ name)
      else if name ! 0 = 48 then str ''O'' @ name else name)"
    by (simp only: generatorIdentifier_def Let_def name_def)
  have O: "str ''OOOOOO'' = replicate 6 79" by (simp add: str_def numeral_eq_Suc)
  have digits: "c \<in> {79, 111, 48}" if c: "c \<in> set name" for c
  proof -
    obtain d where "d \<in> set (base3 n)" "c = str ''Oo0'' ! d" using c by (auto simp: name_def)
    then have "d = 0 \<or> d = 1 \<or> d = 2" "c = str ''Oo0'' ! d" using base3_facts [of n] by fastforce+
    then show ?thesis by (auto simp: str_def)
  qed
  consider "length name < 6" | "6 \<le> length name" "name ! 0 = 48" | "6 \<le> length name" "name ! 0 \<noteq> 48" by linarith
  then show ?thesis
  proof cases
    case 1
    then have "generatorIdentifier n = replicate (6 - length name) 79 @ name"
      by (simp add: gen last_chars_def O)
    then show ?thesis using 1 name_def by (intro exI [of _ "6 - length name"]) (simp add: nth_append)
  next
    case 2
    then have "generatorIdentifier n = replicate 1 79 @ name" by (simp add: gen str_def)
    then show ?thesis unfolding name_def by (intro exI [of _ 1]) simp
  next
    case 3
    then have "generatorIdentifier n = replicate 0 79 @ name" by (simp add: gen)
    moreover have "0 < length name" using 3(1) by linarith
    then have "name ! 0 \<in> {79, 111}" using digits [OF nth_mem] 3(2) by auto
    ultimately show ?thesis unfolding name_def by (intro exI [of _ 0]) simp
  qed
qed

lemma generatorIdentifier_inj: "inj generatorIdentifier"
proof (rule injI)
  fix m n assume "generatorIdentifier m = generatorIdentifier n"
  then show "m = n"
    using name_value generatorIdentifier_padded [of m] generatorIdentifier_padded [of n] by metis
qed

lemma generateIdentifier_same: "generateIdentifier = generatorIdentifier"
  by (simp add: fun_eq_iff generateIdentifier_def generatorIdentifier_def)

section \<open>Renaming\<close>

text \<open>What renaming needs of the names: they are all different.\<close>

locale name_source =
  fixes gen :: "nat \<Rightarrow> jstr"
  assumes names_differ: "inj gen"
begin

lemma next_name_returns: "\<exists>j > i. next_name gen glob i = Some (gen (j - 1), j) \<and> gen (j - 1) \<notin> set glob"
proof (induction "card (set glob \<inter> gen ` {i..})" arbitrary: i rule: less_induct)
  case less
  show ?case
  proof (cases "gen i \<in> set glob")
    case True
    have "gen ` {Suc i..} = gen ` {i..} - {gen i}"
    proof -
      have "{i..} = insert i {Suc i..}" by auto
      moreover have "gen i \<notin> gen ` {Suc i..}" using names_differ by (auto dest: injD)
      ultimately show ?thesis by auto
    qed
    then have "set glob \<inter> gen ` {Suc i..} = (set glob \<inter> gen ` {i..}) - {gen i}" by auto
    moreover have "gen i \<in> set glob \<inter> gen ` {i..}" using True by auto
    ultimately have "card (set glob \<inter> gen ` {Suc i..}) < card (set glob \<inter> gen ` {i..})"
      by (metis List.finite_set card_Diff1_less finite_Int)
    then obtain j where "j > Suc i" "next_name gen glob (Suc i) = Some (gen (j - 1), j)" "gen (j - 1) \<notin> set glob"
      using less by blast
    then show ?thesis using True by (intro exI [of _ j]) (simp add: next_name.simps [of gen glob i] Let_def)
  next
    case False
    then show ?thesis by (intro exI [of _ "Suc i"]) (simp add: next_name.simps Let_def)
  qed
qed

text \<open>
  The loop over the own names: the variables with a new name keep away from the later new names, which are all above the counter.
\<close>

lemma rename_all_separates:
  assumes "distinct vars" "distinct own" "set own \<subseteq> set vars" "set own \<inter> range gen = {}"
    and "\<forall>x \<in> set vars - set own. x \<in> gen ` {..<i} \<and> x \<notin> set glob"
  shows "\<exists>vs. rename_all gen glob i own vars = Some vs \<and> length vs = length vars \<and> distinct vs \<and> set vs \<inter> set glob = {} \<and> set vs \<subseteq> range gen"
  using assms
proof (induction own arbitrary: i vars)
  case Nil
  then show ?case by auto
next
  case (Cons x own)
  obtain j where j: "i < j" "next_name gen glob i = Some (gen (j - 1), j)" "gen (j - 1) \<notin> set glob"
    using next_name_returns by blast
  let ?n = "gen (j - 1)"
  let ?vars = "rename_var x ?n vars"
  have fresh: "?n \<notin> set vars"
  proof
    assume "?n \<in> set vars"
    then consider "?n \<in> set (x # own)" | "?n \<in> gen ` {..<i}" using Cons.prems(5) by blast
    then show False using Cons.prems(4) names_differ j(1) by cases (auto dest: injD)
  qed
  have mem: "set ?vars = insert ?n (set vars - {x})" using Cons.prems(3) by (auto simp: rename_var_def)
  have "distinct ?vars"
    unfolding rename_var_def distinct_map using Cons.prems(1) fresh by (auto simp: inj_on_def)
  moreover have "set own \<subseteq> set ?vars" using Cons.prems(2,3) mem by auto
  moreover have "\<forall>y \<in> set ?vars - set own. y \<in> gen ` {..<j} \<and> y \<notin> set glob"
  proof
    fix y assume y: "y \<in> set ?vars - set own"
    show "y \<in> gen ` {..<j} \<and> y \<notin> set glob"
    proof (cases "y = ?n")
      case True
      then show ?thesis using j by auto
    next
      case False
      then have "y \<in> gen ` {..<i} \<and> y \<notin> set glob" using y mem Cons.prems(5) by auto
      then show ?thesis using j(1) by auto
    qed
  qed
  moreover have "distinct own" "set own \<inter> range gen = {}" using Cons.prems(2,4) by auto
  ultimately show ?case using Cons.IH [of ?vars j] j(2) by (simp add: rename_var_def)
qed

lemma collect_distinct: "distinct own \<Longrightarrow> collect own glob ids = (own', glob') \<Longrightarrow> distinct own'"
  by (induction own glob ids rule: collect.induct) (auto split: if_splits)

lemma rename_collected:
  assumes "collect [] [] ids = (own, glob)" "set own \<inter> range gen = {}"
  shows "\<exists>vs. rename_all gen glob 0 own own = Some vs \<and> length vs = length own \<and> distinct vs \<and> set vs \<inter> set glob = {} \<and> set vs \<subseteq> range gen"
  using rename_all_separates [of own own 0 glob] collect_distinct [OF _ assms(1)] assms(2) by simp

text \<open>A variable that already has the first generated name is merged with the variable renamed to it.\<close>

lemma rename_merges:
  assumes "x \<noteq> gen 0" "gen 0 \<notin> set glob" "gen 1 \<notin> set glob"
  shows "rename_all gen glob 0 [x, gen 0] [x, gen 0] = Some [gen 1, gen 1]"
proof -
  have "next_name gen glob 0 = Some (gen 0, 1)" "next_name gen glob 1 = Some (gen 1, 2)"
    using assms by (simp_all add: next_name.simps [of gen glob] Let_def)
  then show ?thesis using assms(1) by (simp add: rename_var_def)
qed

end

interpretation all_names: name_source generatorIdentifier
  by unfold_locales (rule generatorIdentifier_inj)


interpretation ex9_names: name_source generateIdentifier
  by unfold_locales (simp add: generateIdentifier_same generatorIdentifier_inj)




text \<open>A function with a variable that already has the first generated name, as in code obfuscated before, loses a variable: both
  variables get the same name.\<close>

theorem renaming_twice_merges_variables:
  assumes "x \<noteq> generatorIdentifier 0"
  shows "renameOwnBinding [(x, True), (generatorIdentifier 0, True)] = Some [generatorIdentifier 1, generatorIdentifier 1]"
  using all_names.rename_merges [OF assms, of "[]"] assms by (simp add: renameOwnBinding_def)

theorem renaming_twice_merges_variables_witness:
  "renameOwnBinding [(str ''k'', True), (str ''OOOOOO'', True)] = Some [str ''OOOOOo'', str ''OOOOOo'']"
proof -
  have "generatorIdentifier 0 = str ''OOOOOO''" "generatorIdentifier 1 = str ''OOOOOo''"
    by (simp_all add: generatorIdentifier_def base3.simps last_chars_def str_def)
  then show ?thesis using renaming_twice_merges_variables [of "str ''k''"] by (simp add: str_def)
qed

end
