(* ===== verification/Ast_Flatten.thy ===== *)
theory Ast_Flatten
  imports "HOL-Library.Multiset" Ast_Confound
begin

text \<open>
  Control-flow flattening: the obfuscator that turns the statements of a function into the cases of a switch inside a loop, the two
  tools that undo it, and a semantics of such a loop over any semantics of the single statements.
\<close>

section \<open>The obfuscator\<close>

text \<open>
  \<open>random i\<close> is the number that \<^verbatim>\<open>Math.random\<close> yields in the turn with that \<open>i\<close>; \<open>array\<close> and \<open>index\<close> are the names that Babel
  generates.
\<close>

fun flatten_shuffle :: "(nat \<Rightarrow> rat) \<Rightarrow> nat \<Rightarrow> (nat \<times> node) list \<Rightarrow> (nat \<times> node) list" where
  "flatten_shuffle random 0 statements = statements"
| "flatten_shuffle random (Suc i) statements =
     (let j = nat \<lfloor>random (Suc i) * of_nat (Suc i)\<rfloor>
      in flatten_shuffle random i (statements[j := statements ! i, i := statements ! j]))"

definition flatten_cases :: "(nat \<times> node) list \<Rightarrow> nat option list \<times> node list" where
  "flatten_cases statements =
     foldl (\<lambda>(dispenserArr, cases) (i, v).
       (arr_set dispenserArr (int (fst v)) i, cases @ [SwitchCase (NumericLiteral (int i)) [snd v, ContinueStatement]]))
       ([], []) (enumerate 0 statements)"

definition join_numbers :: "nat option list \<Rightarrow> jstr" where
  "join_numbers xs = js_join (str ''|'') (map (\<lambda>x. case x of None \<Rightarrow> [] | Some n \<Rightarrow> nat_to_dec n) xs)"

definition flatten :: "(nat \<Rightarrow> rat) \<Rightarrow> jstr \<Rightarrow> jstr \<Rightarrow> node list \<Rightarrow> node list" where
  "flatten random array index body =
     (let statements = flatten_shuffle random (length body) (enumerate 0 body);
          (dispenserArr, cases) = flatten_cases statements;
          dispenserStr = join_numbers dispenserArr;
          callee = MemberExpression (StringLiteral dispenserStr) (Identifier (str ''split'')) False;
          arrayInit = CallExpression callee [StringLiteral (str ''|'')];
          varArray = VariableDeclarator (Identifier array) (Some arrayInit);
          varIndex = VariableDeclarator (Identifier index) (Some (NumericLiteral 0));
          dispenser = VariableDeclaration (str ''let'') [varArray, varIndex];
          uptExp = UpdateExpression (str ''++'') (Identifier index);
          memExp = MemberExpression (Identifier array) uptExp True;
          discriminant = UnaryExpression (str ''+'') memExp;
          switchSta = SwitchStatement discriminant cases;
          unaExp = UnaryExpression (str ''!'') (UnaryExpression (str ''!'') (ArrayExpression []));
          whileSta = WhileStatement unaExp (BlockStatement [switchSta, BreakStatement])
      in [dispenser, whileSta])"

section \<open>The tools that undo it\<close>

text \<open>
  The first tool looks for a call of \<^verbatim>\<open>split\<close>, named by a text, on a text. \<open>parent\<close> is the body of the block that has the
  declaration with that call at position \<open>key\<close>. The cases are stored under the text of their value, each with its first statement; the
  statements go to the end of the block. A next statement that has no switch as its first inner statement raises an exception; the
  statement of a missing or empty case is \<^verbatim>\<open>undefined\<close>.
\<close>

fun literal_text :: "node \<Rightarrow> jstr option" where
  "literal_text (NumericLiteral n) = key_text (VNum n)"
| "literal_text (StringLiteral s) = Some s"
| "literal_text (BooleanLiteral b) = Some (if b then str ''true'' else str ''false'')"
| "literal_text _ = None"

definition case_key :: "node \<Rightarrow> jstr" where
  "case_key c = (case c of SwitchCase t _ \<Rightarrow> undef_text (literal_text t) | _ \<Rightarrow> str ''undefined'')"

fun case_body :: "node \<Rightarrow> node list" where
  "case_body (SwitchCase _ c) = c"
| "case_body _ = []"

definition block_switch :: "node \<Rightarrow> (node \<times> node list \<times> node list) option" where
  "block_switch b =
     (case b of
        BlockStatement (n # rest) \<Rightarrow> (case n of SwitchStatement d cases \<Rightarrow> Some (d, cases, rest) | _ \<Rightarrow> None)
      | _ \<Rightarrow> None)"

definition loop_cases :: "node \<Rightarrow> node list option" where
  "loop_cases n =
     map_option (\<lambda>(d, cases, rest). cases)
       (case n of WhileStatement _ b \<Rightarrow> block_switch b | FunctionDeclaration _ _ b \<Rightarrow> block_switch b | _ \<Rightarrow> None)"

definition restore_switch :: "node \<Rightarrow> node list \<Rightarrow> nat \<Rightarrow> ast_error + node option list" where
  "restore_switch member parent key =
     (case member of
        MemberExpression (StringLiteral s) (StringLiteral split) _ \<Rightarrow>
          if split = str ''split'' then
            if Suc key < length parent then
              (case loop_cases (parent ! Suc key) of
                 None \<Rightarrow> Inl AstTypeError
               | Some cases \<Rightarrow>
                   let myArr = foldl (\<lambda>m p. m(case_key p := (case case_body p of [] \<Rightarrow> None | v # _ \<Rightarrow> Some v))) Map.empty cases;
                       shuffleArr = js_split_char 124 s
                   in Inr (map Some (take key parent @ drop (key + 2) parent) @ map myArr shuffleArr))
            else Inl AstTypeError
          else Inr (map Some parent)
      | _ \<Rightarrow> Inr (map Some parent))"







section \<open>Running a loop over a switch\<close>

text \<open>
  How a statement ends. \<open>exec\<close> is a semantics of the statements of the program; \<open>None\<close> stands for a statement that does not end. The
  names of the dispatcher are not used by the program, so the state of the program does not contain them.
\<close>

datatype 'v completion = Normal | Returned 'v | Thrown 'v | Broken | Continued

type_synonym ('s, 'v) exec = "node \<Rightarrow> 's \<Rightarrow> ('s \<times> 'v completion) option"

definition exec1 :: "('s, 'v) exec \<Rightarrow> ('s, 'v) exec" where
  "exec1 exec n s =
     (if n = ContinueStatement then Some (s, Continued) else if n = BreakStatement then Some (s, Broken) else exec n s)"

fun run_body :: "('s, 'v) exec \<Rightarrow> node list \<Rightarrow> 's \<Rightarrow> ('s \<times> 'v completion) option" where
  "run_body exec [] s = Some (s, Normal)"
| "run_body exec (n # ns) s =
     (case exec1 exec n s of
        None \<Rightarrow> None
      | Some (s', c) \<Rightarrow> if c = Normal then run_body exec ns s' else Some (s', c))"

text \<open>
  The cases of a switch are one block with a scope of its own: it is opened with the lexical declarations of all cases each time the switch
  is run, and closed when the switch is left, in whatever way. A block without lexical declarations has an empty scope, which no
  statement can observe. The body of a function is run with its declarations in the same way. \<open>sem_open\<close> and \<open>sem_close\<close> belong to the
  semantics of the statements.
\<close>

record ('s, 'v) semantics =
  sem_exec :: "('s, 'v) exec"
  sem_open :: "node list \<Rightarrow> 's \<Rightarrow> 's"
  sem_close :: "'s \<Rightarrow> 's"

fun lexical :: "node \<Rightarrow> bool" where
  "lexical (VariableDeclaration kind _) \<longleftrightarrow> kind \<noteq> str ''var''"
| "lexical (FunctionDeclaration _ _ _) \<longleftrightarrow> True"
| "lexical _ \<longleftrightarrow> False"

definition run_scope :: "('s, 'v) semantics \<Rightarrow> node list \<Rightarrow> node list \<Rightarrow> 's \<Rightarrow> ('s \<times> 'v completion) option" where
  "run_scope sem block ns s =
     (let decls = filter lexical block
      in if decls = [] then run_body (sem_exec sem) ns s
         else map_option (\<lambda>(s', c). (sem_close sem s', c)) (run_body (sem_exec sem) ns (sem_open sem decls s)))"

definition run_function :: "('s, 'v) semantics \<Rightarrow> node list \<Rightarrow> 's \<Rightarrow> ('s \<times> 'v completion) option" where
  "run_function sem body s = run_scope sem body body s"

text \<open>
  The switch runs the statements from the first case that matches on. \<open>matches k\<close> tells which cases have the value of the discriminant
  in turn \<open>k\<close> of the loop, where the index variable is \<open>k\<close>. \<^verbatim>\<open>break\<close> in a case leaves the switch, after it the statement leaves the loop.
\<close>

definition switch_body :: "(node \<Rightarrow> bool) \<Rightarrow> node list \<Rightarrow> node list" where
  "switch_body P cases = concat (map case_body (dropWhile (\<lambda>c. \<not> P c) cases))"

partial_function (option) run_loop ::
  "('s, 'v) semantics \<Rightarrow> (nat \<Rightarrow> node \<Rightarrow> bool) \<Rightarrow> node list \<Rightarrow> node list \<Rightarrow> nat \<Rightarrow> 's \<Rightarrow> ('s \<times> 'v completion) option" where
  "run_loop sem matches cases rest k s =
     (case run_scope sem (concat (map case_body cases)) (switch_body (matches k) cases) s of
        None \<Rightarrow> None
      | Some (s1, c1) \<Rightarrow>
          if c1 = Continued then run_loop sem matches cases rest (Suc k) s1
          else if c1 = Normal \<or> c1 = Broken then
            (case run_scope sem rest rest s1 of
               None \<Rightarrow> None
             | Some (s2, c2) \<Rightarrow>
                 if c2 = Continued \<or> c2 = Normal then run_loop sem matches cases rest (Suc k) s2
                 else if c2 = Broken then Some (s2, Normal)
                 else Some (s2, c2))
          else Some (s1, c1))"

text \<open>The value of a plus sign before an element of the array: the number that the text reads as, none for a missing element.\<close>

definition plus_number :: "jstr list \<Rightarrow> nat \<Rightarrow> int option" where
  "plus_number xs k =
     (if k < length xs then
        if xs ! k = [] then Some 0
        else if radix_string 10 (xs ! k) then Some (radval 10 (xs ! k)) else None
      else None)"

fun matches_number :: "int option \<Rightarrow> node \<Rightarrow> bool" where
  "matches_number v (SwitchCase (NumericLiteral n) _) \<longleftrightarrow> v = Some n"
| "matches_number v _ \<longleftrightarrow> False"


text \<open>Running a function body that the obfuscator has made, and the loop that the second tool reads.\<close>

definition split_init :: "jstr \<Rightarrow> node" where
  "split_init d = CallExpression (MemberExpression (StringLiteral d) (Identifier (str ''split'')) False) [StringLiteral (str ''|'')]"

definition next_element :: "jstr \<Rightarrow> jstr \<Rightarrow> node" where
  "next_element array index = MemberExpression (Identifier array) (UpdateExpression (str ''++'') (Identifier index)) True"

definition endless :: node where
  "endless = UnaryExpression (str ''!'') (UnaryExpression (str ''!'') (ArrayExpression []))"

definition run_flat :: "('s, 'v) semantics \<Rightarrow> node list \<Rightarrow> 's \<Rightarrow> ('s \<times> 'v completion) option" where
  "run_flat sem body s =
     (case body of
        [VariableDeclaration _ [VariableDeclarator (Identifier array) (Some (CallExpression (MemberExpression (StringLiteral d) p q) as)),
           VariableDeclarator (Identifier index) (Some (NumericLiteral start))], WhileStatement t b] \<Rightarrow>
          (case block_switch b of
             Some (discriminant, cases, rest) \<Rightarrow>
               if CallExpression (MemberExpression (StringLiteral d) p q) as = split_init d \<and> start = 0 \<and> t = endless \<and>
                 discriminant = UnaryExpression (str ''+'') (next_element array index)
               then run_loop sem (\<lambda>k. matches_number (plus_number (js_split_char 124 d) k)) cases rest 0 s
               else None
           | None \<Rightarrow> None)
      | _ \<Rightarrow> None)"

section \<open>A loop over a switch runs the cases in the order of the dispatcher\<close>

definition plain :: "('s, 'v) exec \<Rightarrow> node \<Rightarrow> bool" where
  "plain exec n \<longleftrightarrow> (\<forall>s s' c. exec1 exec n s = Some (s', c) \<longrightarrow> c \<noteq> Broken \<and> c \<noteq> Continued)"

lemma run_body_append:
  "run_body exec (xs @ ys) s =
    (case run_body exec xs s of None \<Rightarrow> None | Some (s', c) \<Rightarrow> if c = Normal then run_body exec ys s' else Some (s', c))"
  by (induction xs arbitrary: s) (auto split: option.splits)

lemma run_body_plain: "\<forall>n \<in> set ns. plain exec n \<Longrightarrow> run_body exec ns s = Some (s', c) \<Longrightarrow> c \<noteq> Broken \<and> c \<noteq> Continued"
  by (induction ns arbitrary: s) (fastforce simp: plain_def split: option.splits if_splits)+

lemma run_body_Continue: "run_body exec (ContinueStatement # ns) s = Some (s, Continued)"
  by (simp add: exec1_def)

lemma run_scope_plain: "\<forall>n \<in> set block. \<not> lexical n \<Longrightarrow> run_scope sem block ns s = run_body (sem_exec sem) ns s"
  by (simp add: run_scope_def)

lemma run_loop_sequence:
  assumes "\<And>k. k < n \<Longrightarrow> \<exists>c post. dropWhile (\<lambda>c. \<not> matches k c) cases = c # post \<and> case_body c = code k @ [ContinueStatement]"
    and "\<forall>c \<in> set cases. \<not> matches n c"
    and "\<And>k x. k < n \<Longrightarrow> x \<in> set (code k) \<Longrightarrow> plain (sem_exec sem) x"
    and "\<forall>c \<in> set cases. \<forall>x \<in> set (case_body c). \<not> lexical x"
    and "k \<le> n"
  shows "run_loop sem matches cases [BreakStatement] k s = run_body (sem_exec sem) (concat (map code [k..<n])) s"
  using assms(5)
proof (induction "n - k" arbitrary: k s)
  case 0
  then have "dropWhile (\<lambda>c. \<not> matches k c) cases = []" using assms(2) by (simp add: dropWhile_eq_Nil_conv)
  then have "switch_body (matches k) cases = []" by (simp only: switch_body_def list.map concat.simps)
  moreover have "run_scope sem (concat (map case_body cases)) ns t = run_body (sem_exec sem) ns t" for ns t
    using assms(4) by (intro run_scope_plain) auto
  ultimately show ?case using 0 by (simp add: run_loop.simps exec1_def run_scope_plain)
next
  case (Suc m)
  then have k: "k < n" by simp
  obtain c post where body: "switch_body (matches k) cases = code k @ ContinueStatement # post"
    using assms(1) [OF k] by (auto simp: switch_body_def)
  have scope: "run_scope sem (concat (map case_body cases)) ns t = run_body (sem_exec sem) ns t" for ns t
    using assms(4) by (intro run_scope_plain) auto
  have IH: "run_loop sem matches cases [BreakStatement] (Suc k) t = run_body (sem_exec sem) (concat (map code [Suc k..<n])) t" for t
    using Suc k by simp
  have "concat (map code [k..<n]) = code k @ concat (map code [Suc k..<n])" using k by (simp add: upt_conv_Cons)
  then show ?case
    using run_body_plain [of "code k" "sem_exec sem" s] assms(3) [OF k]
    unfolding run_loop.simps [of sem matches cases _ k] scope body run_body_append run_body_Continue
    by (auto simp: run_body_append IH split: option.splits)
qed

section \<open>Flattening keeps the behaviour\<close>

lemma shuffle_perm:
  assumes "\<forall>i. 0 \<le> random i \<and> random i < 1" "i \<le> length xs"
  shows "mset (flatten_shuffle random i xs) = mset xs"
  using assms(2)
proof (induction i arbitrary: xs)
  case (Suc i)
  let ?j = "nat \<lfloor>random (Suc i) * of_nat (Suc i)\<rfloor>"
  have "random (Suc i) * of_nat (Suc i) < 1 * of_nat (Suc i)"
    using assms(1) [rule_format, of "Suc i"] by (intro mult_strict_right_mono) simp_all
  moreover have "0 \<le> random (Suc i) * of_nat (Suc i)" using assms(1) [rule_format, of "Suc i"] by simp
  ultimately have "?j < Suc i" by (simp add: nat_less_iff floor_less_iff)
  then have j: "?j < length xs" "i < length xs" using Suc.prems by simp_all
  then have "mset (xs[?j := xs ! i, i := xs ! ?j]) = mset xs" by (simp add: mset_swap)
  then show ?case using Suc.IH [of "xs[?j := xs ! i, i := xs ! ?j]"] Suc.prems by (simp add: Let_def)
qed simp

definition numbered_case :: "nat \<times> nat \<times> node \<Rightarrow> node" where
  "numbered_case iv = SwitchCase (NumericLiteral (int (fst iv))) [snd (snd iv), ContinueStatement]"

lemma flatten_cases_spec:
  assumes "distinct (map fst xs)" "\<forall>x \<in> set xs. fst x < N"
  shows "snd (flatten_cases xs) = map numbered_case (enumerate 0 xs) \<and>
    length (fst (flatten_cases xs)) \<le> N \<and> (\<forall>i < length xs. arr_get (fst (flatten_cases xs)) (int (fst (xs ! i))) = Some i)"
  using assms
proof (induction xs rule: rev_induct)
  case (snoc x xs)
  obtain arr cs where fc: "flatten_cases xs = (arr, cs)" by fastforce
  then have new: "flatten_cases (xs @ [x]) = (arr_set arr (int (fst x)) (length xs), cs @ [numbered_case (length xs, x)])"
    unfolding flatten_cases_def by (simp add: enumerate_append_eq numbered_case_def)
  have IH: "cs = map numbered_case (enumerate 0 xs)" "length arr \<le> N"
    "\<And>i. i < length xs \<Longrightarrow> arr_get arr (int (fst (xs ! i))) = Some i"
    using snoc.IH snoc.prems fc by simp_all
  have "fst (xs ! i) \<noteq> fst x" if "i < length xs" for i
    using snoc.prems(1) nth_mem [OF that] by (metis distinct_append distinct_map image_eqI list.map(1,2) list.set_intros(1) map_append not_distinct_conv_prefix disjoint_iff set_map)
  then show ?case
    using new IH snoc.prems(2) by (auto simp: enumerate_append_eq nth_append js_arr less_Suc_eq)
qed (simp add: flatten_cases_def)

text \<open>
  The dispatcher after the shuffle: the statement number \<open>k\<close> of the body is in the case whose number is the element \<open>k\<close>.
\<close>

lemma dispenser_spec:
  fixes body :: "node list"
  assumes "\<forall>i. 0 \<le> random i \<and> random i < 1"
  defines "xs \<equiv> flatten_shuffle random (length body) (enumerate 0 body)"
  shows "\<exists>disp. fst (flatten_cases xs) = map Some disp \<and> length disp = length body \<and> length xs = length body \<and>
    snd (flatten_cases xs) = map numbered_case (enumerate 0 xs) \<and> (\<forall>k < length body. disp ! k < length body \<and> xs ! (disp ! k) = (k, body ! k))"
proof -
  let ?n = "length body"
  have perm: "mset xs = mset (enumerate 0 body)" unfolding xs_def using shuffle_perm [OF assms(1)] by simp
  then have len: "length xs = ?n" by (metis length_enumerate size_mset)
  have "mset (map fst xs) = mset (map fst (enumerate 0 body))" unfolding mset_map perm ..
  then have dist: "distinct (map fst xs)" by (metis distinct_upt map_fst_enumerate mset_eq_imp_distinct_iff)
  have mem: "set xs = set (enumerate 0 body)" using perm by (rule mset_eq_setD)
  then have "\<forall>x \<in> set xs. fst x < ?n" by (auto simp: in_set_enumerate_eq)
  note spec = flatten_cases_spec [OF dist this]
  let ?arr = "fst (flatten_cases xs)"
  have pos: "\<exists>i < ?n. xs ! i = (k, body ! k) \<and> arr_get ?arr (int k) = Some i" if "k < ?n" for k
  proof -
    have "(k, body ! k) \<in> set xs" unfolding mem using that by (simp add: in_set_enumerate_eq)
    then obtain i where "i < ?n" "xs ! i = (k, body ! k)" using len by (auto simp: in_set_conv_nth)
    then show ?thesis using spec len by (metis fst_conv)
  qed
  have "k < length ?arr" if "k < ?n" for k
    using pos [OF that] by (auto simp: arr_get_def split: if_splits)
  then have la: "length ?arr = ?n" using spec by (metis le_antisym not_le_imp_less less_irrefl)
  define disp where "disp = map the ?arr"
  have "?arr ! k = Some (disp ! k) \<and> disp ! k < ?n \<and> xs ! (disp ! k) = (k, body ! k)" if "k < ?n" for k
    using pos [OF that] la that by (auto simp: arr_get_def disp_def)
  then have "?arr = map Some disp" "\<forall>k < ?n. disp ! k < ?n \<and> xs ! (disp ! k) = (k, body ! k)"
    using la by (auto simp: disp_def intro: nth_equalityI)
  then show ?thesis using la len spec by (intro exI [of _ disp]) (simp add: disp_def)
qed

lemma join_split_numbers:
  "disp \<noteq> [] \<Longrightarrow> js_split_char 124 (join_numbers (map Some disp)) = map nat_to_dec disp"
proof -
  assume "disp \<noteq> []"
  have "124 \<notin> set (nat_to_dec n)" for n using nat_to_dec_digits [of 124 n] by auto
  then show ?thesis
    using js_split_join [of "map nat_to_dec disp" 124] \<open>disp \<noteq> []\<close> by (auto simp: join_numbers_def str_def comp_def)
qed

lemma plus_number_dec: "k < length ds \<Longrightarrow> plus_number (map nat_to_dec ds) k = Some (int (ds ! k))"
proof -
  have "radix_string 10 (nat_to_dec n)" for n
    using nat_to_dec_digits by (fastforce simp: radix_string_def digit_value_def)
  then show "k < length ds \<Longrightarrow> ?thesis" by (simp add: plus_number_def nat_to_dec_ne radval_nat_to_dec)
qed

lemma numbered_cases_drop:
  assumes "i < length xs"
  shows "dropWhile (\<lambda>c. \<not> matches_number (Some (int i)) c) (map numbered_case (enumerate 0 xs)) =
    numbered_case (i, xs ! i) # drop (Suc i) (map numbered_case (enumerate 0 xs))"
proof -
  let ?cs = "map numbered_case (enumerate 0 xs)"
  have at: "?cs ! m = numbered_case (m, xs ! m)" if "m < length xs" for m using that by (simp add: nth_enumerate_eq)
  have "takeWhile (\<lambda>c. \<not> matches_number (Some (int i)) c) ?cs = take i ?cs"
    using assms at by (intro takeWhile_eq_take_P_nth) (simp_all add: numbered_case_def nth_enumerate_eq)
  then have "dropWhile (\<lambda>c. \<not> matches_number (Some (int i)) c) ?cs = drop i ?cs"
    by (metis append_same_eq append_take_drop_id takeWhile_dropWhile_id same_append_eq)
  then show ?thesis using assms at by (simp add: Cons_nth_drop_Suc [symmetric])
qed

lemma flatten_parts:
  assumes "\<forall>i. 0 \<le> random i \<and> random i < 1"
  obtains disp xs where "length disp = length body" "length xs = length body"
    "\<And>i. i < length xs \<Longrightarrow> snd (xs ! i) \<in> set body"
    "\<And>k. k < length body \<Longrightarrow> disp ! k < length body \<and> xs ! (disp ! k) = (k, body ! k)"
    "flatten random array index body =
       [VariableDeclaration (str ''let'') [VariableDeclarator (Identifier array) (Some (split_init (join_numbers (map Some disp)))),
          VariableDeclarator (Identifier index) (Some (NumericLiteral 0))],
        WhileStatement endless (BlockStatement [SwitchStatement (UnaryExpression (str ''+'') (next_element array index))
          (map numbered_case (enumerate 0 xs)), BreakStatement])]"
proof -
  let ?xs = "flatten_shuffle random (length body) (enumerate 0 body)"
  obtain disp where d: "fst (flatten_cases ?xs) = map Some disp" "length disp = length body" "length ?xs = length body"
      "snd (flatten_cases ?xs) = map numbered_case (enumerate 0 ?xs)"
      "\<forall>k < length body. disp ! k < length body \<and> ?xs ! (disp ! k) = (k, body ! k)"
    using dispenser_spec [OF assms, where body = body] by (elim exE conjE) simp
  then have "flatten_cases ?xs = (map Some disp, map numbered_case (enumerate 0 ?xs))" by (metis prod.collapse)
  then have "flatten random array index body =
       [VariableDeclaration (str ''let'') [VariableDeclarator (Identifier array) (Some (split_init (join_numbers (map Some disp)))),
          VariableDeclarator (Identifier index) (Some (NumericLiteral 0))],
        WhileStatement endless (BlockStatement [SwitchStatement (UnaryExpression (str ''+'') (next_element array index))
          (map numbered_case (enumerate 0 ?xs)), BreakStatement])]"
    by (simp only: flatten_def Let_def prod.case split_init_def next_element_def endless_def)
  moreover have "snd (?xs ! i) \<in> set body" if "i < length ?xs" for i
  proof -
    have "set ?xs = set (enumerate 0 body)" using shuffle_perm [OF assms, of "length body" "enumerate 0 body"]
      by (intro mset_eq_setD) simp
    with nth_mem [OF \<open>i < length ?xs\<close>] obtain k where "k < length body" "?xs ! i = (k, body ! k)" by (auto simp: in_set_enumerate_eq prod_eq_iff)
    then show ?thesis by simp
  qed
  ultimately show ?thesis using that [of disp ?xs] d(2,3,5) by blast
qed

text \<open>C15: a function whose body the obfuscator has flattened, whatever the shuffle, does what the original body does from every state: it ends
  in the same state with the same return value or exception, or does not end either. The statements of the body must not leave
  it by \<open>break\<close> or \<open>continue\<close>, which no legal function body does, and none of them may be a lexical declaration, since the cases of the switch are
  a block of their own that every turn of the loop opens anew.\<close>

theorem flatten_keeps_behaviour:
  assumes "\<forall>i. 0 \<le> random i \<and> random i < 1" "\<And>n. n \<in> set body \<Longrightarrow> plain (sem_exec sem) n \<and> \<not> lexical n"
  shows "run_flat sem (flatten random array index body) s = run_function sem body s"
proof (rule flatten_parts [OF assms(1), where body = body and array = array and index = index])
  fix disp xs
  assume len: "length disp = length body" "length xs = length body"
    and mem: "\<And>i. i < length xs \<Longrightarrow> snd (xs ! i) \<in> set body"
    and disp: "\<And>k. k < length body \<Longrightarrow> disp ! k < length body \<and> xs ! (disp ! k) = (k, body ! k)"
    and flat: "flatten random array index body =
       [VariableDeclaration (str ''let'') [VariableDeclarator (Identifier array) (Some (split_init (join_numbers (map Some disp)))),
          VariableDeclarator (Identifier index) (Some (NumericLiteral 0))],
        WhileStatement endless (BlockStatement [SwitchStatement (UnaryExpression (str ''+'') (next_element array index))
          (map numbered_case (enumerate 0 xs)), BreakStatement])]"
  let ?texts = "js_split_char 124 (join_numbers (map Some disp))" and ?cases = "map numbered_case (enumerate 0 xs)"
  have split: "?texts = map nat_to_dec disp" if "body \<noteq> []" using join_split_numbers [of disp] len that by (cases disp) simp_all
  have "run_flat sem (flatten random array index body) s =
      run_loop sem (\<lambda>k. matches_number (plus_number ?texts k)) ?cases [BreakStatement] 0 s"
    unfolding flat run_flat_def by (simp add: split_init_def block_switch_def)
  also have "\<dots> = run_body (sem_exec sem) (concat (map (\<lambda>k. [body ! k]) [0..<length body])) s"
  proof (rule run_loop_sequence)
    fix k assume k: "k < length body"
    then have "body \<noteq> []" by auto
    then have "plus_number ?texts k = Some (int (disp ! k))" using split plus_number_dec [of k disp] len k by simp
    then show "\<exists>c post. dropWhile (\<lambda>c. \<not> matches_number (plus_number ?texts k) c) ?cases = c # post \<and> case_body c = [body ! k] @ [ContinueStatement]"
      using numbered_cases_drop [of "disp ! k" xs] disp [OF k] len by (auto simp: numbered_case_def)
  next
    have "plus_number ?texts (length body) = None" if "body \<noteq> []" using split that len by (simp add: plus_number_def)
    then show "\<forall>c \<in> set ?cases. \<not> matches_number (plus_number ?texts (length body)) c"
      using len by (cases "body = []") (auto simp: numbered_case_def)
  next
    fix k x assume "k < length body" "x \<in> set [body ! k]"
    then show "plain (sem_exec sem) x" using assms(2) by simp
  next
    show "\<forall>c \<in> set ?cases. \<forall>x \<in> set (case_body c). \<not> lexical x"
      using assms(2) mem by (fastforce simp: in_set_enumerate_eq numbered_case_def prod_eq_iff)
  qed simp
  also have "concat (map (\<lambda>k. [body ! k]) [0..<length body]) = body"
    by (simp add: concat_map_singleton map_nth)
  also have "run_body (sem_exec sem) body s = run_function sem body s"
    using assms(2) by (simp add: run_function_def run_scope_plain)
  finally show ?thesis .
qed

text \<open>For the witness: statements are numbers that are added to the state; the last one returns.\<close>

fun adding :: "node \<Rightarrow> int \<Rightarrow> (int \<times> int completion) option" where
  "adding (ExpressionStatement (NumericLiteral n)) s = Some (10 * s + n, Normal)"
| "adding (ReturnStatement _) s = Some (s, Returned s)"
| "adding _ s = Some (s, Normal)"

definition adding_sem :: "(int, int) semantics" where
  "adding_sem = \<lparr>sem_exec = adding, sem_open = (\<lambda>ds s. s), sem_close = (\<lambda>s. s)\<rparr>"

theorem flatten_keeps_behaviour_witness:
  "run_flat adding_sem (flatten (\<lambda>i. 1 / 2) (str ''_array'') (str ''_index'')
     [ExpressionStatement (NumericLiteral 1), ExpressionStatement (NumericLiteral 2), ReturnStatement None]) 0 = Some (12, Returned 12)"
proof -
  have "run_flat adding_sem (flatten (\<lambda>i. 1 / 2) (str ''_array'') (str ''_index'')
     [ExpressionStatement (NumericLiteral 1), ExpressionStatement (NumericLiteral 2), ReturnStatement None]) 0 =
   run_function adding_sem [ExpressionStatement (NumericLiteral 1), ExpressionStatement (NumericLiteral 2), ReturnStatement None] 0"
    by (rule flatten_keeps_behaviour) (auto simp: plain_def exec1_def adding_sem_def)
  then show ?thesis by (simp add: exec1_def run_function_def run_scope_plain adding_sem_def)
qed

text \<open>
  What happens to a lexical declaration: a semantics of \<^verbatim>\<open>let\<close>, \<^verbatim>\<open>return\<close> and names, in which a state is a stack of scopes and a name that is
  declared but not yet initialised has no value; reading such a name, or one that is not declared, raises.
\<close>

type_synonym scopes = "(jstr \<times> int option) list list"

definition lexical_names :: "node list \<Rightarrow> (jstr \<times> int option) list" where
  "lexical_names ds = concat (map (\<lambda>d. case d of
     VariableDeclaration _ vs \<Rightarrow> concat (map (\<lambda>v. case v of VariableDeclarator (Identifier a) _ \<Rightarrow> [(a, None)] | _ \<Rightarrow> []) vs)
   | _ \<Rightarrow> []) ds)"

definition read_name :: "scopes \<Rightarrow> jstr \<Rightarrow> int option" where
  "read_name s a = Option.bind (map_of (concat s) a) (\<lambda>v. v)"

definition let_exec :: "(scopes, int) exec" where
  "let_exec n s =
     (case n of
        VariableDeclaration _ [VariableDeclarator (Identifier a) (Some (NumericLiteral v))] \<Rightarrow>
          (case s of [] \<Rightarrow> None | sc # up \<Rightarrow> Some (map (\<lambda>(b, w). (b, if b = a then Some v else w)) sc # up, Normal))
      | ReturnStatement (Some (Identifier a)) \<Rightarrow> Some (s, case read_name s a of Some v \<Rightarrow> Returned v | None \<Rightarrow> Thrown 0)
      | _ \<Rightarrow> None)"

definition let_sem :: "(scopes, int) semantics" where
  "let_sem = \<lparr>sem_exec = let_exec, sem_open = (\<lambda>ds s. lexical_names ds # s), sem_close = tl\<rparr>"

text \<open>The body \<^verbatim>\<open>let a = 1; return a\<close> returns 1; flattened it raises, because the second turn of the loop has a new \<^verbatim>\<open>a\<close> without a value.\<close>

declare run_loop.simps [code]

theorem flatten_breaks_let:
  defines "body \<equiv> [VariableDeclaration (str ''let'') [VariableDeclarator (Identifier (str ''a'')) (Some (NumericLiteral 1))],
    ReturnStatement (Some (Identifier (str ''a'')))]"
  shows "run_function let_sem body [] = Some ([], Returned 1) \<and>
    run_flat let_sem (flatten (\<lambda>i. 1 / 2) (str ''_array'') (str ''_index'') body) [] = Some ([], Thrown 0)"
  unfolding body_def by (intro conjI; code_simp)

section \<open>Undoing it\<close>

lemma stored_cases:
  assumes "distinct (map case_key cs)"
  shows "foldl (\<lambda>m p. m(case_key p := (case case_body p of [] \<Rightarrow> None | v # _ \<Rightarrow> Some v))) m cs =
    (\<lambda>k. case find (\<lambda>c. case_key c = k) cs of None \<Rightarrow> m k | Some p \<Rightarrow> (case case_body p of [] \<Rightarrow> None | v # _ \<Rightarrow> Some v))"
  using assms
proof (induction cs arbitrary: m)
  case (Cons p cs)
  have "find (\<lambda>c. case_key c = case_key p) cs = None" using Cons.prems by (simp add: find_None_iff) (metis image_eqI)
  with Cons show ?case by (auto simp: fun_eq_iff split: option.splits)
qed simp

lemma numbered_case_key: "case_key (numbered_case (i, v)) = nat_to_dec i"
  by (simp add: case_key_def numbered_case_def undef_text_def)

text \<open>C17: the first tool undoes the flattening: applied to a block with a flattened body, after the property access to \<open>split\<close> has been
  rewritten to a text as the obfuscator \<open>changeAccessMode\<close> does, it leaves the statements of the original body in their order, behind the
  other statements of the block. Without that rewriting it leaves the block as it is.\<close>

theorem restore_undoes_flatten:
  assumes "\<forall>i. 0 \<le> random i \<and> random i < 1" "body \<noteq> []"
    and "flatten random array index body = [VariableDeclaration kind [VariableDeclarator v (Some (CallExpression callee as)), w], loop]"
  shows "restore_switch (changeAccessMode callee) (pre @ dispenser # loop # post) (length pre) = Inr (map Some (pre @ post @ body)) \<and>
    restore_switch callee (pre @ dispenser # loop # post) (length pre) = Inr (map Some (pre @ dispenser # loop # post))"
proof (rule flatten_parts [OF assms(1), where body = body and array = array and index = index])
  fix disp xs
  assume len: "length disp = length body" "length xs = length body"
    and mem: "\<And>i. i < length xs \<Longrightarrow> snd (xs ! i) \<in> set body"
    and disp: "\<And>k. k < length body \<Longrightarrow> disp ! k < length body \<and> xs ! (disp ! k) = (k, body ! k)"
    and flat: "flatten random array index body =
       [VariableDeclaration (str ''let'') [VariableDeclarator (Identifier array) (Some (split_init (join_numbers (map Some disp)))),
          VariableDeclarator (Identifier index) (Some (NumericLiteral 0))],
        WhileStatement endless (BlockStatement [SwitchStatement (UnaryExpression (str ''+'') (next_element array index))
          (map numbered_case (enumerate 0 xs)), BreakStatement])]"
  let ?d = "join_numbers (map Some disp)" and ?cases = "map numbered_case (enumerate 0 xs)"
  let ?arr = "foldl (\<lambda>m p. m(case_key p := (case case_body p of [] \<Rightarrow> None | v # _ \<Rightarrow> Some v))) Map.empty ?cases"
  have callee: "callee = MemberExpression (StringLiteral ?d) (Identifier (str ''split'')) False" and loop: "loop_cases loop = Some ?cases"
    using assms(3) unfolding flat split_init_def by (auto simp: loop_cases_def block_switch_def)
  have split: "js_split_char 124 ?d = map nat_to_dec disp" using join_split_numbers [of disp] len assms(2) by (cases disp) simp_all
  have keys: "map case_key ?cases = map nat_to_dec [0..<length xs]"
    by (intro nth_equalityI) (simp_all add: nth_enumerate_eq numbered_case_key)
  then have dist: "distinct (map case_key ?cases)" by (simp add: distinct_map inj_on_def nat_to_dec_inj)
  have "?arr (nat_to_dec i) = Some (snd (xs ! i))" if "i < length xs" for i
  proof -
    have "find (\<lambda>c. case_key c = nat_to_dec i) ?cases = Some (numbered_case (i, xs ! i))"
      unfolding find_Some_iff
      using that by (intro exI [of _ i]) (auto simp: nth_enumerate_eq numbered_case_key nat_to_dec_inj)
    then show ?thesis unfolding stored_cases [OF dist] by (simp add: numbered_case_def)
  qed
  then have "map ?arr (map nat_to_dec disp) = map Some body"
    using disp len by (intro nth_equalityI) simp_all
  then show ?thesis
    using loop unfolding callee restore_switch_def by (simp add: split Let_def nth_append)
qed

theorem restore_undoes_flatten_witness:
  "\<exists>dispenser loop callee. flatten (\<lambda>i. 1 / 2) (str ''_array'') (str ''_index'') [ThisExpression, ReturnStatement None] = [dispenser, loop] \<and>
    restore_switch (changeAccessMode callee) [dispenser, loop] 0 = Inr (map Some [ThisExpression, ReturnStatement None])"
proof (rule flatten_parts [where random = "\<lambda>i. 1 / 2" and body = "[ThisExpression, ReturnStatement None]" and array = "str ''_array''" and index = "str ''_index''"])
  fix disp xs
  assume flat: "flatten (\<lambda>i. 1 / 2) (str ''_array'') (str ''_index'') [ThisExpression, ReturnStatement None] =
       [VariableDeclaration (str ''let'') [VariableDeclarator (Identifier (str ''_array'')) (Some (split_init (join_numbers (map Some disp)))),
          VariableDeclarator (Identifier (str ''_index'')) (Some (NumericLiteral 0))],
        WhileStatement endless (BlockStatement [SwitchStatement (UnaryExpression (str ''+'') (next_element (str ''_array'') (str ''_index'')))
          (map numbered_case (enumerate 0 xs)), BreakStatement])]" (is "_ = [?dispenser, ?loop]")
  from restore_undoes_flatten [OF _ _ flat [unfolded split_init_def], of "[]" ?dispenser "[]"] flat
  show ?thesis
    by (intro exI [of _ ?dispenser] exI [of _ ?loop] exI [of _ "MemberExpression (StringLiteral (join_numbers (map Some disp))) (Identifier (str ''split'')) False"]) simp
qed simp

section \<open>The second tool\<close>










end
