(* ===== verification/Ast_Flower.thy ===== *)
theory Ast_Flower
  imports Ast_Flatten
begin

text \<open>
  The deobfuscators for objects of texts and one-line functions (\<^verbatim>\<open>2.js\<close> and \<^verbatim>\<open>3.js\<close> of the practice directory), for encrypted
  numbers, comma expressions and branches with a constant condition. Results that are \<^verbatim>\<open>false\<close> or \<^verbatim>\<open>undefined\<close> are \<open>None\<close>, since the
  tools only test them; the names inherited from \<^verbatim>\<open>Object.prototype\<close> do not occur in such programs.
\<close>

section \<open>The table of objects\<close>

type_synonym total = "jstr \<Rightarrow> (jstr \<Rightarrow> node option) option"

fun prop_entry :: "node \<Rightarrow> ast_error + jstr \<times> node option" where
  "prop_entry (ObjectProperty k v) = Inr (undef_text (literal_text k), Some v)"
| "prop_entry (ObjectMethod k ps b) = Inr (undef_text (literal_text k), None)"
| "prop_entry _ = Inl AstTypeError"

fun add_props :: "(jstr \<Rightarrow> node option) \<Rightarrow> node list \<Rightarrow> ast_error + (jstr \<Rightarrow> node option)" where
  "add_props obj [] = Inr obj"
| "add_props obj (p # ps) =
     (case prop_entry p of
        Inl e \<Rightarrow> Inl e
      | Inr (k, v) \<Rightarrow> add_props (obj(k := v)) ps)"

text \<open>The visitor on a declarator; it is called on every declarator of the program.\<close>

definition object_init :: "node \<Rightarrow> (jstr option \<times> node list) option" where
  "object_init d =
     (case d of
        VariableDeclarator v (Some (ObjectExpression ps)) \<Rightarrow> Some (node_name v, ps)
      | _ \<Rightarrow> None)"

definition generateObj_visit :: "total \<Rightarrow> node \<Rightarrow> ast_error + total" where
  "generateObj_visit totalObj d =
     (case object_init d of
        None \<Rightarrow> Inr totalObj
      | Some (name, ps) \<Rightarrow>
          let objName = undef_text name;
              obj = (case totalObj objName of
                  Some m \<Rightarrow> Some m
                | None \<Rightarrow> if name = None \<or> name = Some [] then None else Some Map.empty)
          in case obj of
               None \<Rightarrow> Inr totalObj
             | Some m \<Rightarrow>
                 (case add_props m ps of
                    Inl e \<Rightarrow> Inl e
                  | Inr m' \<Rightarrow> Inr (totalObj(objName := Some m'))))"

fun generateObj :: "total \<Rightarrow> node list \<Rightarrow> ast_error + total" where
  "generateObj totalObj [] = Inr totalObj"
| "generateObj totalObj (d # ds) =
     (case generateObj_visit totalObj d of
        Inl e \<Rightarrow> Inl e
      | Inr totalObj \<Rightarrow> generateObj totalObj ds)"

text \<open>The object name and the property name that the tools read from a member expression.\<close>

definition member_names :: "node \<Rightarrow> node \<Rightarrow> jstr \<times> jstr" where
  "member_names obj prop = (undef_text (node_name obj), undef_text (literal_text prop))"

section \<open>Texts\<close>

partial_function (option) findRealValue :: "total \<Rightarrow> node \<Rightarrow> (ast_error + node option) option" where
  "findRealValue totalObj n =
     (case n of
        MemberExpression obj prop c \<Rightarrow>
          (let (objName, propertyName) = member_names obj prop
           in case totalObj objName of
                None \<Rightarrow> Some (Inl AstTypeError)
              | Some m \<Rightarrow>
                  (case m propertyName of
                     None \<Rightarrow> Some (Inr None)
                   | Some v \<Rightarrow> findRealValue totalObj v))
      | _ \<Rightarrow> Some (Inr (Some n)))"

declare findRealValue.simps [code]

fun replaceValues :: "(node \<Rightarrow> (ast_error + node option) option) \<Rightarrow> node list \<Rightarrow> (ast_error + node list) option" where
  "replaceValues findReal [] = Some (Inr [])"
| "replaceValues findReal (p # ps) =
     (case p of
        ObjectProperty k v \<Rightarrow>
          (case findReal v of
             None \<Rightarrow> None
           | Some (Inl e) \<Rightarrow> Some (Inl e)
           | Some (Inr realNode) \<Rightarrow>
               map_option (map_sum id ((#) (ObjectProperty k (case realNode of Some r \<Rightarrow> r | None \<Rightarrow> v)))) (replaceValues findReal ps))
      | _ \<Rightarrow> map_option (map_sum id ((#) p)) (replaceValues findReal ps))"

definition replaceMember :: "total \<Rightarrow> node \<Rightarrow> node" where
  "replaceMember totalObj n =
     (case n of
        MemberExpression obj prop c \<Rightarrow>
          (let (objName, propName) = member_names obj prop
           in case totalObj objName of
                None \<Rightarrow> n
              | Some m \<Rightarrow> (case m propName of Some (StringLiteral s) \<Rightarrow> StringLiteral s | _ \<Rightarrow> n))
      | _ \<Rightarrow> n)"

text \<open>
  The whole tool on the declarators of a program, in the order of the traversal: the table, the references in the objects replaced by what
  they lead to, and the table again. The table holds nodes of the tree; what the second step changes are the properties that the
  nodes stand in, not the nodes, so the table stays as it is until it is made again.
\<close>

definition replaceDeclarator :: "total \<Rightarrow> node \<Rightarrow> (ast_error + node) option" where
  "replaceDeclarator totalObj d =
     (case d of
        VariableDeclarator v (Some (ObjectExpression ps)) \<Rightarrow>
          map_option (map_sum id (\<lambda>ps. VariableDeclarator v (Some (ObjectExpression ps)))) (replaceValues (findRealValue totalObj) ps)
      | _ \<Rightarrow> Some (Inr d))"

fun replaceDeclarators :: "total \<Rightarrow> node list \<Rightarrow> (ast_error + node list) option" where
  "replaceDeclarators totalObj [] = Some (Inr [])"
| "replaceDeclarators totalObj (d # ds) =
     (case replaceDeclarator totalObj d of
        None \<Rightarrow> None
      | Some (Inl e) \<Rightarrow> Some (Inl e)
      | Some (Inr d) \<Rightarrow> map_option (map_sum id ((#) d)) (replaceDeclarators totalObj ds))"

definition restoreTexts :: "node list \<Rightarrow> (ast_error + node list \<times> total) option" where
  "restoreTexts ds =
     (case generateObj Map.empty ds of
        Inl e \<Rightarrow> Some (Inl e)
      | Inr totalObj \<Rightarrow>
          (case replaceDeclarators totalObj ds of
             None \<Rightarrow> None
           | Some (Inl e) \<Rightarrow> Some (Inl e)
           | Some (Inr ds) \<Rightarrow> Some (map_sum id (\<lambda>totalObj. (ds, totalObj)) (generateObj totalObj ds))))"

section \<open>One-line functions\<close>

text \<open>
  The callee of the expression that the only statement of a function returns; \<open>Inr None\<close> is an expression that is not a call.
\<close>

fun returned_callee :: "node \<Rightarrow> ast_error + node option" where
  "returned_callee (ReturnStatement (Some e)) = Inr (case e of CallExpression f _ \<Rightarrow> Some f | _ \<Rightarrow> None)"
| "returned_callee _ = Inl AstTypeError"

definition one_line :: "node \<Rightarrow> node option" where
  "one_line n =
     (case n of FunctionExpression ps (BlockStatement [stm]) \<Rightarrow> Some stm | _ \<Rightarrow> None)"

partial_function (option) findRealFunc :: "total \<Rightarrow> node option \<Rightarrow> (ast_error + node option) option" where
  "findRealFunc totalObj n =
     (case n of
        None \<Rightarrow> Some (Inr None)
      | Some n' \<Rightarrow>
          (case one_line n' of
             None \<Rightarrow> Some (Inr (Some n'))
           | Some stm \<Rightarrow>
               (case returned_callee stm of
                  Inl e \<Rightarrow> Some (Inl e)
                | Inr (Some (MemberExpression obj prop c)) \<Rightarrow>
                    (let (objName, propName) = member_names obj prop
                     in case totalObj objName of
                          None \<Rightarrow> Some (Inr None)
                        | Some m \<Rightarrow> findRealFunc totalObj (m propName))
                | Inr _ \<Rightarrow> Some (Inr None))))"

declare findRealFunc.simps [code]

text \<open>
  The visitor on calls. A missing argument makes Babel's builder raise an exception, and so does a table entry that is not a function
  with a first statement.
\<close>

fun first_statement :: "node \<Rightarrow> node option" where
  "first_statement (FunctionExpression ps b) = (case b of BlockStatement (stm # _) \<Rightarrow> Some stm | _ \<Rightarrow> None)"
| "first_statement _ = None"

definition replaceCall :: "total \<Rightarrow> node \<Rightarrow> ast_error + node" where
  "replaceCall totalObj n =
     (case n of
        CallExpression (MemberExpression obj prop c) as \<Rightarrow>
          (let (objName, propName) = member_names obj prop
           in case totalObj objName of
                None \<Rightarrow> Inr n
              | Some m \<Rightarrow>
                  (case m propName of
                     None \<Rightarrow> Inr n
                   | Some myFunc \<Rightarrow>
                       (case first_statement myFunc of
                          None \<Rightarrow> Inl AstTypeError
                        | Some stm \<Rightarrow>
                            (case stm of
                               ReturnStatement (Some returnExpr) \<Rightarrow>
                                 (case returnExpr of
                                    BinaryExpression op l r \<Rightarrow>
                                      (case as of a # b # _ \<Rightarrow> Inr (BinaryExpression op a b) | _ \<Rightarrow> Inl AstTypeError)
                                  | CallExpression f bs \<Rightarrow>
                                      (case as of a # rest \<Rightarrow> Inr (CallExpression a rest) | _ \<Rightarrow> Inl AstTypeError)
                                  | _ \<Rightarrow> Inr n)
                             | _ \<Rightarrow> Inr n))))
      | _ \<Rightarrow> Inr n)"

text \<open>
  The functions in the table are nodes of the tree that the traversal rewrites: when it comes to the call that a function of the table
  returns, the function in the table changes with it. \<open>cell\<close> tells which entries are one and the same node, as \<open>p.value = realNode\<close> leaves
  them; \<open>returned\<close> is the expression that the first statement of a function returns. Calls elsewhere do not change the table. A call that
  is replaced by a call is visited again, which is one more visit in the list.
\<close>

definition table_entry :: "total \<Rightarrow> jstr \<times> jstr \<Rightarrow> node option" where
  "table_entry t q = Option.bind (t (fst q)) (\<lambda>m. m (snd q))"

definition returned :: "node \<Rightarrow> node option" where
  "returned f = (case first_statement f of Some (ReturnStatement e) \<Rightarrow> e | _ \<Rightarrow> None)"

fun set_returned :: "node \<Rightarrow> node \<Rightarrow> node" where
  "set_returned (FunctionExpression ps b) e =
     FunctionExpression ps (case b of BlockStatement (stm # rest) \<Rightarrow> BlockStatement (ReturnStatement (Some e) # rest) | _ \<Rightarrow> b)"
| "set_returned f e = f"

definition update_entry :: "(jstr \<times> jstr \<Rightarrow> nat) \<Rightarrow> total \<Rightarrow> jstr \<times> jstr \<Rightarrow> node \<Rightarrow> total" where
  "update_entry cell t q f = (\<lambda>ob. map_option (\<lambda>m k. if m k \<noteq> None \<and> cell (ob, k) = cell q then Some f else m k) (t ob))"

definition visit_entry :: "(jstr \<times> jstr \<Rightarrow> nat) \<Rightarrow> total \<Rightarrow> jstr \<times> jstr \<Rightarrow> ast_error + total" where
  "visit_entry cell t q =
     (case table_entry t q of
        None \<Rightarrow> Inr t
      | Some f \<Rightarrow>
          (case returned f of
             Some (CallExpression g as) \<Rightarrow>
               map_sum id (\<lambda>e. update_entry cell t q (set_returned f e)) (replaceCall t (CallExpression g as))
           | _ \<Rightarrow> Inr t))"


text \<open>The last traversal removes every declarator with an object.\<close>

definition removeObjects :: "node list \<Rightarrow> node list" where
  "removeObjects ds = filter (\<lambda>d. object_init d = None) ds"

section \<open>Constants, commas and branches\<close>

text \<open>Babel's evaluation of a node and its node for a value; \<open>None\<close> is an evaluation that is not certain.\<close>

fun valueToNode :: "int \<Rightarrow> node" where
  "valueToNode n = (if n < 0 then UnaryExpression (str ''-'') (NumericLiteral (- n)) else NumericLiteral n)"

definition restoreNumber :: "(node \<Rightarrow> int option) \<Rightarrow> node \<Rightarrow> node" where
  "restoreNumber evaluate n =
     (case n of
        BinaryExpression op left right \<Rightarrow>
          if isNumericLiteral left \<and> isNumericLiteral right
          then (case evaluate n of Some v \<Rightarrow> valueToNode v | None \<Rightarrow> n)
          else n
      | _ \<Rightarrow> n)"

text \<open>The test for a text is made on the list of arguments and never holds, so the code of the argument is always run.\<close>

definition restoreEval :: "(node \<Rightarrow> jstr) \<Rightarrow> (jstr \<Rightarrow> ast_error + jstr) \<Rightarrow> node \<Rightarrow> ast_error + node" where
  "restoreEval generate run n =
     (case n of
        CallExpression f as \<Rightarrow>
          if node_name f \<noteq> Some (str ''eval'') then Inr n
          else (case as of
                  [] \<Rightarrow> Inl AstTypeError
                | a # _ \<Rightarrow> map_sum id Identifier (run (generate a)))
      | _ \<Rightarrow> Inr n)"

text \<open>The statements put before the statement with the comma expression, and the expression that is left.\<close>

definition restoreComma :: "node \<Rightarrow> node list \<times> node" where
  "restoreComma n =
     (case n of
        SequenceExpression expressions \<Rightarrow> (map ExpressionStatement (butlast expressions), last expressions)
      | _ \<Rightarrow> ([], n))"

text \<open>The visitor on branches; the result is what stands in the place of the statement.\<close>

definition block_statements :: "node \<Rightarrow> node list" where
  "block_statements n = (case n of BlockStatement ns \<Rightarrow> ns | _ \<Rightarrow> [n])"

definition removeDead :: "(node \<Rightarrow> bool option) \<Rightarrow> node \<Rightarrow> node list" where
  "removeDead evaluateTruthy n =
     (case n of
        IfStatement test consequent alternate \<Rightarrow>
          (case evaluateTruthy test of
             Some True \<Rightarrow> block_statements consequent
           | Some False \<Rightarrow> (case alternate of Some a \<Rightarrow> block_statements a | None \<Rightarrow> [n])
           | None \<Rightarrow> [])
      | _ \<Rightarrow> [n])"

section \<open>The table describes the objects of the program\<close>

text \<open>
  The table fits a state of the program when every entry evaluates without effects to the value of that property; no object is
  named, and no property looked up, by a missing name.
\<close>

definition describes :: "sem \<Rightarrow> vars \<Rightarrow> vars \<Rightarrow> total \<Rightarrow> bool" where
  "describes S l g totalObj \<longleftrightarrow>
     (\<forall>obj m k n. totalObj obj = Some m \<longrightarrow> m k = Some n \<longrightarrow>
        obj \<noteq> str ''undefined'' \<and> k \<noteq> str ''undefined'' \<and> l obj = None \<and>
        (\<exists>ps v. g obj = Some (VObj ps) \<and> map_of ps k = Some v \<and> ev S l n g v g))"

lemma literal_text_key: "literal_text p = Some k \<Longrightarrow> ev S l p g kv g' \<Longrightarrow> key_text kv = Some k \<and> g' = g"
  by (cases p) (auto elim: ev.cases)

lemma describes_member:
  assumes "describes S l g totalObj" "member_names obj prop = (o', k)" "totalObj o' = Some m" "m k = Some n"
  shows "ev S l (MemberExpression obj prop c) g v g' \<Longrightarrow> ev S l n g v g'"
    and "isStringLiteral prop \<Longrightarrow> ev S l n g v g' \<Longrightarrow> ev S l (MemberExpression obj prop True) g v g'"
proof -
  obtain ps w where d: "o' \<noteq> str ''undefined''" "k \<noteq> str ''undefined''" "l o' = None" "g o' = Some (VObj ps)" "map_of ps k = Some w" "ev S l n g w g"
    using assms unfolding describes_def by blast
  have obj: "obj = Identifier o'" using assms(2) d(1) by (cases obj) (auto simp: member_names_def undef_text_def)
  have plit: "literal_text prop = Some k"
    using assms(2) d(2) by (cases "literal_text prop") (auto simp: member_names_def undef_text_def)
  have val: "js_prop S h (VObj ps) k = Some w" for h using d(5) by (simp add: js_prop_def)
  { assume e: "ev S l (MemberExpression obj prop c) g v g'"
    have c: "c = True" using e plit by (cases c) (auto simp: ev_dot)
    with e obtain u g1 kv k' where "ev S l obj g u g1" "ev S l prop g1 kv g'" "key_text kv = Some k'" "js_prop S g' u k' = Some v"
      by (auto simp: ev_computed)
    moreover from this have "key_text kv = Some k" "g' = g1" using literal_text_key [OF plit] by blast+
    ultimately have "v = w" "g' = g" using d(3,4) val obj by (auto simp: ev_Identifier)
    then show "ev S l n g v g'" using d(6) by simp }
  assume "isStringLiteral prop" "ev S l n g v g'"
  then have "prop = StringLiteral k" "v = w" "g' = g" using plit ev_det(1) [OF d(6)] by (cases "prop"; auto)+
  then show "ev S l (MemberExpression obj prop True) g v g'" using d(3,4) val obj by (auto simp: ev_computed ev_Identifier)
qed

definition acyclic_total :: "total \<Rightarrow> (jstr \<times> jstr \<Rightarrow> nat) \<Rightarrow> bool" where
  "acyclic_total totalObj rank \<longleftrightarrow>
     (\<forall>obj m k ob pr c. totalObj obj = Some m \<longrightarrow> m k = Some (MemberExpression ob pr c) \<longrightarrow> rank (member_names ob pr) < rank (obj, k))"

lemma findRealValue_other: "\<not> isMemberExpression n \<Longrightarrow> findRealValue totalObj n = Some (Inr (Some n))"
  by (subst findRealValue.simps) (cases n; simp)

lemma findRealValue_ok:
  assumes "acyclic_total totalObj rank" "describes S l g totalObj"
  shows "\<exists>res. findRealValue totalObj n = Some res \<and>
    (\<forall>r. res = Inr (Some r) \<longrightarrow> \<not> isMemberExpression r \<and> (\<forall>v g'. ev S l n g v g' \<longrightarrow> ev S l r g v g'))"
proof (cases "isMemberExpression n")
  case True
  then obtain ob pr c where "n = MemberExpression ob pr c" by (cases n) auto
  then show ?thesis
  proof (induction "rank (member_names ob pr)" arbitrary: n ob pr c rule: less_induct)
    case less
    obtain o' k where names: "member_names ob pr = (o', k)" by fastforce
    show ?case
    proof (cases "totalObj o'")
      case None
      then have "findRealValue totalObj n = Some (Inl AstTypeError)" unfolding less.prems by (subst findRealValue.simps) (simp add: names)
      then show ?thesis by simp
    next
      case (Some m)
      show ?thesis
      proof (cases "m k")
        case None
        then have "findRealValue totalObj n = Some (Inr None)" unfolding less.prems by (subst findRealValue.simps) (simp add: names Some)
        then show ?thesis by simp
      next
        case (Some w)
        have step: "findRealValue totalObj n = findRealValue totalObj w"
          unfolding less.prems by (subst findRealValue.simps) (simp add: names Some \<open>totalObj o' = Some m\<close>)
        note same = describes_member(1) [OF assms(2) names \<open>totalObj o' = Some m\<close> Some]
        show ?thesis
        proof (cases "isMemberExpression w")
          case True
          then obtain ob' pr' c' where w: "w = MemberExpression ob' pr' c'" by (cases w) auto
          have "rank (member_names ob' pr') < rank (member_names ob pr)"
            using assms(1) \<open>totalObj o' = Some m\<close> Some w names unfolding acyclic_total_def by metis
          from less.hyps [OF this w] same less.prems show ?thesis unfolding step by blast
        next
          case False
          then show ?thesis using same less.prems unfolding step findRealValue_other [OF False] by blast
        qed
      qed
    qed
  qed
qed (simp add: findRealValue_other)

text \<open>The chains of references that end in a text.\<close>

inductive refers :: "total \<Rightarrow> node \<Rightarrow> jstr \<Rightarrow> bool" for t where
  lit: "refers t (StringLiteral s) s"
| mem: "table_entry t (member_names ob pr) = Some w \<Longrightarrow> refers t w s \<Longrightarrow> refers t (MemberExpression ob pr c) s"

inductive_cases refers_memberE: "refers t (MemberExpression ob pr c) s"

lemma findRealValue_step:
  "table_entry t (member_names ob pr) = Some w \<Longrightarrow> findRealValue t (MemberExpression ob pr c) = findRealValue t w"
  by (subst findRealValue.simps) (auto simp: table_entry_def split: bind_splits prod.splits)

lemma refers_found: "refers t n s \<Longrightarrow> findRealValue t n = Some (Inr (Some (StringLiteral s)))"
  by (induction rule: refers.induct) (simp_all add: findRealValue_step findRealValue_other)

lemma found_refers:
  assumes "acyclic_total t rank" "findRealValue t n = Some (Inr (Some (StringLiteral s)))"
  shows "refers t n s"
proof (cases "isMemberExpression n")
  case False
  then show ?thesis using assms(2) findRealValue_other [OF False, of t] by (auto intro: refers.lit)
next
  case True
  then obtain ob pr c where "n = MemberExpression ob pr c" by (cases n) auto
  then show ?thesis using assms(2)
  proof (induction "rank (member_names ob pr)" arbitrary: n ob pr c rule: less_induct)
    case less
    obtain o' k where names: "member_names ob pr = (o', k)" by fastforce
    from less.prems obtain m w where w: "t o' = Some m" "m k = Some w"
      by (subst (asm) findRealValue.simps) (auto simp: names split: option.splits)
    then have e: "table_entry t (member_names ob pr) = Some w" by (simp add: table_entry_def names)
    have "refers t w s"
    proof (cases "isMemberExpression w")
      case True
      then obtain ob' pr' c' where w': "w = MemberExpression ob' pr' c'" by (cases w) auto
      have "rank (member_names ob' pr') < rank (member_names ob pr)"
        using assms(1) w w' names unfolding acyclic_total_def by metis
      from less.hyps [OF this w'] less.prems findRealValue_step [OF e] show ?thesis by simp
    next
      case False
      with less.prems findRealValue_step [OF e] findRealValue_other [OF False, of t] show ?thesis by (auto intro: refers.lit)
    qed
    then show ?case unfolding less.prems(1) using e by (rule refers.mem [rotated])
  qed
qed

text \<open>The table that is made from the changed declarators has the real value of every entry.\<close>

definition real_value :: "total \<Rightarrow> node \<Rightarrow> node" where
  "real_value t w = (case findRealValue t w of Some (Inr (Some r)) \<Rightarrow> r | _ \<Rightarrow> w)"

definition follows :: "total \<Rightarrow> total \<Rightarrow> total \<Rightarrow> bool" where
  "follows t a b \<longleftrightarrow> (\<forall>q. table_entry b q = map_option (real_value t) (table_entry a q) \<or> table_entry a q = None \<and> table_entry b q = table_entry t q) \<and>
     (\<forall>ob. (a ob \<noteq> None \<longrightarrow> b ob \<noteq> None) \<and> (b ob \<noteq> None \<longrightarrow> a ob \<noteq> None \<or> t ob \<noteq> None))"

definition follows1 :: "total \<Rightarrow> jstr \<Rightarrow> (jstr \<Rightarrow> node option) \<Rightarrow> (jstr \<Rightarrow> node option) \<Rightarrow> bool" where
  "follows1 t ob m m' \<longleftrightarrow> (\<forall>k. m' k = map_option (real_value t) (m k) \<or> m k = None \<and> m' k = table_entry t (ob, k))"

lemma map_sum_Inr [simp]: "map_sum id f r = Inr y \<longleftrightarrow> (\<exists>z. r = Inr z \<and> y = f z)"
  by (cases r) auto

lemma replaceValues_add:
  "replaceValues (findRealValue t) ps = Some (Inr ps') \<Longrightarrow> add_props m ps = Inr n \<Longrightarrow> follows1 t ob m m' \<Longrightarrow>
   \<exists>n'. add_props m' ps' = Inr n' \<and> follows1 t ob n n'"
proof (induction ps arbitrary: ps' m m')
  case (Cons p ps)
  show ?case
  proof (cases "\<exists>k v. p = ObjectProperty k v")
    case True
    then obtain k v where p: "p = ObjectProperty k v" by blast
    from Cons.prems(1) obtain qs where r: "replaceValues (findRealValue t) ps = Some (Inr qs)" and ps': "ps' = ObjectProperty k (real_value t v) # qs"
      unfolding p by (auto simp: real_value_def split: option.splits sum.splits)
    have "follows1 t ob (m(undef_text (literal_text k) := Some v)) (m'(undef_text (literal_text k) := Some (real_value t v)))"
      using Cons.prems(3) by (simp add: follows1_def)
    from Cons.IH [OF r _ this] Cons.prems(2) show ?thesis unfolding p ps' by (simp del: fun_upd_apply)
  next
    case False
    then have "replaceValues (findRealValue t) (p # ps) = map_option (map_sum id ((#) p)) (replaceValues (findRealValue t) ps)"
      by (cases p) simp_all
    with Cons.prems(1) obtain qs where qs: "replaceValues (findRealValue t) ps = Some (Inr qs)" "ps' = p # qs"
      by (simp del: replaceValues.simps) blast
    from Cons.prems(2) obtain k v where v: "prop_entry p = Inr (k, v)" "add_props (m(k := v)) ps = Inr n" by (auto split: sum.splits prod.splits)
    with False have "v = None" by (cases p) auto
    then have "follows1 t ob (m(k := v)) (m'(k := v))" using Cons.prems(3) by (simp add: follows1_def)
    from Cons.IH [OF qs(1) v(2) this] v(1) show ?thesis unfolding qs(2) by (simp del: fun_upd_apply)
  qed
qed simp

definition named :: "total \<Rightarrow> bool" where
  "named t \<longleftrightarrow> t (str ''undefined'') = None \<and> t [] = None"

lemma visit_follows:
  assumes "named t" "replaceValues (findRealValue t) ps = Some (Inr ps')" "follows t a b"
    and "generateObj_visit a (VariableDeclarator v (Some (ObjectExpression ps))) = Inr a1"
  shows "\<exists>b1. generateObj_visit b (VariableDeclarator v (Some (ObjectExpression ps'))) = Inr b1 \<and> follows t a1 b1"
proof (cases "a (undef_text (node_name v)) = None \<and> (node_name v = None \<or> node_name v = Some [])")
  case True
  then have "t (undef_text (node_name v)) = None" using assms(1) by (auto simp: named_def undef_text_def)
  then have "b (undef_text (node_name v)) = None" using True assms(3) by (auto simp: follows_def)
  then show ?thesis using True assms(3,4) by (auto simp: generateObj_visit_def object_init_def)
next
  case False
  let ?o = "undef_text (node_name v)"
  define m where "m = (case a ?o of Some m \<Rightarrow> m | None \<Rightarrow> Map.empty)"
  define m' where "m' = (case b ?o of Some m \<Rightarrow> m | None \<Rightarrow> Map.empty)"
  obtain n where n: "add_props m ps = Inr n" "a1 = a(?o := Some n)"
    using assms(4) False
    by (cases "a ?o") (auto simp: generateObj_visit_def object_init_def Let_def m_def split: sum.splits)
  have e: "table_entry a (?o, k) = m k" "table_entry b (?o, k) = m' k" for k
    by (auto simp: table_entry_def m_def m'_def split: option.splits)
  then have "follows1 t ?o m m'" using assms(3) unfolding follows_def follows1_def by metis
  from replaceValues_add [OF assms(2) n(1) this] obtain n' where n': "add_props m' ps' = Inr n'" "follows1 t ?o n n'" by blast
  have "generateObj_visit b (VariableDeclarator v (Some (ObjectExpression ps'))) = Inr (b(?o := Some n'))"
    using n'(1) False assms(3)
    by (cases "b ?o") (auto simp: generateObj_visit_def object_init_def Let_def m'_def follows_def)
  moreover have "follows t a1 (b(?o := Some n'))"
    using assms(3) n'(2) unfolding n(2) follows_def follows1_def by (auto simp: table_entry_def)
  ultimately show ?thesis by blast
qed

lemma generateObj_follows:
  "named t \<Longrightarrow> replaceDeclarators t ds = Some (Inr ds') \<Longrightarrow> generateObj a ds = Inr a' \<Longrightarrow> follows t a b \<Longrightarrow>
   \<exists>b'. generateObj b ds' = Inr b' \<and> follows t a' b'"
proof (induction ds arbitrary: ds' a b)
  case (Cons d ds)
  obtain d' es where e: "replaceDeclarator t d = Some (Inr d')" "replaceDeclarators t ds = Some (Inr es)" "ds' = d' # es"
    using Cons.prems(2) by (auto split: option.splits sum.splits)
  obtain a1 where a1: "generateObj_visit a d = Inr a1" "generateObj a1 ds = Inr a'"
    using Cons.prems(3) by (auto split: sum.splits)
  have "\<exists>b1. generateObj_visit b d' = Inr b1 \<and> follows t a1 b1"
  proof (cases "object_init d")
    case None
    then have "d' = d" using e(1) by (auto simp: replaceDeclarator_def object_init_def split: node.splits option.splits)
    then show ?thesis using None a1(1) Cons.prems(4) by (simp add: generateObj_visit_def)
  next
    case (Some np)
    then obtain v ps where d: "d = VariableDeclarator v (Some (ObjectExpression ps))" "np = (node_name v, ps)"
      by (auto simp: object_init_def split: node.splits option.splits)
    obtain ps' where ps': "replaceValues (findRealValue t) ps = Some (Inr ps')" "d' = VariableDeclarator v (Some (ObjectExpression ps'))"
      using e(1) unfolding d by (auto simp: replaceDeclarator_def)
    show ?thesis
      using visit_follows [OF Cons.prems(1) ps'(1) Cons.prems(4)] a1(1) unfolding d(1) ps'(2) by blast
  qed
  then obtain b1 where "generateObj_visit b d' = Inr b1" "follows t a1 b1" by blast
  with Cons.IH [OF Cons.prems(1) e(2) a1(2)] show ?case unfolding e(3) by auto
qed simp

text \<open>No step raises an exception when every object that a reference names is in the table.\<close>

definition known_objects :: "total \<Rightarrow> node list \<Rightarrow> bool" where
  "known_objects t ps \<longleftrightarrow> (\<forall>k ob pr c. ObjectProperty k (MemberExpression ob pr c) \<in> set ps \<longrightarrow> t (fst (member_names ob pr)) \<noteq> None)"

definition known :: "total \<Rightarrow> node list \<Rightarrow> bool" where
  "known t ds \<longleftrightarrow> (\<forall>d \<in> set ds. \<forall>v ps. d = VariableDeclarator v (Some (ObjectExpression ps)) \<longrightarrow> known_objects t ps)"

lemma add_props_from: "add_props m ps = Inr n \<Longrightarrow> n k = Some w \<Longrightarrow> m k = Some w \<or> (\<exists>k'. ObjectProperty k' w \<in> set ps)"
proof (induction ps arbitrary: m)
  case (Cons p ps)
  obtain k0 v where p: "prop_entry p = Inr (k0, v)" "add_props (m(k0 := v)) ps = Inr n" using Cons.prems(1) by (auto split: sum.splits prod.splits)
  then have "v = Some w \<Longrightarrow> \<exists>k'. p = ObjectProperty k' w" by (cases p) auto
  then show ?case using Cons.IH [OF p(2) Cons.prems(2)] by (auto split: if_splits)
qed simp

lemma generateObj_from:
  "generateObj a ds = Inr t \<Longrightarrow> table_entry t q = Some w \<Longrightarrow>
   table_entry a q = Some w \<or> (\<exists>v ps k. VariableDeclarator v (Some (ObjectExpression ps)) \<in> set ds \<and> ObjectProperty k w \<in> set ps)"
proof (induction ds arbitrary: a)
  case (Cons d ds)
  obtain a1 where a1: "generateObj_visit a d = Inr a1" "generateObj a1 ds = Inr t" using Cons.prems(1) by (auto split: sum.splits)
  have "table_entry a q = Some w \<or> (\<exists>v ps k. d = VariableDeclarator v (Some (ObjectExpression ps)) \<and> ObjectProperty k w \<in> set ps)"
    if e: "table_entry a1 q = Some w"
  proof (cases "a1 = a")
    case False
    then obtain v ps m n where d: "d = VariableDeclarator v (Some (ObjectExpression ps))" "add_props m ps = Inr n"
      "a1 = a(undef_text (node_name v) := Some n)" "\<forall>k. m k = table_entry a (undef_text (node_name v), k)"
      using a1(1) by (auto simp: generateObj_visit_def object_init_def Let_def table_entry_def split: node.splits option.splits sum.splits if_splits)
    show ?thesis
    proof (cases "fst q = undef_text (node_name v)")
      case True
      then have "n (snd q) = Some w" using e unfolding d(3) by (simp add: table_entry_def)
      then show ?thesis using add_props_from [OF d(2)] d(1,4) True by (metis prod.collapse)
    next
      case False
      then show ?thesis using e unfolding d(3) by (simp add: table_entry_def)
    qed
  qed (use e in simp)
  moreover have "\<exists>v ps k. VariableDeclarator v (Some (ObjectExpression ps)) \<in> set (d # ds) \<and> ObjectProperty k w \<in> set ps"
    if "VariableDeclarator v (Some (ObjectExpression ps)) \<in> set ds" "ObjectProperty k w \<in> set ps" for v ps k
    using that by (intro exI [of _ v] exI [of _ ps] exI [of _ k]) simp
  ultimately show ?case using Cons.IH [OF a1(2) Cons.prems(2)] by (metis list.set_intros(1))
qed simp

lemma findRealValue_returns:
  assumes "acyclic_total t rank" "\<And>q ob pr c. table_entry t q = Some (MemberExpression ob pr c) \<Longrightarrow> t (fst (member_names ob pr)) \<noteq> None"
    and "\<And>ob pr c. n = MemberExpression ob pr c \<Longrightarrow> t (fst (member_names ob pr)) \<noteq> None"
  shows "\<exists>r. findRealValue t n = Some (Inr r)"
proof (cases "isMemberExpression n")
  case True
  then obtain ob pr c where "n = MemberExpression ob pr c" by (cases n) auto
  then show ?thesis using assms(3)
  proof (induction "rank (member_names ob pr)" arbitrary: n ob pr c rule: less_induct)
    case less
    show ?case
    proof (cases "table_entry t (member_names ob pr)")
      case None
      then show ?thesis using less.prems unfolding less.prems(1)
        by (subst findRealValue.simps) (auto simp: table_entry_def split: option.splits bind_splits prod.splits)
    next
      case (Some w)
      show ?thesis
      proof (cases "isMemberExpression w")
        case True
        then obtain ob' pr' c' where w: "w = MemberExpression ob' pr' c'" by (cases w) auto
        obtain m where "t (fst (member_names ob pr)) = Some m" "m (snd (member_names ob pr)) = Some w"
          using Some by (auto simp: table_entry_def split: bind_splits)
        then have "rank (member_names ob' pr') < rank (member_names ob pr)"
          using assms(1) w unfolding acyclic_total_def by (metis prod.collapse)
        from less.hyps [OF this w] assms(2) [of "member_names ob pr"] Some w show ?thesis
          unfolding less.prems(1) findRealValue_step [OF Some] by blast
      next
        case False
        then show ?thesis unfolding less.prems(1) findRealValue_step [OF Some] findRealValue_other [OF False] by blast
      qed
    qed
  qed
qed (simp add: findRealValue_other)

lemma replaceDeclarators_returns:
  assumes "acyclic_total t rank" "generateObj Map.empty ds0 = Inr t" "known t ds0"
  shows "set ds \<subseteq> set ds0 \<Longrightarrow> \<exists>ds'. replaceDeclarators t ds = Some (Inr ds')"
proof (induction ds)
  case (Cons d ds)
  have ent: "t (fst (member_names ob pr)) \<noteq> None" if e: "table_entry t q = Some (MemberExpression ob pr c)" for q ob pr c
  proof -
    obtain v ps k where "VariableDeclarator v (Some (ObjectExpression ps)) \<in> set ds0" "ObjectProperty k (MemberExpression ob pr c) \<in> set ps"
      using generateObj_from [OF assms(2) e] by (auto simp: table_entry_def)
    then show ?thesis using assms(3) unfolding known_def known_objects_def by blast
  qed
  have vals: "\<exists>ps'. replaceValues (findRealValue t) ps = Some (Inr ps')" if "known_objects t ps" for ps
    using that
  proof (induction ps)
    case (Cons p ps)
    have "known_objects t ps" using Cons.prems unfolding known_objects_def by (meson list.set_intros(2))
    from Cons.IH [OF this] obtain qs where qs: "replaceValues (findRealValue t) ps = Some (Inr qs)" by blast
    show ?case
    proof (cases "\<exists>k v. p = ObjectProperty k v")
      case True
      then obtain k v where p: "p = ObjectProperty k v" by blast
      have "\<exists>r. findRealValue t v = Some (Inr r)"
      proof (rule findRealValue_returns [OF assms(1)])
        fix ob pr c assume "v = MemberExpression ob pr c"
        then show "t (fst (member_names ob pr)) \<noteq> None" using Cons.prems unfolding p known_objects_def by (metis list.set_intros(1))
      qed (rule ent)
      then obtain r where "findRealValue t v = Some (Inr r)" by blast
      then show ?thesis using qs by (simp add: p)
    next
      case False
      then show ?thesis using qs by (cases p) simp_all
    qed
  qed simp
  have "\<exists>d'. replaceDeclarator t d = Some (Inr d')"
  proof (cases "\<exists>v ps. d = VariableDeclarator v (Some (ObjectExpression ps))")
    case True
    then obtain v ps where d: "d = VariableDeclarator v (Some (ObjectExpression ps))" by blast
    then have "known_objects t ps" using assms(3) Cons.prems unfolding known_def by auto
    from vals [OF this] show ?thesis by (auto simp: d replaceDeclarator_def)
  next
    case False
    then have "replaceDeclarator t d = Some (Inr d)" by (auto simp: replaceDeclarator_def split: node.splits option.splits)
    then show ?thesis by blast
  qed
  with Cons show ?case by auto
qed simp

lemma replaceMember_cases:
  "replaceMember t (MemberExpression ob pr c) =
    (case table_entry t (member_names ob pr) of Some (StringLiteral s) \<Rightarrow> StringLiteral s | _ \<Rightarrow> MemberExpression ob pr c)"
  by (auto simp: replaceMember_def table_entry_def split: prod.splits option.splits)

lemma real_value_text: "acyclic_total t rank \<Longrightarrow> real_value t w = StringLiteral s \<longleftrightarrow> refers t w s"
  using found_refers [of t rank w s] refers_found [of t w s]
  by (cases w) (auto simp: real_value_def findRealValue_other split: option.splits sum.splits)

lemma refers_member_iff: "refers t (MemberExpression ob pr c) s \<longleftrightarrow> (\<exists>w. table_entry t (member_names ob pr) = Some w \<and> refers t w s)"
  by (auto elim: refers_memberE intro: refers.mem)

lemma refers_value:
  assumes "describes S l g t"
  shows "refers t n s \<Longrightarrow> ev S l n g v g' \<Longrightarrow> v = VStr s \<and> g' = g"
proof (induction arbitrary: v g' rule: refers.induct)
  case (mem ob pr w s c)
  obtain o' k where names: "member_names ob pr = (o', k)" by fastforce
  with mem(1) obtain m where "t o' = Some m" "m k = Some w" by (auto simp: table_entry_def split: bind_splits)
  from describes_member(1) [OF assms names this mem(4)] mem(3) show ?case by blast
qed simp

text \<open>C39: the tool for objects of texts ends, when the references between the objects have no cycle and name known objects, and its last
  traversal then replaces every reference that leads to a text, in any number of steps, by that text, and no other; the text is the value
  of the reference in every state that the table describes.\<close>

theorem references_resolved:
  assumes "generateObj Map.empty ds = Inr t" "acyclic_total t rank" "known t ds" "t (str ''undefined'') = None" "t [] = None"
  shows "\<exists>ds' t'. restoreTexts ds = Some (Inr (ds', t')) \<and>
    (\<forall>ob pr c s. replaceMember t' (MemberExpression ob pr c) = StringLiteral s \<longleftrightarrow> refers t (MemberExpression ob pr c) s) \<and>
    (\<forall>ob pr c. (\<nexists>s. refers t (MemberExpression ob pr c) s) \<longrightarrow> replaceMember t' (MemberExpression ob pr c) = MemberExpression ob pr c) \<and>
    (\<forall>S l g n s v g'. describes S l g t \<longrightarrow> refers t n s \<longrightarrow> ev S l n g v g' \<longrightarrow> v = VStr s \<and> g' = g)"
proof -
  obtain ds' where ds': "replaceDeclarators t ds = Some (Inr ds')"
    using replaceDeclarators_returns [OF assms(2,1,3)] by blast
  have "follows t Map.empty t" by (simp add: follows_def table_entry_def)
  moreover have "named t" using assms(4,5) by (simp add: named_def)
  ultimately obtain t' where t': "generateObj t ds' = Inr t'" "follows t t t'"
    using generateObj_follows [OF _ ds' assms(1)] by blast
  have ent: "table_entry t' q = map_option (real_value t) (table_entry t q)" for q using t'(2) unfolding follows_def by (metis option.map(1))
  have "restoreTexts ds = Some (Inr (ds', t'))" using assms(1) ds' t'(1) by (simp add: restoreTexts_def)
  moreover have "replaceMember t' (MemberExpression ob pr c) = StringLiteral s \<longleftrightarrow> refers t (MemberExpression ob pr c) s" for ob pr c s
    unfolding replaceMember_cases ent refers_member_iff real_value_text [OF assms(2), symmetric]
    by (cases "table_entry t (member_names ob pr)") (auto split: node.splits)
  moreover have "replaceMember t' n = n \<or> (\<exists>s. replaceMember t' n = StringLiteral s)" for n
    by (auto simp: replaceMember_def split: node.splits prod.splits option.splits)
  moreover note refers_value
  ultimately show ?thesis by (intro exI [of _ ds'] exI [of _ t'] conjI allI impI) metis+
qed

theorem references_resolved_witness:
  "\<exists>ds' t'. restoreTexts [VariableDeclarator (Identifier (str ''p'')) (Some (ObjectExpression
        [ObjectProperty (StringLiteral (str ''a'')) (MemberExpression (Identifier (str ''q'')) (StringLiteral (str ''b'')) True)])),
      VariableDeclarator (Identifier (str ''q'')) (Some (ObjectExpression [ObjectProperty (StringLiteral (str ''b'')) (StringLiteral (str ''2|1''))]))] =
      Some (Inr (ds', t')) \<and>
    replaceMember t' (MemberExpression (Identifier (str ''p'')) (StringLiteral (str ''a'')) True) = StringLiteral (str ''2|1'')"
    (is "\<exists>ds' t'. restoreTexts ?ds = _ \<and> replaceMember t' ?n = _")
proof -
  let ?t = "[str ''p'' \<mapsto> [str ''a'' \<mapsto> MemberExpression (Identifier (str ''q'')) (StringLiteral (str ''b'')) True],
      str ''q'' \<mapsto> [str ''b'' \<mapsto> StringLiteral (str ''2|1'')]]"
  have gen: "generateObj Map.empty ?ds = Inr ?t"
    by (simp add: generateObj_visit_def object_init_def undef_text_def str_def Let_def)
  have acyc: "acyclic_total ?t (\<lambda>(ob, k). if ob = str ''p'' then 1 else 0)"
    by (auto simp: acyclic_total_def member_names_def undef_text_def str_def split: if_splits)
  have kn: "known ?t ?ds" by (auto simp: known_def known_objects_def member_names_def undef_text_def)
  have und: "?t (str ''undefined'') = None" "?t [] = None" by (simp_all add: str_def)
  have "refers ?t ?n (str ''2|1'')"
    by (simp add: refers_member_iff table_entry_def member_names_def undef_text_def str_def refers.lit)
  with references_resolved [OF gen acyc kn und] show ?thesis by blast
qed

section \<open>Calls of one-line functions\<close>

abbreviation one_line_function :: "jstr \<Rightarrow> jstr \<Rightarrow> node \<Rightarrow> node" where
  "one_line_function x y e \<equiv> FunctionExpression [Identifier x, Identifier y] (BlockStatement [ReturnStatement (Some e)])"

abbreviation table_call :: "jstr \<Rightarrow> jstr \<Rightarrow> node \<Rightarrow> node \<Rightarrow> node" where
  "table_call obj k a b \<equiv> CallExpression (MemberExpression (Identifier obj) (StringLiteral k) True) [a, b]"

lemma replaceCall_entry:
  assumes "totalObj obj = Some m" "m k = Some (one_line_function x y e)"
  shows "replaceCall totalObj (table_call obj k a b) =
    (case e of BinaryExpression op l r \<Rightarrow> Inr (BinaryExpression op a b) | CallExpression f bs \<Rightarrow> Inr (CallExpression a [b]) | _ \<Rightarrow> Inr (table_call obj k a b))"
  using assms by (simp add: replaceCall_def member_names_def undef_text_def split: node.splits)

text \<open>A call of a function of the table that applies an operator to its two parameters in their order is replaced by the operator
  applied to the arguments, which evaluates to the same value with the same effects.\<close>

theorem operator_calls_restored:
  assumes "describes S l g totalObj" "totalObj obj = Some m" "x \<noteq> y"
    and "m k = Some (one_line_function x y (BinaryExpression op (Identifier x) (Identifier y)))"
  shows "\<exists>n. replaceCall totalObj (table_call obj k a b) = Inr n \<and> n = BinaryExpression op a b \<and>
    (ev S l n g v g' \<longleftrightarrow> ev S l (table_call obj k a b) g v g')"
proof -
  let ?b = "BlockStatement [ReturnStatement (Some (BinaryExpression op (Identifier x) (Identifier y)))]"
  have names: "member_names (Identifier obj) (StringLiteral k) = (obj, k)" by (simp add: member_names_def undef_text_def)
  have "ev S l (FunctionExpression (map Identifier [x, y]) ?b) g (VFun [x, y] ?b) g" by (rule ev_evs.func)
  then have "ev S l (MemberExpression (Identifier obj) (StringLiteral k) True) g (VFun [x, y] ?b) g"
    by (intro describes_member(2) [OF assms(1) names assms(2,4)]) simp_all
  from op_call_ev [OF assms(3) this] replaceCall_entry [of totalObj obj m k x y _ a b] assms(2,4) show ?thesis by simp
qed

theorem operator_calls_restored_witness:
  "replaceCall [str ''o'' \<mapsto> [str ''k'' \<mapsto> one_line_function (str ''p'') (str ''q'') (BinaryExpression (str ''^'') (Identifier (str ''p'')) (Identifier (str ''q'')))]]
     (table_call (str ''o'') (str ''k'') (NumericLiteral 6) (NumericLiteral 3)) =
   Inr (BinaryExpression (str ''^'') (NumericLiteral 6) (NumericLiteral 3))"
    (is "replaceCall ?t (table_call ?o ?k ?a ?b) = Inr ?n")
proof -
  let ?S = "\<lparr>sem_binop = (\<lambda>op a b. None), sem_prop = (\<lambda>v k. None), sem_native = (\<lambda>f vs. None)\<rparr>"
  let ?body = "BlockStatement [ReturnStatement (Some (BinaryExpression (str ''^'') (Identifier (str ''p'')) (Identifier (str ''q''))))]"
  let ?g = "[?o \<mapsto> VObj [(?k, VFun [str ''p'', str ''q''] ?body)]]"
  have f: "ev ?S Map.empty (FunctionExpression (map Identifier [str ''p'', str ''q'']) ?body) ?g (VFun [str ''p'', str ''q''] ?body) ?g"
    by (rule ev_evs.func)
  have "?o \<noteq> str ''undefined''" "?k \<noteq> str ''undefined''" by (simp_all add: str_def)
  with f have "describes ?S Map.empty ?g ?t" by (auto simp: describes_def split: if_splits)
  moreover have "?t ?o = Some [?k \<mapsto> one_line_function (str ''p'') (str ''q'') (BinaryExpression (str ''^'') (Identifier (str ''p'')) (Identifier (str ''q'')))]"
    by simp
  ultimately show ?thesis
    using operator_calls_restored [where S = ?S and l = Map.empty and g = ?g and totalObj = ?t and obj = ?o and x = "str ''p''" and y = "str ''q''"
      and k = ?k and op = "str ''^''" and a = ?a and b = ?b and v = "VNum 5" and g' = ?g]
    by (auto simp: str_def)
qed








lemma entry_update:
  "table_entry (update_entry cell t q f) q' = (if table_entry t q' \<noteq> None \<and> cell q' = cell q then Some f else table_entry t q')"
  by (cases q'; cases "t (fst q')") (auto simp: table_entry_def update_entry_def)















text \<open>
  In another order a chain of two calls breaks: \<open>findRealFunc\<close> finds nothing for a function that only calls another one-line function, so the
  chain stays in the table; and when the traversal comes to the outer function while the function it calls still returns a call, it
  makes the outer one call its first parameter, and later calls of it calls of their first argument.
\<close>

theorem outer_first_broken:
  assumes "table_entry t (ob, k) = Some (one_line_function x y (table_call ob' k' (Identifier x) (Identifier y)))"
    and "table_entry t (ob', k') = Some (one_line_function x' y' (CallExpression g as))"
  shows "\<exists>t'. visit_entry cell t (ob, k) = Inr t' \<and> replaceCall t' (table_call ob k a b) = Inr (CallExpression a [b])"
proof -
  let ?f = "one_line_function x y (CallExpression (Identifier x) [Identifier y])"
  have "replaceCall t (table_call ob' k' (Identifier x) (Identifier y)) = Inr (CallExpression (Identifier x) [Identifier y])"
    using assms(2) replaceCall_entry [of t ob' _ k' x' y'] by (auto simp: table_entry_def split: bind_splits)
  then have "visit_entry cell t (ob, k) = Inr (update_entry cell t (ob, k) ?f)"
    using assms(1) by (simp add: visit_entry_def returned_def)
  moreover have "table_entry (update_entry cell t (ob, k) ?f) (ob, k) = Some ?f" using assms(1) by (simp add: entry_update)
  then have "replaceCall (update_entry cell t (ob, k) ?f) (table_call ob k a b) = Inr (CallExpression a [b])"
    using replaceCall_entry [of _ ob _ k x y] by (auto simp: table_entry_def split: bind_splits)
  ultimately show ?thesis by blast
qed

theorem findRealFunc_chain:
  assumes "totalObj obj = Some m" "m k = Some (one_line_function x y (table_call obj k' (Identifier x) (Identifier y)))"
    and "m k' = Some (one_line_function x' y' (BinaryExpression op (Identifier x') (Identifier y')))"
  shows "findRealFunc totalObj (m k) = Some (Inr None)"
proof -
  have "findRealFunc totalObj (m k') = Some (Inr None)"
    by (subst findRealFunc.simps) (simp add: assms(3) one_line_def)
  then show ?thesis
    using assms(1,2) by (subst findRealFunc.simps) (simp add: one_line_def member_names_def undef_text_def)
qed

section \<open>Numbers, commas and branches\<close>

lemma restoreNumber_encrypted:
  assumes "0 \<le> v" "v < 2147483648" "\<And>a b. evaluate (BinaryExpression (str ''^'') (NumericLiteral a) (NumericLiteral b)) = Some (js_xor a b)"
  shows "restoreNumber evaluate (numericEncrypt r (NumericLiteral v)) = NumericLiteral v"
  using assms by (simp add: restoreNumber_def Let_def js_xor_twice)

lemma evs_append: "evs S l (xs @ ys) g vs g' \<longleftrightarrow> (\<exists>us ws g1. vs = us @ ws \<and> evs S l xs g us g1 \<and> evs S l ys g1 ws g')"
proof (induction xs arbitrary: g vs)
  case (Cons x xs)
  then show ?case by (auto simp: Cons_eq_append_conv) blast+
qed auto

lemma restoreComma_ev:
  assumes "es \<noteq> []"
  shows "restoreComma (SequenceExpression es) = (map ExpressionStatement (butlast es), last es) \<and>
    (ev S l (SequenceExpression es) g v g' \<longleftrightarrow> (\<exists>us g1. evs S l (butlast es) g us g1 \<and> ev S l (last es) g1 v g'))"
proof
  have "evs S l es g vs g' \<longleftrightarrow> (\<exists>us w g1. vs = us @ [w] \<and> evs S l (butlast es) g us g1 \<and> ev S l (last es) g1 w g')" for vs
    using evs_append [of S l "butlast es" "[last es]" g vs g'] append_butlast_last_id [OF assms] by auto
  then show "ev S l (SequenceExpression es) g v g' \<longleftrightarrow> (\<exists>us g1. evs S l (butlast es) g us g1 \<and> ev S l (last es) g1 v g')"
    by (force simp: ev_SequenceExpression)
qed (simp add: restoreComma_def)

text \<open>The meaning of a branch, whose condition is a function of the state without effects.\<close>

fun run_if :: "('s, 'v) exec \<Rightarrow> (node \<Rightarrow> 's \<Rightarrow> bool) \<Rightarrow> node \<Rightarrow> 's \<Rightarrow> ('s \<times> 'v completion) option" where
  "run_if exec holds (IfStatement t c a) s =
     (if holds t s then run_body exec (block_statements c) s
      else case a of Some b \<Rightarrow> run_body exec (block_statements b) s | None \<Rightarrow> Some (s, Normal))"
| "run_if exec holds n s = exec n s"

text \<open>For a condition that Babel can evaluate, the tool against useless code replaces a branch by statements that run as the branch does; a
  branch whose condition depends on the state is deleted as a whole, so that neither part runs.\<close>

theorem branches_with_known_condition:
  assumes "\<And>s. exec (IfStatement t c a) s = run_if exec holds (IfStatement t c a) s"
    and "\<And>b s. evaluateTruthy t = Some b \<Longrightarrow> holds t s = b"
  shows "(\<forall>b. evaluateTruthy t = Some b \<longrightarrow>
      run_body exec (removeDead evaluateTruthy (IfStatement t c a)) s = run_body exec [IfStatement t c a] s) \<and>
    (evaluateTruthy t = None \<longrightarrow> run_body exec (removeDead evaluateTruthy (IfStatement t c a)) s = Some (s, Normal))"
proof (intro conjI allI impI)
  have one: "run_body exec [IfStatement t c a] s = exec (IfStatement t c a) s"
    by (simp add: exec1_def split: option.splits)
  fix b assume b: "evaluateTruthy t = Some b"
  then have h: "holds t s = b" by (rule assms(2))
  show "run_body exec (removeDead evaluateTruthy (IfStatement t c a)) s = run_body exec [IfStatement t c a] s"
  proof (cases "b \<or> a \<noteq> None")
    case True
    then have "run_body exec (removeDead evaluateTruthy (IfStatement t c a)) s = run_if exec holds (IfStatement t c a) s"
      using b h by (cases b) (auto simp: removeDead_def)
    then show ?thesis by (simp only: one assms(1))
  next
    case False
    then have "removeDead evaluateTruthy (IfStatement t c a) = [IfStatement t c a]" using b by (simp add: removeDead_def)
    then show ?thesis by simp
  qed
qed (simp add: removeDead_def)

theorem branches_with_known_condition_witness:
  "run_body adding (removeDead (\<lambda>n. Some True) (IfStatement (Identifier (str ''debug'')) (BlockStatement [ThisExpression]) None)) 7 = Some (7, Normal)"
proof -
  have "adding (IfStatement (Identifier (str ''debug'')) (BlockStatement [ThisExpression]) None) s =
      run_if adding (\<lambda>n s. True) (IfStatement (Identifier (str ''debug'')) (BlockStatement [ThisExpression]) None) s" for s
    by (simp add: block_statements_def exec1_def)
  from branches_with_known_condition [OF this, of "\<lambda>n. Some True" 7] have
    "run_body adding (removeDead (\<lambda>n. Some True) (IfStatement (Identifier (str ''debug'')) (BlockStatement [ThisExpression]) None)) 7 =
      run_body adding [IfStatement (Identifier (str ''debug'')) (BlockStatement [ThisExpression]) None] 7" by blast
  then show ?thesis by (simp add: exec1_def)
qed

end
