(* ===== verification/Qq_Md5.thy ===== *)
theory Qq_Md5
  imports Md5_Hmac
begin

text \<open>
  The MD5 of \<^verbatim>\<open>QQ/js/pwd.js\<close>, which prints its digest in upper-case digits. The functions keep their letters behind the prefix
  \<open>qq_\<close>; \<open>qq_add\<close> is \<^verbatim>\<open>l_\<close>. The registers \<^verbatim>\<open>n, o, i, r\<close> of \<^verbatim>\<open>l\<close> are the components of \<open>js_regs\<close>.
\<close>

section \<open>The round functions\<close>

definition qq_add :: "int \<Rightarrow> int \<Rightarrow> int" where
  "qq_add t e = (let n = js_and 65535 t + js_and 65535 e in
     js_or (js_shl (js_shr t 16 + js_shr e 16 + js_shr n 16) 16) (js_and 65535 n))"

definition qq_d :: "int \<Rightarrow> int \<Rightarrow> int \<Rightarrow> int \<Rightarrow> int \<Rightarrow> int \<Rightarrow> int" where
  "qq_d t e n k i r = (let r = qq_add (qq_add e t) (qq_add k r) in
     qq_add (js_or (js_shl r i) (js_ushr r (32 - i))) n)"

definition qq_p :: round_fun where
  "qq_p t e n k i r a = qq_d (js_or (js_and e n) (js_and (js_not e) k)) t e i r a"

definition qq_h :: round_fun where
  "qq_h t e n k i r a = qq_d (js_or (js_and e k) (js_and n (js_not k))) t e i r a"

definition qq_g :: round_fun where
  "qq_g t e n k i r a = qq_d (js_xor (js_xor e n) k) t e i r a"

definition qq_m :: round_fun where
  "qq_m t e n k i r a = qq_d (js_xor n (js_or e (js_not k))) t e i r a"

section \<open>The block loop\<close>

definition qq_stmts :: "(int \<Rightarrow> int) \<Rightarrow> (js_regs \<Rightarrow> js_regs) list" where
  "qq_stmts x =
    [
     asg_a qq_p (x 0) 7 (- 680876936), asg_d qq_p (x 1) 12 (- 389564586),
     asg_c qq_p (x 2) 17 606105819, asg_b qq_p (x 3) 22 (- 1044525330),
     asg_a qq_p (x 4) 7 (- 176418897), asg_d qq_p (x 5) 12 1200080426,
     asg_c qq_p (x 6) 17 (- 1473231341), asg_b qq_p (x 7) 22 (- 45705983),
     asg_a qq_p (x 8) 7 1770035416, asg_d qq_p (x 9) 12 (- 1958414417),
     asg_c qq_p (x 10) 17 (- 42063), asg_b qq_p (x 11) 22 (- 1990404162),
     asg_a qq_p (x 12) 7 1804603682, asg_d qq_p (x 13) 12 (- 40341101),
     asg_c qq_p (x 14) 17 (- 1502002290), asg_b qq_p (x 15) 22 1236535329,
     asg_a qq_h (x 1) 5 (- 165796510), asg_d qq_h (x 6) 9 (- 1069501632),
     asg_c qq_h (x 11) 14 643717713, asg_b qq_h (x 0) 20 (- 373897302),
     asg_a qq_h (x 5) 5 (- 701558691), asg_d qq_h (x 10) 9 38016083,
     asg_c qq_h (x 15) 14 (- 660478335), asg_b qq_h (x 4) 20 (- 405537848),
     asg_a qq_h (x 9) 5 568446438, asg_d qq_h (x 14) 9 (- 1019803690),
     asg_c qq_h (x 3) 14 (- 187363961), asg_b qq_h (x 8) 20 1163531501,
     asg_a qq_h (x 13) 5 (- 1444681467), asg_d qq_h (x 2) 9 (- 51403784),
     asg_c qq_h (x 7) 14 1735328473, asg_b qq_h (x 12) 20 (- 1926607734),
     asg_a qq_g (x 5) 4 (- 378558), asg_d qq_g (x 8) 11 (- 2022574463),
     asg_c qq_g (x 11) 16 1839030562, asg_b qq_g (x 14) 23 (- 35309556),
     asg_a qq_g (x 1) 4 (- 1530992060), asg_d qq_g (x 4) 11 1272893353,
     asg_c qq_g (x 7) 16 (- 155497632), asg_b qq_g (x 10) 23 (- 1094730640),
     asg_a qq_g (x 13) 4 681279174, asg_d qq_g (x 0) 11 (- 358537222),
     asg_c qq_g (x 3) 16 (- 722521979), asg_b qq_g (x 6) 23 76029189,
     asg_a qq_g (x 9) 4 (- 640364487), asg_d qq_g (x 12) 11 (- 421815835),
     asg_c qq_g (x 15) 16 530742520, asg_b qq_g (x 2) 23 (- 995338651),
     asg_a qq_m (x 0) 6 (- 198630844), asg_d qq_m (x 7) 10 1126891415,
     asg_c qq_m (x 14) 15 (- 1416354905), asg_b qq_m (x 5) 21 (- 57434055),
     asg_a qq_m (x 12) 6 1700485571, asg_d qq_m (x 3) 10 (- 1894986606),
     asg_c qq_m (x 10) 15 (- 1051523), asg_b qq_m (x 1) 21 (- 2054922799),
     asg_a qq_m (x 8) 6 1873313359, asg_d qq_m (x 15) 10 (- 30611744),
     asg_c qq_m (x 6) 15 (- 1560198380), asg_b qq_m (x 13) 21 1309151649,
     asg_a qq_m (x 4) 6 (- 145523070), asg_d qq_m (x 11) 10 (- 1120210379),
     asg_c qq_m (x 2) 15 718787259, asg_b qq_m (x 9) 21 (- 343485551)]"

definition qq_loop :: "int option list \<Rightarrow> int \<Rightarrow> js_regs \<Rightarrow> js_regs" where
  "qq_loop t a r = js_for a (int (length t)) 16
     (\<lambda>a r. add_regs qq_add (run_stmts (qq_stmts (\<lambda>k. arr_bits t (a + k))) r) r) r"

definition qq_l :: "int option list \<Rightarrow> int \<Rightarrow> js_regs" where
  "qq_l t e =
     (let t = arr_set t (js_shr e 5) (js_or (arr_bits t (js_shr e 5)) (js_shl 128 (e mod 32)));
          t = arr_set t (14 + js_shl (js_ushr (e + 64) 9) 4) e
      in qq_loop t 0 (1732584193, - 271733879, - 1732584194, 271733878))"

section \<open>Strings\<close>

definition qq_y :: "jstr \<Rightarrow> int option list" where
  "qq_y t = js_for 0 (int (length t) * 8) 8
     (\<lambda>k e. arr_set e (js_shr k 5) (js_or (arr_bits e (js_shr k 5))
        (js_shl (js_and (bits_of (char_code_at t (k div 8))) (js_shl 1 8 - 1)) (k mod 32)))) []"

definition qq_v :: "int option list \<Rightarrow> jstr" where
  "qq_v t = js_for 0 (4 * int (length t)) 1
     (\<lambda>k n. n @ char_at (str ''0123456789ABCDEF'') (js_and (js_shr (arr_bits t (js_shr k 2)) (k mod 4 * 8 + 4)) 15)
          @ char_at (str ''0123456789ABCDEF'') (js_and (js_shr (arr_bits t (js_shr k 2)) (k mod 4 * 8)) 15)) []"

definition qq_c :: "jstr \<Rightarrow> jstr" where
  "qq_c t = qq_v (regs_array (qq_l (qq_y t) (int (length t) * 8)))"

section \<open>The script meets the contracts\<close>

lemma qq_add_word: "w32 (qq_add u z) = w32 u + w32 z"
  using safe_add_word [OF refl, of u z] by (simp add: qq_add_def Let_def js_and_comm [of 65535])

lemma qq_cmn_word:
  "0 < z \<Longrightarrow> z < 32 \<Longrightarrow>
     w32 (qq_d A w v u z y) = w32 v + word_rotl (nat z) (w32 w + w32 A + w32 u + w32 y)"
  by (simp add: qq_d_def Let_def qq_add_word w32_js_rotate algebra_simps)

lemmas qq_round_defs =
  round_ok_def md5_mix_def qq_p_def qq_h_def qq_g_def qq_m_def qq_cmn_word
  md5_F_def md5_G_def md5_H_def md5_I_def js_w32 xor.assoc

interpretation qq_rounds: md5_rounds qq_p qq_h qq_g qq_m
  by unfold_locales (simp_all add: qq_round_defs)

lemma qq_stmts_refine:
  "list_all2 (\<lambda>st op. refines_op st (\<lambda>k. w32 (X (int k))) op) (qq_stmts X) (md5_ops md5_T)"
  unfolding qq_stmts_def md5_ops_def md5_schedule_list md5_T_def
  by (simp add: asg_refines qq_rounds.ff_ok qq_rounds.gg_ok qq_rounds.hh_ok qq_rounds.ii_ok)

interpretation qq_script: md5_core_script qq_p qq_h qq_g qq_m md5_T qq_add qq_stmts qq_loop qq_l
proof
  show "w32 (qq_add x y) = w32 x + w32 y" for x y
    by (rule qq_add_word)
  show "list_all2 (\<lambda>st op. refines_op st (\<lambda>k. w32 (X (int k))) op) (qq_stmts X) (md5_ops md5_T)" for X
    by (rule qq_stmts_refine)
  show "qq_loop e d r =
      (if d < int (length e)
       then qq_loop e (d + 16) (add_regs qq_add (run_stmts (qq_stmts (\<lambda>k. arr_bits e (d + k))) r) r)
       else r)" for e d r
    unfolding qq_loop_def by (subst js_for.simps) simp
  show "qq_l e n = qq_loop (pad_in_place e n) 0 (1732584193, - 271733879, - 1732584194, 271733878)" for e n
    by (simp add: qq_l_def pad_in_place_def or_at_def Let_def add.commute [of 14])
qed

lemma qq_y_array:
  assumes "8 * int (length s) < 2147483648"
  shows "msg_array (qq_y s) (map (\<lambda>c. c mod 256) s)"
proof -
  let ?v = "\<lambda>i. js_and (bits_of (char_code_at s (i div 8))) (js_shl 1 8 - 1)"
  have "qq_y s = js_for 0 (8 * int (length s)) 8 (\<lambda>i t. or_at t i (?v i)) []"
    by (simp add: qq_y_def or_at_def mult.commute)
  moreover have "js_shl 1 8 - 1 = 255"
    by (simp add: js_shl_def push_bit_eq_mult)
  then have "map (\<lambda>k. ?v (8 * int k)) [0..<length s] = map (\<lambda>c. c mod 256) s"
    by (intro nth_equalityI) (simp_all add: byte_mask)
  ultimately show ?thesis
    using byte_loop(1) [of "length s" "[]" ?v] assms by (simp add: msg_words_def le_word_beyond)
qed

text \<open>Hexadecimal text with upper-case digits.\<close>

definition upper_hex_byte :: "int \<Rightarrow> jstr" where
  "upper_hex_byte b = char_at (str ''0123456789ABCDEF'') (b div 16) @ char_at (str ''0123456789ABCDEF'') (b mod 16)"

definition upper_hex_bytes :: "int list \<Rightarrow> jstr" where
  "upper_hex_bytes bs = concat (map upper_hex_byte bs)"

lemma qq_c_digest:
  assumes "8 * int (length s) < 2147483584"
  shows "qq_c s = upper_hex_bytes (md5_digest (map (\<lambda>c. c mod 256) s))"
proof -
  have "qq_v (regs_array r) = upper_hex_bytes (regs_bytes (regs_w r))" for r
    unfolding qq_v_def upper_hex_bytes_def upper_hex_byte_def length_regs_array
    using nibble_regs_loop [OF refl, where h = "char_at (str ''0123456789ABCDEF'')" and r = r] by simp
  with assms qq_script.core_correct [OF qq_y_array, of s] show ?thesis
    by (simp add: qq_c_def md5_digest_regs mult.commute)
qed

end
