(* ===== verification/Js_Bytes.thy ===== *)
theory Js_Bytes
  imports Md5_Spec
begin

text \<open>32-bit words as four bytes, the most significant first, as the block ciphers read and write them.\<close>

definition be_word :: "int list \<Rightarrow> 32 word" where
  "be_word bs = word_of_int (foldl (\<lambda>v b. 256 * v + b) 0 bs)"

definition be_bytes :: "32 word \<Rightarrow> int list" where
  "be_bytes w = rev (le_bytes32 w)"

lemma be_bytes_div:
  "be_bytes w = [uint w div 16777216 mod 256, uint w div 65536 mod 256, uint w div 256 mod 256, uint w mod 256]"
  by (simp add: be_bytes_def le_bytes32_def upt_rec uint_div_distrib drop_bit_eq_div)

lemma digits4:
  assumes "0 \<le> v" "v < 4294967296"
  shows "256 * (256 * (256 * (v div 16777216 mod 256) + v div 65536 mod 256) + v div 256 mod 256) + v mod 256 = (v :: int)"
proof -
  have "v div 65536 = v div 256 div 256" "v div 16777216 = v div 65536 div 256"
    using zdiv_zmult2_eq [of 256 v 256] zdiv_zmult2_eq [of 256 v 65536] by simp_all
  moreover have "v div 16777216 \<le> 255" "0 \<le> v div 16777216"
    using zdiv_mono1 [of v 4294967295 16777216] assms by simp_all
  ultimately show ?thesis
    by (simp only: mod_pos_pos_trivial mult_div_mod_eq)
qed

lemma be_word_bytes: "be_word (be_bytes w) = w"
proof -
  define v where "v = uint w"
  have v: "0 \<le> v" "v < 4294967296"
    using uint_bounded [of w] by (simp_all add: v_def)
  then have "256 * (256 * (256 * (v div 16777216 mod 256) + v div 65536 mod 256) + v div 256 mod 256) + v mod 256 = v"
    by (rule digits4)
  then have "be_word (be_bytes w) = word_of_int v"
    by (simp only: be_word_def be_bytes_div flip: v_def) (simp only: foldl.simps mult_zero_right add_0)
  then show ?thesis by (simp add: v_def)
qed

lemma be_bytes_word:
  assumes "byte_string bs" "length bs = 4"
  shows "be_bytes (be_word bs) = bs"
proof -
  obtain a b c d where bs: "bs = [a, b, c, d]"
    using assms(2) by (auto simp: numeral_eq_Suc length_Suc_conv)
  have r: "0 \<le> a" "a < 256" "0 \<le> b" "b < 256" "0 \<le> c" "c < 256" "0 \<le> d" "d < 256"
    using assms(1) by (simp_all add: bs)
  define v where "v = 256 * (256 * (256 * a + b) + c) + d"
  have "be_word bs = word_of_int v"
    by (simp only: be_word_def bs v_def foldl.simps mult_zero_right add_0)
  moreover have "0 \<le> v" "v < 2 ^ LENGTH(32)"
    using r by (simp_all add: v_def)
  ultimately have "uint (be_word bs) = v"
    by (simp only: uint_word_of_int_eq take_bit_int_eq_self)
  moreover have split: "(256 * x + y) div 256 = x" "(256 * x + y) mod 256 = y" if "0 \<le> y" "y < 256" for x y :: int
    using that by simp_all
  have v1: "v div 256 = 256 * (256 * a + b) + c" "v mod 256 = d"
    using split [of d] r by (simp_all only: v_def)
  have v2: "v div 65536 = 256 * a + b"
    using zdiv_zmult2_eq [of 256 v 256] split [of c] r by (simp only: v1) simp
  have v3: "v div 16777216 = a"
    using zdiv_zmult2_eq [of 256 v 65536] split [of b] r by (simp only: v2) simp
  have "v div 16777216 mod 256 = a" "v div 65536 mod 256 = b" "v div 256 mod 256 = c"
    using split [of b a] split [of c "256 * a + b"] r by (simp_all only: v1 v2 v3) simp
  ultimately show ?thesis by (simp add: be_bytes_div bs v1(2))
qed

lemma length_be_bytes [simp]: "length (be_bytes w) = 4"
  by (simp add: be_bytes_def)

lemma byte_string_be_bytes [simp]: "byte_string (be_bytes w)"
  by (simp add: be_bytes_div)

lemma or_byte_word:
  assumes "0 \<le> b" "b < 256"
  shows "push_bit 8 w OR w32 b = 256 * w + w32 b"
proof -
  have "take_bit 8 b = b"
    using assms by (simp add: take_bit_int_eq_self)
  then have "n < 8" if "bit (w32 b) n" for n
    using that by (metis bit_take_bit_iff bit_word_of_int_iff)
  then have "\<not> bit (push_bit 8 w) n \<or> \<not> bit (w32 b) n" for n
    by (metis bit_push_bit_iff linorder_not_le)
  then have "push_bit 8 w OR w32 b = push_bit 8 w + w32 b"
    by (intro disjunctive_add [symmetric])
  then show ?thesis by (simp add: push_bit_eq_mult mult.commute)
qed

end
