(* ===== verification/Qq_Tea.thy ===== *)
theory Qq_Tea
  imports Qq_Md5 Js_Bytes
begin

text \<open>
  The block cipher of \<^verbatim>\<open>QQ/js/pwd.js\<close>: sixteen rounds of TEA in a chaining mode of its own, over global variables. The record
  \<open>tea\<close> holds those variables, with a prefix: the input block \<^verbatim>\<open>i\<close>, the last masked block \<^verbatim>\<open>u\<close>, the output \<^verbatim>\<open>f\<close>, the
  positions \<^verbatim>\<open>l\<close> and \<^verbatim>\<open>s\<close> of the last and the next output block, the fill level \<^verbatim>\<open>a\<close> and the flag \<^verbatim>\<open>p\<close> of the first block. The key,
  the global \<^verbatim>\<open>c\<close>, is an argument.
\<close>

section \<open>Definitions\<close>

record tea =
  te_i :: "int option list"
  te_u :: "int option list"
  te_f :: "int option list"
  te_l :: int
  te_s :: int
  te_a :: int
  te_p :: bool

definition encrypt_g :: "int option list \<Rightarrow> int \<Rightarrow> int \<Rightarrow> int" where
  "encrypt_g t e n =
     (let n = (if n = 0 \<or> 4 < n then 4 else n);
          w = js_for e (e + n) 1 (\<lambda>i w. js_or (js_shl w 8) (arr_bits t i)) 0
      in js_ushr (js_and 4294967295 w) 0)"

definition encrypt_m :: "int option list \<Rightarrow> int \<Rightarrow> int \<Rightarrow> int option list" where
  "encrypt_m t e n =
     (let t = arr_set t (e + 3) (js_and (js_shr n 0) 255);
          t = arr_set t (e + 2) (js_and (js_shr n 8) 255);
          t = arr_set t (e + 1) (js_and (js_shr n 16) 255)
      in arr_set t (e + 0) (js_and (js_shr n 24) 255))"

text \<open>One pass of the loop over the rounds: \<^verbatim>\<open>n\<close>, \<^verbatim>\<open>o\<close> and \<^verbatim>\<open>s\<close> under the key words \<^verbatim>\<open>i\<close>, \<^verbatim>\<open>r\<close>, \<^verbatim>\<open>a\<close> and \<^verbatim>\<open>u\<close>.\<close>

fun tea_pass :: "int \<times> int \<times> int \<times> int \<Rightarrow> int \<times> int \<times> int \<Rightarrow> int \<times> int \<times> int" where
  "tea_pass (i, r, a, u) (n, x, s) =
     (let s = js_ushr (js_and 4294967295 (s + 2654435769)) 0;
          n = js_ushr (js_and 4294967295 (n + js_xor (js_xor (js_shl x 4 + i) (x + s)) (js_ushr x 5 + r))) 0;
          x = js_ushr (js_and 4294967295 (x + js_xor (js_xor (js_shl n 4 + a) (n + s)) (js_ushr n 5 + u))) 0
      in (n, x, s))"

definition tea_block :: "int option list \<Rightarrow> int option list \<Rightarrow> int option list" where
  "tea_block c t =
     (let k = (encrypt_g c 0 4, encrypt_g c 4 4, encrypt_g c 8 4, encrypt_g c 12 4);
          (n, x, s) = (tea_pass k ^^ 16) (encrypt_g t 0 4, encrypt_g t 4 4, 0)
      in encrypt_m (encrypt_m (replicate 8 None) 0 n) 4 x)"

definition encrypt_v :: "int option list \<Rightarrow> tea \<Rightarrow> tea" where
  "encrypt_v c g =
     (let i = js_for 0 8 1 (\<lambda>t i. arr_set i t (js_xor (arr_bits i t)
                (if te_p g then arr_bits (te_u g) t else arr_bits (te_f g) (te_l g + t)))) (te_i g);
          e = tea_block c i;
          (f, u) = js_for 0 8 1 (\<lambda>t (f, u). (arr_set f (te_s g + t) (js_xor (arr_bits e t) (arr_bits u t)), arr_put u t (arr_get i t)))
                     (te_f g, te_u g)
      in g\<lparr>te_i := i, te_f := f, te_u := u, te_l := te_s g, te_s := te_s g + 8, te_a := 0, te_p := False\<rparr>)"

text \<open>
  The three loops of \<^verbatim>\<open>encrypt_y\<close> that put values into the block: one pass puts the next value unless the block is full, and encrypts
  a full block. The list holds the values that are still to be put.
\<close>

partial_function (option) tea_fill :: "int option list \<Rightarrow> int option list \<Rightarrow> tea \<Rightarrow> tea option" where
  "tea_fill c vs g =
     (case vs of
        [] \<Rightarrow> Some g
      | v # rest \<Rightarrow>
          let (vs', g) = (if te_a g < 8 then (rest, g\<lparr>te_i := arr_put (te_i g) (te_a g) v, te_a := te_a g + 1\<rparr>) else (vs, g));
              g = (if te_a g = 8 then encrypt_v c g else g)
          in tea_fill c vs' g)"

text \<open>
  The source of padding bytes is the call \<^verbatim>\<open>h()\<close>. In this file \<^verbatim>\<open>h\<close> is the second round function of MD5, here with all arguments
  \<^verbatim>\<open>undefined\<close>, which its operators read as 0; the shift by \<^verbatim>\<open>32 - undefined\<close> is a shift by 0, like one by 32.
\<close>

definition h_call :: int where
  "h_call = qq_h 0 0 0 0 0 0 0"

definition encrypt_y :: "int option list \<Rightarrow> int option list \<Rightarrow> tea option" where
  "encrypt_y c t =
     (let e = int (length t);
          a = (e + 10) mod 8;
          a = (if a \<noteq> 0 then 8 - a else a);
          f = replicate (nat (e + a + 10)) None;
          i = arr_set (replicate 8 None) 0 (js_and 255 (js_or (js_and 248 h_call) a));
          i = js_for 1 (a + 1) 1 (\<lambda>k i. arr_set i k (js_and 255 h_call)) i;
          u = js_for 0 8 1 (\<lambda>k u. arr_set u k 0) (replicate 8 None);
          g = \<lparr>te_i = i, te_u = u, te_f = f, te_l = 0, te_s = 0, te_a = a + 1, te_p = True\<rparr>
      in case tea_fill c (replicate 2 (Some (js_and 255 h_call))) g of
           None \<Rightarrow> None
         | Some g \<Rightarrow>
             (case tea_fill c t g of
                None \<Rightarrow> None
              | Some g \<Rightarrow> tea_fill c (replicate 7 (Some 0)) g))"

section \<open>Reference: TEA and the chaining mode\<close>

type_synonym tea_key = "32 word \<times> 32 word \<times> 32 word \<times> 32 word"

definition tea_mix :: "32 word \<Rightarrow> 32 word \<Rightarrow> 32 word \<Rightarrow> 32 word \<Rightarrow> 32 word" where
  "tea_mix a b s x = (push_bit 4 x + a) XOR (x + s) XOR (drop_bit 5 x + b)"

fun tea_enc :: "tea_key \<Rightarrow> nat \<Rightarrow> 32 word \<times> 32 word \<Rightarrow> 32 word \<times> 32 word" where
  "tea_enc k 0 v = v"
| "tea_enc (a, b, c, d) (Suc m) v =
     (let (y, z) = tea_enc (a, b, c, d) m v; s = of_nat (Suc m) * 0x9E3779B9;
          y = y + tea_mix a b s z
      in (y, z + tea_mix c d s y))"

fun tea_dec :: "tea_key \<Rightarrow> nat \<Rightarrow> 32 word \<times> 32 word \<Rightarrow> 32 word \<times> 32 word" where
  "tea_dec k 0 v = v"
| "tea_dec (a, b, c, d) (Suc m) (y, z) =
     (let s = of_nat (Suc m) * 0x9E3779B9; z = z - tea_mix c d s y
      in tea_dec (a, b, c, d) m (y - tea_mix a b s z, z))"

lemma tea_dec_enc: "tea_dec k m (tea_enc k m v) = v"
proof (induction m)
  case (Suc m)
  obtain a b c d where k: "k = (a, b, c, d)" by (cases k)
  obtain y z where "tea_enc k m v = (y, z)" by fastforce
  with Suc show ?case by (simp add: k Let_def)
qed simp

definition block_key :: "int list \<Rightarrow> tea_key" where
  "block_key c = (be_word (take 4 c), be_word (take 4 (drop 4 c)), be_word (take 4 (drop 8 c)), be_word (take 4 (drop 12 c)))"

definition block_enc :: "int list \<Rightarrow> int list \<Rightarrow> int list" where
  "block_enc c b =
     (let (y, z) = tea_enc (block_key c) 16 (be_word (take 4 b), be_word (drop 4 b)) in be_bytes y @ be_bytes z)"

definition block_dec :: "int list \<Rightarrow> int list \<Rightarrow> int list" where
  "block_dec c b =
     (let (y, z) = tea_dec (block_key c) 16 (be_word (take 4 b), be_word (drop 4 b)) in be_bytes y @ be_bytes z)"

definition xor_bytes :: "int list \<Rightarrow> int list \<Rightarrow> int list" where
  "xor_bytes = map2 (\<lambda>a b. a XOR b)"

text \<open>The chaining mode: every block is masked with the last output block, and its encryption with the last masked block.\<close>

fun chain_enc :: "(int list \<Rightarrow> int list) \<Rightarrow> int list \<Rightarrow> int list \<Rightarrow> int list list \<Rightarrow> int list list" where
  "chain_enc E c x [] = []"
| "chain_enc E c x (b # bs) =
     (let x' = xor_bytes b c; c' = xor_bytes (E x') x in c' # chain_enc E c' x' bs)"

fun chain_dec :: "(int list \<Rightarrow> int list) \<Rightarrow> int list \<Rightarrow> int list \<Rightarrow> int list list \<Rightarrow> int list list" where
  "chain_dec D c x [] = []"
| "chain_dec D c x (c' # cs) =
     (let x' = D (xor_bytes c' x) in xor_bytes x' c # chain_dec D c' x' cs)"

section \<open>The reference decryption\<close>

definition block8 :: "int list \<Rightarrow> bool" where
  "block8 b \<longleftrightarrow> length b = 8 \<and> byte_string b"

lemma byte_xor: "0 \<le> a \<Longrightarrow> a < 256 \<Longrightarrow> 0 \<le> b \<Longrightarrow> b < 256 \<Longrightarrow> 0 \<le> a XOR b \<and> a XOR b < (256 :: int)"
  using XOR_upper [of a 8 b] by simp

lemma byte_js_xor: "0 \<le> a \<Longrightarrow> a < 256 \<Longrightarrow> 0 \<le> b \<Longrightarrow> b < 256 \<Longrightarrow> js_xor a b = a XOR b"
  by (simp add: js_xor_def)

lemma xor_bytes_simps [simp]:
  "xor_bytes [] bs = []" "xor_bytes as [] = []" "xor_bytes (a # as) (b # bs) = (a XOR b) # xor_bytes as bs"
  by (simp_all add: xor_bytes_def)

lemma length_xor_bytes [simp]: "length (xor_bytes as bs) = min (length as) (length bs)"
  by (simp add: xor_bytes_def)

lemma byte_string_xor_bytes: "byte_string as \<Longrightarrow> byte_string bs \<Longrightarrow> byte_string (xor_bytes as bs)"
  by (induction as bs rule: list_induct2') (auto simp: byte_xor)

lemma xor_bytes_cancel: "length as = length bs \<Longrightarrow> xor_bytes (xor_bytes as bs) bs = as"
  by (induction as bs rule: list_induct2) (simp_all add: xor.assoc)

lemma block8_xor: "block8 a \<Longrightarrow> block8 b \<Longrightarrow> block8 (xor_bytes a b)"
  by (simp add: block8_def byte_string_xor_bytes)

lemma chain_dec_enc:
  assumes "\<And>b. block8 b \<Longrightarrow> block8 (E b) \<and> D (E b) = b"
  shows "block8 c \<Longrightarrow> block8 x \<Longrightarrow> \<forall>b \<in> set bs. block8 b \<Longrightarrow> chain_dec D c x (chain_enc E c x bs) = bs"
proof (induction bs arbitrary: c x)
  case (Cons b bs)
  let ?x = "xor_bytes b c"
  let ?c = "xor_bytes (E ?x) x"
  have x: "block8 ?x" and b: "xor_bytes ?x c = b"
    using Cons.prems block8_xor by (simp_all add: xor_bytes_cancel block8_def)
  have "xor_bytes ?c x = E ?x"
    using assms [OF x] Cons.prems by (intro xor_bytes_cancel) (simp add: block8_def)
  moreover have "block8 ?c"
    using assms [OF x] Cons.prems by (simp add: block8_xor)
  ultimately show ?case
    using Cons x b assms [OF x] by (simp add: Let_def)
qed simp

lemma block8_enc: "block8 (block_enc c b)"
  by (simp add: block_enc_def block8_def Let_def split: prod.split)

lemma block_dec_enc:
  assumes "block8 b"
  shows "block_dec c (block_enc c b) = b"
proof -
  have bytes: "byte_string (take 4 b)" "byte_string (drop 4 b)"
    using assms by (auto simp: block8_def byte_string_def dest: in_set_takeD in_set_dropD)
  obtain y z where "tea_enc (block_key c) 16 (be_word (take 4 b), be_word (drop 4 b)) = (y, z)"
    by fastforce
  then have "block_enc c b = be_bytes y @ be_bytes z"
    "tea_dec (block_key c) 16 (y, z) = (be_word (take 4 b), be_word (drop 4 b))"
    using tea_dec_enc [of "block_key c" 16 "(be_word (take 4 b), be_word (drop 4 b))"] by (simp_all add: block_enc_def)
  with bytes assms show ?thesis
    by (simp add: block_dec_def be_word_bytes be_bytes_word block8_def)
qed

section \<open>The cipher on arrays\<close>

lemma uint_js: "js_ushr (js_and 4294967295 w) 0 = uint (w32 w)"
proof -
  have "w32 4294967295 = - 1" by simp
  then have "w32 (js_and 4294967295 w) = w32 w"
    by (simp only: w32_js_and and.left_neutral)
  then show ?thesis by (simp add: js_ushr_uint)
qed

lemma encrypt_g_word:
  assumes "byte_string bs" "e + 4 \<le> length bs"
  shows "encrypt_g (map Some bs) (int e) 4 = uint (be_word (take 4 (drop e bs)))"
proof -
  let ?b = "\<lambda>k. bs ! (e + k)"
  have get: "arr_bits (map Some bs) (int e + int k) = ?b k" if "k < 4" for k
    using that assms(2) by (simp add: js_arr nat_add_distrib)
  have byte: "0 \<le> ?b k" "?b k < 256" if "k < 4" for k
    using that assms byte_string_nth [of bs "e + k"] by simp_all
  have take: "take 4 (drop e bs) = [?b 0, ?b 1, ?b 2, ?b 3]"
    using assms(2) by (intro nth_equalityI) (auto simp: less_Suc_eq numeral_eq_Suc)
  have loop: "js_for (int e) (int e + 4) 1 (\<lambda>i w. js_or (js_shl w 8) (arr_bits (map Some bs) i)) 0 =
     fold (\<lambda>k w. js_or (js_shl w 8) (?b k)) [0, 1, 2, 3] 0"
    using get [of 0] get [of 1] get [of 2] get [of 3] by (simp add: js_for.simps add.commute)
  have "w32 (fold (\<lambda>k w. js_or (js_shl w 8) (?b k)) [0, 1, 2, 3] 0) = be_word [?b 0, ?b 1, ?b 2, ?b 3]"
    using byte [of 0] byte [of 1] byte [of 2] byte [of 3] by (simp add: js_w32 or_byte_word be_word_def)
  then show ?thesis
    by (simp only: encrypt_g_def Let_def uint_js take) (simp add: loop)
qed

lemma tea_pass_words:
  "tea_pass (uint a, uint b, uint c, uint d) (uint y, uint z, uint s) =
     (let s' = s + 0x9E3779B9; y' = y + tea_mix a b s' z; z' = z + tea_mix c d s' y' in (uint y', uint z', uint s'))"
  by (simp only: tea_pass.simps Let_def uint_js) (simp add: tea_mix_def js_w32 xor.assoc js_ushr_uint)

lemma tea_passes:
  "(tea_pass (uint a, uint b, uint c, uint d) ^^ m) (uint y, uint z, 0) =
     (let (y', z') = tea_enc (a, b, c, d) m (y, z) in (uint y', uint z', uint (of_nat m * 0x9E3779B9 :: 32 word)))"
proof (induction m)
  case (Suc m)
  obtain y' z' where yz: "tea_enc (a, b, c, d) m (y, z) = (y', z')" by fastforce
  have s: "of_nat m * 0x9E3779B9 + 0x9E3779B9 = (of_nat (Suc m) * 0x9E3779B9 :: 32 word)"
    by (simp add: algebra_simps)
  have "(tea_pass (uint a, uint b, uint c, uint d) ^^ Suc m) (uint y, uint z, 0) =
      tea_pass (uint a, uint b, uint c, uint d) (uint y', uint z', uint (of_nat m * 0x9E3779B9 :: 32 word))"
    using Suc by (simp add: yz)
  then show ?case
    by (simp only: tea_pass_words s) (simp add: yz Let_def)
qed simp

lemma byte_of_word: "k < 4 \<Longrightarrow> js_and (js_shr x (8 * int k)) 255 = le_bytes32 (w32 x) ! k"
  using mask_shift [of "8 * int k" 8 x] unpack_byte [of k x] by simp

lemma encrypt_m_bytes: "encrypt_m (encrypt_m (replicate 8 None) 0 (uint y)) 4 (uint z) = map Some (be_bytes y @ be_bytes z)"
proof -
  have byte: "js_and (js_shr (uint w) 0) 255 = le_bytes32 w ! 0" "js_and (js_shr (uint w) 8) 255 = le_bytes32 w ! 1"
    "js_and (js_shr (uint w) 16) 255 = le_bytes32 w ! 2" "js_and (js_shr (uint w) 24) 255 = le_bytes32 w ! 3" for w
    using byte_of_word [of 0 "uint w"] byte_of_word [of 1 "uint w"] byte_of_word [of 2 "uint w"] byte_of_word [of 3 "uint w"]
    by simp_all
  have rev: "be_bytes w = [le_bytes32 w ! 3, le_bytes32 w ! 2, le_bytes32 w ! 1, le_bytes32 w ! 0]" for w
    by (simp add: be_bytes_def le_bytes32_def upt_rec)
  show ?thesis
    by (simp add: encrypt_m_def Let_def byte rev arr_set_def numeral_eq_Suc)
qed

lemma tea_block_enc:
  assumes "byte_string c" "length c = 16" "block8 b"
  shows "tea_block (map Some c) (map Some b) = map Some (block_enc c b)"
proof -
  have key: "(encrypt_g (map Some c) 0 4, encrypt_g (map Some c) 4 4, encrypt_g (map Some c) 8 4, encrypt_g (map Some c) 12 4) =
      (uint (be_word (take 4 c)), uint (be_word (take 4 (drop 4 c))), uint (be_word (take 4 (drop 8 c))), uint (be_word (take 4 (drop 12 c))))"
    using encrypt_g_word [of c 0] encrypt_g_word [of c 4] encrypt_g_word [of c 8] encrypt_g_word [of c 12] assms by simp
  have b: "encrypt_g (map Some b) 0 4 = uint (be_word (take 4 b))" "encrypt_g (map Some b) 4 4 = uint (be_word (drop 4 b))"
    using encrypt_g_word [of b 0] encrypt_g_word [of b 4] assms by (simp_all add: block8_def)
  show ?thesis
    unfolding tea_block_def Let_def key b tea_passes
    by (simp add: block_enc_def block_key_def encrypt_m_bytes split: prod.split)
qed

section \<open>One block of the mode\<close>

lemma arr_loop:
  assumes "length xs = n"
  shows "js_for 0 (int n) 1 (\<lambda>t i. arr_set i t (F t (arr_bits i t))) xs = map (\<lambda>t. Some (F (int t) (bits_of (xs ! t)))) [0..<n]"
proof -
  let ?g = "\<lambda>t. Some (F (int t) (bits_of (xs ! t)))"
  let ?P = "\<lambda>k i. i = map ?g [0..<k] @ drop k xs"
  have "?P n (js_for 0 (1 * int n) 1 (\<lambda>t i. arr_set i t (F t (arr_bits i t))) xs)"
  proof (rule js_for_inv [where P = ?P])
    fix k i
    assume "k < n" and i: "i = map ?g [0..<k] @ drop k xs"
    then have "i = map ?g [0..<k] @ (xs ! k) # drop (Suc k) xs"
      using assms by (simp add: Cons_nth_drop_Suc)
    then show "?P (Suc k) (arr_set i (1 * int k) (F (1 * int k) (arr_bits i (1 * int k))))"
      by (simp add: arr_set_def arr_get_def nth_append list_update_append)
  qed simp_all
  then show ?thesis using assms by simp
qed

lemma out_loop:
  assumes "length ys = n" "length x = n" "length x' = n" "m + n \<le> length f"
    and "\<And>k. k < n \<Longrightarrow> F (int k) (x ! k) = ys ! k"
  shows "js_for 0 (int n) 1 (\<lambda>t (f, u). (arr_set f (int m + t) (F t (arr_bits u t)), arr_put u t (arr_get (map Some x') t))) (f, map Some x) =
     (take m f @ map Some ys @ drop (m + n) f, map Some x')"
proof -
  let ?P = "\<lambda>k (f', u'). f' = take m f @ map Some (take k ys) @ drop (m + k) f \<and> u' = map Some (take k x' @ drop k x)"
  have "?P n (js_for 0 (1 * int n) 1 (\<lambda>t (f, u). (arr_set f (int m + t) (F t (arr_bits u t)), arr_put u t (arr_get (map Some x') t))) (f, map Some x))"
  proof (rule js_for_inv [where P = ?P])
    fix k fu
    assume k: "k < n" and "?P k fu"
    then obtain f' u' where fu: "fu = (f', u')" and f': "f' = take m f @ map Some (take k ys) @ drop (m + k) f"
      and u': "u' = map Some (take k x' @ drop k x)" by auto
    have get: "arr_get u' (int k) = Some (x ! k)" "arr_get (map Some x') (int k) = Some (x' ! k)"
      using k assms by (simp_all add: u' arr_get_def nth_append)
    have "f' = take m f @ map Some (take k ys) @ f ! (m + k) # drop (m + Suc k) f"
      using k assms by (simp add: f' Cons_nth_drop_Suc)
    then have "arr_set f' (int m + int k) (ys ! k) = take m f @ map Some (take (Suc k) ys) @ drop (m + Suc k) f"
      using k assms by (simp add: arr_set_def list_update_append nat_add_distrib take_Suc_conv_app_nth)
    moreover have "take k x' @ drop k x = take k x' @ x ! k # drop (Suc k) x"
      using k assms by (simp add: Cons_nth_drop_Suc)
    then have "arr_set u' (int k) (x' ! k) = map Some (take (Suc k) x' @ drop (Suc k) x)"
      using k assms by (simp add: u' arr_set_def list_update_append take_Suc_conv_app_nth)
    ultimately show "?P (Suc k) (case fu of (f, u) \<Rightarrow> (arr_set f (int m + 1 * int k) (F (1 * int k) (arr_bits u (1 * int k))),
        arr_put u (1 * int k) (arr_get (map Some x') (1 * int k))))"
      using assms(5) [OF k] get by (simp add: fu)
  qed (use assms in simp_all)
  then show ?thesis using assms by (simp add: split_beta prod_eq_iff)
qed

text \<open>The state of the mode: the last output block, the last masked block and the output so far.\<close>

type_synonym chain_state = "int list \<times> int list \<times> int list"

fun chain_step :: "(int list \<Rightarrow> int list) \<Rightarrow> int list \<Rightarrow> chain_state \<Rightarrow> chain_state" where
  "chain_step E b (c, x, out) = (let x' = xor_bytes b c; c' = xor_bytes (E x') x in (c', x', out @ c'))"

lemma chain_steps: "\<exists>c' x'. fold (chain_step E) bs (c, x, out) = (c', x', out @ concat (chain_enc E c x bs))"
proof (induction bs arbitrary: c x out)
  case (Cons b bs)
  let ?x = "xor_bytes b c"
  let ?c = "xor_bytes (E ?x) x"
  show ?case
    using Cons [of ?c ?x "out @ ?c"] by (simp add: Let_def)
qed simp

text \<open>
  The variables represent a state of the mode and the bytes in the current block; \<open>size_f\<close> is the length of the output array.
\<close>

fun tea_rep :: "nat \<Rightarrow> chain_state \<Rightarrow> int list \<Rightarrow> tea \<Rightarrow> bool" where
  "tea_rep size_f (c, x, out) part g \<longleftrightarrow>
     block8 c \<and> block8 x \<and> te_u g = map Some x \<and>
     length (te_i g) = 8 \<and> te_a g = int (length part) \<and> length part \<le> 8 \<and> take (length part) (te_i g) = map Some part \<and>
     byte_string part \<and> te_s g = int (length out) \<and> length (te_f g) = size_f \<and> take (length out) (te_f g) = map Some out \<and>
     (if te_p g then c = x else 8 \<le> length out \<and> te_l g = int (length out) - 8 \<and> c = drop (length out - 8) out)"

lemma encrypt_v_rep:
  assumes key: "byte_string k" "length k = 16"
    and rep: "tea_rep size_f (c, x, out) b g" and b: "length b = 8" and size_f: "length out + 8 \<le> size_f"
  shows "tea_rep size_f (chain_step (block_enc k) b (c, x, out)) [] (encrypt_v (map Some k) g)"
proof -
  have c: "block8 c" and x: "block8 x" and u: "te_u g = map Some x" and i: "te_i g = map Some b"
    and bb: "block8 b" and s: "te_s g = int (length out)" and f: "length (te_f g) = size_f" "take (length out) (te_f g) = map Some out"
    and p: "if te_p g then c = x else 8 \<le> length out \<and> te_l g = int (length out) - 8 \<and> c = drop (length out - 8) out"
    using rep b by (auto simp: block8_def)
  define x' where "x' = xor_bytes b c"
  define c' where "c' = xor_bytes (block_enc k x') x"
  have x8: "block8 x'" and c8: "block8 c'"
    using bb c x block8_enc by (auto simp: x'_def c'_def intro!: block8_xor)
  have len: "length b = 8" "length c = 8" "length x = 8" "length x' = 8" "length c' = 8"
    using bb c x x8 c8 by (simp_all add: block8_def)
  have mask: "(if te_p g then arr_bits (te_u g) (int t) else arr_bits (te_f g) (te_l g + int t)) = c ! t" if "t < 8" for t
  proof (cases "te_p g")
    case False
    then have l: "te_l g + int t = int (length out - 8 + t)" and out: "8 \<le> length out" "c = drop (length out - 8) out"
      using p by auto
    define j where "j = length out - 8 + t"
    have "j < length out" "j < length (te_f g)"
      using that out f(1) size_f by (simp_all add: j_def)
    then have "arr_bits (te_f g) (int (length out - 8 + t)) = bits_of (take (length out) (te_f g) ! (length out - 8 + t))"
      by (simp add: arr_get_def flip: j_def)
    also have "\<dots> = c ! t"
      using that out by (simp add: f(2))
    finally show ?thesis using False by (simp only: l if_False)
  qed (use that p u len in simp)
  have i': "js_for 0 8 1 (\<lambda>t i. arr_set i t (js_xor (arr_bits i t)
        (if te_p g then arr_bits (te_u g) t else arr_bits (te_f g) (te_l g + t)))) (te_i g) = map Some x'"
  proof -
    have "js_for 0 (int 8) 1 (\<lambda>t i. arr_set i t (js_xor (arr_bits i t)
        (if te_p g then arr_bits (te_u g) t else arr_bits (te_f g) (te_l g + t)))) (te_i g) =
      map (\<lambda>t. Some (js_xor (bits_of (te_i g ! t)) (if te_p g then arr_bits (te_u g) (int t) else arr_bits (te_f g) (te_l g + int t)))) [0..<8]"
      using len by (intro arr_loop) (simp add: i)
    also have "\<dots> = map Some x'"
      using bb c len byte_string_nth [of b] byte_string_nth [of c]
      by (intro nth_equalityI) (auto simp: mask i x'_def xor_bytes_def byte_js_xor block8_def)
    finally show ?thesis by simp
  qed
  have e: "tea_block (map Some k) (map Some x') = map Some (block_enc k x')"
    using key x8 by (rule tea_block_enc)
  have "js_for 0 (int 8) 1 (\<lambda>t (f, u). (arr_set f (int (length out) + t) (js_xor (arr_bits (map Some (block_enc k x')) t) (arr_bits u t)),
      arr_put u t (arr_get (map Some x') t))) (te_f g, map Some x) =
     (take (length out) (te_f g) @ map Some c' @ drop (length out + 8) (te_f g), map Some x')"
    using len block8_enc [of k x'] x byte_string_nth [of "block_enc k x'"] byte_string_nth [of x] f size_f
    by (intro out_loop) (auto simp: c'_def xor_bytes_def byte_js_xor block8_def)
  then have "encrypt_v (map Some k) g = g\<lparr>te_i := map Some x', te_f := map Some (out @ c') @ drop (length out + 8) (te_f g),
      te_u := map Some x', te_l := int (length out), te_s := int (length out) + 8, te_a := 0, te_p := False\<rparr>"
    unfolding encrypt_v_def Let_def i' unfolding e s u by (simp add: f(2))
  then show ?thesis
    using x8 c8 len f size_f by (simp add: x'_def [symmetric] c'_def [symmetric] Let_def)
qed

section \<open>Filling the block\<close>

lemma tea_fill_Nil [simp]: "tea_fill c [] g = Some g"
  by (simp add: tea_fill.simps)

text \<open>Putting one byte into the block, encrypting it when it is full.\<close>

fun put_byte :: "(int list \<Rightarrow> int list) \<Rightarrow> int \<Rightarrow> chain_state \<times> int list \<Rightarrow> chain_state \<times> int list" where
  "put_byte E v (cs, part) = (if length part = 7 then (chain_step E (part @ [v]) cs, []) else (cs, part @ [v]))"

lemma put_rep:
  assumes key: "byte_string k" "length k = 16"
    and rep: "tea_rep size_f cs part g" and part: "length part < 8" and v: "0 \<le> v" "v < 256"
    and space: "length (snd (snd cs)) + 8 \<le> size_f"
    and st: "put_byte (block_enc k) v (cs, part) = (cs', part')"
  shows "\<exists>g'. tea_rep size_f cs' part' g' \<and> length part' < 8 \<and>
     tea_fill (map Some k) (Some v # vs) g = tea_fill (map Some k) vs g'"
proof -
  obtain c x out where cs: "cs = (c, x, out)" by (cases cs)
  let ?g = "g\<lparr>te_i := arr_set (te_i g) (te_a g) v, te_a := te_a g + 1\<rparr>"
  have a: "te_a g = int (length part)" and i: "length (te_i g) = 8" "take (length part) (te_i g) = map Some part"
    using rep by (simp_all add: cs)
  have "take (Suc (length part)) (arr_set (te_i g) (te_a g) v) = map Some (part @ [v])"
    using part i by (simp add: a arr_set_def take_Suc_conv_app_nth)
  then have rep': "tea_rep size_f cs (part @ [v]) ?g"
    using rep part v by (simp add: cs a js_arr)
  have fill: "tea_fill (map Some k) (Some v # vs) g =
      tea_fill (map Some k) vs (if length part = 7 then encrypt_v (map Some k) ?g else ?g)"
    using part by (subst tea_fill.simps) (simp add: a Let_def)
  show ?thesis
  proof (cases "length part = 7")
    case True
    then have "tea_rep size_f cs' part' (encrypt_v (map Some k) ?g)" "part' = []"
      using encrypt_v_rep [OF key rep' [unfolded cs]] space st by (auto simp: cs)
    then show ?thesis using fill True by auto
  next
    case False
    then show ?thesis using fill rep' st part by auto
  qed
qed

function chunks8 :: "'a list \<Rightarrow> 'a list list" where
  "chunks8 xs = (if xs = [] then [] else take 8 xs # chunks8 (drop 8 xs))"
  by pat_completeness auto
termination
  by (relation "measure length") auto

declare chunks8.simps [simp del]

lemma chunks8_Nil [simp]: "chunks8 [] = []"
  by (simp add: chunks8.simps)

lemma chunks8_block: "length b = 8 \<Longrightarrow> chunks8 (b @ xs) = b # chunks8 xs"
  by (subst chunks8.simps) auto

lemma put_bytes_chunks:
  assumes "length part < 8" "8 dvd length part + length vs"
  shows "fold (put_byte E) vs (cs, part) = (fold (chain_step E) (chunks8 (part @ vs)) cs, [])"
  using assms
proof (induction vs arbitrary: cs part)
  case Nil
  then have "part = []" by (auto dest: dvd_imp_le)
  then show ?case by simp
next
  case (Cons v vs)
  show ?case
  proof (cases "length part = 7")
    case True
    then have "8 dvd length vs" using Cons.prems(2) by (simp add: dvd_add_right_iff)
    moreover have "chunks8 (part @ v # vs) = (part @ [v]) # chunks8 vs"
      using True chunks8_block [of "part @ [v]" vs] by simp
    ultimately show ?thesis using True Cons.IH [of "[]"] by simp
  next
    case False
    with Cons.prems Cons.IH [of "part @ [v]" cs] show ?thesis by simp
  qed
qed

lemma fill_rep:
  assumes key: "byte_string k" "length k = 16"
    and "tea_rep size_f (c, x, out) part g" "length part < 8" "byte_string vs"
    and "8 dvd size_f" "8 dvd length out" "length out + length part + length vs \<le> size_f"
  shows "\<exists>g' c' x' out' part'. tea_fill (map Some k) (map Some vs) g = Some g' \<and>
     fold (put_byte (block_enc k)) vs ((c, x, out), part) = ((c', x', out'), part') \<and> tea_rep size_f (c', x', out') part' g' \<and>
     length part' < 8 \<and> 8 dvd length out' \<and> length out' + length part' = length out + length part + length vs"
  using assms(3-)
proof (induction vs arbitrary: c x out part g)
  case (Cons v vs)
  have "length out < size_f" using Cons.prems by simp
  then have space: "length out + 8 \<le> size_f"
    using Cons.prems(4,5) by (auto elim!: dvdE)
  obtain c1 x1 out1 part1 where st: "put_byte (block_enc k) v ((c, x, out), part) = ((c1, x1, out1), part1)"
    by (metis prod_cases3 surj_pair)
  obtain g1 where g1: "tea_rep size_f (c1, x1, out1) part1 g1" "length part1 < 8"
      "tea_fill (map Some k) (map Some (v # vs)) g = tea_fill (map Some k) (map Some vs) g1"
    using put_rep [OF key Cons.prems(1,2) _ _ _ st, of "map Some vs"] Cons.prems(3) space by auto
  have "8 dvd length out1 \<and> length out1 + length part1 = Suc (length out + length part)"
  proof (cases "length part = 7")
    case True
    have "length x = 8" using Cons.prems(1) by (simp add: block8_def)
    then have "length out1 = length out + 8" "part1 = []"
      using st True block8_enc by (auto simp: Let_def block8_def)
    then show ?thesis using True Cons.prems(5) by simp
  next
    case False
    then show ?thesis using st Cons.prems(5) by auto
  qed
  then show ?case
    using Cons.IH [OF g1(1,2)] Cons.prems(3-) g1(3) by (simp add: st del: tea_rep.simps put_byte.simps)
qed auto

section \<open>The encryption\<close>

lemma h_call_zero: "h_call = 0"
  by (simp add: h_call_def qq_h_def qq_d_def qq_add_def Let_def js_and_def js_or_def js_not_def js_shl_def js_shr_def js_ushr_def
      to_uint32_def)

definition pad_len :: "nat \<Rightarrow> nat" where
  "pad_len n = (let r = (n + 10) mod 8 in if r = 0 then 0 else 8 - r)"

text \<open>The bytes that are encrypted: the number of padding bytes, these and two more zero bytes, the data and seven zero bytes.\<close>

definition tea_padded :: "int list \<Rightarrow> int list" where
  "tea_padded t = (int (pad_len (length t)) # replicate (pad_len (length t)) 0) @ [0, 0] @ t @ replicate 7 0"

abbreviation zero_block :: "int list" where
  "zero_block \<equiv> replicate 8 0"

definition tea_cipher :: "int list \<Rightarrow> int list \<Rightarrow> int list" where
  "tea_cipher k t = concat (chain_enc (block_enc k) zero_block zero_block (chunks8 (tea_padded t)))"

lemma pad_len_less: "pad_len n < 8"
  by (simp add: pad_len_def Let_def)

lemma pad_len_dvd: "8 dvd n + 10 + pad_len n"
proof -
  define m where "m = n + 10"
  define q where "q = m div 8"
  define r where "r = m mod 8"
  have "m = 8 * q + r" "r < 8" by (simp_all add: q_def r_def)
  then have "m + (if r = 0 then 0 else 8 - r) = 8 * (if r = 0 then q else Suc q)" by simp
  then have "8 dvd m + (if r = 0 then 0 else 8 - r)" by (metis dvd_triv_left)
  then show ?thesis by (simp only: pad_len_def Let_def m_def r_def)
qed

lemma length_tea_padded: "length (tea_padded t) = length t + 10 + pad_len (length t)"
  by (simp add: tea_padded_def)

text \<open>A full block is encrypted before the next byte is put.\<close>

lemma fill_full:
  assumes "te_a g = 8"
  shows "tea_fill c (v # vs) g = tea_fill c (v # vs) (encrypt_v c g)"
proof -
  have "te_a (encrypt_v c g) = 0" by (simp add: encrypt_v_def Let_def split: prod.split)
  then show ?thesis
    using assms by (subst tea_fill.simps) simp
qed

text \<open>The arrays before the first byte is put.\<close>

definition start_block :: "nat \<Rightarrow> int option list" where
  "start_block p = js_for 1 (int p + 1) 1 (\<lambda>k i. arr_set i k (js_and 255 0))
     (arr_set (replicate 8 None) 0 (js_and 255 (js_or (js_and 248 0) (int p))))"

lemma start_block:
  assumes "p < 8"
  shows "length (start_block p) = 8" "take (Suc p) (start_block p) = map Some (int p # replicate p 0)"
proof -
  have "list_all (\<lambda>p. length (start_block p) = 8 \<and> take (Suc p) (start_block p) = map Some (int p # replicate p 0)) [0..<8]"
    by code_simp
  with assms show "length (start_block p) = 8" "take (Suc p) (start_block p) = map Some (int p # replicate p 0)"
    by (auto simp: list_all_iff)
qed

lemma start_zeros: "js_for 0 8 1 (\<lambda>k u. arr_set u k 0) (replicate 8 None) = map Some zero_block"
  by code_simp

definition start_tea :: "nat \<Rightarrow> nat \<Rightarrow> tea" where
  "start_tea size_f p = \<lparr>te_i = start_block p, te_u = map Some zero_block, te_f = replicate size_f None, te_l = 0, te_s = 0,
     te_a = int p + 1, te_p = True\<rparr>"

abbreviation start_chain :: chain_state where
  "start_chain \<equiv> (zero_block, zero_block, [])"

lemma start_fill:
  assumes key: "byte_string k" "length k = 16" and p: "p < 8" and size_f: "8 dvd size_f" "8 \<le> size_f"
  shows "\<exists>g c x out part. tea_rep size_f (c, x, out) part g \<and> length part < 8 \<and> 8 dvd length out \<and>
     length out + length part = Suc p \<and>
     tea_fill (map Some k) (v # vs) (start_tea size_f p) = tea_fill (map Some k) (v # vs) g \<and>
     (\<forall>ws. 8 dvd Suc p + length ws \<longrightarrow> fold (put_byte (block_enc k)) ws ((c, x, out), part) =
        (fold (chain_step (block_enc k)) (chunks8 ((int p # replicate p 0) @ ws)) start_chain, []))"
proof -
  let ?part = "int p # replicate p 0"
  let ?g = "start_tea size_f p"
  have rep: "tea_rep size_f start_chain ?part ?g"
    using start_block [OF p] p by (simp add: start_tea_def block8_def)
  show ?thesis
  proof (cases "p = 7")
    case False
    then have "tea_rep size_f start_chain ?part ?g \<and> length ?part < 8 \<and> 8 dvd length ([] :: int list) \<and>
        length ([] :: int list) + length ?part = Suc p \<and>
        (\<forall>ws. 8 dvd Suc p + length ws \<longrightarrow> fold (put_byte (block_enc k)) ws (start_chain, ?part) =
          (fold (chain_step (block_enc k)) (chunks8 (?part @ ws)) start_chain, []))"
      using rep p put_bytes_chunks [of ?part] by (simp del: tea_rep.simps)
    then show ?thesis by blast
  next
    case True
    have rep1: "tea_rep size_f (chain_step (block_enc k) ?part start_chain) [] (encrypt_v (map Some k) ?g)"
      using encrypt_v_rep [OF key rep] True size_f(2) by simp
    obtain c x out where cs: "chain_step (block_enc k) ?part start_chain = (c, x, out)"
      by (cases "chain_step (block_enc k) ?part start_chain")
    have "length out = 8"
      using cs block8_enc by (auto simp: Let_def block8_def)
    moreover have "tea_fill (map Some k) (v # vs) ?g = tea_fill (map Some k) (v # vs) (encrypt_v (map Some k) ?g)"
      using True by (intro fill_full) (simp add: start_tea_def)
    moreover have "fold (put_byte (block_enc k)) ws ((c, x, out), []) =
        (fold (chain_step (block_enc k)) (chunks8 (?part @ ws)) start_chain, [])" if "8 dvd Suc p + length ws" for ws
    proof -
      have "8 dvd length ws" using that True by (simp add: dvd_add_right_iff)
      moreover have "chunks8 (?part @ ws) = ?part # chunks8 ws" using True by (intro chunks8_block) simp
      ultimately show ?thesis using put_bytes_chunks [of "[]" ws] by (simp only: fold_simps cs) simp
    qed
    ultimately show ?thesis using rep1 True unfolding cs
      by (intro exI [of _ "encrypt_v (map Some k) ?g"] exI [of _ c] exI [of _ x] exI [of _ out] exI [of _ "[]"]) (simp del: tea_rep.simps)
  qed
qed

lemma encrypt_y_cipher:
  assumes key: "byte_string k" "length k = 16" and t: "byte_string t"
  shows "\<exists>g. encrypt_y (map Some k) (map Some t) = Some g \<and> te_f g = map Some (tea_cipher k t)"
proof -
  let ?n = "length t"
  let ?p = "pad_len ?n"
  let ?size = "?n + 10 + ?p"
  let ?E = "block_enc k"
  let ?c = "map Some k"
  have p: "?p < 8" by (rule pad_len_less)
  have dvd: "8 dvd ?size" by (rule pad_len_dvd)
  have "(int ?n + 10) mod 8 = int ((?n + 10) mod 8)" by (simp add: zmod_int)
  then have a: "(if (int ?n + 10) mod 8 \<noteq> 0 then 8 - (int ?n + 10) mod 8 else (int ?n + 10) mod 8) = int ?p"
    by (simp only: pad_len_def Let_def) (simp add: of_nat_diff)
  have y: "encrypt_y ?c (map Some t) =
      (case tea_fill ?c [Some 0, Some 0] (start_tea ?size ?p) of
         None \<Rightarrow> None
       | Some g \<Rightarrow> (case tea_fill ?c (map Some t) g of None \<Rightarrow> None | Some g \<Rightarrow> tea_fill ?c (map Some (replicate 7 0)) g))"
  proof -
    have "nat (int ?n + int ?p + 10) = ?size" "js_and 255 0 = 0" "replicate 2 (Some (0::int)) = [Some 0, Some 0]"
      by (simp_all add: js_and_def numeral_2_eq_2)
    then show ?thesis
      unfolding encrypt_y_def Let_def length_map a h_call_zero start_zeros start_block_def [symmetric]
      by (simp only: start_tea_def map_replicate)
  qed
  obtain g0 c0 x0 out0 part0 where g0: "tea_rep ?size (c0, x0, out0) part0 g0" "length part0 < 8" "8 dvd length out0"
      "length out0 + length part0 = Suc ?p"
      "tea_fill ?c [Some 0, Some 0] (start_tea ?size ?p) = tea_fill ?c (map Some [0, 0]) g0"
    and chunks: "\<And>ws. 8 dvd Suc ?p + length ws \<Longrightarrow> fold (put_byte ?E) ws ((c0, x0, out0), part0) =
        (fold (chain_step ?E) (chunks8 ((int ?p # replicate ?p 0) @ ws)) start_chain, [])"
    using start_fill [OF key p dvd, of "Some 0" "[Some 0]"] by (auto simp del: tea_rep.simps)
  obtain g1 c1 x1 out1 part1 where g1: "tea_fill ?c (map Some [0, 0]) g0 = Some g1"
      "fold (put_byte ?E) [0, 0] ((c0, x0, out0), part0) = ((c1, x1, out1), part1)" "tea_rep ?size (c1, x1, out1) part1 g1"
      "length part1 < 8" "8 dvd length out1" "length out1 + length part1 = length out0 + length part0 + length [0, 0 :: int]"
    using fill_rep [OF key g0(1,2), of "[0, 0]"] dvd g0(3,4) by (auto simp del: tea_rep.simps fold_simps)
  obtain g2 c2 x2 out2 part2 where g2: "tea_fill ?c (map Some t) g1 = Some g2"
      "fold (put_byte ?E) t ((c1, x1, out1), part1) = ((c2, x2, out2), part2)" "tea_rep ?size (c2, x2, out2) part2 g2"
      "length part2 < 8" "8 dvd length out2" "length out2 + length part2 = length out1 + length part1 + ?n"
    using fill_rep [OF key g1(3,4) t] dvd g1(5,6) g0(4) by (auto simp del: tea_rep.simps fold_simps)
  obtain g3 c3 x3 out3 part3 where g3: "tea_fill ?c (map Some (replicate 7 0)) g2 = Some g3"
      "fold (put_byte ?E) (replicate 7 0) ((c2, x2, out2), part2) = ((c3, x3, out3), part3)" "tea_rep ?size (c3, x3, out3) part3 g3"
      "length out3 + length part3 = length out2 + length part2 + 7"
    using fill_rep [OF key g2(3,4), of "replicate 7 0"] dvd g2(5,6) g1(6) g0(4) by (auto simp del: tea_rep.simps fold_simps)
  have "fold (put_byte ?E) ([0, 0] @ t @ replicate 7 0) ((c0, x0, out0), part0) = ((c3, x3, out3), part3)"
    by (simp only: fold_append comp_def g1(2) g2(2) g3(2))
  moreover have "8 dvd Suc ?p + length ([0, 0] @ t @ replicate 7 (0 :: int))"
    using dvd by (simp add: algebra_simps)
  ultimately have "((c3, x3, out3), part3) = (fold (chain_step ?E) (chunks8 (tea_padded t)) start_chain, [])"
    using chunks [of "[0, 0] @ t @ replicate 7 0"] by (simp only: tea_padded_def)
  then have fin: "part3 = []" "fold (chain_step ?E) (chunks8 (tea_padded t)) start_chain = (c3, x3, out3)"
    by simp_all
  then have "out3 = tea_cipher k t"
    using chain_steps [of ?E "chunks8 (tea_padded t)" zero_block zero_block "[]"] by (auto simp: tea_cipher_def)
  moreover have "length out3 = ?size" "te_f g3 = map Some out3"
    using g3(3,4) g2(6) g1(6) g0(4) fin(1) by auto
  ultimately show ?thesis
    by (simp add: y g0(5) g1(1) g2(1) g3(1) del: map_replicate list.map)
qed

section \<open>Decryption\<close>

text \<open>The inverse of the mode on bytes, with the padding removed.\<close>

definition tea_decipher :: "int list \<Rightarrow> int list \<Rightarrow> int list" where
  "tea_decipher k out =
     (let bs = concat (chain_dec (block_dec k) zero_block zero_block (chunks8 out)); p = nat (hd bs)
      in take (length bs - 10 - p) (drop (p + 3) bs))"

lemma chunks8_blocks:
  assumes "8 dvd length bs" "byte_string bs"
  shows "(\<forall>b \<in> set (chunks8 bs). block8 b) \<and> concat (chunks8 bs) = bs"
  using assms
proof (induction bs rule: chunks8.induct)
  case (1 bs)
  show ?case
  proof (cases "bs = []")
    case False
    then have "8 \<le> length bs" using "1.prems"(1) by (intro dvd_imp_le) simp_all
    then have head: "length (take 8 bs) = 8" by simp
    have bytes: "byte_string (take 8 bs)" "byte_string (drop 8 bs)"
      using "1.prems"(2) by (auto simp: byte_string_def dest: in_set_takeD in_set_dropD)
    have "8 dvd length (drop 8 bs)" using "1.prems"(1) by simp
    from "1.IH" [OF False this bytes(2)]
    have IH: "\<forall>b \<in> set (chunks8 (drop 8 bs)). block8 b" "concat (chunks8 (drop 8 bs)) = drop 8 bs" by simp_all
    have unfold: "chunks8 bs = take 8 bs # chunks8 (drop 8 bs)"
      using False by (subst chunks8.simps) simp
    show ?thesis
      unfolding unfold using IH head bytes(1) by (simp add: block8_def)
  qed simp
qed

lemma chunks8_concat: "\<forall>b \<in> set bs. length b = 8 \<Longrightarrow> chunks8 (concat bs) = bs"
  by (induction bs) (auto simp: chunks8_block)

lemma chain_enc_blocks:
  "block8 c \<Longrightarrow> block8 x \<Longrightarrow> (\<And>b. block8 (E b)) \<Longrightarrow> \<forall>b \<in> set bs. block8 b \<Longrightarrow>
     (\<forall>b \<in> set (chain_enc E c x bs). block8 b) \<and> length (chain_enc E c x bs) = length bs"
proof (induction bs arbitrary: c x)
  case (Cons b bs)
  have "block8 (xor_bytes b c)" "block8 (xor_bytes (E (xor_bytes b c)) x)"
    using Cons.prems by (simp_all add: block8_xor)
  from Cons.IH [OF this(2,1) Cons.prems(3)] this(2) Cons.prems(4) show ?case by (simp add: Let_def)
qed simp

lemma length_concat_blocks: "\<forall>b \<in> set bs. block8 b \<Longrightarrow> length (concat bs) = 8 * length bs"
  by (induction bs) (auto simp: block8_def)

lemma byte_string_tea_padded: "byte_string t \<Longrightarrow> byte_string (tea_padded t)"
  using pad_len_less [of "length t"] by (simp add: tea_padded_def)

lemma tea_decipher_cipher:
  assumes "byte_string t"
  shows "tea_decipher k (tea_cipher k t) = t" "length (tea_cipher k t) = length t + 10 + pad_len (length t)"
proof -
  let ?bs = "chunks8 (tea_padded t)"
  let ?cs = "chain_enc (block_enc k) zero_block zero_block ?bs"
  have z: "block8 zero_block" by (simp add: block8_def)
  have bs: "\<forall>b \<in> set ?bs. block8 b" "concat ?bs = tea_padded t"
    using chunks8_blocks [of "tea_padded t"] pad_len_dvd [of "length t"] assms by (simp_all add: length_tea_padded byte_string_tea_padded)
  have cs: "\<forall>b \<in> set ?cs. block8 b" "length ?cs = length ?bs"
    using chain_enc_blocks [OF z z _ bs(1), of "block_enc k"] block8_enc by blast+
  have "chunks8 (tea_cipher k t) = ?cs"
    unfolding tea_cipher_def using cs(1) by (intro chunks8_concat) (simp add: block8_def)
  moreover have "chain_dec (block_dec k) zero_block zero_block ?cs = ?bs"
    using z bs(1) block8_enc block_dec_enc by (intro chain_dec_enc) auto
  ultimately have "concat (chain_dec (block_dec k) zero_block zero_block (chunks8 (tea_cipher k t))) = tea_padded t"
    by (simp add: bs(2))
  then show "tea_decipher k (tea_cipher k t) = t"
    by (simp add: tea_decipher_def length_tea_padded Let_def) (simp add: tea_padded_def numeral_3_eq_3)
  show "length (tea_cipher k t) = length t + 10 + pad_len (length t)"
    using length_concat_blocks [OF cs(1)] length_concat_blocks [OF bs(1)] cs(2) bs(2) length_tea_padded [of t]
    by (simp add: tea_cipher_def)
qed

text \<open>
  C9: for a key of sixteen bytes and any byte array the encryption terminates with an output array that is the plain TEA encryption,
  in the chaining mode, of the data behind a header of zero bytes: no padding byte is random. The reference decryption recovers the
  data.
\<close>

theorem encrypt_y_correct:
  assumes "byte_string k" "length k = 16" "byte_string t"
  shows "\<exists>g. encrypt_y (map Some k) (map Some t) = Some g \<and> te_f g = map Some (tea_cipher k t) \<and>
     tea_decipher k (tea_cipher k t) = t \<and> 8 dvd length (tea_cipher k t)"
proof -
  have "8 dvd length (tea_cipher k t)"
    using tea_decipher_cipher(2) [OF assms(3)] pad_len_dvd by simp
  with encrypt_y_cipher [OF assms] tea_decipher_cipher(1) [OF assms(3)] show ?thesis by blast
qed

theorem encrypt_y_correct_witness:
  "\<exists>g. encrypt_y (map Some [0..15]) (map Some [104, 105]) = Some g \<and> te_f g = map Some (tea_cipher [0..15] [104, 105]) \<and>
     tea_decipher [0..15] (tea_cipher [0..15] [104, 105]) = [104, 105]"
proof -
  have "byte_string [0..15]" "length [0..15 :: int] = 16" "byte_string [104, 105]"
    by (auto simp: byte_string_def)
  from encrypt_y_correct [OF this] show ?thesis by blast
qed

end
