(* ===== verification/Qq_Login.thy ===== *)
theory Qq_Login
  imports Qq_Tea Js_Base64
begin

text \<open>
  The rest of \<^verbatim>\<open>QQ/js/pwd.js\<close> but its RSA library: conversions between text, hexadecimal text and bytes, the object \<^verbatim>\<open>S\<close>, the
  Base64 object \<^verbatim>\<open>sEncode\<close> and the entry points \<^verbatim>\<open>getEncryption\<close> and \<^verbatim>\<open>getPwd\<close>. The argument \<open>rsa\<close> is
  \<^verbatim>\<open>RSA.rsa_encrypt\<close>.

  The record \<open>qq_globals\<close> holds the global names that are both functions and variables of the cipher: \<^verbatim>\<open>c\<close>, the MD5 function until
  \<^verbatim>\<open>initkey\<close> stores the key there, and \<^verbatim>\<open>l\<close> and \<^verbatim>\<open>p\<close>, parts of MD5 until \<^verbatim>\<open>encrypt_y\<close> stores its position and its flag there.
  Account numbers are below \<open>2 ^ 53\<close>, where numbers are exact, and \<^verbatim>\<open>toUpperCase\<close> is modelled on ASCII text. The report that
  \<^verbatim>\<open>getEncryption\<close> schedules sends nothing and is left out.
\<close>

section \<open>Errors and globals\<close>

text \<open>\<open>NoResult\<close> is the value of a loop that does not end.\<close>

datatype qq_error = QTypeError | QReferenceError | QSyntaxError | QThrown jstr | NoResult

record qq_globals =
  gl_c :: "int option list option"
  gl_tea :: "tea option"

definition fresh_globals :: qq_globals where
  "fresh_globals = \<lparr>gl_c = None, gl_tea = None\<rparr>"

text \<open>A call of \<^verbatim>\<open>c\<close>, which calls \<^verbatim>\<open>l\<close>, which calls \<^verbatim>\<open>p\<close>.\<close>

definition call_c :: "qq_globals \<Rightarrow> jstr \<Rightarrow> qq_error + jstr" where
  "call_c G t = (if gl_c G = None \<and> gl_tea G = None then Inr (qq_c t) else Inl QTypeError)"

section \<open>Numbers and text\<close>

text \<open>\<^verbatim>\<open>Number(x).toString(16)\<close> of an integer or \<^verbatim>\<open>NaN\<close>, and \<^verbatim>\<open>parseInt(x, 16)\<close>.\<close>

definition number_hex :: "int option \<Rightarrow> jstr" where
  "number_hex v = (case v of None \<Rightarrow> str ''NaN'' | Some v \<Rightarrow> if v < 0 then 45 # js_to_hex (- v) else js_to_hex v)"

definition parse_int16 :: "jstr \<Rightarrow> int option" where
  "parse_int16 s =
     (let s = dropWhile js_space s;
          neg = (s \<noteq> [] \<and> hd s = 45);
          s = (if s \<noteq> [] \<and> (hd s = 45 \<or> hd s = 43) then tl s else s);
          s = (if take 2 s = str ''0x'' \<or> take 2 s = str ''0X'' then drop 2 s else s)
      in map_option (\<lambda>v. if neg then - v else v) (parse_digits 16 s))"

text \<open>The pieces \<^verbatim>\<open>t.substr(n, 2)\<close> for \<^verbatim>\<open>n = 0, 2, 4, ...\<close>\<close>

fun substr_pairs :: "jstr \<Rightarrow> jstr list" where
  "substr_pairs (a # b # t) = [a, b] # substr_pairs t"
| "substr_pairs [a] = [[a]]"
| "substr_pairs [] = []"

text \<open>
  \<^verbatim>\<open>uin2hex\<close>: the text \<^verbatim>\<open>\xHH...\<close> is evaluated as a string literal, a syntax error unless every escape has two hexadecimal digits.
\<close>

definition uin2hex :: "jstr \<Rightarrow> qq_error + jstr" where
  "uin2hex s =
     (let hex = number_hex (parse_int s);
          hex = replicate (16 - length hex) 48 @ hex;
          arr = map (\<lambda>j. js_substr hex (2 * int j) 2) [0..<8]
      in if list_all (\<lambda>p. length p = 2 \<and> list_all (\<lambda>c. digit_value c < 16) p) arr
         then Inr (map (\<lambda>p. 16 * digit_value (p ! 0) + digit_value (p ! 1)) arr)
         else Inl QSyntaxError)"

definition qq_w :: "jstr \<Rightarrow> jstr" where
  "qq_w t = concat (map (\<lambda>p. from_char_code (bits_of (parse_int16 p))) (substr_pairs t))"

definition qq_k :: "jstr \<Rightarrow> bool \<Rightarrow> int option list" where
  "qq_k t e = (if e then map (\<lambda>c. Some (js_and 255 c)) t else map parse_int16 (substr_pairs t))"

text \<open>The function \<^verbatim>\<open>encrypt_\<close>, which \<^verbatim>\<open>S\<close> offers as \<^verbatim>\<open>bytesInStr\<close>.\<close>

definition bytesInStr :: "int option list \<Rightarrow> jstr" where
  "bytesInStr t = concat (map (\<lambda>v. let x = number_hex v in if length x = 1 then 48 # x else x) t)"

section \<open>The object S\<close>

definition S_initkey :: "jstr \<Rightarrow> qq_globals \<Rightarrow> qq_globals" where
  "S_initkey t G = G\<lparr>gl_c := Some (qq_k t False)\<rparr>"

text \<open>A function has no elements: as a key it is an empty array.\<close>

definition S_encrypt :: "jstr \<Rightarrow> bool \<Rightarrow> qq_globals \<Rightarrow> (qq_error + jstr) \<times> qq_globals" where
  "S_encrypt t e G =
     (case encrypt_y (case gl_c G of None \<Rightarrow> [] | Some k \<Rightarrow> k) (qq_k t e) of
        None \<Rightarrow> (Inl NoResult, G)
      | Some g \<Rightarrow> (Inr (bytesInStr (te_f g)), G\<lparr>gl_tea := Some g\<rparr>))"

text \<open>
  \<^verbatim>\<open>enAsBase64\<close> calls the packing function of MD5 on an array, which has no method \<^verbatim>\<open>charCodeAt\<close>; on the empty text it goes on to the
  undeclared name \<^verbatim>\<open>r\<close>.
\<close>

definition S_enAsBase64 :: "jstr \<Rightarrow> bool \<Rightarrow> qq_error + jstr" where
  "S_enAsBase64 t e = (if qq_k t e = [] then Inl QReferenceError else Inl QTypeError)"

text \<open>\<^verbatim>\<open>decrypt\<close> calls \<^verbatim>\<open>_\<close>, a name that exists inside the RSA library only; the lookup fails before the argument is evaluated.\<close>

definition S_decrypt :: "jstr \<Rightarrow> qq_error + jstr" where
  "S_decrypt t = Inl QReferenceError"

definition S_bytesToStr :: "jstr \<Rightarrow> jstr" where
  "S_bytesToStr t = concat (map (\<lambda>p. from_char_code (bits_of (parse_int16 p))) (substr_pairs t))"

definition utf8_char :: "int \<Rightarrow> jstr" where
  "utf8_char n =
     (if 0 < n \<and> n \<le> 127 then [n]
      else if 128 \<le> n \<and> n \<le> 2047 then
        from_char_code (js_or 192 (js_and (js_shr n 6) 31)) @ from_char_code (js_or 128 (js_and 63 n))
      else if 2048 \<le> n \<and> n \<le> 65535 then
        from_char_code (js_or 224 (js_and (js_shr n 12) 15)) @ from_char_code (js_or 128 (js_and (js_shr n 6) 63)) @
        from_char_code (js_or 128 (js_and 63 n))
      else [])"

definition S_strToBytes :: "jstr \<Rightarrow> bool \<Rightarrow> jstr" where
  "S_strToBytes t e =
     (if t = [] then [] else let t = (if e then concat (map utf8_char t) else t) in bytesInStr (map Some t))"

section \<open>The object sEncode\<close>

definition sEncode_getbyte :: "jstr \<Rightarrow> int \<Rightarrow> qq_error + int" where
  "sEncode_getbyte t e =
     (case char_code_at t e of
        None \<Rightarrow> Inr 0
      | Some c \<Rightarrow> if 255 < c then Inl (QThrown (str ''INVALID_CHARACTER_ERR: DOM Exception 5'')) else Inr c)"

definition ALPHA :: jstr where
  "ALPHA = str ''ABCDEFGHIJKLMNOPQRSTUVWXYZabcdefghijklmnopqrstuvwxyz0123456789+/''"

text \<open>The first \<open>m\<close> of the three bytes at \<open>e\<close>, in a number of 24 bits.\<close>

definition sEncode_group :: "jstr \<Rightarrow> int \<Rightarrow> nat \<Rightarrow> qq_error + int" where
  "sEncode_group t e m =
     (case sEncode_getbyte t e of
        Inl x \<Rightarrow> Inl x
      | Inr a \<Rightarrow>
          if m = 1 then Inr (js_shl a 16)
          else case sEncode_getbyte t (e + 1) of
              Inl x \<Rightarrow> Inl x
            | Inr b \<Rightarrow>
                if m = 2 then Inr (js_or (js_shl a 16) (js_shl b 8))
                else map_sum id (\<lambda>c. js_or (js_or (js_shl a 16) (js_shl b 8)) c) (sEncode_getbyte t (e + 2)))"

function sEncode_loop :: "jstr \<Rightarrow> int \<Rightarrow> int \<Rightarrow> jstr \<Rightarrow> qq_error + jstr \<times> int" where
  "sEncode_loop t u e a =
     (if e < u then
        case sEncode_group t e 3 of
          Inl x \<Rightarrow> Inl x
        | Inr n \<Rightarrow>
            sEncode_loop t u (e + 3) (a @ char_at ALPHA (js_shr n 18) @ char_at ALPHA (js_and (js_shr n 12) 63) @
              char_at ALPHA (js_and (js_shr n 6) 63) @ char_at ALPHA (js_and 63 n))
      else Inr (a, e))"
  by pat_completeness auto
termination
  by (relation "measure (\<lambda>(t, u, e, a). nat (u - e))") auto

declare sEncode_loop.simps [simp del]

definition sEncode_encode :: "jstr \<Rightarrow> qq_error + jstr" where
  "sEncode_encode t =
     (let u = int (length t) - int (length t) mod 3
      in if t = [] then Inr t
      else case sEncode_loop t u 0 [] of
          Inl x \<Rightarrow> Inl x
        | Inr (a, e) \<Rightarrow>
            if int (length t) - u = 1 then
              map_sum id (\<lambda>n. a @ char_at ALPHA (js_shr n 18) @ char_at ALPHA (js_and (js_shr n 12) 63) @ str ''=='') (sEncode_group t e 1)
            else if int (length t) - u = 2 then
              map_sum id (\<lambda>n. a @ char_at ALPHA (js_shr n 18) @ char_at ALPHA (js_and (js_shr n 12) 63) @
                char_at ALPHA (js_and (js_shr n 6) 63) @ str ''='') (sEncode_group t e 2)
            else Inr a)"

section \<open>getEncryption and getPwd\<close>

definition ascii_upper :: "jstr \<Rightarrow> jstr" where
  "ascii_upper s = map (\<lambda>c. if 97 \<le> c \<and> c \<le> 122 then c - 32 else c) s"

text \<open>\<^verbatim>\<open>Number(n.length / 2).toString(16)\<close>, filled with zeros to four digits; both texts it measures have an even length.\<close>

definition half_length :: "jstr \<Rightarrow> jstr" where
  "half_length n = (let i = nat_to_hex (length n div 2) in replicate (4 - length i) 48 @ i)"

definition url_char :: "int \<Rightarrow> int" where
  "url_char c = (if c = 47 then 45 else if c = 43 then 42 else if c = 61 then 95 else c)"

definition seal :: "jstr \<Rightarrow> qq_error + jstr" where
  "seal n = map_sum id (map url_char) (sEncode_encode (qq_w n))"

definition getEncryption ::
    "(jstr \<Rightarrow> qq_error + jstr) \<Rightarrow> jstr \<Rightarrow> jstr \<Rightarrow> jstr \<Rightarrow> bool \<Rightarrow> qq_globals \<Rightarrow> (qq_error + jstr) \<times> qq_globals" where
  "getEncryption rsa t e n hashed G =
     (case (if hashed then Inr t else call_c G t) of
        Inl x \<Rightarrow> (Inl x, G)
      | Inr ha \<Rightarrow>
          (case call_c G (qq_w ha @ e) of
             Inl x \<Rightarrow> (Inl x, G)
           | Inr t \<Rightarrow>
               let n = S_strToBytes (ascii_upper n) True;
                   i = half_length n
               in case S_encrypt (ha @ S_strToBytes e False @ i @ n) False (S_initkey t G) of
                    (Inl x, G) \<Rightarrow> (Inl x, G)
                  | (Inr n, G) \<Rightarrow>
                      let G = S_initkey [] G; r = half_length n
                      in (case rsa (qq_w (r @ n)) of Inl x \<Rightarrow> Inl x | Inr n \<Rightarrow> seal n, G)))"

definition getPwd_qq ::
    "(jstr \<Rightarrow> qq_error + jstr) \<Rightarrow> jstr \<Rightarrow> jstr \<Rightarrow> jstr \<Rightarrow> qq_globals \<Rightarrow> (qq_error + jstr) \<times> qq_globals" where
  "getPwd_qq rsa pwd user code G =
     (case uin2hex user of
        Inl x \<Rightarrow> (Inl x, G)
      | Inr salt \<Rightarrow> getEncryption rsa pwd salt code False G)"

section \<open>Hexadecimal text\<close>

text \<open>A text that is read as the bytes \<open>bs\<close>.\<close>

definition hex_for :: "jstr \<Rightarrow> int list \<Rightarrow> bool" where
  "hex_for t bs \<longleftrightarrow> even (length t) \<and> map parse_int16 (substr_pairs t) = map Some bs"

lemma substr_pairs_append: "even (length t) \<Longrightarrow> substr_pairs (t @ u) = substr_pairs t @ substr_pairs u"
  by (induction t rule: substr_pairs.induct) simp_all

lemma hex_for_append: "hex_for t bs \<Longrightarrow> hex_for u cs \<Longrightarrow> hex_for (t @ u) (bs @ cs)"
  by (simp add: hex_for_def substr_pairs_append)

lemma hex_for_Nil: "hex_for [] []"
  by (simp add: hex_for_def)

lemma hex_for_concat: "(\<And>b. b \<in> set bs \<Longrightarrow> hex_for (f b) [b]) \<Longrightarrow> hex_for (concat (map f bs)) bs"
proof (induction bs)
  case (Cons b bs)
  then show ?case using hex_for_append [of "f b" "[b]" "concat (map f bs)" bs] by simp
qed (simp add: hex_for_Nil)

lemma hex_for_length: "hex_for t bs \<Longrightarrow> length t = 2 * length bs"
proof -
  have "length (substr_pairs t) = (length t + 1) div 2"
    by (induction t rule: substr_pairs.induct) simp_all
  moreover assume "hex_for t bs"
  then have "even (length t)" "length (substr_pairs t) = length bs"
    by (auto simp: hex_for_def dest: map_eq_imp_length_eq)
  ultimately show ?thesis by (auto elim!: evenE)
qed

lemma hex_for_k: "hex_for t bs \<Longrightarrow> qq_k t False = map Some bs"
  by (simp add: hex_for_def qq_k_def)

lemma hex_for_w:
  assumes "hex_for t bs" "byte_string bs"
  shows "qq_w t = bs"
proof -
  have "map (\<lambda>p. from_char_code (bits_of (parse_int16 p))) (substr_pairs t) =
      map (\<lambda>v. from_char_code (bits_of v)) (map parse_int16 (substr_pairs t))" by simp
  also have "\<dots> = map (\<lambda>b. [b]) bs"
    using assms by (auto simp: hex_for_def from_char_code_def byte_string_def)
  finally show ?thesis by (simp add: qq_w_def)
qed

lemma parse_pair:
  assumes "digit_value a < 16" "digit_value b < 16"
  shows "parse_int16 [a, b] = Some (16 * digit_value a + digit_value b)"
proof -
  have "48 \<le> a \<and> a \<le> 57 \<or> 65 \<le> a \<and> a \<le> 70 \<or> 97 \<le> a \<and> a \<le> 102" "b \<noteq> 120" "b \<noteq> 88"
    using assms by (auto simp: digit_value_def split: if_splits)
  then have "\<not> js_space a" "a \<noteq> 45" "a \<noteq> 43"
    by (auto simp: js_space_def)
  with assms \<open>b \<noteq> 120\<close> \<open>b \<noteq> 88\<close> show ?thesis
    by (simp add: parse_int16_def parse_digits_def str_def)
qed

lemma hex_digit_values:
  assumes "d < 16"
  shows "digit_value (hex_digits ! d) = int d" "digit_value (str ''0123456789ABCDEF'' ! d) = int d"
proof -
  have "list_all (\<lambda>d. digit_value (hex_digits ! d) = int d \<and> digit_value (str ''0123456789ABCDEF'' ! d) = int d) [0..<16]"
    by code_simp
  with assms show "digit_value (hex_digits ! d) = int d" "digit_value (str ''0123456789ABCDEF'' ! d) = int d"
    by (auto simp: list_all_iff)
qed

lemma hex_for_pair: "digit_value x = b div 16 \<Longrightarrow> digit_value y = b mod 16 \<Longrightarrow> 0 \<le> b \<Longrightarrow> b < 256 \<Longrightarrow> hex_for [x, y] [b]"
  by (simp add: hex_for_def parse_pair)

lemma hex_byte_texts:
  assumes "0 \<le> b" "b < 256"
  shows "hex_for (upper_hex_byte b) [b]"
    "hex_for (let x = number_hex (Some b) in if length x = 1 then 48 # x else x) [b]" "hex_for (hex_of_byte b) [b]"
proof -
  have d: "nat (b div 16) < 16" "nat (b mod 16) < 16" "int (nat (b div 16)) = b div 16" "int (nat (b mod 16)) = b mod 16"
    using assms by auto
  show lower: "hex_for (hex_of_byte b) [b]"
    unfolding hex_of_byte_def using d assms by (intro hex_for_pair) (simp_all add: hex_digit_values)
  have "upper_hex_byte b = [str ''0123456789ABCDEF'' ! nat (b div 16), str ''0123456789ABCDEF'' ! nat (b mod 16)]"
    using d assms by (simp add: upper_hex_byte_def char_at_def str_def)
  then show "hex_for (upper_hex_byte b) [b]"
    using d assms by (simp only:) (intro hex_for_pair, simp_all add: hex_digit_values)
  have "(let x = number_hex (Some b) in if length x = 1 then 48 # x else x) = hex_of_byte b"
  proof (cases "b < 16")
    case True
    then have "nat b < 16" using assms by simp
    then have "number_hex (Some b) = [hex_digits ! nat b]"
      using assms by (simp add: number_hex_def js_to_hex_def nat_to_hex.simps [of "nat b"])
    moreover have "hex_of_byte b = [48, hex_digits ! nat b]"
      using True assms by (simp add: hex_of_byte_def hex_digits_def str_def)
    ultimately show ?thesis by simp
  next
    case False
    then have "\<not> nat b < 16" "nat b < 256" using assms by simp_all
    moreover from this have "nat b div 16 < 16" by simp
    ultimately have "number_hex (Some b) = [hex_digits ! (nat b div 16), hex_digits ! (nat b mod 16)]"
      using assms by (simp add: number_hex_def js_to_hex_def nat_to_hex.simps [of "nat b"] nat_to_hex.simps [of "nat b div 16"])
    then show ?thesis using assms by (simp add: hex_of_byte_def nat_div_distrib nat_mod_distrib)
  qed
  with lower show "hex_for (let x = number_hex (Some b) in if length x = 1 then 48 # x else x) [b]" by simp
qed

lemma hex_for_bytes:
  assumes "byte_string bs"
  shows "hex_for (upper_hex_bytes bs) bs" "hex_for (bytesInStr (map Some bs)) bs" "hex_for (hex_of_bytes bs) bs"
proof -
  have b: "0 \<le> b" "b < 256" if "b \<in> set bs" for b using that assms by (simp_all add: byte_string_def)
  show "hex_for (upper_hex_bytes bs) bs" "hex_for (hex_of_bytes bs) bs"
    unfolding upper_hex_bytes_def hex_of_bytes_def by (rule hex_for_concat; rule hex_byte_texts; rule b; assumption)+
  show "hex_for (bytesInStr (map Some bs)) bs"
    unfolding bytesInStr_def map_map comp_def by (rule hex_for_concat; rule hex_byte_texts; rule b; assumption)
qed

text \<open>A numeral filled with zeros to \<open>k\<close> digits.\<close>

lemma nat_to_hex_pad:
  assumes "0 < k" "n < 16 ^ k"
  shows "replicate (k - length (nat_to_hex n)) 48 @ nat_to_hex n = map (\<lambda>i. hex_digits ! (n div 16 ^ i mod 16)) (rev [0..<k])"
  using assms
proof (induction k arbitrary: n)
  case (Suc k)
  have zero: "hex_digits ! 0 = 48" by (simp add: hex_digits_def str_def)
  have "rev [0..<Suc k] = map Suc (rev [0..<k]) @ [0]" by (simp add: rev_map [symmetric] map_Suc_upt upt_conv_Cons del: upt_Suc)
  then have digits: "map (\<lambda>i. hex_digits ! (n div 16 ^ i mod 16)) (rev [0..<Suc k]) =
      map (\<lambda>i. hex_digits ! (n div 16 div 16 ^ i mod 16)) (rev [0..<k]) @ [hex_digits ! (n mod 16)]"
    by (simp add: comp_def div_mult2_eq del: upt_Suc)
  show ?case
  proof (cases "n < 16")
    case True
    then have "map (\<lambda>i. hex_digits ! (n div 16 div 16 ^ i mod 16)) (rev [0..<k]) = replicate k 48"
      by (simp add: zero map_replicate_const)
    with True show ?thesis unfolding digits by (simp add: nat_to_hex.simps [of n])
  next
    case False
    have "16 ^ k = 1" if "k = 0" using that by simp
    then have k: "0 < k" "n div 16 < 16 ^ k" using Suc.prems False by (auto intro: gr0I simp: less_mult_imp_div_less mult.commute)
    have "nat_to_hex n = nat_to_hex (n div 16) @ [hex_digits ! (n mod 16)]"
      using False by (simp add: nat_to_hex.simps [of n])
    then show ?thesis unfolding digits Suc.IH [OF k, symmetric] by simp
  qed
qed simp

lemma hex_for_half_length:
  assumes "hex_for n bs" "length bs < 65536"
  shows "hex_for (half_length n) [int (length bs div 256), int (length bs mod 256)]"
proof -
  let ?L = "length bs"
  have "length n div 2 = ?L" using hex_for_length [OF assms(1)] by simp
  then have "half_length n = hex_of_byte (int (?L div 256)) @ hex_of_byte (int (?L mod 256))"
  proof -
    have "?L div 256 div 16 = ?L div 4096" "?L mod 256 div 16 = ?L div 16 mod 16" "?L mod 256 mod 16 = ?L mod 16"
      by (simp_all add: div_mult2_eq mod_mult2_eq [of _ 16 16, simplified] mod_mod_cancel)
    moreover have "replicate (4 - length (nat_to_hex ?L)) 48 @ nat_to_hex ?L =
        map (\<lambda>d. hex_digits ! d) [?L div 4096, ?L div 256 mod 16, ?L div 16 mod 16, ?L mod 16]"
      using nat_to_hex_pad [of 4 ?L] assms(2) by (simp add: upt_rec)
    ultimately show ?thesis
      using \<open>length n div 2 = ?L\<close>
      by (simp add: half_length_def hex_of_byte_def Let_def nat_div_distrib nat_mod_distrib)
  qed
  moreover have "?L div 256 < 256" "?L mod 256 < 256" using assms(2) by simp_all
  ultimately show ?thesis
    using hex_for_append [OF hex_byte_texts(3) hex_byte_texts(3), of "int (?L div 256)" "int (?L mod 256)"] by simp
qed

section \<open>sEncode is Base64\<close>

lemma div_64: "0 \<le> z \<Longrightarrow> z < 64 \<Longrightarrow> (64 * q + z) div 64 = q \<and> (64 * q + z) mod 64 = (z :: int)"
  by simp

lemma scale_mod: "y * c = (c * d) * (y div d) + y mod d * c" for c d y :: int
proof -
  have "(d * (y div d) + y mod d) * c = (c * d) * (y div d) + y mod d * c" by (simp only: algebra_simps)
  then show ?thesis by (simp only: mult_div_mod_eq)
qed

lemma group_24:
  assumes "0 \<le> x" "x < 256" "0 \<le> y" "y < 256" "0 \<le> z" "z < 256"
  defines "n \<equiv> x * 65536 + y * 256 + z"
  shows "js_shr n 18 = x div 4" "js_and (js_shr n 12) 63 = x mod 4 * 16 + y div 16"
    "js_and (js_shr n 6) 63 = y mod 16 * 4 + z div 64" "js_and 63 n = z mod 64"
    "js_or (js_or (js_shl x 16) (js_shl y 8)) z = n" "js_or (js_shl x 16) (js_shl y 8) = x * 65536 + y * 256" "js_shl x 16 = x * 65536"
proof -
  note r = b64_group_range [OF assms(1-6)]
  have n: "0 \<le> n" "n < 2147483648" using assms(1-6) by (simp_all add: n_def)
  have "0 \<le> z mod 64" "z mod 64 < 64" by simp_all
  note d0 = div_64 [OF this]
  have n0: "n = 64 * (x * 1024 + y * 4 + z div 64) + z mod 64" by (simp add: n_def)
  have n1: "n div 64 = x * 1024 + y * 4 + z div 64" "n mod 64 = z mod 64"
    unfolding n0 by (simp_all only: d0)
  have m1: "n div 64 = 64 * (x * 16 + y div 16) + (y mod 16 * 4 + z div 64)"
    unfolding n1 using scale_mod [of y 4 16] by simp
  have n2: "n div 64 div 64 = x * 16 + y div 16" "n div 64 mod 64 = y mod 16 * 4 + z div 64"
    unfolding m1 by (simp_all only: div_64 [OF r(5,6)])
  have m2: "n div 64 div 64 = 64 * (x div 4) + (x mod 4 * 16 + y div 16)"
    unfolding n2 using scale_mod [of x 16 4] by simp
  have n3: "n div 64 div 64 div 64 = x div 4" "n div 64 div 64 mod 64 = x mod 4 * 16 + y div 16"
    unfolding m2 by (simp_all only: div_64 [OF r(3,4)])
  have mask: "js_and v 63 = v mod 64" "js_and 63 v = v mod 64" for v
    using js_and_mask [of 6 v] by (simp_all add: js_and_comm [of 63])
  have shr: "js_shr n 6 = n div 64" "js_shr n 12 = n div 64 div 64" "js_shr n 18 = n div 64 div 64 div 64"
    using n by (simp_all add: js_shr_div zdiv_zmult2_eq [symmetric])
  show "js_shr n 18 = x div 4" "js_and (js_shr n 12) 63 = x mod 4 * 16 + y div 16"
    "js_and (js_shr n 6) 63 = y mod 16 * 4 + z div 64" "js_and 63 n = z mod 64"
    by (simp_all only: mask shr n1(2) n2(2) n3)
  have shl: "js_shl x 16 = x * 65536" "js_shl y 8 = y * 256"
    using assms(1-6) by (simp_all add: js_shl_def push_bit_eq_mult)
  have or1: "js_or (x * 65536) (y * 256) = x * 65536 + y * 256"
    using js_or_add(2) [of "y * 256" 16 x] assms(1-6) by simp
  have "js_or ((x * 256 + y) * 2 ^ 8) z = z + (x * 256 + y) * 2 ^ 8"
    using assms(1-6) by (intro js_or_add(2)) simp_all
  then have or2: "js_or (x * 65536 + y * 256) z = n"
    by (simp add: n_def algebra_simps)
  show "js_or (js_or (js_shl x 16) (js_shl y 8)) z = n" "js_or (js_shl x 16) (js_shl y 8) = x * 65536 + y * 256" "js_shl x 16 = x * 65536"
    by (simp_all only: shl or1 or2)
qed

lemma sEncode_getbyte_byte: "byte_string t \<Longrightarrow> k < length t \<Longrightarrow> sEncode_getbyte t (int k) = Inr (t ! k)"
  using byte_string_nth [of t k] by (simp add: sEncode_getbyte_def)

lemma ALPHA_char: "0 \<le> d \<Longrightarrow> d < 64 \<Longrightarrow> char_at ALPHA d = [b64_char d]"
  using b64_char_at [of d] by (simp add: ALPHA_def b64_alphabet_def)

lemma sEncode_loop_spec:
  assumes "byte_string t" "3 dvd k" "k + 3 * m \<le> length t"
  shows "sEncode_loop t (int k + 3 * int m) (int k) a = Inr (a @ b64_encode (take (3 * m) (drop k t)), int k + 3 * int m)"
  using assms
proof (induction m arbitrary: k a)
  case 0
  then show ?case by (simp add: sEncode_loop.simps)
next
  case (Suc m)
  let ?x = "t ! k" and ?y = "t ! Suc k" and ?z = "t ! Suc (Suc k)"
  have k: "k < length t" "Suc k < length t" "Suc (Suc k) < length t" using Suc.prems by simp_all
  have b: "0 \<le> ?x" "?x < 256" "0 \<le> ?y" "?y < 256" "0 \<le> ?z" "?z < 256"
    using byte_string_nth [OF Suc.prems(1)] k by simp_all
  have idx: "int k + 1 = int (Suc k)" "int k + 2 = int (Suc (Suc k))" by simp_all
  have grp: "sEncode_group t (int k) 3 = Inr (?x * 65536 + ?y * 256 + ?z)"
    unfolding sEncode_group_def idx using k Suc.prems(1) group_24 [OF b] by (simp add: sEncode_getbyte_byte del: of_nat_Suc)
  have drop: "take (3 * Suc m) (drop k t) = ?x # ?y # ?z # take (3 * m) (drop (k + 3) t)"
    using k by (simp add: Cons_nth_drop_Suc [symmetric] numeral_3_eq_3)
  have fin: "int k + 3 * int (Suc m) = int (k + 3) + 3 * int m" "int k + 3 = int (k + 3)" by simp_all
  have less: "int k < int k + 3 * int (Suc m)" by simp
  let ?g = "[b64_char (?x div 4), b64_char (?x mod 4 * 16 + ?y div 16), b64_char (?y mod 16 * 4 + ?z div 64), b64_char (?z mod 64)]"
  have "sEncode_loop t (int k + 3 * int (Suc m)) (int k) a = sEncode_loop t (int (k + 3) + 3 * int m) (int (k + 3)) (a @ ?g)"
    using less b64_group_range [OF b] unfolding sEncode_loop.simps [of t _ "int k"]
    by (simp only: if_True grp sum.case group_24 [OF b] ALPHA_char pos_mod_sign pos_mod_bound zero_less_numeral append.simps fin append_assoc)
  also have "\<dots> = Inr ((a @ ?g) @ b64_encode (take (3 * m) (drop (k + 3) t)), int (k + 3) + 3 * int m)"
    using Suc.prems by (intro Suc.IH) simp_all
  finally show ?case unfolding drop by simp
qed

lemma b64_encode_append: "3 dvd length bs \<Longrightarrow> b64_encode (bs @ cs) = b64_encode bs @ b64_encode cs"
proof (induction bs rule: b64_encode.induct)
  case (4 a b c r)
  have "length (a # b # c # r) = 3 + length r" by simp
  with 4(2) have "3 dvd length r" by (simp only: dvd_add_triv_left_iff)
  with 4(1) show ?case by simp
qed (auto dest: dvd_imp_le)

lemma sEncode_encode_b64:
  assumes "byte_string t"
  shows "sEncode_encode t = Inr (b64_encode t)"
proof (cases "t = []")
  case False
  define m where "m = length t div 3"
  define j where "j = length t mod 3"
  have len: "length t = 3 * m + j" "j < 3" by (simp_all add: m_def j_def)
  have u: "int (length t) - int (length t) mod 3 = 3 * int m"
    using len by (simp add: zmod_int [symmetric])
  have loop: "sEncode_loop t (3 * int m) 0 [] = Inr (b64_encode (take (3 * m) t), 3 * int m)"
    using sEncode_loop_spec [OF assms, of 0 m "[]"] len(1) by simp
  have split: "b64_encode t = b64_encode (take (3 * m) t) @ b64_encode (drop (3 * m) t)"
    using b64_encode_append [of "take (3 * m) t" "drop (3 * m) t"] len(1) by simp
  have j: "int (length t) - 3 * int m = int j" using len(1) by simp
  have get: "sEncode_getbyte t (3 * int m + int i) = Inr (t ! (3 * m + i))" if "i < j" for i
    using sEncode_getbyte_byte [OF assms, of "3 * m + i"] that len(1) by simp
  have b: "0 \<le> t ! (3 * m + i)" "t ! (3 * m + i) < 256" if "i < j" for i
    using byte_string_nth [OF assms, of "3 * m + i"] that len(1) by simp_all
  consider "j = 0" | "j = 1" | "j = 2" using len(2) by linarith
  then show ?thesis
  proof cases
    case 1
    then have "take (3 * m) t = t" using len by simp
    with 1 False show ?thesis by (simp add: sEncode_encode_def u loop Let_def j)
  next
    case 2
    let ?x = "t ! (3 * m)"
    have x: "0 \<le> ?x" "?x < 256" using b [of 0] 2 by simp_all
    have "drop (3 * m) t = [?x]" using len 2 by (simp add: Cons_nth_drop_Suc [symmetric])
    moreover have "sEncode_group t (3 * int m) 1 = Inr (?x * 65536 + 0 * 256 + 0)"
      using get [of 0] 2 group_24 [OF x, of 0 0] by (simp add: sEncode_group_def)
    ultimately show ?thesis
      using False 2 group_24 [OF x, of 0 0] b64_group_range [OF x, of 0 0]
      by (simp add: sEncode_encode_def u loop Let_def j split ALPHA_char str_def)
  next
    case 3
    let ?x = "t ! (3 * m)" and ?y = "t ! Suc (3 * m)"
    have x: "0 \<le> ?x" "?x < 256" and y: "0 \<le> ?y" "?y < 256" using b [of 0] b [of 1] 3 by simp_all
    have "drop (3 * m) t = [?x, ?y]" using len 3 by (simp add: Cons_nth_drop_Suc [symmetric])
    moreover have "sEncode_group t (3 * int m) 2 = Inr (?x * 65536 + ?y * 256 + 0)"
      using get [of 0] get [of 1] 3 group_24 [OF x y, of 0] by (simp add: sEncode_group_def)
    moreover have z: "0 \<le> (0 :: int)" "(0 :: int) < 256" by simp_all
    have "char_at ALPHA (js_shr (?x * 65536 + ?y * 256 + 0) 18) = [b64_char (?x div 4)]"
      "char_at ALPHA (js_and (js_shr (?x * 65536 + ?y * 256 + 0) 12) 63) = [b64_char (?x mod 4 * 16 + ?y div 16)]"
      "char_at ALPHA (js_and (js_shr (?x * 65536 + ?y * 256 + 0) 6) 63) = [b64_char (?y mod 16 * 4)]"
      using ALPHA_char [OF b64_group_range(1,2) [OF x y z]] ALPHA_char [OF b64_group_range(3,4) [OF x y z]]
        ALPHA_char [OF b64_group_range(5,6) [OF x y z]] unfolding group_24(1-3) [OF x y z] by simp_all
    ultimately show ?thesis
      using False 3 by (simp add: sEncode_encode_def u loop Let_def j split str_def)
  qed
qed (simp add: sEncode_encode_def)

section \<open>The login packet\<close>

definition be_bytes8 :: "nat \<Rightarrow> int list" where
  "be_bytes8 v = map (\<lambda>i. int (v div 256 ^ i mod 256)) [7, 6, 5, 4, 3, 2, 1, 0]"

definition be_bytes2 :: "nat \<Rightarrow> int list" where
  "be_bytes2 n = [int (n div 256), int (n mod 256)]"

lemma nibble_pair: "16 * (n div 16 ^ Suc (2 * i) mod 16) + n div 16 ^ (2 * i) mod 16 = n div 256 ^ i mod (256 :: nat)"
proof -
  define m where "m = n div 256 ^ i"
  have "(16 :: nat) ^ (2 * i) = 256 ^ i" by (simp add: power_mult)
  then have "n div 16 ^ (2 * i) = m" "n div 16 ^ Suc (2 * i) = m div 16"
    by (simp_all add: m_def div_mult2_eq mult.commute [of 16])
  moreover have "16 * (m div 16 mod 16) + m mod 16 = m mod 256"
    using mod_mult2_eq [of m 16 16] by simp
  ultimately show ?thesis by (simp only: m_def)
qed

lemma uin2hex_bytes:
  assumes "parse_int user = Some (int v)" "v < 2 ^ 53"
  shows "uin2hex user = Inr (be_bytes8 v)"
proof -
  let ?d = "\<lambda>i. hex_digits ! (v div 16 ^ i mod 16)"
  have "v < 16 ^ 16" using assms(2) by simp
  then have hex: "replicate (16 - length (nat_to_hex v)) 48 @ nat_to_hex v = map ?d [15, 14, 13, 12, 11, 10, 9, 8, 7, 6, 5, 4, 3, 2, 1, 0]"
    using nat_to_hex_pad [of 16 v] by (simp add: upt_rec)
  have val: "digit_value (?d i) = int (v div 16 ^ i mod 16)" for i
    by (intro hex_digit_values) simp
  have pairs: "map (\<lambda>j. js_substr (map ?d [15, 14, 13, 12, 11, 10, 9, 8, 7, 6, 5, 4, 3, 2, 1, 0]) (2 * int j) 2) [0..<8] =
      map (\<lambda>i. [?d (Suc (2 * i)), ?d (2 * i)]) [7, 6, 5, 4, 3, 2, 1, 0]"
    by (simp add: js_substr_def upt_rec nat_mult_distrib)
  have number: "number_hex (parse_int user) = nat_to_hex v"
    using assms by (simp add: number_hex_def js_to_hex_def)
  have byte: "16 * digit_value (?d (Suc (2 * i))) + digit_value (?d (2 * i)) = int (v div 256 ^ i mod 256)" for i
    unfolding val using nibble_pair [of v i] by (metis of_nat_add of_nat_mult of_nat_numeral)
  have ok: "list_all (\<lambda>p. length p = 2 \<and> list_all (\<lambda>c. digit_value c < 16) p) (map (\<lambda>i. [?d (Suc (2 * i)), ?d (2 * i)]) L)" for L
    by (simp add: list_all_iff val del: power_Suc)
  have bytes: "map (\<lambda>p. 16 * digit_value (p ! 0) + digit_value (p ! 1)) (map (\<lambda>i. [?d (Suc (2 * i)), ?d (2 * i)]) L) =
      map (\<lambda>i. int (v div 256 ^ i mod 256)) L" for L
    by (simp only: map_map comp_def nth_Cons_0 One_nat_def nth_Cons_Suc byte)
  show ?thesis
    unfolding uin2hex_def number Let_def hex pairs be_bytes8_def bytes by (simp only: ok if_True)
qed

text \<open>The bytes that are encrypted and the bytes that are handed to RSA.\<close>

definition login_data :: "jstr \<Rightarrow> nat \<Rightarrow> jstr \<Rightarrow> int list" where
  "login_data pwd v code = md5_digest (map (\<lambda>c. c mod 256) pwd) @ be_bytes8 v @ be_bytes2 (length code) @ ascii_upper code"

definition login_key :: "jstr \<Rightarrow> nat \<Rightarrow> int list" where
  "login_key pwd v = md5_digest (md5_digest (map (\<lambda>c. c mod 256) pwd) @ be_bytes8 v)"

definition login_packet :: "jstr \<Rightarrow> nat \<Rightarrow> jstr \<Rightarrow> int list" where
  "login_packet pwd v code =
     (let ct = tea_cipher (login_key pwd v) (login_data pwd v code) in be_bytes2 (length ct) @ ct)"

lemma byte_string_be_bytes8 [simp]: "byte_string (be_bytes8 v)"
  by (auto simp: be_bytes8_def byte_string_def)

lemma length_be_bytes8 [simp]: "length (be_bytes8 v) = 8"
  by (simp add: be_bytes8_def)

lemma byte_string_be_bytes2: "n < 65536 \<Longrightarrow> byte_string (be_bytes2 n)"
  by (auto simp: be_bytes2_def)

lemma byte_string_tea_cipher:
  assumes "byte_string t"
  shows "byte_string (tea_cipher k t)"
proof -
  let ?bs = "chunks8 (tea_padded t)"
  have z: "block8 zero_block" by (simp add: block8_def)
  have "\<forall>b \<in> set ?bs. block8 b"
    using chunks8_blocks [of "tea_padded t"] pad_len_dvd [of "length t"] assms by (simp_all add: length_tea_padded byte_string_tea_padded)
  then have "\<forall>b \<in> set (chain_enc (block_enc k) zero_block zero_block ?bs). block8 b"
    using chain_enc_blocks [OF z z, of "block_enc k" ?bs] block8_enc by blast
  then show ?thesis by (auto simp: tea_cipher_def byte_string_def block8_def)
qed

text \<open>The verification code in upper case, as hexadecimal text.\<close>

lemma hex_for_code:
  assumes "\<forall>c \<in> set code. 0 < c \<and> c < 128"
  shows "hex_for (S_strToBytes (ascii_upper code) True) (ascii_upper code)" "byte_string (ascii_upper code)"
proof -
  have up: "0 < c \<and> c < 128" if "c \<in> set (ascii_upper code)" for c
    using that assms by (auto simp: ascii_upper_def)
  then show bytes: "byte_string (ascii_upper code)" by (force simp: byte_string_def)
  have "map utf8_char (ascii_upper code) = map (\<lambda>c. [c]) (ascii_upper code)"
    by (rule map_cong [OF refl], drule up) (simp add: utf8_char_def)
  then have "concat (map utf8_char (ascii_upper code)) = ascii_upper code"
    by (simp only: concat_map_singleton list.map_ident)
  then show "hex_for (S_strToBytes (ascii_upper code) True) (ascii_upper code)"
    using hex_for_bytes(2) [OF bytes] by (simp add: S_strToBytes_def hex_for_Nil)
qed

lemma getEncryption_run:
  assumes pwd: "8 * int (length pwd) < 2147483584" and code: "\<forall>c \<in> set code. 0 < c \<and> c < 128" "length code \<le> 65000"
  shows "\<exists>g. getEncryption rsa pwd (be_bytes8 v) code False fresh_globals =
     (case rsa (login_packet pwd v code) of Inl x \<Rightarrow> Inl x | Inr n \<Rightarrow> seal n, \<lparr>gl_c = Some [], gl_tea = Some g\<rparr>)"
proof -
  define m where "m = md5_digest (map (\<lambda>c. c mod 256) pwd)"
  define n where "n = S_strToBytes (ascii_upper code) True"
  define ct where "ct = tea_cipher (login_key pwd v) (login_data pwd v code)"
  have m: "byte_string m" "length m = 16" by (simp_all add: m_def)
  have ha: "qq_c pwd = upper_hex_bytes m" using qq_c_digest [OF pwd] by (simp add: m_def)
  have hm: "hex_for (upper_hex_bytes m) m" using m(1) by (rule hex_for_bytes)
  have key: "qq_c (m @ be_bytes8 v) = upper_hex_bytes (login_key pwd v)"
    using qq_c_digest [of "m @ be_bytes8 v"] m by (simp add: login_key_def map_mod_byte_string flip: m_def)
  have k: "byte_string (login_key pwd v)" "length (login_key pwd v) = 16" by (simp_all add: login_key_def)
  have n: "hex_for n (ascii_upper code)" "byte_string (ascii_upper code)" "length (ascii_upper code) = length code"
    using hex_for_code [OF code(1)] by (simp_all add: n_def ascii_upper_def)
  have L: "length code < 65536" using code(2) by simp
  have half: "hex_for (half_length n) (be_bytes2 (length code))"
    using hex_for_half_length [OF n(1)] n(3) L by (simp add: be_bytes2_def)
  have salt: "hex_for (S_strToBytes (be_bytes8 v) False) (be_bytes8 v)"
    using hex_for_bytes(2) [of "be_bytes8 v"] by (simp add: S_strToBytes_def) (simp add: be_bytes8_def)
  have data: "hex_for (upper_hex_bytes m @ S_strToBytes (be_bytes8 v) False @ half_length n @ n) (login_data pwd v code)"
    unfolding login_data_def m_def [symmetric] using hm salt half n(1) by (intro hex_for_append)
  have db: "byte_string (login_data pwd v code)"
    using m n byte_string_be_bytes2 [OF L] by (simp add: login_data_def flip: m_def)
  obtain g where g: "encrypt_y (map Some (login_key pwd v)) (map Some (login_data pwd v code)) = Some g" "te_f g = map Some ct"
    using encrypt_y_cipher [OF k db] by (auto simp: ct_def)
  have ctb: "byte_string ct" unfolding ct_def using db by (rule byte_string_tea_cipher)
  have "length ct < 65536"
    using tea_decipher_cipher(2) [OF db, of "login_key pwd v"] pad_len_less [of "length (login_data pwd v code)"] code(2) n(3)
    by (simp add: ct_def login_data_def be_bytes2_def)
  then have "hex_for (half_length (bytesInStr (map Some ct)) @ bytesInStr (map Some ct)) (be_bytes2 (length ct) @ ct)"
    "byte_string (be_bytes2 (length ct) @ ct)"
    using hex_for_append [OF hex_for_half_length hex_for_bytes(2) [OF ctb], OF hex_for_bytes(2) [OF ctb]] byte_string_be_bytes2 ctb
    by (simp_all add: be_bytes2_def)
  then have "qq_w (half_length (bytesInStr (map Some ct)) @ bytesInStr (map Some ct)) = login_packet pwd v code"
    using hex_for_w by (simp add: login_packet_def Let_def flip: ct_def)
  moreover have "qq_w (upper_hex_bytes m) = m" using hm m(1) by (rule hex_for_w)
  moreover have "qq_k [] False = []" by (simp add: qq_k_def)
  ultimately show ?thesis
    using hex_for_k [OF data] hex_for_k [OF hex_for_bytes(1) [OF k(1)]] g
    by (simp add: getEncryption_def call_c_def fresh_globals_def ha key n_def [symmetric] Let_def S_encrypt_def S_initkey_def)
qed

lemma seal_bytes: "hex_for h bs \<Longrightarrow> byte_string bs \<Longrightarrow> seal h = Inr (map url_char (b64_encode bs))"
  using hex_for_w [of h bs] by (simp add: seal_def sEncode_encode_b64)

text \<open>
  C8: the first login. For an account number below \<open>2 ^ 53\<close>, an ASCII verification code and any password, \<open>getPwd\<close> hands to RSA
  the length and the TEA encryption of the MD5 of the password, the account number in eight bytes and the code in upper case behind
  its length, under the key MD5 of the former two; what RSA returns in hexadecimal digits is returned in the URL-safe Base64
  alphabet. The reference decryption recovers the encrypted data.
\<close>

theorem getPwd_packet:
  assumes "8 * int (length pwd) < 2147483584" "\<forall>c \<in> set code. 0 < c \<and> c < 128" "length code \<le> 65000"
    and "parse_int user = Some (int v)" "v < 2 ^ 53"
    and "rsa (login_packet pwd v code) = Inr (hex_of_bytes bs)" "byte_string bs"
  shows "fst (getPwd_qq rsa pwd user code fresh_globals) = Inr (map url_char (b64_encode bs)) \<and>
    tea_decipher (login_key pwd v) (drop 2 (login_packet pwd v code)) = login_data pwd v code"
proof
  have "uin2hex user = Inr (be_bytes8 v)" using assms(4,5) by (rule uin2hex_bytes)
  then show "fst (getPwd_qq rsa pwd user code fresh_globals) = Inr (map url_char (b64_encode bs))"
    using getEncryption_run [OF assms(1-3), of rsa v] seal_bytes [OF hex_for_bytes(3) [OF assms(7)] assms(7)]
    by (auto simp: getPwd_qq_def assms(6))
  have "byte_string (login_data pwd v code)"
    using hex_for_code(2) [OF assms(2)] byte_string_be_bytes2 [of "length code"] assms(3) by (simp add: login_data_def)
  then show "tea_decipher (login_key pwd v) (drop 2 (login_packet pwd v code)) = login_data pwd v code"
    using tea_decipher_cipher(1) by (simp add: login_packet_def be_bytes2_def Let_def)
qed

theorem getPwd_packet_witness:
  "fst (getPwd_qq (\<lambda>_. Inr (hex_of_bytes [1, 2])) (str ''secret'') (str ''10001'') (str ''abcd'') fresh_globals) =
     Inr (map url_char (b64_encode [1, 2]))"
proof -
  have "parse_int (str ''10001'') = Some (int 10001)" by code_simp
  moreover have "\<forall>c \<in> set (str ''abcd''). 0 < c \<and> c < 128" by (simp add: str_def)
  ultimately show ?thesis
    using getPwd_packet [of "str ''secret''" "str ''abcd''" "str ''10001''" 10001 "\<lambda>_. Inr (hex_of_bytes [1, 2])" "[1, 2]"]
    by (simp add: str_def)
qed

lemma call_c_overwritten: "gl_tea G \<noteq> None \<Longrightarrow> call_c G t = Inl QTypeError"
  by (simp add: call_c_def)

lemma getEncryption_overwrites:
  assumes "getEncryption rsa t e n hashed G = (Inr r, G')"
  shows "gl_tea G' \<noteq> None"
  using assms
  by (auto simp: getEncryption_def S_encrypt_def S_initkey_def Let_def split: sum.splits option.splits prod.splits if_splits)

text \<open>
  C32: a page can log in once. The cipher stores its state in the global names \<open>c\<close>, \<open>l\<close> and \<open>p\<close> that are the functions of MD5, so
  after a call of \<open>getPwd\<close> that returned a result every further call fails: with a TypeError, or with the SyntaxError of an account
  number that is no number.
\<close>

theorem second_login_raises:
  assumes "getPwd_qq rsa pwd user code G = (Inr r, G')"
  shows "\<exists>x. fst (getPwd_qq rsa' pwd' user' code' G') = Inl x \<and> (x = QTypeError \<or> uin2hex user' = Inl x)"
proof -
  have "gl_tea G' \<noteq> None"
    using assms getEncryption_overwrites by (auto simp: getPwd_qq_def split: sum.splits)
  then show ?thesis
    by (cases "uin2hex user'") (simp_all add: getPwd_qq_def getEncryption_def call_c_overwritten)
qed

theorem second_login_raises_witness:
  "\<exists>G' x. fst (getPwd_qq (\<lambda>_. Inr (str ''00'')) (str ''a'') (str ''1'') [] fresh_globals) = Inr (map url_char (b64_encode [0])) \<and>
     snd (getPwd_qq (\<lambda>_. Inr (str ''00'')) (str ''a'') (str ''1'') [] fresh_globals) = G' \<and>
     fst (getPwd_qq (\<lambda>_. Inr (str ''00'')) (str ''a'') (str ''1'') [] G') = Inl x"
proof -
  let ?rsa = "\<lambda>_. Inr (str ''00'')"
  have user: "uin2hex (str ''1'') = Inr (be_bytes8 1)"
    by (rule uin2hex_bytes) (simp, code_simp, simp)
  have "seal (str ''00'') = Inr (map url_char (b64_encode [0]))" by code_simp
  then obtain G' where run: "getPwd_qq ?rsa (str ''a'') (str ''1'') [] fresh_globals = (Inr (map url_char (b64_encode [0])), G')"
    using getEncryption_run [of "str ''a''" "[]" ?rsa 1] user by (auto simp: getPwd_qq_def str_def)
  then show ?thesis
    using second_login_raises [OF run, of ?rsa "str ''a''" "str ''1''" "[]"] by auto
qed

end
