(* ===== verification/Baidu_Sign.thy ===== *)
theory Baidu_Sign
  imports Js_Text Js_Uri
begin

text \<open>
  The signature of a translation request, \<^verbatim>\<open>getSign\<close> of the script for the translator of Baidu: the text is abridged, converted to
  UTF-8 and hashed. The hash, written with strings of operators, is the one-at-a-time hash of Jenkins on 32-bit words.
\<close>

section \<open>The script\<close>

definition shift_amount :: "jstr \<Rightarrow> int" where
  "shift_amount a =
     (case a of
        [c] \<Rightarrow> if 97 \<le> c then c - 87 else if 48 \<le> c \<and> c \<le> 57 then c - 48 else 0
      | _ \<Rightarrow> 0)"

definition baidu_n :: "int \<Rightarrow> jstr \<Rightarrow> int" where
  "baidu_n r0 o' =
     js_for 0 (int (length o') - 2) 3
       (\<lambda>t r. let a = shift_amount (char_at o' (t + 2));
                  a = (if char_at o' (t + 1) = str ''+'' then js_ushr r a else js_shl r a)
              in if char_at o' t = str ''+'' then js_and (r + a) 4294967295 else js_xor r a) r0"

text \<open>
  The matches of the expression for a surrogate pair, from the left, and the texts between them.
\<close>

definition high_half :: "int \<Rightarrow> bool" where
  "high_half c \<longleftrightarrow> 55296 \<le> c \<and> c \<le> 56319"

definition low_half :: "int \<Rightarrow> bool" where
  "low_half c \<longleftrightarrow> 56320 \<le> c \<and> c \<le> 57343"

fun split_pairs :: "jstr \<Rightarrow> jstr list \<times> jstr list" where
  "split_pairs (a # b # s) =
     (if high_half a \<and> low_half b
      then let (e, o') = split_pairs s in ([] # e, [a, b] # o')
      else let (e, o') = split_pairs (b # s) in ((a # hd e) # tl e, o'))"
| "split_pairs s = ([s], [])"

datatype baidu_error = BaiduReferenceError

text \<open>
  The loop over the parts calls the helper \<^verbatim>\<open>a\<close>, which the script does not define, on the first part that is not empty.
\<close>

fun collect_parts :: "jstr list \<Rightarrow> jstr list \<Rightarrow> jstr list \<Rightarrow> baidu_error + jstr list" where
  "collect_parts [] o' f = Inr f"
| "collect_parts (part # e) o' f =
     (if part \<noteq> [] then Inl BaiduReferenceError
      else case o' of
             [] \<Rightarrow> collect_parts e [] f
           | pair # o' \<Rightarrow> collect_parts e o' (if e \<noteq> [] then f @ [pair] else f))"

definition baidu_abridge :: "jstr \<Rightarrow> baidu_error + jstr" where
  "baidu_abridge r =
     (let (e, o') = split_pairs r
      in if o' = [] then
           (let t = length r
            in Inr (if 30 < t
                    then js_substr r 0 10 @ js_substr r (int (t div 2) - 5) 10 @ js_substr r (int t - 10) 10 else r))
         else
           (case collect_parts e o' [] of
              Inl x \<Rightarrow> Inl x
            | Inr f \<Rightarrow>
                let g = length f
                in Inr (if 30 < g
                        then concat (take 10 f) @ concat (take 10 (drop (g div 2 - 5) f)) @ concat (drop (g - 10) f) else r)))"

fun baidu_bytes :: "jstr \<Rightarrow> int list" where
  "baidu_bytes [] = []"
| "baidu_bytes (A # r) =
     (if A < 128 then A # baidu_bytes r
      else if A < 2048 then js_or (js_shr A 6) 192 # js_or (js_and 63 A) 128 # baidu_bytes r
      else
        case r of
          B # r' \<Rightarrow>
            if js_and 64512 A = 55296 \<and> js_and 64512 B = 56320 then
              let A = 65536 + js_shl (js_and 1023 A) 10 + js_and 1023 B
              in js_or (js_shr A 18) 240 # js_or (js_and (js_shr A 12) 63) 128 #
                 js_or (js_and (js_shr A 6) 63) 128 # js_or (js_and 63 A) 128 # baidu_bytes r'
            else
              js_or (js_shr A 12) 224 # js_or (js_and (js_shr A 6) 63) 128 # js_or (js_and 63 A) 128 # baidu_bytes r
        | [] \<Rightarrow> [js_or (js_shr A 12) 224, js_or (js_and (js_shr A 6) 63) 128, js_or (js_and 63 A) 128])"

definition baidu_gtk :: jstr where
  "baidu_gtk = str ''320305.131321201''"

definition baidu_F :: jstr where
  "baidu_F = concat (map from_char_code [43, 45, 97]) @ concat (map from_char_code [94, 43, 54])"

definition baidu_D :: jstr where
  "baidu_D = concat (map from_char_code [43, 45, 51]) @ concat (map from_char_code [94, 43, 98]) @ concat (map from_char_code [43, 45, 102])"

definition int_to_dec :: "int \<Rightarrow> jstr" where
  "int_to_dec n = (if n < 0 then str ''-'' @ nat_to_dec (nat (- n)) else nat_to_dec (nat n))"

definition baidu_e :: "jstr \<Rightarrow> baidu_error + jstr" where
  "baidu_e r =
     (case baidu_abridge r of
        Inl x \<Rightarrow> Inl x
      | Inr r \<Rightarrow>
          let d = js_split_char 46 baidu_gtk;
              m = radval 10 (d ! 0);
              s = radval 10 (d ! 1);
              p = fold (\<lambda>b p. baidu_n (p + b) baidu_F) (baidu_bytes r) m;
              p = baidu_n p baidu_D;
              p = js_xor p s;
              p = (if 0 > p then js_and 2147483647 p + 2147483648 else p);
              p = p mod 1000000
          in Inr (int_to_dec p @ str ''.'' @ int_to_dec (js_xor p m)))"

definition baidu_getSign :: "jstr \<Rightarrow> baidu_error + jstr" where
  "baidu_getSign word = baidu_e word"

section \<open>The hash of Jenkins\<close>

definition oaat_step :: "int \<Rightarrow> 32 word \<Rightarrow> 32 word" where
  "oaat_step b h = (let h = h + of_int b; h = h + push_bit 10 h in h XOR drop_bit 6 h)"

definition oaat_final :: "32 word \<Rightarrow> 32 word" where
  "oaat_final h = (let h = h + push_bit 3 h; h = h XOR drop_bit 11 h in h + push_bit 15 h)"

definition oaat :: "32 word \<Rightarrow> int list \<Rightarrow> 32 word" where
  "oaat seed bs = oaat_final (fold oaat_step bs seed)"

lemma w32_and_ones: "w32 (js_and x 4294967295) = w32 x"
proof -
  have ones: "w32 4294967295 = - 1" by (simp only: word_of_int_neg_1 [symmetric] word_of_int_eq_iff) (simp add: take_bit_eq_mod)
  show ?thesis unfolding w32_js_and ones by simp
qed

lemma baidu_strings:
  "baidu_F = [43, 45, 97, 94, 43, 54]" "baidu_D = [43, 45, 51, 94, 43, 98, 43, 45, 102]"
  by (simp_all add: baidu_F_def baidu_D_def from_char_code_def)

lemma baidu_n_step: "w32 (baidu_n (p + b) baidu_F) = oaat_step b (w32 p)"
proof -
  have "baidu_n r baidu_F = (let r = js_and (r + js_shl r 10) 4294967295 in js_xor r (js_ushr r 6))" for r
    by (simp add: baidu_n_def baidu_strings js_for.simps char_at_def str_def shift_amount_def Let_def)
  then show ?thesis by (simp add: oaat_step_def Let_def w32_and_ones w32_js_xor w32_js_shl w32_js_ushr)
qed

lemma baidu_n_final: "w32 (baidu_n p baidu_D) = oaat_final (w32 p)"
proof -
  have "baidu_n r baidu_D = (let r = js_and (r + js_shl r 3) 4294967295; r = js_xor r (js_ushr r 11) in js_and (r + js_shl r 15) 4294967295)" for r
    by (simp add: baidu_n_def baidu_strings js_for.simps char_at_def str_def shift_amount_def Let_def)
  then show ?thesis by (simp add: oaat_final_def Let_def w32_and_ones w32_js_xor w32_js_shl w32_js_ushr)
qed

lemma baidu_hash: "w32 (baidu_n (fold (\<lambda>b p. baidu_n (p + b) baidu_F) bs m) baidu_D) = oaat (w32 m) bs"
proof -
  have "w32 (fold (\<lambda>b p. baidu_n (p + b) baidu_F) bs m) = fold oaat_step bs (w32 m)" for m
    by (induction bs arbitrary: m) (simp_all add: baidu_n_step)
  then show ?thesis by (simp add: baidu_n_final oaat_def)
qed

lemma unsigned_of_int32:
  assumes "- 2147483648 \<le> x" "x < 2147483648"
  shows "(if 0 > x then js_and 2147483647 x + 2147483648 else x) = uint (w32 x)"
proof -
  have "js_and 2147483647 x = x mod 2147483648" using js_and_mask [of 31 x] by (simp add: js_and_comm)
  moreover have wrap: "x mod m = x + m" if "x < 0" "2147483648 \<le> m" for m
  proof -
    have "x mod m = (x + m) mod m" by simp
    also have "\<dots> = x + m" by (rule mod_pos_pos_trivial) (use assms that in simp_all)
    finally show ?thesis .
  qed
  moreover have "uint (w32 x) = x mod 4294967296" by (simp add: uint_word_of_int)
  ultimately show ?thesis using assms wrap [of 2147483648] wrap [of 4294967296] by auto
qed

section \<open>The bytes\<close>

text \<open>The code points of a string in which a half without its partner stands for itself.\<close>

fun loose_points :: "jstr \<Rightarrow> int list" where
  "loose_points (a # b # s) =
     (if high_half a \<and> low_half b then (65536 + (a - 55296) * 1024 + (b - 56320)) # loose_points s else a # loose_points (b # s))"
| "loose_points s = s"

lemma and_push_bit: "push_bit n m AND x = push_bit n (m AND drop_bit n x)" for m x :: int
  by (rule bit_eqI) (auto simp: bit_and_iff bit_push_bit_iff bit_drop_bit_eq)

lemma and_64512:
  assumes "0 \<le> x" "x < 65536"
  shows "js_and 64512 x = x div 1024 * 1024"
proof -
  have "js_and 64512 x = push_bit 10 63 AND x" using assms by (simp add: js_and_def push_bit_eq_mult and.commute)
  also have "\<dots> = push_bit 10 (63 AND drop_bit 10 x)" by (rule and_push_bit)
  also have "63 AND drop_bit 10 x = x div 1024 mod 64"
    using take_bit_eq_mask [of 6 "drop_bit 10 x"] by (simp add: mask_eq_exp_minus_1 and.commute take_bit_eq_mod drop_bit_eq_div)
  also have "x div 1024 mod 64 = x div 1024" using assms by (intro mod_pos_pos_trivial) auto
  finally show ?thesis by (simp add: push_bit_eq_mult)
qed

lemma half_position:
  "x div 1024 = 54 \<longleftrightarrow> high_half x" "x div 1024 = 55 \<longleftrightarrow> low_half x"
  "high_half x \<Longrightarrow> x mod 1024 = x - 55296" "low_half x \<Longrightarrow> x mod 1024 = x - 56320"
proof -
  have bounds: "0 \<le> x mod 1024" "x mod 1024 < 1024" and x: "x = 1024 * (x div 1024) + x mod 1024" by simp_all
  have "x div 1024 = 54" if "high_half x" using that by (intro int_div_pos_eq [of _ _ _ "x - 55296"]) (simp_all add: high_half_def)
  moreover have "high_half x" if "x div 1024 = 54" using bounds x unfolding high_half_def that by linarith
  ultimately show "x div 1024 = 54 \<longleftrightarrow> high_half x" by blast
  have "x div 1024 = 55" if "low_half x" using that by (intro int_div_pos_eq [of _ _ _ "x - 56320"]) (simp_all add: low_half_def)
  moreover have "low_half x" if "x div 1024 = 55" using bounds x unfolding low_half_def that by linarith
  ultimately show "x div 1024 = 55 \<longleftrightarrow> low_half x" by blast
  show "high_half x \<Longrightarrow> x mod 1024 = x - 55296" by (rule int_mod_pos_eq [of _ _ 54]) (simp_all add: high_half_def)
  show "low_half x \<Longrightarrow> x mod 1024 = x - 56320" by (rule int_mod_pos_eq [of _ _ 55]) (simp_all add: low_half_def)
qed

lemma half_tests:
  assumes "0 \<le> x" "x < 65536"
  shows "js_and 64512 x = 55296 \<longleftrightarrow> high_half x" and "js_and 64512 x = 56320 \<longleftrightarrow> low_half x"
  unfolding and_64512 [OF assms] half_position [symmetric] by linarith+

lemma pair_point:
  assumes "high_half a" "low_half b"
  shows "65536 + js_shl (js_and 1023 a) 10 + js_and 1023 b = 65536 + (a - 55296) * 1024 + (b - 56320)"
proof -
  have "js_and 1023 x = x mod 1024" for x using js_and_mask [of 10 x] by (simp add: js_and_comm)
  moreover have "a mod 1024 = a - 55296" "b mod 1024 = b - 56320" using assms by (simp_all add: half_position)
  moreover have "js_shl (a - 55296) 10 = (a - 55296) * 1024"
    using assms by (simp add: high_half_def js_shl_def push_bit_eq_mult)
  ultimately show ?thesis by simp
qed

lemma baidu_octets:
  "128 \<le> r \<Longrightarrow> r < 2048 \<Longrightarrow> [js_or (js_shr r 6) 192, js_or (js_and 63 r) 128] = utf8_octets r"
  "2048 \<le> r \<Longrightarrow> r < 65536 \<Longrightarrow>
     [js_or (js_shr r 12) 224, js_or (js_and (js_shr r 6) 63) 128, js_or (js_and 63 r) 128] = utf8_octets r"
  "65536 \<le> r \<Longrightarrow> r < 1114112 \<Longrightarrow>
     [js_or (js_shr r 18) 240, js_or (js_and (js_shr r 12) 63) 128, js_or (js_and (js_shr r 6) 63) 128, js_or (js_and 63 r) 128]
     = utf8_octets r"
  subgoal
  proof -
    assume r: "128 \<le> r" "r < 2048"
    then have "0 \<le> r div 64" "r div 64 < 32" by simp_all
    with r show ?thesis by (simp add: utf8_octets_def utf8_or utf8_masks js_shr_div)
  qed
  subgoal
  proof -
    assume r: "2048 \<le> r" "r < 65536"
    then have "0 \<le> r div 4096" "r div 4096 < 16" by simp_all
    with r show ?thesis by (simp add: utf8_octets_def utf8_or utf8_masks js_shr_div)
  qed
  subgoal
  proof -
    assume r: "65536 \<le> r" "r < 1114112"
    then have "0 \<le> r div 262144" "r div 262144 < 5" by simp_all
    moreover have "js_or x 240 = js_or 240 x" for x by (simp add: js_or_def or.commute)
    ultimately show ?thesis using r by (simp add: utf8_octets_def utf8_or utf8_masks js_shr_div)
  qed
  done

lemma baidu_bytes_Cons:
  assumes "0 \<le> A" "A < 65536" "code_units r"
  shows "baidu_bytes (A # r) =
    (case r of
       B # r' \<Rightarrow>
         if high_half A \<and> low_half B
         then utf8_octets (65536 + (A - 55296) * 1024 + (B - 56320)) @ baidu_bytes r'
         else utf8_octets A @ baidu_bytes r
     | [] \<Rightarrow> utf8_octets A)"
proof (cases "A < 2048")
  case True
  then have "\<not> high_half A" by (simp add: high_half_def)
  moreover have "baidu_bytes (A # r) = utf8_octets A @ baidu_bytes r"
    using True assms baidu_octets(1) [of A] by (cases "A < 128") (auto simp: utf8_octets_def)
  ultimately show ?thesis by (auto split: list.splits)
next
  case False
  show ?thesis
  proof (cases r)
    case Nil
    with False baidu_octets(2) [of A] assms show ?thesis by simp
  next
    case (Cons B r')
    have b: "0 \<le> B" "B < 65536" using assms(3) Cons by simp_all
    show ?thesis
    proof (cases "high_half A \<and> low_half B")
      case True
      then have "65536 \<le> 65536 + (A - 55296) * 1024 + (B - 56320)" "65536 + (A - 55296) * 1024 + (B - 56320) < 1114112"
        by (auto simp: high_half_def low_half_def)
      from baidu_octets(3) [OF this] True False show ?thesis
        unfolding Cons by (subst baidu_bytes.simps(2)) (simp add: half_tests [OF assms(1,2)] half_tests [OF b] Let_def pair_point del: baidu_bytes.simps)
    next
      case no: False
      then have "(high_half A \<and> low_half B) = False" by blast
      with baidu_octets(2) [of A] False assms(2) show ?thesis
        unfolding Cons by (subst baidu_bytes.simps(2)) (simp add: half_tests [OF assms(1,2)] half_tests [OF b] del: baidu_bytes.simps de_Morgan_conj not_imp)
    qed
  qed
qed

lemma baidu_bytes_utf8: "code_units r \<Longrightarrow> baidu_bytes r = concat (map utf8_octets (loose_points r))"
  by (induction r rule: loose_points.induct) (simp_all add: baidu_bytes_Cons del: baidu_bytes.simps(2))

section \<open>The abridged text\<close>

definition abridged :: "'a list \<Rightarrow> 'a list" where
  "abridged xs =
     (if 30 < length xs then take 10 xs @ take 10 (drop (length xs div 2 - 5) xs) @ drop (length xs - 10) xs else xs)"

fun has_pair :: "jstr \<Rightarrow> bool" where
  "has_pair (a # b # s) \<longleftrightarrow> high_half a \<and> low_half b \<or> has_pair (b # s)"
| "has_pair _ \<longleftrightarrow> False"

text \<open>The pairs of a text that consists of pairs only.\<close>

fun paired :: "jstr \<Rightarrow> jstr list option" where
  "paired [] = Some []"
| "paired [a] = None"
| "paired (a # b # s) = (if high_half a \<and> low_half b then map_option ((#) [a, b]) (paired s) else None)"

lemma split_pairs_none: "snd (split_pairs s) = [] \<longleftrightarrow> \<not> has_pair s"
  by (induction s rule: split_pairs.induct) (auto split: prod.splits)

lemma split_pairs_nonempty [simp]: "fst (split_pairs s) \<noteq> []"
  by (induction s rule: split_pairs.induct) (auto split: prod.splits)

lemma split_pairs_paired: "paired s = Some ps \<Longrightarrow> split_pairs s = (replicate (Suc (length ps)) [], ps)"
  by (induction s arbitrary: ps rule: paired.induct) (auto split: if_splits)

lemma split_pairs_unpaired: "paired s = None \<Longrightarrow> \<exists>part \<in> set (fst (split_pairs s)). part \<noteq> []"
  by (induction s rule: paired.induct) (auto split: if_splits prod.splits)

lemma collect_parts_pairs: "collect_parts (replicate (Suc (length ps)) []) ps f = Inr (f @ ps)"
  by (induction ps arbitrary: f) simp_all

lemma collect_parts_raises: "\<exists>part \<in> set e. part \<noteq> [] \<Longrightarrow> collect_parts e o' f = Inl BaiduReferenceError"
  by (induction e o' f rule: collect_parts.induct) (auto split: list.splits)

lemma paired_concat: "paired s = Some ps \<Longrightarrow> concat ps = s"
  by (induction s arbitrary: ps rule: paired.induct) (auto split: if_splits)

lemma baidu_abridge_cases:
  "baidu_abridge r =
     (if has_pair r
      then case paired r of None \<Rightarrow> Inl BaiduReferenceError | Some ps \<Rightarrow> Inr (concat (abridged ps))
      else Inr (abridged r))"
proof (cases "has_pair r")
  case False
  then show ?thesis
    using split_pairs_none [of r]
    by (auto simp: baidu_abridge_def abridged_def js_substr_def Let_def nat_diff_distrib zdiv_int [symmetric] split: prod.splits)
next
  case True
  then have some: "snd (split_pairs r) \<noteq> []" by (simp add: split_pairs_none)
  show ?thesis
  proof (cases "paired r")
    case None
    obtain e o' where split: "split_pairs r = (e, o')" by fastforce
    have "collect_parts e o' [] = Inl BaiduReferenceError"
      using split_pairs_unpaired [OF None] by (intro collect_parts_raises) (simp add: split)
    with some True None show ?thesis by (simp add: baidu_abridge_def split)
  next
    case (Some ps)
    with some True show ?thesis
      by (simp add: baidu_abridge_def split_pairs_paired collect_parts_pairs [simplified] Let_def abridged_def paired_concat)
  qed
qed

section \<open>The signature\<close>

definition baidu_check :: "jstr \<Rightarrow> nat" where
  "baidu_check r = unat (oaat 320305 (concat (map utf8_octets (loose_points r))) XOR 131321201) mod 1000000"

definition baidu_text :: "jstr \<Rightarrow> jstr" where
  "baidu_text r = nat_to_dec (baidu_check r) @ [46] @ nat_to_dec (baidu_check r XOR 320305)"

lemma baidu_key: "js_split_char 46 baidu_gtk = [str ''320305'', str ''131321201'']"
  "radval 10 (str ''320305'') = 320305" "radval 10 (str ''131321201'') = 131321201"
  by code_simp+

lemma abridged_subset: "set (abridged xs) \<subseteq> set xs"
  by (auto simp: abridged_def dest: in_set_takeD in_set_dropD)

lemma code_units_abridge:
  assumes "code_units word" "baidu_abridge word = Inr r"
  shows "code_units r"
proof (cases "has_pair word")
  case True
  with assms(2) obtain ps where ps: "paired word = Some ps" "r = concat (abridged ps)"
    by (auto simp: baidu_abridge_cases split: option.splits)
  then have "set r \<subseteq> set word" using abridged_subset [of ps] paired_concat [OF ps(1)] by (fastforce simp: ps(2))
  with assms(1) show ?thesis by (auto simp: code_units_def)
next
  case False
  with assms abridged_subset [of word] show ?thesis by (auto simp: baidu_abridge_cases code_units_def)
qed

lemma js_xor_to_int32: "js_xor a b = to_int32 (a XOR b)"
  unfolding js_xor_def to_int32_signed_take_bit by (rule bit_eqI) (simp add: bit_signed_take_bit_iff bit_xor_iff)

lemma baidu_hash_number:
  fixes p :: int and bs :: "int list"
  defines "p \<equiv> baidu_n (fold (\<lambda>b p. baidu_n (p + b) baidu_F) bs 320305) baidu_D"
  shows "(if 0 > js_xor p 131321201 then js_and 2147483647 (js_xor p 131321201) + 2147483648 else js_xor p 131321201)
    = uint (oaat 320305 bs XOR 131321201)"
proof -
  have "- 2147483648 \<le> js_xor p 131321201" "js_xor p 131321201 < 2147483648"
    using to_int32_range by (simp_all add: js_xor_to_int32)
  from unsigned_of_int32 [OF this] show ?thesis
    using baidu_hash [of bs 320305] by (simp add: w32_js_xor p_def)
qed

lemma baidu_e_text:
  assumes "code_units word" "baidu_abridge word = Inr r"
  shows "baidu_e word = Inr (baidu_text r)"
proof -
  let ?q = "uint (oaat 320305 (baidu_bytes r) XOR 131321201) mod 1000000"
  have q: "?q = int (baidu_check r)"
    using code_units_abridge [OF assms] by (simp add: baidu_check_def baidu_bytes_utf8 zmod_int)
  have "js_xor ?q 320305 = int (baidu_check r XOR 320305)"
  proof -
    have "js_xor ?q 320305 = ?q XOR 320305" by (simp add: js_xor_def)
    then show ?thesis by (simp add: q of_nat_xor_eq)
  qed
  then show ?thesis
    unfolding baidu_e_def baidu_text_def assms(2) sum.case baidu_key Let_def nth_Cons_0 nth_Cons_Suc One_nat_def baidu_hash_number q
    by (simp add: int_to_dec_def str_def q)
qed

lemma baidu_text_cat: "baidu_text (str ''cat'') = str ''661701.982004''"
proof -
  have "oaat 320305 [99, 97, 116] = 3946531636"
    by (simp add: oaat_def oaat_step_def oaat_final_def Let_def)
  then have "baidu_check [99, 97, 116] = 661701"
    by (simp add: baidu_check_def high_half_def utf8_octets_def)
  then show ?thesis by (simp add: baidu_text_def str_def nat_to_dec.simps)
qed

text \<open>
  C12: the signature on every text. A text without a surrogate pair is cut to its first, middle and last ten code units when it is
  longer than thirty, converted to UTF-8 and hashed with the one-at-a-time hash of Jenkins, started from the first number of the key;
  the hash is combined with the second number and reduced to six digits. A text of surrogate pairs only is cut by pairs. Every other
  text with a pair raises, because the helper that spreads a part over the list is not defined in the script.
\<close>

theorem baidu_sign_correct:
  assumes "code_units word"
  shows "baidu_getSign word =
    (if has_pair word
     then case paired word of None \<Rightarrow> Inl BaiduReferenceError | Some ps \<Rightarrow> Inr (baidu_text (concat (abridged ps)))
     else Inr (baidu_text (abridged word)))"
proof (cases "baidu_abridge word")
  case (Inl x)
  then show ?thesis
    by (auto simp: baidu_getSign_def baidu_e_def baidu_abridge_cases split: if_splits option.splits)
next
  case (Inr r)
  have "baidu_getSign word = Inr (baidu_text r)" using baidu_e_text [OF assms Inr] by (simp add: baidu_getSign_def)
  with Inr show ?thesis by (auto simp: baidu_abridge_cases split: if_splits option.splits)
qed

theorem baidu_sign_correct_witness:
  "baidu_getSign (str ''cat'') = Inr (str ''661701.982004'') \<and>
   baidu_getSign [55357, 56832] = Inr (baidu_text [55357, 56832]) \<and>
   baidu_getSign [55357, 56832, 97] = Inl BaiduReferenceError"
proof -
  have "baidu_getSign (str ''cat'') = Inr (baidu_text (str ''cat''))"
    using baidu_sign_correct [of "str ''cat''"] by (simp add: code_units_def str_def high_half_def abridged_def)
  with baidu_text_cat show ?thesis
    using baidu_sign_correct [of "[55357, 56832]"] baidu_sign_correct [of "[55357, 56832, 97]"]
    by (simp add: code_units_def high_half_def low_half_def abridged_def)
qed

text \<open>
  C23: the form of a signature: two decimal numbers with a dot between them, the first below 1000000, the second below 1048576, and
  their bitwise difference is the first number of the key.
\<close>

theorem baidu_sign_form:
  assumes "code_units word" "baidu_getSign word = Inr s"
  shows "\<exists>a b. s = nat_to_dec a @ [46] @ nat_to_dec b \<and> a < 1000000 \<and> b < 1048576 \<and> a XOR b = 320305"
proof -
  obtain r where "baidu_abridge word = Inr r"
    using assms(2) by (cases "baidu_abridge word") (auto simp: baidu_getSign_def baidu_e_def)
  then have s: "s = baidu_text r" using assms baidu_e_text by (simp add: baidu_getSign_def)
  have small: "baidu_check r < 1000000" by (simp add: baidu_check_def)
  have "baidu_check r XOR 320305 < 1048576"
  proof -
    have "int (baidu_check r) XOR 320305 < 2 ^ 20" by (rule XOR_upper) (use small in simp_all)
    then have "int (baidu_check r XOR 320305) < int 1048576" by (simp add: of_nat_xor_eq)
    then show ?thesis unfolding of_nat_less_iff .
  qed
  then show ?thesis
    using s small unfolding baidu_text_def
    by (intro exI [of _ "baidu_check r"] exI [of _ "baidu_check r XOR 320305"]) (simp add: xor.assoc [symmetric])
qed

theorem baidu_sign_form_witness:
  "baidu_getSign (str ''cat'') = Inr (str ''661701.982004'') \<and>
   (\<exists>a b. str ''661701.982004'' = nat_to_dec a @ [46] @ nat_to_dec b \<and> a < 1000000 \<and> b < 1048576 \<and> a XOR b = 320305)"
proof -
  have units: "code_units (str ''cat'')" by (simp add: code_units_def str_def)
  have "baidu_abridge (str ''cat'') = Inr (str ''cat'')"
    by (simp add: baidu_abridge_cases abridged_def str_def high_half_def)
  from baidu_e_text [OF units this] have "baidu_getSign (str ''cat'') = Inr (str ''661701.982004'')"
    by (simp add: baidu_getSign_def baidu_text_cat)
  with baidu_sign_form [OF units this] show ?thesis by blast
qed

end
