(* ===== verification/Des_Tables.thy ===== *)
theory Des_Tables
  imports Main
begin

text \<open>
  The tables of the cipher of the script for the company directory: the eight substitution boxes, combined with the permutation of the
  round and indexed by six bits, and the fourteen tables that select the bits of the round keys, each indexed by four bits.
\<close>

section \<open>Substitution boxes\<close>

definition box_1 :: "int list" where
  "box_1 =
    [16843776, 0, 65536, 16843780, 16842756, 66564, 4, 65536, 1024, 16843776, 16843780, 1024, 16778244, 16842756, 16777216,
     4, 1028, 16778240, 16778240, 66560, 66560, 16842752, 16842752, 16778244, 65540, 16777220, 16777220, 65540, 0, 1028,
     66564, 16777216, 65536, 16843780, 4, 16842752, 16843776, 16777216, 16777216, 1024, 16842756, 65536, 66560, 16777220,
     1024, 4, 16778244, 66564, 16843780, 65540, 16842752, 16778244, 16777220, 1028, 66564, 16843776, 1028, 16778240,
     16778240, 0, 65540, 66560, 0, 16842756]"

definition box_2 :: "int list" where
  "box_2 =
    [- 2146402272, - 2147450880, 32768, 1081376, 1048576, 32, - 2146435040, - 2147450848, - 2147483616, - 2146402272, -
     2146402304, - 2147483648, - 2147450880, 1048576, 32, - 2146435040, 1081344, 1048608, - 2147450848, 0, - 2147483648,
     32768, 1081376, - 2146435072, 1048608, - 2147483616, 0, 1081344, 32800, - 2146402304, - 2146435072, 32800, 0, 1081376,
     - 2146435040, 1048576, - 2147450848, - 2146435072, - 2146402304, 32768, - 2146435072, - 2147450880, 32, - 2146402272,
     1081376, 32, 32768, - 2147483648, 32800, - 2146402304, 1048576, - 2147483616, 1048608, - 2147450848, - 2147483616,
     1048608, 1081344, 0, - 2147450880, 32800, - 2147483648, - 2146435040, - 2146402272, 1081344]"

definition box_3 :: "int list" where
  "box_3 =
    [520, 134349312, 0, 134348808, 134218240, 0, 131592, 134218240, 131080, 134217736, 134217736, 131072, 134349320,
     131080, 134348800, 520, 134217728, 8, 134349312, 512, 131584, 134348800, 134348808, 131592, 134218248, 131584, 131072,
     134218248, 8, 134349320, 512, 134217728, 134349312, 134217728, 131080, 520, 131072, 134349312, 134218240, 0, 512,
     131080, 134349320, 134218240, 134217736, 512, 0, 134348808, 134218248, 131072, 134217728, 134349320, 8, 131592,
     131584, 134217736, 134348800, 134218248, 520, 134348800, 131592, 8, 134348808, 131584]"

definition box_4 :: "int list" where
  "box_4 =
    [8396801, 8321, 8321, 128, 8396928, 8388737, 8388609, 8193, 0, 8396800, 8396800, 8396929, 129, 0, 8388736, 8388609, 1,
     8192, 8388608, 8396801, 128, 8388608, 8193, 8320, 8388737, 1, 8320, 8388736, 8192, 8396928, 8396929, 129, 8388736,
     8388609, 8396800, 8396929, 129, 0, 0, 8396800, 8320, 8388736, 8388737, 1, 8396801, 8321, 8321, 128, 8396929, 129, 1,
     8192, 8388609, 8193, 8396928, 8388737, 8193, 8320, 8388608, 8396801, 128, 8388608, 8192, 8396928]"

definition box_5 :: "int list" where
  "box_5 =
    [256, 34078976, 34078720, 1107296512, 524288, 256, 1073741824, 34078720, 1074266368, 524288, 33554688, 1074266368,
     1107296512, 1107820544, 524544, 1073741824, 33554432, 1074266112, 1074266112, 0, 1073742080, 1107820800, 1107820800,
     33554688, 1107820544, 1073742080, 0, 1107296256, 34078976, 33554432, 1107296256, 524544, 524288, 1107296512, 256,
     33554432, 1073741824, 34078720, 1107296512, 1074266368, 33554688, 1073741824, 1107820544, 34078976, 1074266368, 256,
     33554432, 1107820544, 1107820800, 524544, 1107296256, 1107820800, 34078720, 0, 1074266112, 1107296256, 524544,
     33554688, 1073742080, 524288, 0, 1074266112, 34078976, 1073742080]"

definition box_6 :: "int list" where
  "box_6 =
    [536870928, 541065216, 16384, 541081616, 541065216, 16, 541081616, 4194304, 536887296, 4210704, 4194304, 536870928,
     4194320, 536887296, 536870912, 16400, 0, 4194320, 536887312, 16384, 4210688, 536887312, 16, 541065232, 541065232, 0,
     4210704, 541081600, 16400, 4210688, 541081600, 536870912, 536887296, 16, 541065232, 4210688, 541081616, 4194304,
     16400, 536870928, 4194304, 536887296, 536870912, 16400, 536870928, 541081616, 4210688, 541065216, 4210704, 541081600,
     0, 541065232, 16, 16384, 541065216, 4210704, 16384, 4194320, 536887312, 0, 541081600, 536870912, 4194320, 536887312]"

definition box_7 :: "int list" where
  "box_7 =
    [2097152, 69206018, 67110914, 0, 2048, 67110914, 2099202, 69208064, 69208066, 2097152, 0, 67108866, 2, 67108864,
     69206018, 2050, 67110912, 2099202, 2097154, 67110912, 67108866, 69206016, 69208064, 2097154, 69206016, 2048, 2050,
     69208066, 2099200, 2, 67108864, 2099200, 67108864, 2099200, 2097152, 67110914, 67110914, 69206018, 69206018, 2,
     2097154, 67108864, 67110912, 2097152, 69208064, 2050, 2099202, 69208064, 2050, 67108866, 69208066, 69206016, 2099200,
     0, 2, 69208066, 0, 2099202, 69206016, 2048, 67108866, 67110912, 2048, 2097154]"

definition box_8 :: "int list" where
  "box_8 =
    [268439616, 4096, 262144, 268701760, 268435456, 268439616, 64, 268435456, 262208, 268697600, 268701760, 266240,
     268701696, 266304, 4096, 64, 268697600, 268435520, 268439552, 4160, 266240, 262208, 268697664, 268701696, 4160, 0, 0,
     268697664, 268435520, 268439552, 266304, 262144, 266304, 262144, 268701696, 4096, 64, 268697664, 4096, 266304,
     268439552, 64, 268435520, 268697600, 268697664, 268435456, 262144, 268439616, 0, 268701760, 262208, 268435520,
     268697600, 268439552, 268439616, 0, 268701760, 266240, 266240, 4160, 4160, 262208, 268435456, 268701696]"

section \<open>Selection of the key bits\<close>

definition sel_a :: "int list" where
  "sel_a =
    [0, 4, 536870912, 536870916, 65536, 65540, 536936448, 536936452, 512, 516, 536871424, 536871428, 66048, 66052,
     536936960, 536936964]"

definition sel_s :: "int list" where
  "sel_s =
    [0, 1, 1048576, 1048577, 67108864, 67108865, 68157440, 68157441, 256, 257, 1048832, 1048833, 67109120, 67109121,
     68157696, 68157697]"

definition sel_o :: "int list" where
  "sel_o =
    [0, 8, 2048, 2056, 16777216, 16777224, 16779264, 16779272, 0, 8, 2048, 2056, 16777216, 16777224, 16779264, 16779272]"

definition sel_c :: "int list" where
  "sel_c =
    [0, 2097152, 134217728, 136314880, 8192, 2105344, 134225920, 136323072, 131072, 2228224, 134348800, 136445952, 139264,
     2236416, 134356992, 136454144]"

definition sel_r :: "int list" where
  "sel_r =
    [0, 262144, 16, 262160, 0, 262144, 16, 262160, 4096, 266240, 4112, 266256, 4096, 266240, 4112, 266256]"

definition sel_l :: "int list" where
  "sel_l =
    [0, 1024, 32, 1056, 0, 1024, 32, 1056, 33554432, 33555456, 33554464, 33555488, 33554432, 33555456, 33554464, 33555488]"

definition sel_u :: "int list" where
  "sel_u =
    [0, 268435456, 524288, 268959744, 2, 268435458, 524290, 268959746, 0, 268435456, 524288, 268959744, 2, 268435458,
     524290, 268959746]"

definition sel_d :: "int list" where
  "sel_d =
    [0, 65536, 2048, 67584, 536870912, 536936448, 536872960, 536938496, 131072, 196608, 133120, 198656, 537001984,
     537067520, 537004032, 537069568]"

definition sel_h :: "int list" where
  "sel_h =
    [0, 262144, 0, 262144, 2, 262146, 2, 262146, 33554432, 33816576, 33554432, 33816576, 33554434, 33816578, 33554434,
     33816578]"

definition sel_p :: "int list" where
  "sel_p =
    [0, 268435456, 8, 268435464, 0, 268435456, 8, 268435464, 1024, 268436480, 1032, 268436488, 1024, 268436480, 1032,
     268436488]"

definition sel_f :: "int list" where
  "sel_f =
    [0, 32, 0, 32, 1048576, 1048608, 1048576, 1048608, 8192, 8224, 8192, 8224, 1056768, 1056800, 1056768, 1056800]"

definition sel_v :: "int list" where
  "sel_v =
    [0, 16777216, 512, 16777728, 2097152, 18874368, 2097664, 18874880, 67108864, 83886080, 67109376, 83886592, 69206016,
     85983232, 69206528, 85983744]"

definition sel_m :: "int list" where
  "sel_m =
    [0, 4096, 134217728, 134221824, 524288, 528384, 134742016, 134746112, 16, 4112, 134217744, 134221840, 524304, 528400,
     134742032, 134746128]"

definition sel_g :: "int list" where
  "sel_g =
    [0, 4, 256, 260, 0, 4, 256, 260, 1, 5, 257, 261, 1, 5, 257, 261]"

definition key_shifts :: "int list" where
  "key_shifts =
    [0, 0, 1, 1, 1, 1, 1, 1, 0, 1, 1, 1, 1, 1, 1, 0]"

lemmas box_defs = box_1_def box_2_def box_3_def box_4_def box_5_def box_6_def box_7_def box_8_def

lemmas sel_defs = sel_a_def sel_s_def sel_o_def sel_c_def sel_r_def sel_l_def sel_u_def sel_d_def sel_h_def sel_p_def sel_f_def
  sel_v_def sel_m_def sel_g_def key_shifts_def

end
