(* ===== verification/Des_Script.thy ===== *)
theory Des_Script
  imports Des_Tables Js_Base64 Js_Uri_Decode Js_Bytes
begin

text \<open>
  The script that reads the answers of the company directory: \<^verbatim>\<open>decode\<close> is Base64, \<^verbatim>\<open>s\<close> is the DES and triple DES cipher with ECB and
  CBC chaining and three ways of padding, \<^verbatim>\<open>getData\<close> applies both to an answer and parses the result. The local variables of \<^verbatim>\<open>s\<close>
  keep their names; every assignment inside an expression is a binding of its own, in the order of evaluation.
\<close>

section \<open>Base64\<close>

definition qm_alphabet :: jstr where
  "qm_alphabet = str ''ABCDEFGHIJKLMNOPQRSTUVWXYZabcdefghijklmnopqrstuvwxyz0123456789+/''"

text \<open>\<^verbatim>\<open>/==?$/\<close> removes one or two signs at the end.\<close>

definition drop_pad :: "jstr \<Rightarrow> jstr" where
  "drop_pad t =
     (if ends_with t (str ''=='') then take (length t - 2) t
      else if ends_with t (str ''='') then take (length t - 1) t else t)"

definition qm_index :: "jstr \<Rightarrow> int" where
  "qm_index c =
     (case c of [] \<Rightarrow> 0
      | x # _ \<Rightarrow> (case find (\<lambda>i. qm_alphabet ! i = x) [0..<64] of Some i \<Rightarrow> int i | None \<Rightarrow> - 1))"

definition qm_step :: "jstr \<Rightarrow> int \<Rightarrow> int \<times> int \<times> jstr \<Rightarrow> int \<times> int \<times> jstr" where
  "qm_step t a st =
     (let (n, i, o') = st;
          r = qm_index (char_at t a);
          n = (if i mod 4 \<noteq> 0 then 64 * n + r else r);
          old = i; i = i + 1
      in (n, i, if old mod 4 \<noteq> 0 then o' @ from_char_code (js_and 255 (js_shr n (js_and (- 2 * i) 6))) else o'))"

definition qm_decode :: "jstr \<Rightarrow> jstr option" where
  "qm_decode t =
     (let t = filter (\<lambda>c. c \<notin> {9, 10, 12, 13, 32}) t;
          t = (if length t mod 4 = 0 then drop_pad t else t);
          e = int (length t)
      in if e mod 4 = 1 \<or> list_ex (\<lambda>c. c \<notin> set qm_alphabet) t then None
         else let (n, i, o') = js_for 0 e 1 (qm_step t) (0, 0, []) in Some o')"

section \<open>Round keys\<close>

definition des_read :: "jstr \<Rightarrow> int \<Rightarrow> int" where
  "des_read t C =
     js_or (js_or (js_or (js_shl (bits_of (char_code_at t C)) 24) (js_shl (bits_of (char_code_at t (C + 1))) 16))
       (js_shl (bits_of (char_code_at t (C + 2))) 8)) (bits_of (char_code_at t (C + 3)))"

definition key_permute :: "int \<times> int \<Rightarrow> int \<times> int" where
  "key_permute kT =
     (let (k, T) = kT;
          n = js_and 252645135 (js_xor (js_ushr k 4) T); k = js_xor k (js_shl n 4);
          T = js_xor T n; n = js_and 65535 (js_xor (js_ushr T (- 16)) k); k = js_xor k n;
          T = js_xor T (js_shl n (- 16)); n = js_and 858993459 (js_xor (js_ushr k 2) T); k = js_xor k (js_shl n 2);
          T = js_xor T n; n = js_and 65535 (js_xor (js_ushr T (- 16)) k); k = js_xor k n;
          T = js_xor T (js_shl n (- 16)); n = js_and 1431655765 (js_xor (js_ushr k 1) T); k = js_xor k (js_shl n 1);
          T = js_xor T n; n = js_and 16711935 (js_xor (js_ushr T 8) k); k = js_xor k n;
          T = js_xor T (js_shl n 8); n = js_and 1431655765 (js_xor (js_ushr k 1) T); k = js_xor k (js_shl n 1);
          T = js_xor T n; n = js_or (js_shl k 8) (js_and (js_ushr T 20) 240);
          k = js_or (js_or (js_or (js_shl T 24) (js_and (js_shl T 8) 16711680)) (js_and (js_ushr T 8) 65280)) (js_and (js_ushr T 24) 240)
      in (k, n))"

definition key_rotate :: "int \<Rightarrow> int \<times> int \<Rightarrow> int \<times> int" where
  "key_rotate b kT =
     (let (k, T) = kT;
          (k, T) =
            (if b \<noteq> 0 then (js_or (js_shl k 2) (js_ushr k 26), js_or (js_shl T 2) (js_ushr T 26))
             else (js_or (js_shl k 1) (js_ushr k 27), js_or (js_shl T 1) (js_ushr T 27)))
      in (js_and k (- 15), js_and T (- 15)))"

definition sel :: "int list \<Rightarrow> int \<Rightarrow> int \<Rightarrow> int" where
  "sel tab k n = tab ! nat (js_and (js_ushr k n) 15)"

definition key_select :: "int \<times> int \<Rightarrow> int list" where
  "key_select kT =
     (let (k, T) = kT;
          e = js_or (js_or (js_or (js_or (js_or (js_or (sel_a ! nat (js_ushr k 28)) (sel sel_s k 24)) (sel sel_o k 20)) (sel sel_c k 16))
            (sel sel_r k 12)) (sel sel_l k 8)) (sel sel_u k 4);
          i = js_or (js_or (js_or (js_or (js_or (js_or (sel_d ! nat (js_ushr T 28)) (sel sel_h T 24)) (sel sel_p T 20)) (sel sel_f T 16))
            (sel sel_v T 12)) (sel sel_m T 8)) (sel sel_g T 4);
          n = js_and 65535 (js_xor (js_ushr i 16) e)
      in [js_xor e n, js_xor i (js_shl n 16)])"

fun key_rounds :: "int list \<Rightarrow> int \<times> int \<Rightarrow> int list" where
  "key_rounds [] kT = []"
| "key_rounds (b # bs) kT = (let kT = key_rotate b kT in key_select kT @ key_rounds bs kT)"

declare key_rounds.simps(2) [simp del]

definition des_keys :: "jstr \<Rightarrow> int list" where
  "des_keys t =
     (let b = (if length t > 8 then 3 else 1)
      in concat (map (\<lambda>x. key_rounds key_shifts (key_permute (des_read t (8 * int x), des_read t (8 * int x + 4)))) [0..<b]))"

section \<open>One block\<close>

definition des_initial :: "int \<times> int \<Rightarrow> int \<times> int" where
  "des_initial dh =
     (let (d, h) = dh;
          r = js_and 252645135 (js_xor (js_ushr d 4) h); d = js_xor d (js_shl r 4);
          h = js_xor h r; r = js_and 65535 (js_xor (js_ushr d 16) h); d = js_xor d (js_shl r 16);
          h = js_xor h r; r = js_and 858993459 (js_xor (js_ushr h 2) d); d = js_xor d r;
          h = js_xor h (js_shl r 2); r = js_and 16711935 (js_xor (js_ushr h 8) d); d = js_xor d r;
          h = js_xor h (js_shl r 8); r = js_and 1431655765 (js_xor (js_ushr d 1) h); d = js_xor d (js_shl r 1);
          d = js_or (js_shl d 1) (js_ushr d 31);
          h = js_xor h r; h = js_or (js_shl h 1) (js_ushr h 31)
      in (d, h))"

definition des_final :: "int \<times> int \<Rightarrow> int \<times> int" where
  "des_final dh =
     (let (d, h) = dh;
          h = js_or (js_ushr h 1) (js_shl h 31);
          d = js_or (js_ushr d 1) (js_shl d 31); r = js_and 1431655765 (js_xor (js_ushr d 1) h); h = js_xor h r;
          d = js_xor d (js_shl r 1); r = js_and 16711935 (js_xor (js_ushr h 8) d); h = js_xor h (js_shl r 8);
          d = js_xor d r; r = js_and 858993459 (js_xor (js_ushr h 2) d); h = js_xor h (js_shl r 2);
          d = js_xor d r; r = js_and 65535 (js_xor (js_ushr d 16) h); h = js_xor h r;
          d = js_xor d (js_shl r 16); r = js_and 252645135 (js_xor (js_ushr d 4) h); h = js_xor h r;
          d = js_xor d (js_shl r 4)
      in (d, h))"

definition box :: "int list \<Rightarrow> int \<Rightarrow> int \<Rightarrow> int" where
  "box tab l n = tab ! nat (js_and (js_ushr l n) 63)"

definition des_mix :: "int list \<Rightarrow> nat \<Rightarrow> int \<Rightarrow> int" where
  "des_mix z o' h =
     (let l = js_xor h (z ! o');
          u = js_xor (js_or (js_ushr h 4) (js_shl h 28)) (z ! (o' + 1))
      in js_or (js_or (js_or (js_or (js_or (js_or (js_or (box box_2 l 24) (box box_4 l 16)) (box box_6 l 8)) (box_8 ! nat (js_and 63 l)))
           (box box_1 u 24)) (box box_3 u 16)) (box box_5 u 8)) (box_7 ! nat (js_and 63 u)))"

definition des_round :: "int list \<Rightarrow> nat \<Rightarrow> int \<times> int \<Rightarrow> int \<times> int" where
  "des_round z o' dh = (let (d, h) = dh in (h, js_xor d (des_mix z o' h)))"

text \<open>The positions of \<^verbatim>\<open>for (o = p[c]; o != p[c + 1]; o += p[c + 2])\<close>.\<close>

definition positions :: "int \<times> int \<times> int \<Rightarrow> nat list" where
  "positions p = (let (a, b, y) = p in map (\<lambda>k. nat (a + int k * y)) [0..<nat ((b - a) div y)])"

definition des_passes :: "nat \<Rightarrow> bool \<Rightarrow> (int \<times> int \<times> int) list" where
  "des_passes I i =
     (if I = 3 then if i then [(0, 32, 2)] else [(30, - 2, - 2)]
      else if i then [(0, 32, 2), (62, 30, - 2), (64, 96, 2)] else [(94, 62, - 2), (32, 64, 2), (30, - 2, - 2)])"

definition des_pass :: "int list \<Rightarrow> int \<times> int \<times> int \<Rightarrow> int \<times> int \<Rightarrow> int \<times> int" where
  "des_pass z p dh = (let (d, h) = fold (des_round z) (positions p) dh in (h, d))"

definition des_block :: "int list \<Rightarrow> (int \<times> int \<times> int) list \<Rightarrow> int \<times> int \<Rightarrow> int \<times> int" where
  "des_block z p dh = des_final (fold (des_pass z) p (des_initial dh))"

section \<open>The whole text\<close>

record des_state =
  vec_f :: int
  vec_m :: int
  out_O :: jstr
  out_B :: jstr
  cnt_j :: nat

definition des_chars :: "int \<Rightarrow> int \<Rightarrow> jstr" where
  "des_chars d h =
     from_char_code (js_ushr d 24) @ from_char_code (js_and (js_ushr d 16) 255) @ from_char_code (js_and (js_ushr d 8) 255) @
     from_char_code (js_and 255 d) @
     from_char_code (js_ushr h 24) @ from_char_code (js_and (js_ushr h 16) 255) @ from_char_code (js_and (js_ushr h 8) 255) @
     from_char_code (js_and 255 h)"

definition des_step :: "int list \<Rightarrow> (int \<times> int \<times> int) list \<Rightarrow> jstr \<Rightarrow> bool \<Rightarrow> int \<Rightarrow> int \<Rightarrow> des_state \<Rightarrow> des_state" where
  "des_step z p e i n S st =
     (let d = des_read e S; h = des_read e (S + 4);
          f = vec_f st; m = vec_m st;
          (d, h, v, g, f, m) =
            (if n = 1 then if i then (js_xor d f, js_xor h m, 0, 0, f, m) else (d, h, f, m, d, h) else (d, h, 0, 0, f, m));
          (d, h) = des_block z p (d, h);
          (d, h, f, m) =
            (if n = 1 then if i then (d, h, d, h) else (js_xor d v, js_xor h g, f, m) else (d, h, f, m));
          O' = out_O st @ des_chars d h;
          j = cnt_j st + 8
      in if j = 512 then \<lparr>vec_f = f, vec_m = m, out_O = [], out_B = out_B st @ O', cnt_j = 0\<rparr>
         else \<lparr>vec_f = f, vec_m = m, out_O = O', out_B = out_B st, cnt_j = j\<rparr>)"

definition des_pad :: "int \<Rightarrow> bool \<Rightarrow> jstr \<Rightarrow> jstr \<times> nat" where
  "des_pad s i e =
     (let F = length e
      in if s = 2 then (e @ str ''        '', F)
         else if s = 1 then
           if i then
             let r = 8 - F mod 8
             in (e @ concat (replicate 8 (from_char_code (int r))), if r = 8 then F + 8 else F)
           else (e, F)
         else if s = 0 then (e @ replicate 8 0, F)
         else (e, F))"

text \<open>\<^verbatim>\<open>replace(/\0*$/g, "")\<close>.\<close>

definition strip_zeros :: "jstr \<Rightarrow> jstr" where
  "strip_zeros B = rev (dropWhile (\<lambda>c. c = 0) (rev B))"

definition js_escape :: "jstr \<Rightarrow> jstr" where
  "js_escape s =
     concat (map (\<lambda>c.
       if 65 \<le> c \<and> c \<le> 90 \<or> 97 \<le> c \<and> c \<le> 122 \<or> 48 \<le> c \<and> c \<le> 57 \<or> c \<in> {64, 42, 95, 43, 45, 46, 47} then [c]
       else if c < 256 then percent c
       else [37, 117, upper_hex (c div 4096), upper_hex (c div 256 mod 16), upper_hex (c div 16 mod 16), upper_hex (c mod 16)]) s)"

definition des_unpad :: "int \<Rightarrow> jstr \<Rightarrow> jstr" where
  "des_unpad s B =
     (if s = 1 then
        let F = length B; q = (if F \<noteq> 0 then last B else 0)
        in if q \<le> 8 then take (nat (int F - q)) B else B
      else B)"

definition des_raw :: "jstr \<Rightarrow> jstr \<Rightarrow> bool \<Rightarrow> int \<Rightarrow> jstr \<Rightarrow> int \<Rightarrow> jstr" where
  "des_raw t e i n a s =
     (let z = des_keys t;
          I = (if length z = 32 then 3 else 9);
          p = des_passes I i;
          (e, F) = des_pad s i e;
          (f, m) = (if n = 1 then (des_read a 0, des_read a 4) else (0, 0));
          st = js_for 0 (int F) 8 (des_step z p e i n) \<lparr>vec_f = f, vec_m = m, out_O = [], out_B = [], cnt_j = 0\<rparr>
      in strip_zeros (out_B st @ out_O st))"

text \<open>\<open>None\<close> when \<^verbatim>\<open>decodeURIComponent\<close> raises.\<close>

definition des_s :: "jstr \<Rightarrow> jstr \<Rightarrow> bool \<Rightarrow> int \<Rightarrow> jstr \<Rightarrow> int \<Rightarrow> jstr option" where
  "des_s t e i n a s =
     (let B = des_raw t e i n a s
      in if i then Some B else decode_uri_component (js_escape (des_unpad s B)))"

definition qm_getData :: "(jstr \<Rightarrow> 'v option) \<Rightarrow> jstr \<Rightarrow> 'v option" where
  "qm_getData JSON_parse encryptData =
     (case qm_decode encryptData of None \<Rightarrow> None
      | Some e \<Rightarrow>
          (case des_s (str ''5e5062e82f15fe4ca9d24bc5'') e False 0 (str ''012345677890123'') 1 of None \<Rightarrow> None
           | Some B \<Rightarrow> JSON_parse B))"

end
