(* ===== verification/Des_Block.thy ===== *)
theory Des_Block
  imports Des_Script
begin

text \<open>
  The cipher on one block inverts itself: the permutations are exchanges of bits between the halves, and a pass is a Feistel network,
  whatever its round function.
\<close>

section \<open>Feistel networks\<close>

definition feistel_round :: "('a \<Rightarrow> 'a \<Rightarrow> 'a) \<Rightarrow> ('k \<Rightarrow> 'a \<Rightarrow> 'a) \<Rightarrow> 'k \<Rightarrow> 'a \<times> 'a \<Rightarrow> 'a \<times> 'a" where
  "feistel_round add mix k x = (snd x, add (fst x) (mix k (snd x)))"

definition feistel_pass :: "('a \<Rightarrow> 'a \<Rightarrow> 'a) \<Rightarrow> ('k \<Rightarrow> 'a \<Rightarrow> 'a) \<Rightarrow> 'k list \<Rightarrow> 'a \<times> 'a \<Rightarrow> 'a \<times> 'a" where
  "feistel_pass add mix ks x = prod.swap (fold (feistel_round add mix) ks x)"

locale feistel_network =
  fixes add :: "'a \<Rightarrow> 'a \<Rightarrow> 'a"
    and mix :: "'k \<Rightarrow> 'a \<Rightarrow> 'a"
  assumes add_cancel: "add (add x y) y = x"
begin

lemma round_back: "prod.swap (feistel_round add mix k (prod.swap (feistel_round add mix k x))) = x"
  by (simp add: feistel_round_def add_cancel prod_eq_iff)

lemma pass_rev: "feistel_pass add mix (rev ks) (feistel_pass add mix ks x) = x"
proof (induction ks arbitrary: x)
  case Nil
  then show ?case by (simp add: feistel_pass_def)
next
  case (Cons k ks)
  let ?r = "feistel_round add mix"
  have "fold ?r (rev ks) (prod.swap (fold ?r ks (?r k x))) = prod.swap (?r k x)"
    using Cons.IH [of "?r k x"] by (simp add: feistel_pass_def) (metis prod.swap_def swap_swap)
  then show ?case using round_back by (simp add: feistel_pass_def)
qed

lemma passes_rev:
  "fold (feistel_pass add mix) (rev (map rev kss)) (fold (feistel_pass add mix) kss x) = x"
  by (induction kss arbitrary: x) (simp_all add: pass_rev)

end

section \<open>Exchanging bits\<close>

definition dswap :: "nat \<Rightarrow> 32 word \<Rightarrow> 32 word \<times> 32 word \<Rightarrow> 32 word \<times> 32 word" where
  "dswap n m xy = (let r = m AND (drop_bit n (fst xy) XOR snd xy) in (fst xy XOR push_bit n r, snd xy XOR r))"

lemma bit_drop_push: "bit (drop_bit n (push_bit n w)) i \<longleftrightarrow> i + n < LENGTH('a) \<and> bit w i" for w :: "'a::len word"
  by (simp add: bit_drop_bit_eq bit_push_bit_iff add.commute)

lemma dswap_dswap:
  assumes "drop_bit n (push_bit n m) = m"
  shows "dswap n m (dswap n m xy) = xy"
proof -
  define r where "r = m AND (drop_bit n (fst xy) XOR snd xy)"
  have m: "i + n < 32" if "bit m i" for i
    using that by (subst (asm) assms [symmetric]) (simp add: bit_drop_bit_eq bit_push_bit_iff add.commute)
  have r: "i + n < 32" if "bit r i" for i using that m by (simp add: r_def bit_and_iff)
  have "drop_bit n (push_bit n r) = r"
  proof (rule bit_word_eqI)
    fix i :: nat
    from r bit_drop_push [of n r i] show "bit (drop_bit n (push_bit n r)) i \<longleftrightarrow> bit r i" by auto
  qed
  then have "m AND (drop_bit n (fst xy XOR push_bit n r) XOR (snd xy XOR r)) = r"
    by (simp add: drop_bit_xor r_def xor.assoc xor.commute xor.left_commute)
  then show ?thesis by (simp add: dswap_def Let_def xor.assoc flip: r_def)
qed

definition rotl1 :: "32 word \<Rightarrow> 32 word" where
  "rotl1 x = push_bit 1 x OR drop_bit 31 x"

definition rotr1 :: "32 word \<Rightarrow> 32 word" where
  "rotr1 x = drop_bit 1 x OR push_bit 31 x"

lemma rot1: "rotr1 (rotl1 x) = x" "rotl1 (rotr1 x) = x"
proof -
  have rot: "rotl1 x = word_rotl 1 x" "rotr1 x = word_rotl 31 x" for x
    using w32_rotate [of 1 x] w32_rotate [of 31 x] by (simp_all add: rotl1_def rotr1_def or.commute)
  have "((i + 1) mod 32 + 31) mod 32 = i" "((i + 31) mod 32 + 1) mod 32 = i" if "i < 32" for i :: nat
    using that by (simp_all add: mod_simps)
  then show "rotr1 (rotl1 x) = x" "rotl1 (rotr1 x) = x"
    unfolding rot by (auto intro!: bit_word_eqI simp: bit_word_rotl_iff)
qed

definition initial_w :: "32 word \<times> 32 word \<Rightarrow> 32 word \<times> 32 word" where
  "initial_w x = map_prod rotl1 rotl1 (dswap 1 1431655765 (prod.swap (dswap 8 16711935 (dswap 2 858993459 (prod.swap
     (dswap 16 65535 (dswap 4 252645135 x)))))))"

definition final_w :: "32 word \<times> 32 word \<Rightarrow> 32 word \<times> 32 word" where
  "final_w x = dswap 4 252645135 (dswap 16 65535 (prod.swap (dswap 2 858993459 (dswap 8 16711935 (prod.swap
     (dswap 1 1431655765 (map_prod rotr1 rotr1 x)))))))"

lemma final_initial: "final_w (initial_w x) = x" "initial_w (final_w x) = x"
  by (simp_all add: initial_w_def final_w_def dswap_dswap prod.map_comp comp_def rot1 prod.map_ident)

section \<open>The block on words\<close>

definition words :: "int \<times> int \<Rightarrow> 32 word \<times> 32 word" where
  "words x = (w32 (fst x), w32 (snd x))"

lemma w32_dswap:
  "(w32 (js_xor x (js_shl (js_and m (js_xor (js_ushr x n) y)) n)), w32 (js_xor y (js_and m (js_xor (js_ushr x n) y)))) =
   dswap (nat (n mod 32)) (w32 m) (w32 x, w32 y)"
  by (simp add: dswap_def Let_def js_w32)

lemma words_initial: "words (des_initial x) = initial_w (words x)"
proof (cases x)
  case (Pair d h)
  define r1 where "r1 = js_and 252645135 (js_xor (js_ushr d 4) h)"
  define d1 where "d1 = js_xor d (js_shl r1 4)"
  define h1 where "h1 = js_xor h r1"
  define r2 where "r2 = js_and 65535 (js_xor (js_ushr d1 16) h1)"
  define d2 where "d2 = js_xor d1 (js_shl r2 16)"
  define h2 where "h2 = js_xor h1 r2"
  define r3 where "r3 = js_and 858993459 (js_xor (js_ushr h2 2) d2)"
  define d3 where "d3 = js_xor d2 r3"
  define h3 where "h3 = js_xor h2 (js_shl r3 2)"
  define r4 where "r4 = js_and 16711935 (js_xor (js_ushr h3 8) d3)"
  define d4 where "d4 = js_xor d3 r4"
  define h4 where "h4 = js_xor h3 (js_shl r4 8)"
  define r5 where "r5 = js_and 1431655765 (js_xor (js_ushr d4 1) h4)"
  define d5 where "d5 = js_xor d4 (js_shl r5 1)"
  define h5 where "h5 = js_xor h4 r5"
  have "des_initial (d, h) = (js_or (js_shl d5 1) (js_ushr d5 31), js_or (js_shl h5 1) (js_ushr h5 31))"
    unfolding des_initial_def prod.case Let_def h5_def d5_def r5_def h4_def d4_def r4_def h3_def d3_def r3_def h2_def d2_def r2_def
      h1_def d1_def r1_def ..
  then have "words (des_initial (d, h)) = map_prod rotl1 rotl1 (w32 d5, w32 h5)"
    by (simp add: words_def js_w32 rotl1_def)
  moreover have "(w32 d1, w32 h1) = dswap 4 252645135 (w32 d, w32 h)"
    unfolding d1_def h1_def r1_def w32_dswap by simp
  moreover have "(w32 d2, w32 h2) = dswap 16 65535 (w32 d1, w32 h1)"
    unfolding d2_def h2_def r2_def w32_dswap by simp
  moreover have "(w32 h3, w32 d3) = dswap 2 858993459 (w32 h2, w32 d2)"
    unfolding d3_def h3_def r3_def w32_dswap by simp
  moreover have "(w32 h4, w32 d4) = dswap 8 16711935 (w32 h3, w32 d3)"
    unfolding d4_def h4_def r4_def w32_dswap by simp
  moreover have "(w32 d5, w32 h5) = dswap 1 1431655765 (w32 d4, w32 h4)"
    unfolding d5_def h5_def r5_def w32_dswap by simp
  ultimately show ?thesis
    unfolding Pair by (simp add: initial_w_def words_def [of "(d, h)"]) (metis swap_simp)
qed

lemma words_final: "words (des_final x) = final_w (words x)"
proof (cases x)
  case (Pair d h)
  define h0 where "h0 = js_or (js_ushr h 1) (js_shl h 31)"
  define d0 where "d0 = js_or (js_ushr d 1) (js_shl d 31)"
  define r1 where "r1 = js_and 1431655765 (js_xor (js_ushr d0 1) h0)"
  define h1 where "h1 = js_xor h0 r1"
  define d1 where "d1 = js_xor d0 (js_shl r1 1)"
  define r2 where "r2 = js_and 16711935 (js_xor (js_ushr h1 8) d1)"
  define h2 where "h2 = js_xor h1 (js_shl r2 8)"
  define d2 where "d2 = js_xor d1 r2"
  define r3 where "r3 = js_and 858993459 (js_xor (js_ushr h2 2) d2)"
  define h3 where "h3 = js_xor h2 (js_shl r3 2)"
  define d3 where "d3 = js_xor d2 r3"
  define r4 where "r4 = js_and 65535 (js_xor (js_ushr d3 16) h3)"
  define h4 where "h4 = js_xor h3 r4"
  define d4 where "d4 = js_xor d3 (js_shl r4 16)"
  define r5 where "r5 = js_and 252645135 (js_xor (js_ushr d4 4) h4)"
  define h5 where "h5 = js_xor h4 r5"
  define d5 where "d5 = js_xor d4 (js_shl r5 4)"
  have "des_final (d, h) = (d5, h5)"
    unfolding des_final_def prod.case Let_def h5_def d5_def r5_def h4_def d4_def r4_def h3_def d3_def r3_def h2_def d2_def r2_def
      h1_def d1_def r1_def h0_def d0_def ..
  then have "words (des_final (d, h)) = (w32 d5, w32 h5)" by (simp add: words_def)
  moreover have "(w32 d0, w32 h0) = map_prod rotr1 rotr1 (w32 d, w32 h)"
    by (simp add: d0_def h0_def js_w32 rotr1_def)
  moreover have "(w32 d1, w32 h1) = dswap 1 1431655765 (w32 d0, w32 h0)"
    unfolding d1_def h1_def r1_def w32_dswap by simp
  moreover have "(w32 h2, w32 d2) = dswap 8 16711935 (w32 h1, w32 d1)"
    unfolding d2_def h2_def r2_def w32_dswap by simp
  moreover have "(w32 h3, w32 d3) = dswap 2 858993459 (w32 h2, w32 d2)"
    unfolding d3_def h3_def r3_def w32_dswap by simp
  moreover have "(w32 d4, w32 h4) = dswap 16 65535 (w32 d3, w32 h3)"
    unfolding d4_def h4_def r4_def w32_dswap by simp
  moreover have "(w32 d5, w32 h5) = dswap 4 252645135 (w32 d4, w32 h4)"
    unfolding d5_def h5_def r5_def w32_dswap by simp
  ultimately show ?thesis
    unfolding Pair by (simp add: final_w_def words_def [of "(d, h)"]) (metis swap_simp)
qed

definition mix_w :: "int list \<Rightarrow> nat \<Rightarrow> 32 word \<Rightarrow> 32 word" where
  "mix_w z o' w = w32 (des_mix z o' (uint w))"

lemma to_int32_word: "to_int32 (uint (w32 x)) = to_int32 x" "to_uint32 (uint (w32 x)) = to_uint32 x"
  by (simp_all add: to_int32_sint to_uint32_uint)

lemma des_mix_word: "des_mix z o' (uint (w32 h)) = des_mix z o' h"
  by (simp add: des_mix_def Let_def js_xor_def js_ushr_def js_shl_def to_int32_word)

lemma words_round: "words (des_round z o' x) = feistel_round (XOR) (mix_w z) o' (words x)"
  by (cases x) (simp add: words_def des_round_def feistel_round_def mix_w_def des_mix_word w32_js_xor)

lemma words_pass: "words (des_pass z p x) = feistel_pass (XOR) (mix_w z) (positions p) (words x)"
proof -
  have "words (fold (des_round z) os x) = fold (feistel_round (XOR) (mix_w z)) os (words x)" for os x
    by (induction os arbitrary: x) (simp_all add: words_round)
  moreover have "words (des_pass z p x) = prod.swap (words (fold (des_round z) (positions p) x))"
    by (simp add: des_pass_def words_def split: prod.split)
  ultimately show ?thesis by (simp add: feistel_pass_def)
qed

definition block_w :: "int list \<Rightarrow> nat list list \<Rightarrow> 32 word \<times> 32 word \<Rightarrow> 32 word \<times> 32 word" where
  "block_w z ps x = final_w (fold (feistel_pass (XOR) (mix_w z)) ps (initial_w x))"

lemma words_block: "words (des_block z p x) = block_w z (map positions p) (words x)"
proof -
  have "words (fold (des_pass z) p x) = fold (feistel_pass (XOR) (mix_w z)) (map positions p) (words x)" for x
    by (induction p arbitrary: x) (simp_all add: words_pass)
  then show ?thesis by (simp add: des_block_def block_w_def words_final words_initial)
qed

interpretation des_net: feistel_network "(XOR) :: 32 word \<Rightarrow> 32 word \<Rightarrow> 32 word" "mix_w z" for z
  by unfold_locales (simp add: xor.assoc)

lemma des_passes_rev:
  "map positions (des_passes I False) = rev (map rev (map positions (des_passes I True)))"
  by (simp add: des_passes_def positions_def upt_rec)

lemma des_block_inverse:
  "block_w z (map positions (des_passes I False)) (block_w z (map positions (des_passes I True)) x) = x"
  unfolding des_passes_rev block_w_def by (simp only: final_initial des_net.passes_rev)

end
