(* ===== verification/Des_Stream.thy ===== *)
theory Des_Stream
  imports Des_Block
begin

text \<open>
  The cipher on a whole text: the loop over the blocks is ECB or CBC chaining of the block function, decryption inverts encryption,
  and the conversion at the end of a decryption reads the bytes as UTF-8.
\<close>

section \<open>Chaining\<close>

fun mode_enc :: "bool \<Rightarrow> ('b \<Rightarrow> 'b \<Rightarrow> 'b) \<Rightarrow> ('b \<Rightarrow> 'b) \<Rightarrow> 'b \<Rightarrow> 'b list \<Rightarrow> 'b list" where
  "mode_enc c mix E v [] = []"
| "mode_enc c mix E v (x # xs) = (let y = E (if c then mix x v else x) in y # mode_enc c mix E (if c then y else v) xs)"

fun mode_dec :: "bool \<Rightarrow> ('b \<Rightarrow> 'b \<Rightarrow> 'b) \<Rightarrow> ('b \<Rightarrow> 'b) \<Rightarrow> 'b \<Rightarrow> 'b list \<Rightarrow> 'b list" where
  "mode_dec c mix D v [] = []"
| "mode_dec c mix D v (y # ys) = (if c then mix (D y) v else D y) # mode_dec c mix D (if c then y else v) ys"

locale chained_cipher =
  fixes mix :: "'b \<Rightarrow> 'b \<Rightarrow> 'b"
    and E D :: "'b \<Rightarrow> 'b"
  assumes mix_cancel: "mix (mix x y) y = x"
    and dec_enc: "D (E x) = x"
begin

lemma chain_inverse: "mode_dec c mix D v (mode_enc c mix E v xs) = xs"
  by (induction xs arbitrary: v) (simp_all add: Let_def mix_cancel dec_enc)

end

lemma length_chain [simp]: "length (mode_enc c mix E v xs) = length xs" "length (mode_dec c mix D v xs) = length xs"
  by (induction xs arbitrary: v) (simp_all add: Let_def)

definition xor_pair :: "32 word \<times> 32 word \<Rightarrow> 32 word \<times> 32 word \<Rightarrow> 32 word \<times> 32 word" where
  "xor_pair x y = (fst x XOR fst y, snd x XOR snd y)"

definition des_w :: "jstr \<Rightarrow> bool \<Rightarrow> 32 word \<times> 32 word \<Rightarrow> 32 word \<times> 32 word" where
  "des_w t i = block_w (des_keys t) (map positions (des_passes (if length (des_keys t) = 32 then 3 else 9) i))"

interpretation des_modes: chained_cipher xor_pair "des_w t True" "des_w t False" for t
  by unfold_locales (simp_all add: xor_pair_def xor.assoc des_w_def des_block_inverse)

section \<open>Blocks of a text\<close>

definition block_chars :: "32 word \<times> 32 word \<Rightarrow> jstr" where
  "block_chars x = be_bytes (fst x) @ be_bytes (snd x)"

definition block_at :: "jstr \<Rightarrow> nat \<Rightarrow> 32 word \<times> 32 word" where
  "block_at e k = words (des_read e (8 * int k), des_read e (8 * int k + 4))"

lemma length_block_chars [simp]: "length (block_chars x) = 8"
  by (simp add: block_chars_def)

lemma be_bytes_chars:
  "be_bytes (w32 d) = [js_ushr d 24, js_and (js_ushr d 16) 255, js_and (js_ushr d 8) 255, js_and 255 d]"
proof -
  define u where "u = uint (w32 d)"
  have u: "0 \<le> u" "u < 4294967296" using uint_bounded [of "w32 d"] by (simp_all add: u_def)
  have shr: "js_ushr d 24 = u div 16777216" "js_ushr d 16 = u div 65536" "js_ushr d 8 = u div 256"
    by (simp_all add: js_ushr_def to_uint32_uint drop_bit_eq_div u_def)
  have "u div 16777216 < 256" "0 \<le> u div 16777216" using u by auto
  then have "u div 16777216 mod 256 = u div 16777216" by (rule mod_pos_pos_trivial [rotated])
  moreover have "u mod 256 = d mod 256" by (simp add: u_def uint_word_of_int mod_mod_cancel)
  moreover have "js_and x 255 = x mod 256" "js_and 255 x = x mod 256" for x
    using js_and_mask [of 8 x] by (simp_all add: js_and_comm [of 255 x])
  ultimately show ?thesis by (simp only: be_bytes_div shr flip: u_def)
qed

lemma des_chars_words: "des_chars d h = block_chars (words (d, h))"
proof -
  have "from_char_code y = [y]" if "0 \<le> y \<and> y < 256" for y
    using that by (simp add: from_char_code_def)
  moreover have "0 \<le> y \<and> y < 256" if "y \<in> set (be_bytes (w32 x))" for x y
    using that byte_string_be_bytes [of "w32 x"] by (simp add: byte_string_def del: byte_string_be_bytes)
  ultimately have "\<forall>y \<in> set (be_bytes (w32 x)). from_char_code y = [y]" for x by blast
  from this [of d] this [of h] show ?thesis by (simp add: des_chars_def block_chars_def words_def be_bytes_chars)
qed

text \<open>A position behind the end counts as a zero byte.\<close>

definition byte :: "jstr \<Rightarrow> nat \<Rightarrow> int" where
  "byte e j = (if j < length e then e ! j else 0)"

lemma bits_of_char: "bits_of (char_code_at e (int j)) = byte e j"
  by (simp add: char_code_at_def byte_def)

lemma byte_range: "byte_string e \<Longrightarrow> 0 \<le> byte e j \<and> byte e j < 256"
  using byte_string_nth by (simp add: byte_def)

lemma des_read_bytes:
  assumes "byte_string e"
  shows "w32 (des_read e (int k)) = be_word [byte e k, byte e (k + 1), byte e (k + 2), byte e (k + 3)]"
proof -
  have pos: "int k + 1 = int (k + 1)" "int k + 2 = int (k + 2)" "int k + 3 = int (k + 3)" by simp_all
  have "w32 (des_read e (int k)) =
      push_bit 8 (push_bit 8 (push_bit 8 (w32 (byte e k)) OR w32 (byte e (k + 1))) OR w32 (byte e (k + 2))) OR w32 (byte e (k + 3))"
    unfolding des_read_def pos bits_of_char by (simp add: js_w32 push_bit_or)
  also have "\<dots> = be_word [byte e k, byte e (k + 1), byte e (k + 2), byte e (k + 3)]"
    using byte_range [OF assms] by (simp add: or_byte_word be_word_def)
  finally show ?thesis .
qed

definition block_bytes :: "jstr \<Rightarrow> nat \<Rightarrow> jstr" where
  "block_bytes e k = map (byte e) [8 * k..<8 * k + 8]"

lemma block_bytes_map: "block_bytes e k = map (\<lambda>j. byte e (8 * k + j)) [0..<8]"
  by (intro nth_equalityI) (simp_all add: block_bytes_def)

lemma upt8: "[0..<8] = [0, 1, 2, 3, 4, 5, 6, 7 :: nat]"
  by (simp add: upt_rec)

lemma block_at_bytes:
  assumes "byte_string e"
  shows "block_at e k = (be_word (take 4 (block_bytes e k)), be_word (drop 4 (block_bytes e k)))"
proof -
  have "block_bytes e k = [byte e (8 * k), byte e (8 * k + 1), byte e (8 * k + 2), byte e (8 * k + 3), byte e (8 * k + 4),
      byte e (8 * k + 5), byte e (8 * k + 6), byte e (8 * k + 7)]"
    by (simp add: block_bytes_map upt8)
  then show ?thesis
    using des_read_bytes [OF assms, of "8 * k"] des_read_bytes [OF assms, of "8 * k + 4"]
    by (simp add: block_at_def words_def add.assoc) (simp add: add.commute)
qed

lemma block_at_chars:
  assumes "byte_string e" "block_bytes e k = block_chars y"
  shows "block_at e k = y"
  by (simp add: block_at_bytes [OF assms(1)] assms(2) block_chars_def be_word_bytes)

lemma block_chars_at:
  assumes "byte_string e"
  shows "block_chars (block_at e k) = block_bytes e k"
proof -
  have bytes: "byte_string (block_bytes e k)" "length (block_bytes e k) = 8"
    using byte_range [OF assms] by (auto simp: block_bytes_def byte_string_def)
  then have "byte_string (take 4 (block_bytes e k))" "byte_string (drop 4 (block_bytes e k))"
    using bytes(1) by (auto simp: byte_string_def dest: in_set_takeD in_set_dropD)
  with bytes(2) have "be_bytes (be_word (take 4 (block_bytes e k))) = take 4 (block_bytes e k)"
    "be_bytes (be_word (drop 4 (block_bytes e k))) = drop 4 (block_bytes e k)"
    by (simp_all add: be_bytes_word)
  then show ?thesis by (simp add: block_chars_def block_at_bytes [OF assms])
qed

lemma concat_block_bytes: "concat (map (block_bytes e) [0..<n]) = map (byte e) [0..<8 * n]"
proof (induction n)
  case (Suc n)
  then show ?case
    using upt_add_eq_append [of 0 "8 * n" 8] by (simp add: block_bytes_def add.commute)
qed simp

lemma concat_blocks:
  assumes "byte_string e" "8 * n \<le> length e"
  shows "concat (map block_chars (map (block_at e) [0..<n])) = take (8 * n) e"
proof -
  have "concat (map block_chars (map (block_at e) [0..<n])) = map (byte e) [0..<8 * n]"
    by (simp add: comp_def block_chars_at [OF assms(1)] concat_block_bytes)
  also have "\<dots> = take (8 * n) e"
    using assms(2) by (intro nth_equalityI) (simp_all add: byte_def)
  finally show ?thesis .
qed

lemma block_bytes_concat:
  assumes "k < length ys"
  shows "block_bytes (concat (map block_chars ys)) k = block_chars (ys ! k)"
  using assms
proof (induction ys arbitrary: k)
  case (Cons y ys)
  have shift: "byte (block_chars y @ r) (j + 8) = byte r j" and low: "j < 8 \<Longrightarrow> byte (block_chars y @ r) j = block_chars y ! j" for r j
    by (simp_all add: byte_def nth_append)
  show ?case
  proof (cases k)
    case 0
    then show ?thesis
      by (intro nth_equalityI) (simp_all add: block_bytes_def low)
  next
    case (Suc j)
    have "block_bytes (block_chars y @ r) (Suc j) = block_bytes r j" for r
    proof (intro nth_equalityI)
      fix i assume "i < length (block_bytes (block_chars y @ r) (Suc j))"
      then have "i < 8" by (simp add: block_bytes_def)
      then show "block_bytes (block_chars y @ r) (Suc j) ! i = block_bytes r j ! i"
        using shift [of r "8 * j + i"] by (simp add: block_bytes_def add.assoc add.commute add.left_commute)
    qed (simp add: block_bytes_def)
    with Cons Suc show ?thesis by simp
  qed
qed simp

section \<open>Zeros at the end\<close>

lemma strip_zeros_split: "\<exists>m. s = strip_zeros s @ replicate m 0"
proof -
  have zeros: "takeWhile (\<lambda>c. c = 0) xs = replicate (length (takeWhile (\<lambda>c. c = 0) xs)) 0" for xs :: jstr
    by (induction xs) auto
  have "s = rev (takeWhile (\<lambda>c. c = 0) (rev s) @ dropWhile (\<lambda>c. c = 0) (rev s))" by simp
  also have "\<dots> = strip_zeros s @ rev (takeWhile (\<lambda>c. c = 0) (rev s))" by (simp only: rev_append strip_zeros_def)
  also have "rev (takeWhile (\<lambda>c. c = 0) (rev s)) = replicate (length (takeWhile (\<lambda>c. c = 0) (rev s))) 0"
    by (subst zeros) (simp only: rev_replicate)
  finally show ?thesis by blast
qed

lemma byte_strip_zeros: "byte (strip_zeros s) j = byte s j"
proof -
  obtain m where "s = strip_zeros s @ replicate m 0" using strip_zeros_split by blast
  then have "byte s j = byte (strip_zeros s @ replicate m 0) j" by simp
  then show ?thesis by (simp add: byte_def nth_append)
qed

lemma block_bytes_strip_zeros: "block_bytes (strip_zeros s) k = block_bytes s k"
  by (simp add: block_bytes_def byte_strip_zeros)

lemma length_strip_zeros: "length (strip_zeros s) \<le> length s"
  using length_dropWhile_le [of "\<lambda>c. c = 0" "rev s"] by (simp add: strip_zeros_def)

lemma strip_zeros_id: "s \<noteq> [] \<Longrightarrow> last s \<noteq> 0 \<Longrightarrow> strip_zeros s = s"
  by (cases s rule: rev_cases) (simp_all add: strip_zeros_def)

lemma byte_string_strip_zeros: "byte_string s \<Longrightarrow> byte_string (strip_zeros s)"
  by (auto simp: strip_zeros_def byte_string_def dest: set_dropWhileD)

section \<open>The loop\<close>

definition out_text :: "des_state \<Rightarrow> jstr" where
  "out_text st = out_B st @ out_O st"

definition vec :: "des_state \<Rightarrow> 32 word \<times> 32 word" where
  "vec st = words (vec_f st, vec_m st)"

lemma words_xor: "words (js_xor a b, js_xor c d) = xor_pair (words (a, c)) (words (b, d))"
  "words (js_xor (fst x) b, js_xor (snd x) d) = xor_pair (words x) (words (b, d))"
  by (simp_all add: words_def xor_pair_def w32_js_xor)

lemma des_step_enc:
  "out_text (des_step z p e True n (8 * int k) st) =
     out_text st @ block_chars (block_w z (map positions p) (if n = 1 then xor_pair (block_at e k) (vec st) else block_at e k))"
  "vec (des_step z p e True n (8 * int k) st) =
     (if n = 1 then block_w z (map positions p) (xor_pair (block_at e k) (vec st)) else vec st)"
  by (simp_all add: des_step_def out_text_def vec_def Let_def des_chars_words block_at_def split_def flip: words_block words_xor)

lemma des_step_dec:
  "out_text (des_step z p e False n (8 * int k) st) =
     out_text st @ block_chars (if n = 1 then xor_pair (block_w z (map positions p) (block_at e k)) (vec st)
       else block_w z (map positions p) (block_at e k))"
  "vec (des_step z p e False n (8 * int k) st) = (if n = 1 then block_at e k else vec st)"
  by (simp_all add: des_step_def out_text_def vec_def Let_def des_chars_words block_at_def split_def flip: words_block words_xor)

lemma des_loop_enc:
  "out_text (fold (\<lambda>k. des_step z p e True n (8 * int k)) ks st) =
   out_text st @ concat (map block_chars (mode_enc (n = 1) xor_pair (block_w z (map positions p)) (vec st) (map (block_at e) ks)))"
  by (induction ks arbitrary: st) (simp_all add: des_step_enc Let_def)

lemma des_loop_dec:
  "out_text (fold (\<lambda>k. des_step z p e False n (8 * int k)) ks st) =
   out_text st @ concat (map block_chars (mode_dec (n = 1) xor_pair (block_w z (map positions p)) (vec st) (map (block_at e) ks)))"
  by (induction ks arbitrary: st) (simp_all add: des_step_dec)

lemma js_for_eights:
  "js_for (8 * int a) (int F) 8 f x = fold (\<lambda>k. f (8 * int k)) [a..<(F + 7) div 8] x"
proof (induction "(F + 7) div 8 - a" arbitrary: a x)
  case 0
  then have "F \<le> 8 * a" by linarith
  then have "int F \<le> 8 * int a" by linarith
  with 0 show ?case by simp
next
  case (Suc n)
  then have less: "a < (F + 7) div 8" by simp
  then have "8 * a < F" by linarith
  then have "8 * int a < int F" by linarith
  moreover have step: "8 * int a + 8 = 8 * int (Suc a)" by simp
  ultimately have "js_for (8 * int a) (int F) 8 f x = js_for (8 * int (Suc a)) (int F) 8 f (f (8 * int a) x)"
    by (subst js_for.simps) (simp only: step if_True simp_thms zero_less_numeral)
  also have "\<dots> = fold (\<lambda>k. f (8 * int k)) [Suc a..<(F + 7) div 8] (f (8 * int a) x)"
    using Suc.hyps(2) by (intro Suc.hyps(1)) simp
  finally show ?case using less by (simp add: upt_conv_Cons)
qed

section \<open>The text of a decryption\<close>

definition scalar :: "int \<Rightarrow> bool" where
  "scalar p \<longleftrightarrow> 0 \<le> p \<and> p < 1114112 \<and> \<not> (55296 \<le> p \<and> p \<le> 57343)"

lemma utf16_decode_units:
  "code_units t \<Longrightarrow> utf16_decode t = Some ps \<Longrightarrow> concat (map utf16_units ps) = t \<and> list_all scalar ps"
proof (induction t arbitrary: ps rule: utf16_decode.induct)
  case (2 c s)
  have range: "0 \<le> c" "c < 65536" "code_units s" using "2.prems"(1) by simp_all
  consider (bmp) "\<not> (55296 \<le> c \<and> c \<le> 57343)" | (high) "55296 \<le> c" "c \<le> 56319"
    using "2.prems"(2) by (auto split: if_splits)
  then show ?case
  proof cases
    case bmp
    then obtain qs where qs: "ps = c # qs" "utf16_decode s = Some qs"
      using "2.prems"(2) by (auto split: if_splits)
    have "concat (map utf16_units qs) = s \<and> list_all scalar qs"
      using "2.IH"(2) bmp qs(2) range(3) by auto
    with bmp range qs(1) show ?thesis by (simp add: utf16_units_def [of c] scalar_def [of c])
  next
    case high
    then obtain d s' qs where qs: "s = d # s'" "56320 \<le> d" "d \<le> 57343" "utf16_decode s' = Some qs"
      "ps = (65536 + (c - 55296) * 1024 + (d - 56320)) # qs"
      using "2.prems"(2) by (auto split: list.splits if_splits)
    have "concat (map utf16_units qs) = s' \<and> list_all scalar qs"
      using "2.IH"(1) high qs range(3) by auto
    moreover have "scalar (65536 + (c - 55296) * 1024 + (d - 56320))"
      using surrogate_pair(1,2) [OF high qs(2,3)] unfolding scalar_def by linarith
    ultimately show ?thesis
      using surrogate_pair(3) [OF high qs(2,3)] qs(1) unfolding qs(5) list.map concat.simps by simp
  qed
qed simp

lemma escape_octets:
  assumes "0 \<le> p" "p < 1114112" "\<not> (55296 \<le> p \<and> p \<le> 57343)"
  shows "decode_uri_component (js_escape (utf8_octets p) @ s) = map_option ((@) (utf16_units p)) (decode_uri_component s)"
proof (cases "p < 128 \<and> js_escape [p] = [p]")
  case True
  then have "p \<noteq> 37" by (auto simp: js_escape_def percent_def)
  with True show ?thesis by (simp add: utf8_octets_def decode_uri_component.simps(2) utf16_units_def) (cases "decode_uri_component s"; simp)
next
  case False
  have "js_escape bs = concat (map percent bs)" if "list_all (\<lambda>b. 128 \<le> b \<and> b < 256) bs" for bs
    using that by (induction bs) (simp_all add: js_escape_def)
  moreover have "list_all (\<lambda>b. 128 \<le> b \<and> b < 256) (utf8_octets p)" if "128 \<le> p"
    using that assms byte_string_utf8_octets [of p] by (auto simp: utf8_octets_def)
  moreover have "js_escape (utf8_octets p) = percent p" if "p < 128"
    using False that by (auto simp: utf8_octets_def js_escape_def)
  ultimately have "js_escape (utf8_octets p) = percent_encode p"
    by (cases "p < 128") (simp_all add: percent_encode_def utf8_octets_def)
  then show ?thesis by (simp add: decode_percent_encode [OF assms])
qed

lemma decode_escape:
  assumes "code_units t" "utf8_encode t = Some bs"
  shows "decode_uri_component (js_escape bs) = Some t"
proof -
  obtain ps where ps: "utf16_decode t = Some ps" "bs = concat (map utf8_octets ps)"
    using assms(2) by (auto simp: utf8_encode_def)
  have "decode_uri_component (js_escape (concat (map utf8_octets qs))) = Some (concat (map utf16_units qs))"
    if "list_all scalar qs" for qs
    using that
  proof (induction qs)
    case (Cons q qs)
    have "js_escape (a @ b) = js_escape a @ js_escape b" for a b by (simp add: js_escape_def)
    with Cons show ?case by (simp add: escape_octets scalar_def)
  qed (simp add: js_escape_def)
  with utf16_decode_units [OF assms(1) ps(1)] show ?thesis by (simp add: ps(2))
qed

end
