(* ===== verification/Des_Fips.thy ===== *)
theory Des_Fips
  imports Main
begin

text \<open>
  The data encryption standard, FIPS 46-3, on lists of bits numbered from the left, as the standard describes it: the permutations, the
  selection functions, the key schedule, and the triple algorithm.
\<close>

section \<open>Permutations and selections\<close>

definition pick :: "nat list \<Rightarrow> 'a list \<Rightarrow> 'a list" where
  "pick tab xs = map (\<lambda>i. xs ! (i - 1)) tab"

definition fips_IP :: "nat list" where
  "fips_IP =
    [58, 50, 42, 34, 26, 18, 10, 2, 60, 52, 44, 36, 28, 20, 12, 4, 62, 54, 46, 38, 30, 22, 14, 6, 64, 56, 48, 40,
     32, 24, 16, 8, 57, 49, 41, 33, 25, 17, 9, 1, 59, 51, 43, 35, 27, 19, 11, 3, 61, 53, 45, 37, 29, 21, 13, 5, 63,
     55, 47, 39, 31, 23, 15, 7]"

definition fips_FP :: "nat list" where
  "fips_FP =
    [40, 8, 48, 16, 56, 24, 64, 32, 39, 7, 47, 15, 55, 23, 63, 31, 38, 6, 46, 14, 54, 22, 62, 30, 37, 5, 45, 13,
     53, 21, 61, 29, 36, 4, 44, 12, 52, 20, 60, 28, 35, 3, 43, 11, 51, 19, 59, 27, 34, 2, 42, 10, 50, 18, 58, 26,
     33, 1, 41, 9, 49, 17, 57, 25]"

definition fips_E :: "nat list" where
  "fips_E =
    [32, 1, 2, 3, 4, 5, 4, 5, 6, 7, 8, 9, 8, 9, 10, 11, 12, 13, 12, 13, 14, 15, 16, 17, 16, 17, 18, 19, 20, 21, 20,
     21, 22, 23, 24, 25, 24, 25, 26, 27, 28, 29, 28, 29, 30, 31, 32, 1]"

definition fips_P :: "nat list" where
  "fips_P =
    [16, 7, 20, 21, 29, 12, 28, 17, 1, 15, 23, 26, 5, 18, 31, 10, 2, 8, 24, 14, 32, 27, 3, 9, 19, 13, 30, 6, 22,
     11, 4, 25]"

definition fips_PC1 :: "nat list" where
  "fips_PC1 =
    [57, 49, 41, 33, 25, 17, 9, 1, 58, 50, 42, 34, 26, 18, 10, 2, 59, 51, 43, 35, 27, 19, 11, 3, 60, 52, 44, 36,
     63, 55, 47, 39, 31, 23, 15, 7, 62, 54, 46, 38, 30, 22, 14, 6, 61, 53, 45, 37, 29, 21, 13, 5, 28, 20, 12, 4]"

definition fips_PC2 :: "nat list" where
  "fips_PC2 =
    [14, 17, 11, 24, 1, 5, 3, 28, 15, 6, 21, 10, 23, 19, 12, 4, 26, 8, 16, 7, 27, 20, 13, 2, 41, 52, 31, 37, 47,
     55, 30, 40, 51, 45, 33, 48, 44, 49, 39, 56, 34, 53, 46, 42, 50, 36, 29, 32]"

definition fips_shifts :: "nat list" where
  "fips_shifts =
    [1, 1, 2, 2, 2, 2, 2, 2, 1, 2, 2, 2, 2, 2, 2, 1]"

section \<open>Selection functions\<close>

definition fips_S1 :: "nat list" where
  "fips_S1 =
    [14, 4, 13, 1, 2, 15, 11, 8, 3, 10, 6, 12, 5, 9, 0, 7, 0, 15, 7, 4, 14, 2, 13, 1, 10, 6, 12, 11, 9, 5, 3, 8, 4,
     1, 14, 8, 13, 6, 2, 11, 15, 12, 9, 7, 3, 10, 5, 0, 15, 12, 8, 2, 4, 9, 1, 7, 5, 11, 3, 14, 10, 0, 6, 13]"

definition fips_S2 :: "nat list" where
  "fips_S2 =
    [15, 1, 8, 14, 6, 11, 3, 4, 9, 7, 2, 13, 12, 0, 5, 10, 3, 13, 4, 7, 15, 2, 8, 14, 12, 0, 1, 10, 6, 9, 11, 5, 0,
     14, 7, 11, 10, 4, 13, 1, 5, 8, 12, 6, 9, 3, 2, 15, 13, 8, 10, 1, 3, 15, 4, 2, 11, 6, 7, 12, 0, 5, 14, 9]"

definition fips_S3 :: "nat list" where
  "fips_S3 =
    [10, 0, 9, 14, 6, 3, 15, 5, 1, 13, 12, 7, 11, 4, 2, 8, 13, 7, 0, 9, 3, 4, 6, 10, 2, 8, 5, 14, 12, 11, 15, 1,
     13, 6, 4, 9, 8, 15, 3, 0, 11, 1, 2, 12, 5, 10, 14, 7, 1, 10, 13, 0, 6, 9, 8, 7, 4, 15, 14, 3, 11, 5, 2, 12]"

definition fips_S4 :: "nat list" where
  "fips_S4 =
    [7, 13, 14, 3, 0, 6, 9, 10, 1, 2, 8, 5, 11, 12, 4, 15, 13, 8, 11, 5, 6, 15, 0, 3, 4, 7, 2, 12, 1, 10, 14, 9,
     10, 6, 9, 0, 12, 11, 7, 13, 15, 1, 3, 14, 5, 2, 8, 4, 3, 15, 0, 6, 10, 1, 13, 8, 9, 4, 5, 11, 12, 7, 2, 14]"

definition fips_S5 :: "nat list" where
  "fips_S5 =
    [2, 12, 4, 1, 7, 10, 11, 6, 8, 5, 3, 15, 13, 0, 14, 9, 14, 11, 2, 12, 4, 7, 13, 1, 5, 0, 15, 10, 3, 9, 8, 6, 4,
     2, 1, 11, 10, 13, 7, 8, 15, 9, 12, 5, 6, 3, 0, 14, 11, 8, 12, 7, 1, 14, 2, 13, 6, 15, 0, 9, 10, 4, 5, 3]"

definition fips_S6 :: "nat list" where
  "fips_S6 =
    [12, 1, 10, 15, 9, 2, 6, 8, 0, 13, 3, 4, 14, 7, 5, 11, 10, 15, 4, 2, 7, 12, 9, 5, 6, 1, 13, 14, 0, 11, 3, 8, 9,
     14, 15, 5, 2, 8, 12, 3, 7, 0, 4, 10, 1, 13, 11, 6, 4, 3, 2, 12, 9, 5, 15, 10, 11, 14, 1, 7, 6, 0, 8, 13]"

definition fips_S7 :: "nat list" where
  "fips_S7 =
    [4, 11, 2, 14, 15, 0, 8, 13, 3, 12, 9, 7, 5, 10, 6, 1, 13, 0, 11, 7, 4, 9, 1, 10, 14, 3, 5, 12, 2, 15, 8, 6, 1,
     4, 11, 13, 12, 3, 7, 14, 10, 15, 6, 8, 0, 5, 9, 2, 6, 11, 13, 8, 1, 4, 10, 7, 9, 5, 0, 15, 14, 2, 3, 12]"

definition fips_S8 :: "nat list" where
  "fips_S8 =
    [13, 2, 8, 4, 6, 15, 11, 1, 10, 9, 3, 14, 5, 0, 12, 7, 1, 15, 13, 8, 10, 3, 7, 4, 12, 5, 6, 11, 0, 14, 9, 2, 7,
     11, 4, 1, 9, 12, 14, 2, 0, 6, 10, 13, 15, 3, 5, 8, 2, 1, 14, 7, 4, 10, 8, 13, 15, 12, 9, 0, 3, 5, 6, 11]"

definition fips_S :: "nat list list" where
  "fips_S = [fips_S1, fips_S2, fips_S3, fips_S4, fips_S5, fips_S6, fips_S7, fips_S8]"

text \<open>The outer bits of a group choose the row, the inner bits the column.\<close>

definition row :: "bool list \<Rightarrow> nat" where
  "row g = 2 * of_bool (g ! 0) + of_bool (g ! 5)"

definition column :: "bool list \<Rightarrow> nat" where
  "column g = 8 * of_bool (g ! 1) + 4 * of_bool (g ! 2) + 2 * of_bool (g ! 3) + of_bool (g ! 4)"

definition four_bits :: "nat \<Rightarrow> bool list" where
  "four_bits v = [odd (v div 8), odd (v div 4), odd (v div 2), odd v]"

definition select_bits :: "nat list \<Rightarrow> bool list \<Rightarrow> bool list" where
  "select_bits S g = four_bits (S ! (16 * row g + column g))"

section \<open>The algorithm\<close>

definition xor_bits :: "bool list \<Rightarrow> bool list \<Rightarrow> bool list" where
  "xor_bits xs ys = map2 (\<noteq>) xs ys"

definition sixes :: "bool list \<Rightarrow> bool list list" where
  "sixes xs = map (\<lambda>j. take 6 (drop (6 * j) xs)) [0..<8]"

definition fips_f :: "bool list \<Rightarrow> bool list \<Rightarrow> bool list" where
  "fips_f K R = pick fips_P (concat (map2 select_bits fips_S (sixes (xor_bits (pick fips_E R) K))))"

definition fips_round :: "bool list \<Rightarrow> bool list \<times> bool list \<Rightarrow> bool list \<times> bool list" where
  "fips_round K LR = (snd LR, xor_bits (fst LR) (fips_f K (snd LR)))"

definition fips_rounds :: "bool list list \<Rightarrow> bool list \<Rightarrow> bool list" where
  "fips_rounds Ks B =
     (let x = pick fips_IP B; (L, R) = fold fips_round Ks (take 32 x, drop 32 x) in pick fips_FP (R @ L))"

fun fips_keys_from :: "nat list \<Rightarrow> bool list \<Rightarrow> bool list \<Rightarrow> bool list list" where
  "fips_keys_from [] C D = []"
| "fips_keys_from (s # ss) C D = pick fips_PC2 (rotate s C @ rotate s D) # fips_keys_from ss (rotate s C) (rotate s D)"

definition fips_keys :: "bool list \<Rightarrow> bool list list" where
  "fips_keys K = fips_keys_from fips_shifts (take 28 (pick fips_PC1 K)) (drop 28 (pick fips_PC1 K))"

definition fips_encrypt :: "bool list \<Rightarrow> bool list \<Rightarrow> bool list" where
  "fips_encrypt K = fips_rounds (fips_keys K)"

definition fips_decrypt :: "bool list \<Rightarrow> bool list \<Rightarrow> bool list" where
  "fips_decrypt K = fips_rounds (rev (fips_keys K))"

definition tdea_encrypt :: "bool list \<Rightarrow> bool list \<Rightarrow> bool list \<Rightarrow> bool list \<Rightarrow> bool list" where
  "tdea_encrypt K1 K2 K3 B = fips_encrypt K3 (fips_decrypt K2 (fips_encrypt K1 B))"

definition tdea_decrypt :: "bool list \<Rightarrow> bool list \<Rightarrow> bool list \<Rightarrow> bool list \<Rightarrow> bool list" where
  "tdea_decrypt K1 K2 K3 B = fips_decrypt K1 (fips_encrypt K2 (fips_decrypt K3 B))"

end
