(* ===== verification/Des_Perm.thy ===== *)
theory Des_Perm
  imports Des_Stream Des_Fips
begin

text \<open>The words of the script as the bits of the standard: the initial and the final permutation and the key schedule.\<close>

section \<open>Bits of words\<close>

definition wbits :: "32 word \<Rightarrow> bool list" where
  "wbits w = map (\<lambda>i. bit w (31 - i)) [0..<32]"

lemma wbits_list:
  "wbits w = [bit w 31, bit w 30, bit w 29, bit w 28, bit w 27, bit w 26, bit w 25, bit w 24, bit w 23, bit w 22, bit w 21, bit w 20,
     bit w 19, bit w 18, bit w 17, bit w 16, bit w 15, bit w 14, bit w 13, bit w 12, bit w 11, bit w 10, bit w 9, bit w 8, bit w 7,
     bit w 6, bit w 5, bit w 4, bit w 3, bit w 2, bit w 1, bit w 0]"
  by (simp add: wbits_def upt_rec)

lemma length_wbits [simp]: "length (wbits w) = 32"
  by (simp add: wbits_def)

definition pbits :: "32 word \<times> 32 word \<Rightarrow> bool list" where
  "pbits x = wbits (fst x) @ wbits (snd x)"

lemma bit_dswap:
  "bit (fst (dswap n m x)) i = (if n \<le> i \<and> i < 32 \<and> bit m (i - n) then bit (snd x) (i - n) else bit (fst x) i)"
  "bit (snd (dswap n m x)) i = (if bit m i then bit (fst x) (i + n) else bit (snd x) i)"
proof -
  define r where "r = m AND (drop_bit n (fst x) XOR snd x)"
  have r: "bit r j \<longleftrightarrow> bit m j \<and> (bit (fst x) (j + n) \<noteq> bit (snd x) j)" for j
    by (simp only: r_def bit_and_iff bit_xor_iff bit_drop_bit_eq comp_def add.commute)
  have push: "bit (push_bit n r) i \<longleftrightarrow> n \<le> i \<and> i < 32 \<and> bit r (i - n)"
    by (simp add: bit_push_bit_iff)
  have "dswap n m x = (fst x XOR push_bit n r, snd x XOR r)" by (simp only: dswap_def Let_def r_def)
  then show "bit (fst (dswap n m x)) i = (if n \<le> i \<and> i < 32 \<and> bit m (i - n) then bit (snd x) (i - n) else bit (fst x) i)"
    "bit (snd (dswap n m x)) i = (if bit m i then bit (fst x) (i + n) else bit (snd x) i)"
    by (auto simp: bit_xor_iff push r)
qed

section \<open>The permutations\<close>

definition unrot :: "32 word \<times> 32 word \<Rightarrow> 32 word \<times> 32 word" where
  "unrot x = map_prod rotr1 rotr1 x"

lemma pbits_initial: "pbits (unrot (initial_w x)) = pick fips_IP (pbits x)"
proof -
  have "unrot (initial_w x) = dswap 1 1431655765 (prod.swap (dswap 8 16711935 (dswap 2 858993459 (prod.swap
     (dswap 16 65535 (dswap 4 252645135 x))))))"
    by (simp add: unrot_def initial_w_def prod.map_comp comp_def rot1 prod.map_ident)
  then show ?thesis
    by (simp add: pbits_def pick_def fips_IP_def wbits_list bit_dswap)
qed

lemma pbits_final: "pbits (final_w x) = pick fips_FP (pbits (unrot x))"
proof -
  have "pick fips_FP (pick fips_IP (pbits y)) = pbits y" for y
    by (simp add: pick_def fips_IP_def fips_FP_def pbits_def wbits_list)
  from this [of "final_w x"] show ?thesis by (simp add: final_initial flip: pbits_initial)
qed

section \<open>The first choice of the key bits\<close>

text \<open>The registers are the bits 31 to 4 of a word.\<close>

definition cbits :: "32 word \<Rightarrow> bool list" where
  "cbits w = take 28 (wbits w)"

lemma cbits_list:
  "cbits w = [bit w 31, bit w 30, bit w 29, bit w 28, bit w 27, bit w 26, bit w 25, bit w 24, bit w 23, bit w 22, bit w 21, bit w 20,
     bit w 19, bit w 18, bit w 17, bit w 16, bit w 15, bit w 14, bit w 13, bit w 12, bit w 11, bit w 10, bit w 9, bit w 8, bit w 7,
     bit w 6, bit w 5, bit w 4]"
  by (simp add: cbits_def wbits_list)

definition gather_w :: "32 word \<times> 32 word \<Rightarrow> 32 word \<times> 32 word" where
  "gather_w x =
     (push_bit 24 (snd x) OR (push_bit 8 (snd x) AND 16711680) OR (drop_bit 8 (snd x) AND 65280) OR (drop_bit 24 (snd x) AND 240),
      push_bit 8 (fst x) OR (drop_bit 20 (snd x) AND 240))"

definition permute_w :: "32 word \<times> 32 word \<Rightarrow> 32 word \<times> 32 word" where
  "permute_w x = gather_w (dswap 1 1431655765 (prod.swap (dswap 8 16711935 (prod.swap (dswap 1 1431655765 (prod.swap (dswap 16 65535
     (prod.swap (dswap 2 858993459 (prod.swap (dswap 16 65535 (prod.swap (dswap 4 252645135 x))))))))))))) "

lemma words_key_permute: "words (key_permute x) = permute_w (words x)"
proof (cases x)
  case (Pair k T)
  define n1 where "n1 = js_and 252645135 (js_xor (js_ushr k 4) T)"
  define k1 where "k1 = js_xor k (js_shl n1 4)"
  define T1 where "T1 = js_xor T n1"
  define n2 where "n2 = js_and 65535 (js_xor (js_ushr T1 (- 16)) k1)"
  define k2 where "k2 = js_xor k1 n2"
  define T2 where "T2 = js_xor T1 (js_shl n2 (- 16))"
  define n3 where "n3 = js_and 858993459 (js_xor (js_ushr k2 2) T2)"
  define k3 where "k3 = js_xor k2 (js_shl n3 2)"
  define T3 where "T3 = js_xor T2 n3"
  define n4 where "n4 = js_and 65535 (js_xor (js_ushr T3 (- 16)) k3)"
  define k4 where "k4 = js_xor k3 n4"
  define T4 where "T4 = js_xor T3 (js_shl n4 (- 16))"
  define n5 where "n5 = js_and 1431655765 (js_xor (js_ushr k4 1) T4)"
  define k5 where "k5 = js_xor k4 (js_shl n5 1)"
  define T5 where "T5 = js_xor T4 n5"
  define n6 where "n6 = js_and 16711935 (js_xor (js_ushr T5 8) k5)"
  define k6 where "k6 = js_xor k5 n6"
  define T6 where "T6 = js_xor T5 (js_shl n6 8)"
  define n7 where "n7 = js_and 1431655765 (js_xor (js_ushr k6 1) T6)"
  define k7 where "k7 = js_xor k6 (js_shl n7 1)"
  define T7 where "T7 = js_xor T6 n7"
  have "key_permute (k, T) =
    (js_or (js_or (js_or (js_shl T7 24) (js_and (js_shl T7 8) 16711680)) (js_and (js_ushr T7 8) 65280)) (js_and (js_ushr T7 24) 240),
     js_or (js_shl k7 8) (js_and (js_ushr T7 20) 240))"
    unfolding key_permute_def prod.case Let_def T7_def k7_def n7_def T6_def k6_def n6_def T5_def k5_def n5_def T4_def k4_def n4_def
      T3_def k3_def n3_def T2_def k2_def n2_def T1_def k1_def n1_def ..
  then have "words (key_permute (k, T)) = gather_w (w32 k7, w32 T7)"
    by (simp add: words_def js_w32 gather_w_def or.assoc)
  moreover have "(w32 k1, w32 T1) = dswap 4 252645135 (w32 k, w32 T)" unfolding k1_def T1_def n1_def w32_dswap by simp
  moreover have "(w32 T2, w32 k2) = dswap 16 65535 (w32 T1, w32 k1)" unfolding k2_def T2_def n2_def w32_dswap by simp
  moreover have "(w32 k3, w32 T3) = dswap 2 858993459 (w32 k2, w32 T2)" unfolding k3_def T3_def n3_def w32_dswap by simp
  moreover have "(w32 T4, w32 k4) = dswap 16 65535 (w32 T3, w32 k3)" unfolding k4_def T4_def n4_def w32_dswap by simp
  moreover have "(w32 k5, w32 T5) = dswap 1 1431655765 (w32 k4, w32 T4)" unfolding k5_def T5_def n5_def w32_dswap by simp
  moreover have "(w32 T6, w32 k6) = dswap 8 16711935 (w32 T5, w32 k5)" unfolding k6_def T6_def n6_def w32_dswap by simp
  moreover have "(w32 k7, w32 T7) = dswap 1 1431655765 (w32 k6, w32 T6)" unfolding k7_def T7_def n7_def w32_dswap by simp
  ultimately show ?thesis
    unfolding Pair by (simp add: permute_w_def words_def [of "(k, T)"]) (metis swap_simp)
qed

lemma cbits_gather:
  "cbits (fst (gather_w x)) = map (bit (snd x)) [7, 6, 5, 4, 3, 2, 1, 0, 15, 14, 13, 12, 11, 10, 9, 8, 23, 22, 21, 20, 19, 18, 17, 16, 31, 30, 29, 28]"
  "cbits (snd (gather_w x)) = map (bit (fst x)) [23, 22, 21, 20, 19, 18, 17, 16, 15, 14, 13, 12, 11, 10, 9, 8, 7, 6, 5, 4, 3, 2, 1, 0] @
     map (bit (snd x)) [27, 26, 25, 24]"
  by (simp_all add: cbits_list gather_w_def bit_or_iff bit_and_iff bit_push_bit_iff bit_drop_bit_eq)

lemma cbits_permute: "cbits (fst (permute_w x)) @ cbits (snd (permute_w x)) = pick fips_PC1 (pbits x)"
  unfolding permute_w_def cbits_gather
  by (simp add: pick_def fips_PC1_def pbits_def wbits_list bit_dswap)

end
