(* ===== verification/Des_Schedule.thy ===== *)
theory Des_Schedule
  imports Des_Perm
begin

text \<open>The round keys of the script are the key schedule of the standard.\<close>

section \<open>Rotation of the registers\<close>

lemma bit_beyond: "32 \<le> i \<Longrightarrow> \<not> bit (w :: 32 word) i"
  by (auto dest: bit_imp_le_length)

text \<open>The three bits below a register that the script clears; the bit 0 may hold anything.\<close>

definition clean :: "32 word \<Rightarrow> bool" where
  "clean w \<longleftrightarrow> \<not> bit w 1 \<and> \<not> bit w 2 \<and> \<not> bit w 3"

lemma clean_mask: "clean (w AND - 15)"
  by (simp add: clean_def bit_and_iff)

lemma clean_gather: "clean (fst (gather_w x))" "clean (snd (gather_w x))"
  by (simp_all add: clean_def gather_w_def bit_and_iff bit_or_iff bit_push_bit_iff)

lemma rotate_twice: "rotate 2 xs = rotate1 (rotate1 xs)"
  by (simp add: numeral_2_eq_2)

lemma cbits_rotate_word:
  assumes "clean w"
  shows "cbits ((push_bit 1 w OR drop_bit 27 w) AND - 15) = rotate 1 (cbits w)"
    and "cbits ((push_bit 2 w OR drop_bit 26 w) AND - 15) = rotate 2 (cbits w)"
proof -
  have w: "\<not> bit w 1" "\<not> bit w 2" "\<not> bit w 3" using assms by (simp_all add: clean_def)
  define x y where "x = push_bit 1 w" and "y = push_bit 2 w"
  have x: "bit x i \<longleftrightarrow> 1 \<le> i \<and> i < 32 \<and> bit w (i - 1)" and y: "bit y i \<longleftrightarrow> 2 \<le> i \<and> i < 32 \<and> bit w (i - 2)" for i
    unfolding x_def y_def by (simp_all only: bit_push_bit_iff) auto
  show "cbits ((push_bit 1 w OR drop_bit 27 w) AND - 15) = rotate 1 (cbits w)"
    unfolding x_def [symmetric] by (simp add: cbits_list bit_and_iff bit_or_iff bit_drop_bit_eq x bit_beyond w)
  show "cbits ((push_bit 2 w OR drop_bit 26 w) AND - 15) = rotate 2 (cbits w)"
    unfolding y_def [symmetric] by (simp add: cbits_list bit_and_iff bit_or_iff bit_drop_bit_eq y bit_beyond w rotate_twice)
qed

lemma cbits_key_rotate:
  assumes "key_rotate b (k, T) = (k', T')" "clean (w32 k)" "clean (w32 T)"
  shows "cbits (w32 k') = rotate (if b \<noteq> 0 then 2 else 1) (cbits (w32 k))"
    and "cbits (w32 T') = rotate (if b \<noteq> 0 then 2 else 1) (cbits (w32 T))"
    and "clean (w32 k')" "clean (w32 T')"
proof -
  define s :: nat where "s = (if b \<noteq> 0 then 2 else 1)"
  have k: "w32 k' = (push_bit s (w32 k) OR drop_bit (28 - s) (w32 k)) AND - 15"
    "w32 T' = (push_bit s (w32 T) OR drop_bit (28 - s) (w32 T)) AND - 15"
    using assms(1) by (auto simp: key_rotate_def w32_js_and w32_js_or w32_js_shl w32_js_ushr s_def split: if_splits)
  then show "cbits (w32 k') = rotate (if b \<noteq> 0 then 2 else 1) (cbits (w32 k))"
    "cbits (w32 T') = rotate (if b \<noteq> 0 then 2 else 1) (cbits (w32 T))"
    using cbits_rotate_word [OF assms(2)] cbits_rotate_word [OF assms(3)] by (simp_all only: s_def split: if_split) auto
  show "clean (w32 k')" "clean (w32 T')" unfolding k by (rule clean_mask)+
qed

section \<open>The second choice of the key bits\<close>

definition sel_e :: "int \<Rightarrow> int" where
  "sel_e k =
     js_or (js_or (js_or (js_or (js_or (js_or (sel_a ! nat (js_ushr k 28)) (sel sel_s k 24)) (sel sel_o k 20)) (sel sel_c k 16))
       (sel sel_r k 12)) (sel sel_l k 8)) (sel sel_u k 4)"

definition sel_i :: "int \<Rightarrow> int" where
  "sel_i T =
     js_or (js_or (js_or (js_or (js_or (js_or (sel_d ! nat (js_ushr T 28)) (sel sel_h T 24)) (sel sel_p T 20)) (sel sel_f T 16))
       (sel sel_v T 12)) (sel sel_m T 8)) (sel sel_g T 4)"

lemma key_select_words:
  "\<exists>z0 z1. key_select (k, T) = [z0, z1] \<and> (w32 z1, w32 z0) = dswap 16 65535 (w32 (sel_i T), w32 (sel_e k))"
proof -
  define e i where "e = sel_e k" and "i = sel_i T"
  have "key_select (k, T) = [js_xor e (js_and 65535 (js_xor (js_ushr i 16) e)), js_xor i (js_shl (js_and 65535 (js_xor (js_ushr i 16) e)) 16)]"
    unfolding key_select_def prod.case Let_def e_def i_def sel_e_def sel_i_def ..
  then show ?thesis
    using w32_dswap [of i 65535 16 e] by (simp flip: e_def i_def)
qed

text \<open>Every table is linear in the bits of its index.\<close>

definition linear_table :: "int list \<Rightarrow> bool" where
  "linear_table tab \<longleftrightarrow> list_all (\<lambda>x. tab ! x =
     (if odd x then tab ! 1 else 0) OR (if odd (x div 2) then tab ! 2 else 0) OR
     (if odd (x div 4) then tab ! 4 else 0) OR (if odd (x div 8) then tab ! 8 else 0)) [0..<16]"

lemma linear_tables:
  "linear_table sel_a" "linear_table sel_s" "linear_table sel_o" "linear_table sel_c" "linear_table sel_r" "linear_table sel_l" "linear_table sel_u"
  "linear_table sel_d" "linear_table sel_h" "linear_table sel_p" "linear_table sel_f" "linear_table sel_v" "linear_table sel_m" "linear_table sel_g"
  by code_simp+

lemma bit_linear:
  assumes "linear_table tab" "x < 16"
  shows "bit (w32 (tab ! x)) p \<longleftrightarrow>
    odd x \<and> bit (w32 (tab ! 1)) p \<or> odd (x div 2) \<and> bit (w32 (tab ! 2)) p \<or>
    odd (x div 4) \<and> bit (w32 (tab ! 4)) p \<or> odd (x div 8) \<and> bit (w32 (tab ! 8)) p"
proof -
  have "tab ! x = (if odd x then tab ! 1 else 0) OR (if odd (x div 2) then tab ! 2 else 0) OR
     (if odd (x div 4) then tab ! 4 else 0) OR (if odd (x div 8) then tab ! 8 else 0)"
    using assms by (simp add: linear_table_def list_all_iff)
  then have "w32 (tab ! x) = (if odd x then w32 (tab ! 1) else 0) OR (if odd (x div 2) then w32 (tab ! 2) else 0) OR
     (if odd (x div 4) then w32 (tab ! 4) else 0) OR (if odd (x div 8) then w32 (tab ! 8) else 0)"
    by (simp only: w32_or if_distrib [of w32] of_int_0)
  then show ?thesis by (simp add: bit_or_iff)
qed

lemma nibble:
  assumes "n \<le> 28"
  shows "nat (js_and (js_ushr k (int n)) 15) < 16"
    and "odd (nat (js_and (js_ushr k (int n)) 15) div 2 ^ j) \<longleftrightarrow> j < 4 \<and> bit (w32 k) (n + j)"
proof -
  have y: "js_and (js_ushr k (int n)) 15 = take_bit 4 (uint (drop_bit n (w32 k)))"
    using js_and_mask [of 4 "js_ushr k (int n)"] assms by (simp add: js_ushr_uint take_bit_eq_mod)
  have "take_bit 4 (uint (drop_bit n (w32 k))) < 16" using take_bit_int_less_exp [of 4] by simp
  then show "nat (js_and (js_ushr k (int n)) 15) < 16" unfolding y by simp
  have "odd (nat (js_and (js_ushr k (int n)) 15) div 2 ^ j) \<longleftrightarrow> bit (nat (take_bit 4 (uint (drop_bit n (w32 k))))) j"
    unfolding y by (simp only: bit_iff_odd)
  also have "\<dots> \<longleftrightarrow> j < 4 \<and> bit (w32 k) (n + j)"
    by (simp add: bit_nat_iff bit_take_bit_iff bit_uint_iff bit_drop_bit_eq) (auto dest: bit_imp_le_length)
  finally show "odd (nat (js_and (js_ushr k (int n)) 15) div 2 ^ j) \<longleftrightarrow> j < 4 \<and> bit (w32 k) (n + j)" .
qed

lemma bit_sel:
  assumes "linear_table tab" "n \<le> 28"
  shows "bit (w32 (tab ! nat (js_and (js_ushr k (int n)) 15))) p \<longleftrightarrow>
    bit (w32 k) n \<and> bit (w32 (tab ! 1)) p \<or> bit (w32 k) (n + 1) \<and> bit (w32 (tab ! 2)) p \<or>
    bit (w32 k) (n + 2) \<and> bit (w32 (tab ! 4)) p \<or> bit (w32 k) (n + 3) \<and> bit (w32 (tab ! 8)) p"
  using bit_linear [OF assms(1) nibble(1) [OF assms(2), of k], of p]
    nibble(2) [OF assms(2), of k 0] nibble(2) [OF assms(2), of k 1] nibble(2) [OF assms(2), of k 2] nibble(2) [OF assms(2), of k 3]
  by simp

lemma js_ushr_28: "js_ushr k 28 = js_and (js_ushr k 28) 15"
proof -
  have "js_ushr k 28 = uint (w32 k) div 268435456" by (simp add: js_ushr_def to_uint32_uint drop_bit_eq_div)
  moreover have "uint (w32 k) < 4294967296" using uint_bounded [of "w32 k"] by simp
  ultimately have "js_ushr k 28 < 16" by (simp only: div_less_iff_less_mult zero_less_numeral)
  then show ?thesis using js_and_mask [of 4 "js_ushr k 28"] js_ushr_range(1) [of k 28] by (simp add: mod_pos_pos_trivial)
qed

lemmas bit_sels =
  bit_sel [of _ 28, simplified] bit_sel [of _ 24, simplified] bit_sel [of _ 20, simplified] bit_sel [of _ 16, simplified]
  bit_sel [of _ 12, simplified] bit_sel [of _ 8, simplified] bit_sel [of _ 4, simplified]

definition field :: "32 word \<Rightarrow> nat \<Rightarrow> bool list" where
  "field w n = [bit w (n + 5), bit w (n + 4), bit w (n + 3), bit w (n + 2), bit w (n + 1), bit w n]"

definition keybits :: "32 word \<Rightarrow> 32 word \<Rightarrow> bool list" where
  "keybits z0 z1 = field z1 24 @ field z0 24 @ field z1 16 @ field z0 16 @ field z1 8 @ field z0 8 @ field z1 0 @ field z0 0"


lemma bit_sel_e:
  "bit (w32 (sel_e k)) p \<longleftrightarrow>
    bit (w32 (sel_a ! nat (js_and (js_ushr k 28) 15))) p \<or> bit (w32 (sel_s ! nat (js_and (js_ushr k 24) 15))) p \<or>
    bit (w32 (sel_o ! nat (js_and (js_ushr k 20) 15))) p \<or> bit (w32 (sel_c ! nat (js_and (js_ushr k 16) 15))) p \<or>
    bit (w32 (sel_r ! nat (js_and (js_ushr k 12) 15))) p \<or> bit (w32 (sel_l ! nat (js_and (js_ushr k 8) 15))) p \<or>
    bit (w32 (sel_u ! nat (js_and (js_ushr k 4) 15))) p"
  unfolding sel_e_def sel_def arg_cong [OF js_ushr_28 [of k], of nat] w32_js_or bit_or_iff disj_assoc ..

lemma bit_sel_i:
  "bit (w32 (sel_i T)) p \<longleftrightarrow>
    bit (w32 (sel_d ! nat (js_and (js_ushr T 28) 15))) p \<or> bit (w32 (sel_h ! nat (js_and (js_ushr T 24) 15))) p \<or>
    bit (w32 (sel_p ! nat (js_and (js_ushr T 20) 15))) p \<or> bit (w32 (sel_f ! nat (js_and (js_ushr T 16) 15))) p \<or>
    bit (w32 (sel_v ! nat (js_and (js_ushr T 12) 15))) p \<or> bit (w32 (sel_m ! nat (js_and (js_ushr T 8) 15))) p \<or>
    bit (w32 (sel_g ! nat (js_and (js_ushr T 4) 15))) p"
  unfolding sel_i_def sel_def arg_cong [OF js_ushr_28 [of T], of nat] w32_js_or bit_or_iff disj_assoc ..

lemma bits_e:
  "bit (w32 (sel_e k)) p \<longleftrightarrow>
    (bit (w32 k) 28 \<and> bit (w32 (sel_a ! 1)) p \<or> bit (w32 k) 29 \<and> bit (w32 (sel_a ! 2)) p \<or>
     bit (w32 k) 30 \<and> bit (w32 (sel_a ! 4)) p \<or> bit (w32 k) 31 \<and> bit (w32 (sel_a ! 8)) p) \<or>
    (bit (w32 k) 24 \<and> bit (w32 (sel_s ! 1)) p \<or> bit (w32 k) 25 \<and> bit (w32 (sel_s ! 2)) p \<or>
     bit (w32 k) 26 \<and> bit (w32 (sel_s ! 4)) p \<or> bit (w32 k) 27 \<and> bit (w32 (sel_s ! 8)) p) \<or>
    (bit (w32 k) 20 \<and> bit (w32 (sel_o ! 1)) p \<or> bit (w32 k) 21 \<and> bit (w32 (sel_o ! 2)) p \<or>
     bit (w32 k) 22 \<and> bit (w32 (sel_o ! 4)) p \<or> bit (w32 k) 23 \<and> bit (w32 (sel_o ! 8)) p) \<or>
    (bit (w32 k) 16 \<and> bit (w32 (sel_c ! 1)) p \<or> bit (w32 k) 17 \<and> bit (w32 (sel_c ! 2)) p \<or>
     bit (w32 k) 18 \<and> bit (w32 (sel_c ! 4)) p \<or> bit (w32 k) 19 \<and> bit (w32 (sel_c ! 8)) p) \<or>
    (bit (w32 k) 12 \<and> bit (w32 (sel_r ! 1)) p \<or> bit (w32 k) 13 \<and> bit (w32 (sel_r ! 2)) p \<or>
     bit (w32 k) 14 \<and> bit (w32 (sel_r ! 4)) p \<or> bit (w32 k) 15 \<and> bit (w32 (sel_r ! 8)) p) \<or>
    (bit (w32 k) 8 \<and> bit (w32 (sel_l ! 1)) p \<or> bit (w32 k) 9 \<and> bit (w32 (sel_l ! 2)) p \<or>
     bit (w32 k) 10 \<and> bit (w32 (sel_l ! 4)) p \<or> bit (w32 k) 11 \<and> bit (w32 (sel_l ! 8)) p) \<or>
    (bit (w32 k) 4 \<and> bit (w32 (sel_u ! 1)) p \<or> bit (w32 k) 5 \<and> bit (w32 (sel_u ! 2)) p \<or>
     bit (w32 k) 6 \<and> bit (w32 (sel_u ! 4)) p \<or> bit (w32 k) 7 \<and> bit (w32 (sel_u ! 8)) p)"
  using bit_sel [of sel_a 28 k p] bit_sel [of sel_s 24 k p] bit_sel [of sel_o 20 k p] bit_sel [of sel_c 16 k p]
    bit_sel [of sel_r 12 k p] bit_sel [of sel_l 8 k p] bit_sel [of sel_u 4 k p]
  by (simp only: bit_sel_e linear_tables) simp

lemma bits_i:
  "bit (w32 (sel_i T)) p \<longleftrightarrow>
    (bit (w32 T) 28 \<and> bit (w32 (sel_d ! 1)) p \<or> bit (w32 T) 29 \<and> bit (w32 (sel_d ! 2)) p \<or>
     bit (w32 T) 30 \<and> bit (w32 (sel_d ! 4)) p \<or> bit (w32 T) 31 \<and> bit (w32 (sel_d ! 8)) p) \<or>
    (bit (w32 T) 24 \<and> bit (w32 (sel_h ! 1)) p \<or> bit (w32 T) 25 \<and> bit (w32 (sel_h ! 2)) p \<or>
     bit (w32 T) 26 \<and> bit (w32 (sel_h ! 4)) p \<or> bit (w32 T) 27 \<and> bit (w32 (sel_h ! 8)) p) \<or>
    (bit (w32 T) 20 \<and> bit (w32 (sel_p ! 1)) p \<or> bit (w32 T) 21 \<and> bit (w32 (sel_p ! 2)) p \<or>
     bit (w32 T) 22 \<and> bit (w32 (sel_p ! 4)) p \<or> bit (w32 T) 23 \<and> bit (w32 (sel_p ! 8)) p) \<or>
    (bit (w32 T) 16 \<and> bit (w32 (sel_f ! 1)) p \<or> bit (w32 T) 17 \<and> bit (w32 (sel_f ! 2)) p \<or>
     bit (w32 T) 18 \<and> bit (w32 (sel_f ! 4)) p \<or> bit (w32 T) 19 \<and> bit (w32 (sel_f ! 8)) p) \<or>
    (bit (w32 T) 12 \<and> bit (w32 (sel_v ! 1)) p \<or> bit (w32 T) 13 \<and> bit (w32 (sel_v ! 2)) p \<or>
     bit (w32 T) 14 \<and> bit (w32 (sel_v ! 4)) p \<or> bit (w32 T) 15 \<and> bit (w32 (sel_v ! 8)) p) \<or>
    (bit (w32 T) 8 \<and> bit (w32 (sel_m ! 1)) p \<or> bit (w32 T) 9 \<and> bit (w32 (sel_m ! 2)) p \<or>
     bit (w32 T) 10 \<and> bit (w32 (sel_m ! 4)) p \<or> bit (w32 T) 11 \<and> bit (w32 (sel_m ! 8)) p) \<or>
    (bit (w32 T) 4 \<and> bit (w32 (sel_g ! 1)) p \<or> bit (w32 T) 5 \<and> bit (w32 (sel_g ! 2)) p \<or>
     bit (w32 T) 6 \<and> bit (w32 (sel_g ! 4)) p \<or> bit (w32 T) 7 \<and> bit (w32 (sel_g ! 8)) p)"
  using bit_sel [of sel_d 28 T p] bit_sel [of sel_h 24 T p] bit_sel [of sel_p 20 T p] bit_sel [of sel_f 16 T p]
    bit_sel [of sel_v 12 T p] bit_sel [of sel_m 8 T p] bit_sel [of sel_g 4 T p]
  by (simp only: bit_sel_i linear_tables) simp

lemma keybits_select:
  assumes "key_select (k, T) = [z0, z1]"
  shows "keybits (w32 z0) (w32 z1) = pick fips_PC2 (cbits (w32 k) @ cbits (w32 T))"
proof -
  have "(w32 z1, w32 z0) = dswap 16 65535 (w32 (sel_i T), w32 (sel_e k))"
    using key_select_words [of k T] assms by auto
  then have "w32 z1 = fst (dswap 16 65535 (w32 (sel_i T), w32 (sel_e k)))" "w32 z0 = snd (dswap 16 65535 (w32 (sel_i T), w32 (sel_e k)))"
    by (metis fst_conv, metis snd_conv)
  then show ?thesis
    by (simp add: keybits_def field_def bit_dswap bits_e bits_i sel_defs pick_def fips_PC2_def cbits_list)
qed

section \<open>The schedule\<close>

lemma length_key_rounds: "length (key_rounds bs kT) = 2 * length bs"
proof (induction bs arbitrary: kT)
  case (Cons b bs)
  have "length (key_select x) = 2" for x by (simp add: key_select_def Let_def split: prod.split)
  with Cons show ?case by (simp add: key_rounds.simps Let_def)
qed simp

lemma key_rounds_fips:
  assumes "clean (w32 k)" "clean (w32 T)" "j < length bs"
  shows "keybits (w32 (key_rounds bs (k, T) ! (2 * j))) (w32 (key_rounds bs (k, T) ! (2 * j + 1))) =
    fips_keys_from (map (\<lambda>b. if b \<noteq> 0 then 2 else 1) bs) (cbits (w32 k)) (cbits (w32 T)) ! j"
  using assms
proof (induction bs arbitrary: k T j)
  case (Cons b bs)
  obtain k' T' where kT: "key_rotate b (k, T) = (k', T')" by fastforce
  note rot = cbits_key_rotate [OF kT Cons.prems(1,2)]
  obtain z0 z1 where z: "key_select (k', T') = [z0, z1]" using key_select_words by blast
  have rounds: "key_rounds (b # bs) (k, T) = z0 # z1 # key_rounds bs (k', T')" by (simp add: key_rounds.simps kT z)
  show ?case
  proof (cases j)
    case 0
    then show ?thesis using keybits_select [OF z] rot(1,2) by (simp add: rounds)
  next
    case (Suc i)
    then show ?thesis using Cons.IH [OF rot(3,4), of i] Cons.prems(3) rot(1,2) by (simp add: rounds)
  qed
qed simp

definition round_keys :: "int list \<Rightarrow> nat \<Rightarrow> bool list" where
  "round_keys z o' = keybits (w32 (z ! o')) (w32 (z ! (o' + 1)))"

lemma key_schedule_fips:
  assumes "x < (if length t > 8 then 3 else 1)" "j < 16"
  shows "round_keys (des_keys t) (32 * x + 2 * j) = fips_keys (pbits (block_at t x)) ! j"
proof -
  define z where "z y = key_rounds key_shifts (key_permute (des_read t (8 * int y), des_read t (8 * int y + 4)))" for y
  have len: "length (z y) = 32" for y using length_key_rounds [of key_shifts] by (simp add: z_def key_shifts_def)
  have nth: "concat (map z [0..<b]) ! (32 * y + i) = z y ! i" if "y < b" "i < 32" for b y i
    using that
  proof (induction b)
    case (Suc b)
    have "length (concat (map z [0..<b])) = 32 * b" for b by (induction b) (simp_all add: len)
    with Suc show ?case by (cases "y = b") (simp_all add: nth_append)
  qed simp
  obtain k T where kT: "key_permute (des_read t (8 * int x), des_read t (8 * int x + 4)) = (k, T)" by fastforce
  have words: "(w32 k, w32 T) = permute_w (block_at t x)"
    using words_key_permute [of "(des_read t (8 * int x), des_read t (8 * int x + 4))"] kT by (simp add: words_def block_at_def)
  then have gathered: "\<exists>y. (w32 k, w32 T) = gather_w y" unfolding permute_w_def by blast
  have clean: "clean (w32 k)" "clean (w32 T)" using gathered clean_gather by (metis fst_conv, metis snd_conv)
  have cd: "cbits (w32 k) @ cbits (w32 T) = pick fips_PC1 (pbits (block_at t x))"
    using cbits_permute [of "block_at t x"] by (simp flip: words)
  have "length (cbits w) = 28" for w by (simp add: cbits_def)
  then have halves: "take 28 (pick fips_PC1 (pbits (block_at t x))) = cbits (w32 k)" "drop 28 (pick fips_PC1 (pbits (block_at t x))) = cbits (w32 T)"
    by (simp_all flip: cd)
  have "des_keys t ! (32 * x + i) = key_rounds key_shifts (k, T) ! i" if "i < 32" for i
    using nth [OF assms(1) that] unfolding des_keys_def Let_def z_def kT .
  from this [of "2 * j"] this [of "2 * j + 1"] have "round_keys (des_keys t) (32 * x + 2 * j) =
      keybits (w32 (key_rounds key_shifts (k, T) ! (2 * j))) (w32 (key_rounds key_shifts (k, T) ! (2 * j + 1)))"
    using assms(2) by (simp add: round_keys_def)
  also have "\<dots> = fips_keys_from (map (\<lambda>b. if b \<noteq> 0 then 2 else 1) key_shifts) (cbits (w32 k)) (cbits (w32 T)) ! j"
    by (rule key_rounds_fips [OF clean]) (use assms(2) in \<open>simp add: key_shifts_def\<close>)
  also have "map (\<lambda>b. if b \<noteq> 0 then 2 else 1) key_shifts = fips_shifts" by (simp add: key_shifts_def fips_shifts_def)
  finally show ?thesis by (simp only: fips_keys_def halves)
qed

end
