(* ===== verification/Des_Round.thy ===== *)
theory Des_Round
  imports Des_Schedule
begin

text \<open>The round function of the script is the function \<open>f\<close> of the standard: the tables hold its selections, permuted.\<close>

section \<open>The tables\<close>

definition six :: "nat \<Rightarrow> bool list" where
  "six x = [odd (x div 32), odd (x div 16), odd (x div 8), odd (x div 4), odd (x div 2), odd x]"

definition weigh :: "int \<Rightarrow> int \<Rightarrow> int \<Rightarrow> int \<Rightarrow> bool list \<Rightarrow> int" where
  "weigh w0 w1 w2 w3 b = (if b ! 0 then w0 else 0) OR (if b ! 1 then w1 else 0) OR (if b ! 2 then w2 else 0) OR (if b ! 3 then w3 else 0)"

definition box_entry :: "int list \<Rightarrow> nat list \<Rightarrow> int \<Rightarrow> int \<Rightarrow> int \<Rightarrow> int \<Rightarrow> nat \<Rightarrow> bool" where
  "box_entry tab S w0 w1 w2 w3 x \<longleftrightarrow> tab ! x = weigh w0 w1 w2 w3 (select_bits S (six x))"

definition box_table :: "int list \<Rightarrow> nat list \<Rightarrow> int \<Rightarrow> int \<Rightarrow> int \<Rightarrow> int \<Rightarrow> bool" where
  "box_table tab S w0 w1 w2 w3 \<longleftrightarrow> list_all (box_entry tab S w0 w1 w2 w3) [0..<64]"

lemma box_tables:
  "box_table box_1 fips_S1 16777216 65536 1024 4"
  "box_table box_2 fips_S2 1048576 32 (- 2147483648) 32768"
  "box_table box_3 fips_S3 512 131072 8 134217728"
  "box_table box_4 fips_S4 128 8192 8388608 1"
  "box_table box_5 fips_S5 33554432 524288 256 1073741824"
  "box_table box_6 fips_S6 536870912 16 4194304 16384"
  "box_table box_7 fips_S7 2 2097152 2048 67108864"
  "box_table box_8 fips_S8 268435456 64 262144 4096"
  by code_simp+

lemma bit_box:
  assumes "box_table tab S w0 w1 w2 w3" "x < 64"
  shows "bit (w32 (tab ! x)) p \<longleftrightarrow>
    select_bits S (six x) ! 0 \<and> bit (w32 w0) p \<or> select_bits S (six x) ! 1 \<and> bit (w32 w1) p \<or>
    select_bits S (six x) ! 2 \<and> bit (w32 w2) p \<or> select_bits S (six x) ! 3 \<and> bit (w32 w3) p"
proof -
  define b where "b = select_bits S (six x)"
  have "tab ! x = (if b ! 0 then w0 else 0) OR (if b ! 1 then w1 else 0) OR (if b ! 2 then w2 else 0) OR (if b ! 3 then w3 else 0)"
    using assms by (simp add: box_table_def box_entry_def weigh_def list_all_iff b_def)
  then have "w32 (tab ! x) = (if b ! 0 then w32 w0 else 0) OR (if b ! 1 then w32 w1 else 0) OR (if b ! 2 then w32 w2 else 0) OR
      (if b ! 3 then w32 w3 else 0)"
    by (simp only: w32_or if_distrib [of w32] of_int_0)
  then show ?thesis by (simp add: bit_or_iff flip: b_def)
qed

lemma six_field:
  assumes "n \<le> 24"
  shows "six (nat (js_and (js_ushr k (int n)) 63)) = field (w32 k) n" and "nat (js_and (js_ushr k (int n)) 63) < 64"
proof -
  define x where "x = nat (take_bit 6 (uint (drop_bit n (w32 k))))"
  have y: "js_and (js_ushr k (int n)) 63 = take_bit 6 (uint (drop_bit n (w32 k)))"
    using js_and_mask [of 6 "js_ushr k (int n)"] assms by (simp add: js_ushr_uint take_bit_eq_mod)
  have "take_bit 6 (uint (drop_bit n (w32 k))) < 64" using take_bit_int_less_exp [of 6] by simp
  then show "nat (js_and (js_ushr k (int n)) 63) < 64" unfolding y by simp
  have "odd (x div 2 ^ j) \<longleftrightarrow> j < 6 \<and> bit (w32 k) (n + j)" for j
  proof -
    have "odd (x div 2 ^ j) \<longleftrightarrow> bit x j" by (simp only: bit_iff_odd)
    also have "\<dots> \<longleftrightarrow> j < 6 \<and> bit (w32 k) (n + j)"
      unfolding x_def by (simp add: bit_nat_iff bit_take_bit_iff bit_uint_iff bit_drop_bit_eq) (auto dest: bit_imp_le_length)
    finally show ?thesis .
  qed
  from this [of 5] this [of 4] this [of 3] this [of 2] this [of 1] this [of 0] show "six (nat (js_and (js_ushr k (int n)) 63)) = field (w32 k) n"
    unfolding y by (simp add: six_def field_def flip: x_def)
qed

lemma bit_box_field:
  assumes "box_table tab S w0 w1 w2 w3" "n \<le> 24"
  shows "bit (w32 (tab ! nat (js_and (js_ushr k (int n)) 63))) p \<longleftrightarrow>
    select_bits S (field (w32 k) n) ! 0 \<and> bit (w32 w0) p \<or> select_bits S (field (w32 k) n) ! 1 \<and> bit (w32 w1) p \<or>
    select_bits S (field (w32 k) n) ! 2 \<and> bit (w32 w2) p \<or> select_bits S (field (w32 k) n) ! 3 \<and> bit (w32 w3) p"
  using bit_box [OF assms(1) six_field(2) [OF assms(2), of k], of p] by (simp only: six_field(1) [OF assms(2)])

lemma bit_box_field_0:
  assumes "box_table tab S w0 w1 w2 w3"
  shows "bit (w32 (tab ! nat (js_and (js_ushr k 0) 63))) p \<longleftrightarrow>
    select_bits S (field (w32 k) 0) ! 0 \<and> bit (w32 w0) p \<or> select_bits S (field (w32 k) 0) ! 1 \<and> bit (w32 w1) p \<or>
    select_bits S (field (w32 k) 0) ! 2 \<and> bit (w32 w2) p \<or> select_bits S (field (w32 k) 0) ! 3 \<and> bit (w32 w3) p"
  using bit_box_field [OF assms, of 0 k p] by (simp only: semiring_1_class.of_nat_0 le0 True_implies_equals)

lemma select_bits_list: "[select_bits S g ! 0, select_bits S g ! 1, select_bits S g ! 2, select_bits S g ! 3] = select_bits S g"
  by (simp add: select_bits_def four_bits_def)

section \<open>The round\<close>

lemma js_and_63: "js_and 63 l = js_and (js_ushr l 0) 63"
proof -
  have "js_ushr l 0 mod 64 = l mod 64" by (simp add: js_ushr_def to_uint32_def mod_mod_cancel)
  then show ?thesis using js_and_mask [of 6 l] js_and_mask [of 6 "js_ushr l 0"] by (simp add: js_and_comm [of 63])
qed

definition rotr4 :: "32 word \<Rightarrow> 32 word" where
  "rotr4 w = drop_bit 4 w OR push_bit 28 w"

lemma bit_rotr:
  "bit (rotr1 w) i \<longleftrightarrow> (if i < 31 then bit w (i + 1) else i = 31 \<and> bit w 0)"
  "bit (rotr4 w) i \<longleftrightarrow> (if i < 28 then bit w (i + 4) else i < 32 \<and> bit w (i - 28))"
proof -
  have push: "bit (push_bit n w) j \<longleftrightarrow> n \<le> j \<and> j < 32 \<and> bit w (j - n)" for n j
    by (simp add: bit_push_bit_iff)
  show "bit (rotr1 w) i \<longleftrightarrow> (if i < 31 then bit w (i + 1) else i = 31 \<and> bit w 0)"
  proof (cases "i < 31")
    case False
    then have "\<not> bit w (i + 1)" by (intro bit_beyond) simp
    with False show ?thesis by (cases "i = 31") (simp_all add: rotr1_def bit_or_iff push bit_drop_bit_eq)
  qed (simp add: rotr1_def bit_or_iff push bit_drop_bit_eq)
  show "bit (rotr4 w) i \<longleftrightarrow> (if i < 28 then bit w (i + 4) else i < 32 \<and> bit w (i - 28))"
  proof (cases "i < 28")
    case False
    then have "\<not> bit w (i + 4)" by (intro bit_beyond) simp
    with False show ?thesis by (simp add: rotr4_def bit_or_iff push bit_drop_bit_eq add.commute)
  qed (simp add: rotr4_def bit_or_iff push bit_drop_bit_eq add.commute)
qed

lemma sixes_fields:
  fixes w z0 z1 :: "32 word"
  defines "l \<equiv> w XOR z0" and "u \<equiv> rotr4 w XOR z1"
  shows "sixes (xor_bits (pick fips_E (wbits (rotr1 w))) (keybits z0 z1)) =
    [field u 24, field l 24, field u 16, field l 16, field u 8, field l 8, field u 0, field l 0]"
  unfolding l_def u_def
  by (simp add: sixes_def xor_bits_def pick_def fips_E_def keybits_def field_def wbits_list bit_rotr bit_xor_iff upt_rec)


lemma mix_fips: "wbits (rotr1 (mix_w z o' w)) = fips_f (round_keys z o') (wbits (rotr1 w))"
proof -
  define l u where "l = js_xor (uint w) (z ! o')" and "u = js_xor (js_or (js_ushr (uint w) 4) (js_shl (uint w) 28)) (z ! (o' + 1))"
  have lu: "w32 l = w XOR w32 (z ! o')" "w32 u = rotr4 w XOR w32 (z ! (o' + 1))"
    by (simp_all add: l_def u_def js_w32 rotr4_def)
  have mix: "mix_w z o' w = w32 (box_2 ! nat (js_and (js_ushr l 24) 63)) OR w32 (box_4 ! nat (js_and (js_ushr l 16) 63)) OR
      w32 (box_6 ! nat (js_and (js_ushr l 8) 63)) OR w32 (box_8 ! nat (js_and (js_ushr l 0) 63)) OR
      w32 (box_1 ! nat (js_and (js_ushr u 24) 63)) OR w32 (box_3 ! nat (js_and (js_ushr u 16) 63)) OR
      w32 (box_5 ! nat (js_and (js_ushr u 8) 63)) OR w32 (box_7 ! nat (js_and (js_ushr u 0) 63))"
    unfolding mix_w_def des_mix_def Let_def box_def l_def [symmetric] u_def [symmetric] js_and_63 by (simp only: w32_js_or or.assoc)
  define g1 g2 g3 g4 g5 g6 g7 g8 where "g1 = select_bits fips_S1 (field (w32 u) 24)"
    and "g2 = select_bits fips_S2 (field (w32 l) 24)"
    and "g3 = select_bits fips_S3 (field (w32 u) 16)"
    and "g4 = select_bits fips_S4 (field (w32 l) 16)"
    and "g5 = select_bits fips_S5 (field (w32 u) 8)"
    and "g6 = select_bits fips_S6 (field (w32 l) 8)"
    and "g7 = select_bits fips_S7 (field (w32 u) 0)"
    and "g8 = select_bits fips_S8 (field (w32 l) 0)"
  note gs = g1_def g2_def g3_def g4_def g5_def g6_def g7_def g8_def
  have b1: "bit (w32 (box_1 ! nat (js_and (js_ushr u 24) 63))) p \<longleftrightarrow> g1 ! 0 \<and> bit (w32 16777216) p \<or> g1 ! 1 \<and> bit (w32 65536) p \<or> g1 ! 2 \<and> bit (w32 1024) p \<or> g1 ! 3 \<and> bit (w32 4) p" for p
    using bit_box_field [OF box_tables(1), of 24 u p] by (simp add: gs)
  have b2: "bit (w32 (box_2 ! nat (js_and (js_ushr l 24) 63))) p \<longleftrightarrow> g2 ! 0 \<and> bit (w32 1048576) p \<or> g2 ! 1 \<and> bit (w32 32) p \<or> g2 ! 2 \<and> bit (w32 (- 2147483648)) p \<or> g2 ! 3 \<and> bit (w32 32768) p" for p
    using bit_box_field [OF box_tables(2), of 24 l p] by (simp add: gs)
  have b3: "bit (w32 (box_3 ! nat (js_and (js_ushr u 16) 63))) p \<longleftrightarrow> g3 ! 0 \<and> bit (w32 512) p \<or> g3 ! 1 \<and> bit (w32 131072) p \<or> g3 ! 2 \<and> bit (w32 8) p \<or> g3 ! 3 \<and> bit (w32 134217728) p" for p
    using bit_box_field [OF box_tables(3), of 16 u p] by (simp add: gs)
  have b4: "bit (w32 (box_4 ! nat (js_and (js_ushr l 16) 63))) p \<longleftrightarrow> g4 ! 0 \<and> bit (w32 128) p \<or> g4 ! 1 \<and> bit (w32 8192) p \<or> g4 ! 2 \<and> bit (w32 8388608) p \<or> g4 ! 3 \<and> bit (w32 1) p" for p
    using bit_box_field [OF box_tables(4), of 16 l p] by (simp add: gs)
  have b5: "bit (w32 (box_5 ! nat (js_and (js_ushr u 8) 63))) p \<longleftrightarrow> g5 ! 0 \<and> bit (w32 33554432) p \<or> g5 ! 1 \<and> bit (w32 524288) p \<or> g5 ! 2 \<and> bit (w32 256) p \<or> g5 ! 3 \<and> bit (w32 1073741824) p" for p
    using bit_box_field [OF box_tables(5), of 8 u p] by (simp add: gs)
  have b6: "bit (w32 (box_6 ! nat (js_and (js_ushr l 8) 63))) p \<longleftrightarrow> g6 ! 0 \<and> bit (w32 536870912) p \<or> g6 ! 1 \<and> bit (w32 16) p \<or> g6 ! 2 \<and> bit (w32 4194304) p \<or> g6 ! 3 \<and> bit (w32 16384) p" for p
    using bit_box_field [OF box_tables(6), of 8 l p] by (simp add: gs)
  have b7: "bit (w32 (box_7 ! nat (js_and (js_ushr u 0) 63))) p \<longleftrightarrow> g7 ! 0 \<and> bit (w32 2) p \<or> g7 ! 1 \<and> bit (w32 2097152) p \<or> g7 ! 2 \<and> bit (w32 2048) p \<or> g7 ! 3 \<and> bit (w32 67108864) p" for p
    using bit_box_field_0 [OF box_tables(7), of u p] by (simp only: gs)
  have b8: "bit (w32 (box_8 ! nat (js_and (js_ushr l 0) 63))) p \<longleftrightarrow> g8 ! 0 \<and> bit (w32 268435456) p \<or> g8 ! 1 \<and> bit (w32 64) p \<or> g8 ! 2 \<and> bit (w32 262144) p \<or> g8 ! 3 \<and> bit (w32 4096) p" for p
    using bit_box_field_0 [OF box_tables(8), of l p] by (simp only: gs)
  have four: "xs = [xs ! 0, xs ! 1, xs ! 2, xs ! 3]" if "xs = select_bits S g" for xs S g
    using that by (simp only: select_bits_list)
  have "fips_f (round_keys z o') (wbits (rotr1 w)) = pick fips_P (concat [g1, g2, g3, g4, g5, g6, g7, g8])"
    unfolding fips_f_def round_keys_def sixes_fields lu [symmetric] fips_S_def gs by simp
  also have "\<dots> = pick fips_P (concat [[g1 ! 0, g1 ! 1, g1 ! 2, g1 ! 3], [g2 ! 0, g2 ! 1, g2 ! 2, g2 ! 3], [g3 ! 0, g3 ! 1, g3 ! 2, g3 ! 3],
      [g4 ! 0, g4 ! 1, g4 ! 2, g4 ! 3], [g5 ! 0, g5 ! 1, g5 ! 2, g5 ! 3], [g6 ! 0, g6 ! 1, g6 ! 2, g6 ! 3],
      [g7 ! 0, g7 ! 1, g7 ! 2, g7 ! 3], [g8 ! 0, g8 ! 1, g8 ! 2, g8 ! 3]])"
    unfolding gs select_bits_list ..
  also have "\<dots> = wbits (rotr1 (mix_w z o' w))"
    unfolding mix by (simp add: pick_def fips_P_def wbits_list bit_rotr bit_or_iff b1 b2 b3 b4 b5 b6 b7 b8)
  finally show ?thesis ..
qed

end
