(* ===== verification/Des_Api.thy ===== *)
theory Des_Api
  imports Des_Stream
begin

text \<open>
  What the script computes: \<^verbatim>\<open>decode\<close> is the \<^verbatim>\<open>atob\<close> of the platform, a decryption gives back the text of an encryption, and
  \<^verbatim>\<open>getData\<close> reads what the encryption and Base64 make of a document.
\<close>

section \<open>Base64\<close>

lemma qm_alphabet_alphabet: "qm_alphabet = b64_alphabet"
  by (simp add: qm_alphabet_def b64_alphabet_def)

lemma b64_value_range: "b64_value c = Some d \<Longrightarrow> 0 \<le> d \<and> d < 64 \<and> b64_char d = c"
proof -
  assume some: "b64_value c = Some d"
  then have "0 \<le> c" "c < 128" by (auto simp: b64_value_def split: if_splits)
  then obtain k where k: "c = int k" "k < 128" by (metis nat_0_le nat_less_iff of_nat_numeral)
  have "list_all (\<lambda>c. case b64_value c of None \<Rightarrow> True | Some d \<Rightarrow> 0 \<le> d \<and> d < 64 \<and> b64_char d = c) (map int [0..<128])"
    by code_simp
  then have "case b64_value (int k) of None \<Rightarrow> True | Some d \<Rightarrow> 0 \<le> d \<and> d < 64 \<and> b64_char d = int k" if "k < 128" for k
    using that by (simp add: list_all_iff del: int_ops)
  from this [OF k(2)] show ?thesis using some by (simp add: k(1))
qed

lemma length_b64_alphabet: "length b64_alphabet = 64"
  by (simp add: b64_alphabet_def str_def)

lemma b64_value_nth: "j < 64 \<Longrightarrow> b64_value (b64_alphabet ! j) = Some (int j)"
  using b64_value_char(1) [of "int j"] by (simp add: b64_char_def)

lemma b64_value_index: "qm_index [c] = (case b64_value c of Some d \<Rightarrow> d | None \<Rightarrow> - 1)"
proof (cases "b64_value c")
  case None
  then have "find (\<lambda>i. b64_alphabet ! i = c) [0..<64] = None"
    using b64_value_nth by (fastforce simp: find_None_iff)
  with None show ?thesis by (simp add: qm_index_def qm_alphabet_alphabet)
next
  case (Some d)
  note d = b64_value_range [OF Some]
  have "find (\<lambda>i. b64_alphabet ! i = c) [0..<64] = Some (nat d)"
  proof (rule find_unique)
    show "j = nat d" if "j < 64" "b64_alphabet ! j = c" for j
      using b64_value_nth [OF that(1)] Some that(2) by simp
  qed (use d in \<open>auto simp: b64_char_def\<close>)
  with Some d show ?thesis by (simp add: qm_index_def qm_alphabet_alphabet)
qed

lemma b64_value_member: "c \<in> set qm_alphabet \<longleftrightarrow> b64_value c \<noteq> None"
proof
  assume "c \<in> set qm_alphabet"
  then obtain j where "j < 64" "b64_alphabet ! j = c"
    by (auto simp: qm_alphabet_alphabet in_set_conv_nth length_b64_alphabet)
  then show "b64_value c \<noteq> None" using b64_value_nth by auto
next
  assume "b64_value c \<noteq> None"
  then obtain d where "b64_value c = Some d" by auto
  from b64_value_range [OF this] have "nat d < length b64_alphabet" "b64_alphabet ! nat d = c"
    by (auto simp: b64_char_def length_b64_alphabet)
  then show "c \<in> set qm_alphabet" unfolding qm_alphabet_alphabet by (metis nth_mem)
qed

definition digit_step :: "int \<Rightarrow> int \<times> int \<times> jstr \<Rightarrow> int \<times> int \<times> jstr" where
  "digit_step r st =
     (let (n, i, o') = st; n = (if i mod 4 \<noteq> 0 then 64 * n + r else r)
      in (n, i + 1, if i mod 4 \<noteq> 0 then o' @ from_char_code (js_and 255 (js_shr n (js_and (- 2 * (i + 1)) 6))) else o'))"

lemma js_and_six: "js_and (- 2 * i) 6 = (- 2 * i) mod 8"
proof -
  have even: "even (to_int32 (- 2 * i))" by (simp add: to_int32_def dvd_mod_iff)
  have "x AND 6 = x AND 7" if "even x" for x :: int
  proof -
    have "x AND 7 = (x AND 6) OR (x AND 1)" by (simp flip: bit.conj_disj_distrib)
    with that show ?thesis by (simp add: and_one_eq)
  qed
  from this [OF even] have "to_int32 (- 2 * i) AND 6 = to_int32 (- 2 * i) AND 7" .
  then have "js_and (- 2 * i) 6 = js_and (- 2 * i) 7" by (simp add: js_and_def)
  then show ?thesis using js_and_mask [of 3 "- 2 * i"] by simp
qed

lemma digit_step_simps:
  assumes "i mod 4 = 0"
  shows "digit_step a (n, i, o') = (a, i + 1, o')"
    and "0 \<le> n \<Longrightarrow> 64 * n + b < 2147483648 \<Longrightarrow> 0 \<le> b \<Longrightarrow>
      digit_step b (n, i + 1, o') = (64 * n + b, i + 2, o' @ [(64 * n + b) div 16 mod 256])"
    and "0 \<le> n \<Longrightarrow> 64 * n + b < 2147483648 \<Longrightarrow> 0 \<le> b \<Longrightarrow>
      digit_step b (n, i + 2, o') = (64 * n + b, i + 3, o' @ [(64 * n + b) div 4 mod 256])"
    and "0 \<le> n \<Longrightarrow> 64 * n + b < 2147483648 \<Longrightarrow> 0 \<le> b \<Longrightarrow>
      digit_step b (n, i + 3, o') = (64 * n + b, i + 4, o' @ [(64 * n + b) mod 256])"
proof -
  obtain q where q: "i = 4 * q" using assms by auto
  have "- (2 * (4 * q + 2)) mod 8 = (4 :: int)" "- (2 * (4 * q + 3)) mod 8 = (2 :: int)" "- (2 * (4 * q + 4)) mod 8 = (0 :: int)"
    by presburger+
  then have six: "js_and (- (2 * (4 * q + 2))) 6 = 4" "js_and (- (2 * (4 * q + 3))) 6 = 2" "js_and (- (2 * (4 * q + 4))) 6 = 0"
    using js_and_six [of "4 * q + 2"] js_and_six [of "4 * q + 3"] js_and_six [of "4 * q + 4"] by simp_all
  have mods: "(4 * q + 1) mod 4 = 1" "(4 * q + 2) mod 4 = 2" "(4 * q + 3) mod 4 = 3" by presburger+
  have last: "from_char_code (js_and 255 x) = [x mod 256]" for x
    using js_and_mask [of 8 x] by (simp add: js_and_comm [of 255] from_char_code_def)
  show "digit_step a (n, i, o') = (a, i + 1, o')" by (simp add: digit_step_def q)
  assume n: "0 \<le> n" "64 * n + b < 2147483648" "0 \<le> b"
  then have shr: "js_shr (64 * n + b) 4 = (64 * n + b) div 16" "js_shr (64 * n + b) 2 = (64 * n + b) div 4"
    "js_shr (64 * n + b) 0 = 64 * n + b"
    by (simp_all add: js_shr_div)
  show "digit_step b (n, i + 1, o') = (64 * n + b, i + 2, o' @ [(64 * n + b) div 16 mod 256])"
    "digit_step b (n, i + 2, o') = (64 * n + b, i + 3, o' @ [(64 * n + b) div 4 mod 256])"
    "digit_step b (n, i + 3, o') = (64 * n + b, i + 4, o' @ [(64 * n + b) mod 256])"
    unfolding q by (simp_all add: digit_step_def mods last six [simplified] shr Let_def add.assoc)
qed

lemma group_values:
  fixes a b c d :: int
  assumes "0 \<le> a" "a < 64" "0 \<le> b" "b < 64"
  shows "(64 * a + b) div 16 mod 256 = 4 * a + b div 16"
    and "0 \<le> c \<Longrightarrow> c < 64 \<Longrightarrow> (64 * (64 * a + b) + c) div 4 mod 256 = b mod 16 * 16 + c div 4"
    and "0 \<le> c \<Longrightarrow> c < 64 \<Longrightarrow> 0 \<le> d \<Longrightarrow> d < 64 \<Longrightarrow> (64 * (64 * (64 * a + b) + c) + d) mod 256 = c mod 4 * 64 + d"
proof -
  define p q where "p = b div 16" and "q = b mod 16"
  have b: "0 \<le> p" "p < 4" "0 \<le> q" "q < 16" "b = 16 * p + q" using assms by (auto simp: p_def q_def)
  have "(64 * a + b) div 16 = 4 * a + p" by (rule int_div_pos_eq [of _ _ _ q]) (use b in simp_all)
  moreover have "(4 * a + p) mod 256 = 4 * a + p" by (rule mod_pos_pos_trivial) (use b assms in simp_all)
  ultimately show "(64 * a + b) div 16 mod 256 = 4 * a + b div 16" by (simp only: p_def)
  assume c: "0 \<le> c" "c < 64"
  define u v where "u = c div 4" and "v = c mod 4"
  have c': "0 \<le> u" "u < 16" "0 \<le> v" "v < 4" "c = 4 * u + v" using c by (auto simp: u_def v_def)
  have "(64 * (64 * a + b) + c) div 4 = 16 * (64 * a + b) + u" by (rule int_div_pos_eq [of _ _ _ v]) (use c' in simp_all)
  moreover have "(16 * (64 * a + b) + u) mod 256 = q * 16 + u"
    by (rule int_mod_pos_eq [of _ _ "4 * a + p"]) (use b c' in simp_all)
  ultimately show "(64 * (64 * a + b) + c) div 4 mod 256 = b mod 16 * 16 + c div 4" by (simp only: q_def u_def)
  assume d: "0 \<le> d" "d < 64"
  show "(64 * (64 * (64 * a + b) + c) + d) mod 256 = c mod 4 * 64 + d"
    unfolding v_def [symmetric]
    by (rule int_mod_pos_eq [of _ _ "16 * (64 * a + b) + u"]) (use c' d in simp_all)
qed

lemma digit_groups:
  assumes "list_all (\<lambda>d. 0 \<le> d \<and> d < 64) ds" "i mod 4 = 0" "length ds mod 4 \<noteq> 1"
  shows "\<exists>n' i' bs. fold digit_step ds (n, i, o') = (n', i', o' @ bs) \<and> atob_groups ds = Some bs"
  using assms
proof (induction ds arbitrary: n i o' rule: atob_groups.induct)
  case (5 a b c d r)
  have range: "0 \<le> a" "a < 64" "0 \<le> b" "b < 64" "0 \<le> c" "c < 64" "0 \<le> d" "d < 64" using 5(2) by simp_all
  define x y z where "x = 64 * a + b" and "y = 64 * x + c" and "z = 64 * y + d"
  have bounds: "0 \<le> x" "0 \<le> y" "x < 2147483648" "y < 2147483648" "z < 2147483648" using range by (simp_all add: x_def y_def z_def)
  have "length (a # b # c # d # r) = length r + 4" by simp
  with 5(4) have "length r mod 4 \<noteq> 1" by (metis mod_add_self2)
  then obtain n' i' bs where IH:
    "fold digit_step r (z, i + 4, o' @ [x div 16 mod 256, y div 4 mod 256, z mod 256]) =
       (n', i', (o' @ [x div 16 mod 256, y div 4 mod 256, z mod 256]) @ bs)" "atob_groups r = Some bs"
    using 5(1) [of "i + 4" z "o' @ [x div 16 mod 256, y div 4 mod 256, z mod 256]"] 5(2,3) by auto
  have "digit_step a (n, i, o') = (a, i + 1, o')" by (rule digit_step_simps(1) [OF 5(3)])
  moreover have "digit_step b (a, i + 1, o') = (x, i + 2, o' @ [x div 16 mod 256])"
    unfolding x_def by (rule digit_step_simps(2) [OF 5(3)]) (use range in linarith)+
  moreover have "digit_step c (x, i + 2, p) = (y, i + 3, p @ [y div 4 mod 256])" for p
    unfolding y_def by (rule digit_step_simps(3) [OF 5(3)]) (use range bounds in \<open>simp_all add: y_def\<close>)
  moreover have "digit_step d (y, i + 3, p) = (z, i + 4, p @ [z mod 256])" for p
    unfolding z_def by (rule digit_step_simps(4) [OF 5(3)]) (use range bounds in \<open>simp_all add: z_def\<close>)
  ultimately have "fold digit_step (a # b # c # d # r) (n, i, o') =
      fold digit_step r (z, i + 4, o' @ [x div 16 mod 256, y div 4 mod 256, z mod 256])"
    by simp
  moreover have vals: "x div 16 mod 256 = 4 * a + b div 16" "y div 4 mod 256 = b mod 16 * 16 + c div 4" "z mod 256 = c mod 4 * 64 + d"
    unfolding x_def y_def z_def by (rule group_values; rule range)+
  ultimately have "fold digit_step (a # b # c # d # r) (n, i, o') =
      (n', i', o' @ ([4 * a + b div 16, b mod 16 * 16 + c div 4, c mod 4 * 64 + d] @ bs))"
    using IH(1) unfolding vals by (simp only: append_assoc)
  moreover have "atob_groups (a # b # c # d # r) =
      Some ([4 * a + b div 16, b mod 16 * 16 + c div 4, c mod 4 * 64 + d] @ bs)"
    by (simp only: atob_groups.simps IH(2) option.map)
  ultimately show ?case by blast
next
  case (3 a b)
  have range: "0 \<le> a" "a < 64" "0 \<le> b" "b < 64" using 3(1) by simp_all
  have "digit_step a (n, i, o') = (a, i + 1, o')" by (rule digit_step_simps(1) [OF 3(2)])
  moreover have "digit_step b (a, i + 1, o') = (64 * a + b, i + 2, o' @ [(64 * a + b) div 16 mod 256])"
    by (rule digit_step_simps(2) [OF 3(2)]) (use range in linarith)+
  ultimately show ?case using group_values(1) [OF range] by simp
next
  case (4 a b c)
  have range: "0 \<le> a" "a < 64" "0 \<le> b" "b < 64" "0 \<le> c" "c < 64" using 4(1) by simp_all
  have "digit_step a (n, i, o') = (a, i + 1, o')" by (rule digit_step_simps(1) [OF 4(2)])
  moreover have "digit_step b (a, i + 1, o') = (64 * a + b, i + 2, o' @ [(64 * a + b) div 16 mod 256])"
    by (rule digit_step_simps(2) [OF 4(2)]) (use range in linarith)+
  moreover have "digit_step c (64 * a + b, i + 2, p) = (64 * (64 * a + b) + c, i + 3, p @ [(64 * (64 * a + b) + c) div 4 mod 256])" for p
    by (rule digit_step_simps(3) [OF 4(2)]) (use range in simp_all)
  ultimately show ?case using group_values(1,2) [OF range(1-4)] range by simp
next
  case 1
  then show ?case by simp
next
  case (2 a)
  then show ?case by simp
qed

lemma atob_groups_one: "length ds mod 4 = 1 \<Longrightarrow> atob_groups ds = None"
proof (induction ds rule: atob_groups.induct)
  case (5 a b c d r)
  have "length (a # b # c # d # r) = length r + 4" by simp
  with 5(2) have "length r mod 4 = 1" by (metis mod_add_self2)
  with 5(1) show ?case by simp
qed simp_all

lemma qm_decode_atob_lemma: "qm_decode t = js_atob t"
proof -
  define u where "u = (let t = filter (\<lambda>c. c \<notin> {9, 10, 12, 13, 32}) t in if length t mod 4 = 0 then drop_pad t else t)"
  define vs where "vs = map b64_value u"
  have u: "u = strip_pad (filter (\<lambda>c. c \<notin> {9, 10, 12, 13, 32}) t)"
    by (simp add: u_def strip_pad_def drop_pad_def Let_def)
  have atob: "js_atob t = (if None \<in> set vs then None else atob_groups (map the vs))"
    by (simp add: js_atob_def vs_def u Let_def)
  have decode: "qm_decode t =
      (if length u mod 4 = 1 \<or> None \<in> set vs then None
       else let (n, i, o') = js_for 0 (int (length u)) 1 (qm_step u) (0, 0, []) in Some o')"
  proof -
    have "list_ex (\<lambda>c. c \<notin> set qm_alphabet) u \<longleftrightarrow> None \<in> set vs"
      unfolding list_ex_iff b64_value_member vs_def set_map image_iff by (metis (full_types))
    moreover have "int (length u) mod 4 = 1 \<longleftrightarrow> length u mod 4 = 1" by (metis of_nat_1 of_nat_eq_iff of_nat_numeral zmod_int)
    ultimately show ?thesis unfolding qm_decode_def Let_def [of "filter _ _"] u_def [unfolded Let_def, symmetric] by (simp only: Let_def)
  qed
  show ?thesis
  proof (cases "length u mod 4 = 1 \<or> None \<in> set vs")
    case True
    then show ?thesis using atob_groups_one [of "map the vs"] by (auto simp: atob decode vs_def)
  next
    case False
    then have vals: "b64_value c = Some (the (b64_value c))" if "c \<in> set u" for c
      using that by (force simp: vs_def image_iff)
    have "js_for 0 (int (length u)) 1 (qm_step u) (0, 0, []) = fold (\<lambda>k. digit_step (map the vs ! k)) [0..<length u] (0, 0, [])"
      unfolding js_for_unit
    proof (rule fold_cong)
      fix k assume "k \<in> set [0..<length u]"
      then have k: "k < length u" by simp
      have "qm_index (char_at u (int k)) = map the vs ! k"
        using k vals [of "u ! k"] b64_value_index [of "u ! k"] by (simp add: char_at_def vs_def) (metis option.simps(5))
      then show "qm_step u (int k) = digit_step (map the vs ! k)"
        by (auto simp: fun_eq_iff qm_step_def digit_step_def Let_def)
    qed simp_all
    also have "\<dots> = fold digit_step (map (\<lambda>k. map the vs ! k) [0..<length u]) (0, 0, [])" by (simp only: fold_map comp_def)
    also have "map (\<lambda>k. map the vs ! k) [0..<length u] = map the vs"
      by (rule nth_equalityI) (simp_all add: vs_def)
    finally have loop: "js_for 0 (int (length u)) 1 (qm_step u) (0, 0, []) = fold digit_step (map the vs) (0, 0, [])" .
    have "list_all (\<lambda>d. 0 \<le> d \<and> d < 64) (map the vs)"
      using vals b64_value_range by (fastforce simp: list_all_iff vs_def)
    moreover have "length (map the vs) mod 4 \<noteq> 1" using False by (simp add: vs_def)
    ultimately obtain n' i' bs where "fold digit_step (map the vs) (0, 0, []) = (n', i', [] @ bs)" "atob_groups (map the vs) = Some bs"
      using digit_groups [of "map the vs" 0 0 "[]"] by auto
    with False show ?thesis by (simp add: atob decode loop)
  qed
qed

text \<open>
  C22: the Base64 decoder of the script is the \<^verbatim>\<open>atob\<close> of the platform, on every text: it skips white space and padding, and it raises
  for the same texts.
\<close>

theorem qm_decode_atob: "qm_decode = js_atob"
  by (rule ext) (rule qm_decode_atob_lemma)

section \<open>Padding\<close>

lemma des_pad_blocks:
  fixes e :: jstr
  defines "r \<equiv> 8 - length e mod 8"
  shows "fst (des_pad 1 True e) = e @ replicate 8 (int r)"
    and "(snd (des_pad 1 True e) + 7) div 8 = Suc (length e div 8)"
    and "8 * Suc (length e div 8) = length e + r"
    and "1 \<le> r" "r \<le> 8"
proof -
  have m: "length e mod 8 < 8" "length e = 8 * (length e div 8) + length e mod 8" by simp_all
  then show r: "1 \<le> r" "r \<le> 8" "8 * Suc (length e div 8) = length e + r"
    unfolding r_def mult_Suc_right by linarith+
  have "concat (replicate n [x]) = replicate n x" for n and x :: int by (induction n) simp_all
  moreover have "from_char_code (int r) = [int r]" using r(2) by (simp add: from_char_code_def)
  ultimately have "concat (replicate 8 (from_char_code (int r))) = replicate 8 (int r)" by (simp only:)
  then show "fst (des_pad 1 True e) = e @ replicate 8 (int r)"
    unfolding des_pad_def Let_def r_def [symmetric] by simp
  have F: "snd (des_pad 1 True e) = (if r = 8 then length e + 8 else length e)"
    unfolding des_pad_def Let_def r_def [symmetric] by simp
  show "(snd (des_pad 1 True e) + 7) div 8 = Suc (length e div 8)"
  proof (cases "r = 8")
    case True
    then have "length e mod 8 = 0" using m(1) unfolding r_def by linarith
    then show ?thesis using m(2) F True by simp
  next
    case False
    then have "1 \<le> length e mod 8" unfolding r_def by linarith
    then have "8 * Suc (length e div 8) \<le> length e + 7" "length e + 7 < 8 * Suc (Suc (length e div 8))"
      using m unfolding mult_Suc_right by linarith+
    then show ?thesis using F False by (simp add: div_nat_eqI)
  qed
qed

definition start_vec :: "int \<Rightarrow> jstr \<Rightarrow> 32 word \<times> 32 word" where
  "start_vec n a = (if n = 1 then words (des_read a 0, des_read a 4) else words (0, 0))"

lemma js_for_eights0: "js_for 0 (int F) 8 f x = fold (\<lambda>k. f (8 * int k)) [0..<(F + 7) div 8] x"
  using js_for_eights [of 0 F f x] by simp

lemma des_raw_loop:
  "des_raw t e i n a s =
   strip_zeros (out_text (fold (\<lambda>k. des_step (des_keys t) (des_passes (if length (des_keys t) = 32 then 3 else 9) i)
     (fst (des_pad s i e)) i n (8 * int k)) [0..<(snd (des_pad s i e) + 7) div 8]
     \<lparr>vec_f = (if n = 1 then des_read a 0 else 0), vec_m = (if n = 1 then des_read a 4 else 0), out_O = [], out_B = [], cnt_j = 0\<rparr>))"
  by (simp add: des_raw_def Let_def out_text_def split_def js_for_eights0)

lemma des_raw_enc:
  "des_raw t e True n a s = strip_zeros (concat (map block_chars (mode_enc (n = 1) xor_pair (des_w t True) (start_vec n a)
     (map (block_at (fst (des_pad s True e))) [0..<(snd (des_pad s True e) + 7) div 8]))))"
  unfolding des_raw_loop des_loop_enc by (simp add: out_text_def vec_def start_vec_def des_w_def)

lemma des_raw_dec_blocks:
  "des_raw t e False n a s = strip_zeros (concat (map block_chars (mode_dec (n = 1) xor_pair (des_w t False) (start_vec n a)
     (map (block_at (fst (des_pad s False e))) [0..<(snd (des_pad s False e) + 7) div 8]))))"
  unfolding des_raw_loop des_loop_dec by (simp add: out_text_def vec_def start_vec_def des_w_def)

lemma des_raw_dec:
  "des_raw t c False n a 1 = strip_zeros (concat (map block_chars (mode_dec (n = 1) xor_pair (des_w t False) (start_vec n a)
     (map (block_at c) [0..<(length c + 7) div 8]))))"
  unfolding des_raw_dec_blocks by (simp add: des_pad_def)

lemma byte_string_blocks: "byte_string (concat (map block_chars ys))"
  by (induction ys) (simp_all add: block_chars_def)

lemma length_blocks: "length (concat (map block_chars ys)) = 8 * length ys"
  by (induction ys) simp_all

lemma block_at_stripped:
  assumes "k < length ys"
  shows "block_at (strip_zeros (concat (map block_chars ys))) k = ys ! k"
  using assms
  by (intro block_at_chars byte_string_strip_zeros byte_string_blocks) (simp add: block_bytes_strip_zeros block_bytes_concat)

lemma des_unpad_pad:
  assumes "1 \<le> r" "r \<le> 8"
  shows "des_unpad 1 (strip_zeros (e @ replicate r (int r))) = e"
proof -
  have last: "last (e @ replicate r (int r)) = int r" and ne: "e @ replicate r (int r) \<noteq> []" using assms(1) by simp_all
  with assms(1) have "strip_zeros (e @ replicate r (int r)) = e @ replicate r (int r)" by (intro strip_zeros_id) auto
  then show ?thesis using last ne assms by (simp add: des_unpad_def)
qed

lemma des_raw_roundtrip:
  assumes "byte_string bs" "8 * (length bs div 8) < length (des_raw key bs True n iv 1)"
  shows "des_unpad 1 (des_raw key (des_raw key bs True n iv 1) False n iv 1) = bs"
proof -
  define r where "r = 8 - length bs mod 8"
  define N where "N = Suc (length bs div 8)"
  define xs where "xs = map (block_at (bs @ replicate 8 (int r))) [0..<N]"
  define ys where "ys = mode_enc (n = 1) xor_pair (des_w key True) (start_vec n iv) xs"
  note pad = des_pad_blocks [of bs, folded r_def N_def]
  have enc: "des_raw key bs True n iv 1 = strip_zeros (concat (map block_chars ys))"
    unfolding des_raw_enc pad(1,2) by (simp only: ys_def xs_def)
  have len: "length ys = N" by (simp add: ys_def xs_def)
  have "length (des_raw key bs True n iv 1) \<le> 8 * N"
    unfolding enc using length_strip_zeros [of "concat (map block_chars ys)"] by (simp add: length_blocks len)
  with assms(2) have "(length (des_raw key bs True n iv 1) + 7) div 8 = N" unfolding N_def by (intro div_nat_eqI) simp_all
  moreover have "map (block_at (des_raw key bs True n iv 1)) [0..<N] = ys"
    unfolding enc by (rule nth_equalityI) (simp_all add: len block_at_stripped)
  ultimately have "des_raw key (des_raw key bs True n iv 1) False n iv 1 = strip_zeros (concat (map block_chars xs))"
    unfolding des_raw_dec by (simp add: ys_def des_modes.chain_inverse)
  also have "concat (map block_chars xs) = take (8 * N) (bs @ replicate 8 (int r))"
    unfolding xs_def using assms(1) pad(3-5) by (intro concat_blocks) simp_all
  also have "\<dots> = bs @ replicate r (int r)" using pad(3,5) by (simp add: take_replicate)
  finally show ?thesis using des_unpad_pad [OF pad(4,5)] by simp
qed

end
