(* ===== verification/Des_Standard.thy ===== *)
theory Des_Standard
  imports Des_Round Des_Api
begin

text \<open>
  The cipher of the script is the standard: a key of at most eight characters gives DES, a longer one triple DES with three keys, and a
  text is padded and chained in ECB or CBC.
\<close>

section \<open>One pass\<close>

definition halves :: "32 word \<times> 32 word \<Rightarrow> bool list \<times> bool list" where
  "halves x = (wbits (rotr1 (fst x)), wbits (rotr1 (snd x)))"

lemma wbits_xor: "wbits (a XOR b) = xor_bits (wbits a) (wbits b)"
  by (simp add: wbits_list xor_bits_def bit_xor_iff)

lemma rotr1_xor: "rotr1 (a XOR b) = rotr1 a XOR rotr1 b"
  by (rule bit_word_eqI) (simp add: bit_rotr bit_xor_iff)

lemma halves_round: "halves (feistel_round (XOR) (mix_w z) o' x) = fips_round (round_keys z o') (halves x)"
  by (simp add: halves_def feistel_round_def fips_round_def rotr1_xor wbits_xor mix_fips)

lemma halves_pass:
  "halves (feistel_pass (XOR) (mix_w z) os x) = prod.swap (fold fips_round (map (round_keys z) os) (halves x))"
proof -
  have "halves (fold (feistel_round (XOR) (mix_w z)) os x) = fold fips_round (map (round_keys z) os) (halves x)"
    by (induction os arbitrary: x) (simp_all add: halves_round)
  moreover have "halves (prod.swap y) = prod.swap (halves y)" for y by (simp add: halves_def)
  ultimately show ?thesis by (simp add: feistel_pass_def)
qed

lemma pbits_halves: "pbits (unrot x) = fst (halves x) @ snd (halves x)"
  by (simp add: pbits_def unrot_def halves_def)

lemma block_pass: "pbits (block_w z [os] x) = fips_rounds (map (round_keys z) os) (pbits x)"
proof -
  have "pick fips_IP (pbits x) = fst (halves (initial_w x)) @ snd (halves (initial_w x))"
    by (simp add: pbits_halves flip: pbits_initial)
  moreover have "length (fst (halves y)) = 32" for y by (simp add: halves_def)
  ultimately have "(take 32 (pick fips_IP (pbits x)), drop 32 (pick fips_IP (pbits x))) = halves (initial_w x)"
    by simp
  then show ?thesis
    by (simp add: block_w_def pbits_final pbits_halves halves_pass fips_rounds_def Let_def split_def)
qed

lemma block_passes: "block_w z (os # ps) x = block_w z ps (block_w z [os] x)"
  by (simp add: block_w_def final_initial)

section \<open>The bits of a text\<close>

definition byte_bits :: "int \<Rightarrow> bool list" where
  "byte_bits b = [bit b 7, bit b 6, bit b 5, bit b 4, bit b 3, bit b 2, bit b 1, bit b 0]"

definition text_bits :: "jstr \<Rightarrow> bool list" where
  "text_bits s = concat (map byte_bits s)"

lemma wbits_read:
  assumes "byte_string e"
  shows "wbits (w32 (des_read e (int k))) = text_bits [byte e k, byte e (k + 1), byte e (k + 2), byte e (k + 3)]"
proof -
  have pos: "int k + 1 = int (k + 1)" "int k + 2 = int (k + 2)" "int k + 3 = int (k + 3)" by simp_all
  have w: "bit (w32 (byte e j)) i \<longleftrightarrow> i < 8 \<and> bit (byte e j) i" for i j
  proof -
    have "take_bit 8 (byte e j) = byte e j" using byte_range [OF assms, of j] by (simp add: take_bit_int_eq_self)
    then have "bit (byte e j) i \<longleftrightarrow> i < 8 \<and> bit (byte e j) i" by (metis bit_take_bit_iff)
    then show ?thesis by (auto simp: bit_word_of_int_iff)
  qed
  have push: "bit (push_bit n v) i \<longleftrightarrow> n \<le> i \<and> i < 32 \<and> bit v (i - n)" for n i and v :: "32 word"
    by (simp add: bit_push_bit_iff)
  have "w32 (des_read e (int k)) = push_bit 24 (w32 (byte e k)) OR push_bit 16 (w32 (byte e (k + 1))) OR
      push_bit 8 (w32 (byte e (k + 2))) OR w32 (byte e (k + 3))"
    unfolding des_read_def pos bits_of_char by (simp add: js_w32 or.assoc)
  then show ?thesis
    by (simp add: wbits_list text_bits_def byte_bits_def bit_or_iff push w)
qed

lemma pbits_block_at:
  assumes "byte_string e"
  shows "pbits (block_at e k) = text_bits (block_bytes e k)"
proof -
  have "8 * int k = int (8 * k)" "8 * int k + 4 = int (8 * k + 4)" by simp_all
  moreover have "text_bits (a @ b) = text_bits a @ text_bits b" for a b by (simp add: text_bits_def)
  moreover have "block_bytes e k = [byte e (8 * k), byte e (8 * k + 1), byte e (8 * k + 2), byte e (8 * k + 3)] @
      [byte e (8 * k + 4), byte e (8 * k + 4 + 1), byte e (8 * k + 4 + 2), byte e (8 * k + 4 + 3)]"
    by (simp add: block_bytes_map upt8) (simp add: add.commute)
  ultimately show ?thesis
    by (simp only: block_at_def words_def pbits_def fst_conv snd_conv wbits_read [OF assms])
qed

lemma text_bits_chars: "text_bits (block_chars x) = pbits x"
proof -
  have "byte_string (concat (map block_chars [x]))" by (rule byte_string_blocks)
  then have bytes: "byte_string (block_chars x)" by simp
  have "block_bytes (block_chars x) 0 = block_chars x" using block_bytes_concat [of 0 "[x]"] by simp
  with pbits_block_at [OF bytes, of 0] block_at_chars [OF bytes, of 0 x] show ?thesis by simp
qed

section \<open>The cipher on a block\<close>

text \<open>A key is the bits of eight characters; positions behind the end of the key count as zero.\<close>

definition key_bits :: "jstr \<Rightarrow> nat \<Rightarrow> bool list" where
  "key_bits t x = text_bits (block_bytes t x)"

lemma length_fips_keys: "length (fips_keys K) = 16"
proof -
  have "length (fips_keys_from ss C D) = length ss" for ss C D by (induction ss arbitrary: C D) simp_all
  moreover have "length fips_shifts = 16" by (simp add: fips_shifts_def)
  ultimately show ?thesis by (simp only: fips_keys_def)
qed

lemma round_keys_list:
  assumes "byte_string t" "x < (if length t > 8 then 3 else 1)"
  shows "map (round_keys (des_keys t)) (map (\<lambda>j. 32 * x + 2 * j) [0..<16]) = fips_keys (key_bits t x)"
proof (rule nth_equalityI)
  fix j assume "j < length (map (round_keys (des_keys t)) (map (\<lambda>j. 32 * x + 2 * j) [0..<16]))"
  then have j: "j < 16" by simp
  then have "map (round_keys (des_keys t)) (map (\<lambda>j. 32 * x + 2 * j) [0..<16]) ! j = round_keys (des_keys t) (32 * x + 2 * j)"
    by simp
  also have "\<dots> = fips_keys (key_bits t x) ! j" unfolding key_bits_def pbits_block_at [OF assms(1), symmetric] by (rule key_schedule_fips [OF assms(2) j])
  finally show "map (round_keys (des_keys t)) (map (\<lambda>j. 32 * x + 2 * j) [0..<16]) ! j = fips_keys (key_bits t x) ! j" .
qed (simp add: length_fips_keys)

lemma pass_positions:
  "positions (0, 32, 2) = map (\<lambda>j. 32 * 0 + 2 * j) [0..<16]" "positions (30, - 2, - 2) = rev (map (\<lambda>j. 32 * 0 + 2 * j) [0..<16])"
  "positions (62, 30, - 2) = rev (map (\<lambda>j. 32 * 1 + 2 * j) [0..<16])" "positions (32, 64, 2) = map (\<lambda>j. 32 * 1 + 2 * j) [0..<16]"
  "positions (64, 96, 2) = map (\<lambda>j. 32 * 2 + 2 * j) [0..<16]" "positions (94, 62, - 2) = rev (map (\<lambda>j. 32 * 2 + 2 * j) [0..<16])"
  by (simp_all add: positions_def upt_rec)

lemma length_des_keys: "length (des_keys t) = (if length t > 8 then 96 else 32)"
proof -
  have "length (key_rounds key_shifts kT) = 32" for kT using length_key_rounds [of key_shifts] by (simp add: key_shifts_def)
  then show ?thesis by (simp add: des_keys_def Let_def upt_rec)
qed

definition fips_cipher :: "jstr \<Rightarrow> bool list \<Rightarrow> bool list" where
  "fips_cipher t =
     (if length t > 8 then tdea_encrypt (key_bits t 0) (key_bits t 1) (key_bits t 2) else fips_encrypt (key_bits t 0))"

definition fips_decipher :: "jstr \<Rightarrow> bool list \<Rightarrow> bool list" where
  "fips_decipher t =
     (if length t > 8 then tdea_decrypt (key_bits t 0) (key_bits t 1) (key_bits t 2) else fips_decrypt (key_bits t 0))"

lemma des_w_fips:
  assumes "byte_string t"
  shows "pbits (des_w t True x) = fips_cipher t (pbits x)" and "pbits (des_w t False x) = fips_decipher t (pbits x)"
proof -
  note defs = des_w_def length_des_keys des_passes_def block_pass block_passes [of _ _ "_ # _"] pass_positions rev_map [symmetric]
    fips_cipher_def fips_decipher_def tdea_encrypt_def tdea_decrypt_def fips_encrypt_def fips_decrypt_def
  have keys: "map (round_keys (des_keys t)) (map (\<lambda>j. 32 * x + 2 * j) [0..<16]) = fips_keys (key_bits t x)"
    "map (round_keys (des_keys t)) (rev (map (\<lambda>j. 32 * x + 2 * j) [0..<16])) = rev (fips_keys (key_bits t x))"
    if "x < (if length t > 8 then 3 else 1)" for x
    using round_keys_list [OF assms that] by (simp_all only: rev_map [symmetric])
  show "pbits (des_w t True x) = fips_cipher t (pbits x)" "pbits (des_w t False x) = fips_decipher t (pbits x)"
    by (cases "length t > 8"; simp only: defs list.map if_True if_False keys; simp add: keys [of 0] keys [of 1] keys [of 2])+
qed

section \<open>The cipher on a text\<close>

lemma pbits_xor: "pbits (xor_pair x y) = xor_bits (pbits x) (pbits y)"
  by (simp add: pbits_def xor_pair_def wbits_xor) (simp add: xor_bits_def)

lemma chain_enc_map:
  assumes "\<And>x. f (E x) = E' (f x)" "\<And>x y. f (mix x y) = mix' (f x) (f y)"
  shows "map f (mode_enc c mix E v xs) = mode_enc c mix' E' (f v) (map f xs)"
  by (induction xs arbitrary: v) (simp_all add: Let_def assms)

lemma chain_dec_map:
  assumes "\<And>x. f (D x) = D' (f x)" "\<And>x y. f (mix x y) = mix' (f x) (f y)"
  shows "map f (mode_dec c mix D v xs) = mode_dec c mix' D' (f v) (map f xs)"
  by (induction xs arbitrary: v) (simp_all add: assms)

lemma chain_start:
  "\<not> c \<Longrightarrow> mode_enc c mix E v xs = mode_enc c mix E w xs" "\<not> c \<Longrightarrow> mode_dec c mix D v xs = mode_dec c mix D w xs"
  by (induction xs) (simp_all add: Let_def)

definition pkcs_pad :: "jstr \<Rightarrow> jstr" where
  "pkcs_pad e = (let r = 8 - length e mod 8 in e @ replicate r (int r))"

definition eights :: "jstr \<Rightarrow> jstr list" where
  "eights e = map (\<lambda>k. take 8 (drop (8 * k) e)) [0..<length e div 8]"

text \<open>The initial vector is the first eight bytes of the argument.\<close>

lemma text_bits_concat: "text_bits (concat (map block_chars ys)) = concat (map pbits ys)"
  by (induction ys) (simp_all add: text_bits_def flip: text_bits_chars)

lemma block_bytes_take:
  assumes "8 * Suc k \<le> length e"
  shows "block_bytes e k = take 8 (drop (8 * k) e)"
  using assms by (intro nth_equalityI) (simp_all add: block_bytes_def byte_def)

lemma map_blocks_eights:
  assumes "byte_string e"
  shows "map pbits (map (block_at e) [0..<length e div 8]) = map text_bits (eights e)"
proof -
  have "8 * Suc k \<le> length e" if "k < length e div 8" for k
  proof -
    have "8 * Suc k \<le> 8 * (length e div 8)" using that by (intro mult_le_mono2 Suc_leI)
    also have "\<dots> \<le> length e" by simp
    finally show ?thesis .
  qed
  then show ?thesis using assms by (simp add: eights_def pbits_block_at block_bytes_take)
qed

lemma block_at_cong:
  assumes "\<And>j. 8 * k \<le> j \<Longrightarrow> j < 8 * k + 8 \<Longrightarrow> byte e j = byte e' j" "byte_string e" "byte_string e'"
  shows "block_at e k = block_at e' k"
proof -
  have "block_bytes e k = block_bytes e' k" using assms(1) by (simp add: block_bytes_def)
  then show ?thesis by (simp add: block_at_bytes assms(2,3))
qed

lemma pad_blocks:
  assumes "byte_string e"
  shows "map (block_at (fst (des_pad 1 True e))) [0..<(snd (des_pad 1 True e) + 7) div 8] =
    map (block_at (pkcs_pad e)) [0..<length (pkcs_pad e) div 8]"
proof -
  define r where "r = 8 - length e mod 8"
  note pad = des_pad_blocks [of e, folded r_def]
  have len: "length (pkcs_pad e) div 8 = Suc (length e div 8)"
    using pad(3) by (simp add: pkcs_pad_def Let_def flip: r_def)
  have "block_at (e @ replicate 8 (int r)) k = block_at (pkcs_pad e) k" if "k < Suc (length e div 8)" for k
  proof (rule block_at_cong)
    fix j assume "j < 8 * k + 8"
    moreover have "8 * Suc k \<le> 8 * Suc (length e div 8)" using that by (intro mult_le_mono2 Suc_leI)
    ultimately have "j < length e + r" using pad(3) by (simp only: mult_Suc_right)
    then show "byte (e @ replicate 8 (int r)) j = byte (pkcs_pad e) j"
      using pad(5) by (auto simp: byte_def pkcs_pad_def Let_def nth_append simp flip: r_def)
  qed (use assms pad(5) in \<open>simp_all add: pkcs_pad_def Let_def flip: r_def\<close>)
  then show ?thesis unfolding pad(1,2) len by simp
qed

text \<open>
  C3: the encryption of a byte string with padding is the standard: the text is padded to whole blocks, the blocks are chained in CBC
  from the initial vector when the mode is 1 and taken one by one otherwise, each is encrypted with DES under a key of at most eight
  characters and with triple DES under a longer one, and zero bytes at the end of the result are cut off.
\<close>

theorem des_encrypts_fips:
  assumes "byte_string key" "byte_string e" "byte_string iv"
  shows "\<exists>C. des_raw key e True n iv 1 = strip_zeros C \<and> byte_string C \<and>
    text_bits C = concat (mode_enc (n = 1) xor_bits (fips_cipher key) (text_bits (block_bytes iv 0)) (map text_bits (eights (pkcs_pad e))))"
proof -
  define ys where "ys = mode_enc (n = 1) xor_pair (des_w key True) (start_vec n iv) (map (block_at (pkcs_pad e)) [0..<length (pkcs_pad e) div 8])"
  have "ys = mode_enc (n = 1) xor_pair (des_w key True) (block_at iv 0) (map (block_at (pkcs_pad e)) [0..<length (pkcs_pad e) div 8])"
    unfolding ys_def by (cases "n = 1") (auto simp: start_vec_def block_at_def intro: chain_start)
  moreover have "byte_string (pkcs_pad e)" using assms(2) by (simp add: pkcs_pad_def Let_def)
  ultimately have "map pbits ys =
      mode_enc (n = 1) xor_bits (fips_cipher key) (text_bits (block_bytes iv 0)) (map text_bits (eights (pkcs_pad e)))"
    using chain_enc_map [of pbits "des_w key True" "fips_cipher key" xor_pair xor_bits]
    by (simp only: des_w_fips [OF assms(1)] pbits_xor map_blocks_eights pbits_block_at [OF assms(3)])
  moreover have "des_raw key e True n iv 1 = strip_zeros (concat (map block_chars ys))"
    unfolding des_raw_enc pad_blocks [OF assms(2)] ys_def ..
  ultimately show ?thesis
    by (intro exI [of _ "concat (map block_chars ys)"]) (simp add: byte_string_blocks text_bits_concat)
qed

theorem des_encrypts_fips_witness:
  "\<exists>C. des_raw (str ''5e5062e82f15fe4ca9d24bc5'') (str ''a text of some blocks'') True 1 (str ''01234567'') 1 = strip_zeros C \<and>
    byte_string C \<and>
    text_bits C = concat (mode_enc True xor_bits (fips_cipher (str ''5e5062e82f15fe4ca9d24bc5''))
      (text_bits (block_bytes (str ''01234567'') 0)) (map text_bits (eights (pkcs_pad (str ''a text of some blocks'')))))"
  using des_encrypts_fips [of "str ''5e5062e82f15fe4ca9d24bc5''" "str ''a text of some blocks''" "str ''01234567''" 1]
  by (simp add: str_def)

lemma des_decrypts_fips:
  assumes "byte_string key" "byte_string c" "8 dvd length c" "byte_string iv"
  shows "\<exists>C. des_raw key c False n iv 1 = strip_zeros C \<and> byte_string C \<and>
    text_bits C = concat (mode_dec (n = 1) xor_bits (fips_decipher key) (text_bits (block_bytes iv 0)) (map text_bits (eights c)))"
proof -
  have len: "(length c + 7) div 8 = length c div 8" using assms(3) by (auto simp: dvd_def)
  define ys where "ys = mode_dec (n = 1) xor_pair (des_w key False) (start_vec n iv) (map (block_at c) [0..<length c div 8])"
  have "ys = mode_dec (n = 1) xor_pair (des_w key False) (block_at iv 0) (map (block_at c) [0..<length c div 8])"
    unfolding ys_def by (cases "n = 1") (auto simp: start_vec_def block_at_def intro: chain_start)
  then have "map pbits ys =
      mode_dec (n = 1) xor_bits (fips_decipher key) (text_bits (block_bytes iv 0)) (map text_bits (eights c))"
    using chain_dec_map [of pbits "des_w key False" "fips_decipher key" xor_pair xor_bits]
    by (simp only: des_w_fips [OF assms(1)] pbits_xor map_blocks_eights [OF assms(2)] pbits_block_at [OF assms(4)])
  moreover have "des_raw key c False n iv 1 = strip_zeros (concat (map block_chars ys))"
    unfolding des_raw_dec len ys_def ..
  ultimately show ?thesis
    by (intro exI [of _ "concat (map block_chars ys)"]) (simp add: byte_string_blocks text_bits_concat)
qed

lemma chain_dec_False: "mode_dec False mix D v xs = map D xs"
  by (induction xs arbitrary: v) simp_all

section \<open>The whole script\<close>

text \<open>
  C10: reading an answer. For an answer that is the Base64 of whole blocks, the script decrypts the blocks one by one with triple DES
  under the three parts of its key, removes zeros and padding, reads the bytes as UTF-8 and parses the text; it raises when the bytes
  are not UTF-8 or the text does not parse.
\<close>

theorem qm_getData_standard:
  fixes JSON_parse :: "jstr \<Rightarrow> 'v option"
  assumes "js_atob answer = Some c" "byte_string c" "8 dvd length c"
  shows "\<exists>P. byte_string P \<and>
    text_bits P = concat (map (tdea_decrypt (text_bits (str ''5e5062e8'')) (text_bits (str ''2f15fe4c'')) (text_bits (str ''a9d24bc5'')))
      (map text_bits (eights c))) \<and>
    qm_getData JSON_parse answer = Option.bind (decode_uri_component (js_escape (des_unpad 1 (strip_zeros P)))) JSON_parse"
proof -
  let ?key = "str ''5e5062e82f15fe4ca9d24bc5''"
  have parts: "key_bits ?key 0 = text_bits (str ''5e5062e8'')" "key_bits ?key 1 = text_bits (str ''2f15fe4c'')"
    "key_bits ?key 2 = text_bits (str ''a9d24bc5'')" and len: "length ?key > 8"
    by (simp_all add: key_bits_def block_bytes_map upt8 byte_def str_def)
  have "fips_decipher ?key = tdea_decrypt (text_bits (str ''5e5062e8'')) (text_bits (str ''2f15fe4c'')) (text_bits (str ''a9d24bc5''))"
    unfolding fips_decipher_def parts using len by simp
  moreover have "byte_string ?key" "byte_string (str ''012345677890123'')" by (simp_all add: str_def)
  ultimately obtain P where P: "des_raw ?key c False 0 (str ''012345677890123'') 1 = strip_zeros P" "byte_string P"
    "text_bits P = concat (map (tdea_decrypt (text_bits (str ''5e5062e8'')) (text_bits (str ''2f15fe4c'')) (text_bits (str ''a9d24bc5'')))
      (map text_bits (eights c)))"
    using des_decrypts_fips [of ?key c "str ''012345677890123''" 0] assms(2,3) by (auto simp: chain_dec_False)
  have "qm_getData JSON_parse answer = Option.bind (decode_uri_component (js_escape (des_unpad 1 (strip_zeros P)))) JSON_parse"
    using assms(1) P(1) by (simp add: qm_getData_def qm_decode_atob_lemma des_s_def split: option.split)
  with P show ?thesis by blast
qed

theorem qm_getData_standard_witness:
  "\<exists>P. byte_string P \<and>
    text_bits P = concat (map (tdea_decrypt (text_bits (str ''5e5062e8'')) (text_bits (str ''2f15fe4c'')) (text_bits (str ''a9d24bc5'')))
      (map text_bits (eights (str ''12345678'')))) \<and>
    qm_getData Some (str ''MTIzNDU2Nzg='') = Option.bind (decode_uri_component (js_escape (des_unpad 1 (strip_zeros P)))) Some"
proof -
  have "js_atob (str ''MTIzNDU2Nzg='') = Some (str ''12345678'')" by code_simp
  moreover have "length (str ''12345678'') = 8" "byte_string (str ''12345678'')" by (simp_all add: str_def)
  ultimately show ?thesis by (intro qm_getData_standard) simp_all
qed

text \<open>
  C24: for all arguments, whether they are bytes or not, the result of the cipher is a text of bytes from which only zero bytes at the end
  were removed; before that it has exactly eight bytes for every block, and there is one block for every started eight characters
  of the input, and one more when an input of whole blocks is padded for encryption.
\<close>

theorem des_raw_bytes:
  "\<exists>bs. des_raw t e i n a s = strip_zeros bs \<and> byte_string bs \<and>
    length bs = 8 * (if s = 1 \<and> i then length e div 8 + 1 else (length e + 7) div 8)"
proof -
  let ?N = "(snd (des_pad s i e) + 7) div 8"
  have "\<exists>ys. des_raw t e i n a s = strip_zeros (concat (map block_chars ys)) \<and> length ys = ?N"
  proof (cases i)
    case True
    then show ?thesis using des_raw_enc [of t e n a s] by auto
  next
    case False
    then show ?thesis using des_raw_dec_blocks [of t e n a s] by auto
  qed
  then obtain ys where ys: "des_raw t e i n a s = strip_zeros (concat (map block_chars ys))" "length ys = ?N"
    by blast
  have "?N = (if s = 1 \<and> i then length e div 8 + 1 else (length e + 7) div 8)"
  proof (cases "s = 1 \<and> i \<and> length e mod 8 \<noteq> 0")
    case True
    define q r where "q = length e div 8" "r = length e mod 8"
    then have e: "length e = 8 * q + r" and r: "0 < r" "r < 8" using True by auto
    have "(8 * q + r + 7) div 8 = q + (r + 7) div 8" by simp
    also have "(r + 7) div 8 = 1" using r by (intro div_nat_eqI) auto
    finally show ?thesis using True r e by (auto simp: des_pad_def Let_def q_r_def(1) [symmetric])
  next
    case False
    then show ?thesis by (auto simp: des_pad_def Let_def)
  qed
  then show ?thesis
    using ys byte_string_blocks [of ys] length_blocks [of ys]
    by (intro exI [of _ "concat (map block_chars ys)"]) simp
qed

end
