(* ===== verification/Des_Known.thy ===== *)
theory Des_Known
  imports Des_Standard
begin

text \<open>A decryption gives back the text; one block under the empty key, evaluated, shows that the condition of the theorem holds.\<close>

section \<open>Evaluation\<close>

lemma chunk_index:
  assumes "n \<le> 24"
  shows "nat (js_and (js_ushr l (int n)) 63) = unat (drop_bit n (w32 l) AND 63)"
proof -
  have "int (unat (drop_bit n (w32 l) AND 63)) = uint (drop_bit n (w32 l)) AND 63" by (simp add: uint_and)
  also have "\<dots> = js_and (js_ushr l (int n)) 63"
    using js_and_mask [of 6 "js_ushr l (int n)"] assms and_mask [of "uint (drop_bit n (w32 l))" 6] by (simp add: js_ushr_uint)
  finally show ?thesis by (metis nat_int)
qed

lemma mix_eval:
  "mix_w z o' w =
    w32 (box_2 ! unat (drop_bit 24 (w XOR w32 (z ! o')) AND 63)) OR w32 (box_4 ! unat (drop_bit 16 (w XOR w32 (z ! o')) AND 63)) OR
    w32 (box_6 ! unat (drop_bit 8 (w XOR w32 (z ! o')) AND 63)) OR w32 (box_8 ! unat (drop_bit 0 (w XOR w32 (z ! o')) AND 63)) OR
    w32 (box_1 ! unat (drop_bit 24 (rotr4 w XOR w32 (z ! (o' + 1))) AND 63)) OR
    w32 (box_3 ! unat (drop_bit 16 (rotr4 w XOR w32 (z ! (o' + 1))) AND 63)) OR
    w32 (box_5 ! unat (drop_bit 8 (rotr4 w XOR w32 (z ! (o' + 1))) AND 63)) OR
    w32 (box_7 ! unat (drop_bit 0 (rotr4 w XOR w32 (z ! (o' + 1))) AND 63))"
proof -
  have "w32 (js_xor (uint w) (z ! o')) = w XOR w32 (z ! o')"
    "w32 (js_xor (js_or (js_ushr (uint w) 4) (js_shl (uint w) 28)) (z ! (o' + 1))) = rotr4 w XOR w32 (z ! (o' + 1))"
    by (simp_all add: js_w32 rotr4_def)
  moreover have "nat (js_and (js_ushr l 24) 63) = unat (drop_bit 24 (w32 l) AND 63)"
    "nat (js_and (js_ushr l 16) 63) = unat (drop_bit 16 (w32 l) AND 63)"
    "nat (js_and (js_ushr l 8) 63) = unat (drop_bit 8 (w32 l) AND 63)"
    "nat (js_and (js_ushr l 0) 63) = unat (drop_bit 0 (w32 l) AND 63)" for l
    using chunk_index [of 24 l] chunk_index [of 16 l] chunk_index [of 8 l] chunk_index [of 0 l] by simp_all
  ultimately show ?thesis
    unfolding mix_w_def des_mix_def Let_def box_def js_and_63 by (simp only: w32_js_or or.assoc)
qed

lemma js_zero:
  "js_xor 0 0 = 0" "js_or 0 0 = 0" "js_and 0 x = 0" "js_and x 0 = 0" "js_shl 0 n = 0" "js_ushr 0 n = 0"
  by (simp_all add: js_xor_def js_or_def js_and_def js_shl_def js_ushr_def to_uint32_def)

lemma key_rounds_zero: "key_rounds bs (0, 0) = replicate (2 * length bs) 0"
proof -
  have "key_rotate b (0, 0) = (0, 0)" for b by (simp add: key_rotate_def js_zero)
  moreover have "key_select (0, 0) = [0, 0]" by (simp add: key_select_def sel_def sel_defs js_zero)
  ultimately show ?thesis by (induction bs) (simp_all add: key_rounds.simps)
qed

lemma des_keys_empty: "des_keys [] = replicate 32 0"
proof -
  have "key_permute (0, 0) = (0, 0)" by (simp only: key_permute_def prod.case Let_def js_zero)
  moreover have "des_read [] k = 0" for k by (simp add: des_read_def char_code_at_def js_zero)
  moreover have "key_rounds key_shifts (0, 0) = replicate 32 0" by (simp add: key_rounds_zero key_shifts_def)
  ultimately show ?thesis by (simp add: des_keys_def)
qed

lemma empty_key_rounds:
  "fold (feistel_round (XOR) (mix_w (replicate 32 0))) (positions (0, 32, 2)) (initial_w (2071791110, 101058054)) = (1613600462, 819106835)"
  by (simp add: positions_def upt_rec feistel_round_def mix_eval rotr4_def box_defs initial_w_def dswap_def rotl1_def Let_def nth_Cons')

lemma empty_key_cipher: "des_raw [] (str ''{}'') True 0 [] 1 \<noteq> []"
proof
  assume empty: "des_raw [] (str ''{}'') True 0 [] 1 = []"
  let ?e = "str ''{}'' @ replicate 8 6"
  let ?y = "des_w [] True (block_at ?e 0)"
  have pad: "fst (des_pad 1 True (str ''{}'')) = ?e" "(snd (des_pad 1 True (str ''{}'')) + 7) div 8 = 1"
    using des_pad_blocks(1,2) [of "str ''{}''"] by (simp_all add: str_def)
  have "strip_zeros (concat (map block_chars [?y])) = []"
    using empty unfolding des_raw_enc pad by simp
  then have "?y = block_at [] 0" using block_at_stripped [of 0 "[?y]"] by simp
  then have zero: "?y = (0, 0)" by (simp add: block_at_def words_def des_read_def char_code_at_def js_zero)
  have "byte_string ?e" by (simp add: str_def)
  then have "block_at ?e 0 = (2071791110, 101058054)"
    by (simp add: block_at_bytes block_bytes_map upt8 byte_def str_def be_word_def)
  then have "?y = final_w (819106835, 1613600462)"
    by (simp add: des_w_def des_keys_empty des_passes_def block_w_def feistel_pass_def empty_key_rounds)
  also have "\<dots> = (456008285, 3767672392)" by (simp add: final_w_def dswap_def rotr1_def Let_def)
  finally show False using zero by simp
qed

section \<open>The round trip\<close>

text \<open>
  C4: a decryption with padding gives back the text whose UTF-8 bytes were encrypted, under every key, in both modes and for every
  initial vector, if the encryption did not lose its last block to the removal of zero bytes.
\<close>

theorem des_roundtrip:
  assumes "code_units t" "utf8_encode t = Some bs"
    and "des_s key bs True n iv 1 = Some c"
    and "8 * (length bs div 8) < length c"
  shows "des_s key c False n iv 1 = Some t"
proof -
  have c: "c = des_raw key bs True n iv 1" using assms(3) by (simp add: des_s_def)
  have "des_unpad 1 (des_raw key c False n iv 1) = bs"
    unfolding c by (rule des_raw_roundtrip) (use assms byte_string_utf8_encode c in auto)
  then show ?thesis using decode_escape [OF assms(1,2)] by (simp add: des_s_def)
qed

theorem des_roundtrip_witness: "des_s [] (des_raw [] (str ''{}'') True 0 [] 1) False 0 [] 1 = Some (str ''{}'')"
  using empty_key_cipher
  by (intro des_roundtrip [of _ "str ''{}''"]) (simp_all add: code_units_def str_def utf8_encode_def utf8_octets_def des_s_def)

end
