(* ===== verification/Spec2Isabelle.thy ===== *)
theory Spec2Isabelle
  imports Md5_Wechat Md5_Fkw Md5_Getcdata Md5_Kugou Md5_Yuanrenxue Md5_Youdao Rsa Hook_Frames Hook_Proxy Hook_Inject Ast_Base64 Ast_Strings Ast_Rename Ast_Flower Qq_Login Baidu_Sign Des_Known
begin

text \<open>
  A verification development for the JavaScript of a repository of studies on web scraping. The repository has no single program; its own
  code is a set of scripts under \<^verbatim>\<open>src/Language/python/spider\<close> that recompute the signatures and ciphers of sites, tools that
  rewrite JavaScript with Babel, and one larger program, the memory search. The rest is code of other sites kept as material.

  \<^bold>\<open>The language.\<close> \<open>Js_Prelude\<close> models the numbers, arrays and strings that the scripts use: integers with the 32-bit conversions of the
  bitwise operators, arrays whose missing elements are \<open>None\<close> and that grow when written past their end, strings as lists of UTF-16 code
  units, and the two forms of counting loops. \<open>Js_Text\<close>, \<open>Js_Uri\<close>, \<open>Js_Uri_Decode\<close> and \<open>Js_Base64\<close> have the library
  functions on texts, with \<open>encodeURIComponent\<close>, \<open>unescape\<close>, \<open>decodeURIComponent\<close> and \<open>atob\<close>; \<open>Js_Json\<close> has texts and
  integers as JSON, written and read. \<open>Js_Ast\<close> has the syntax
  trees of Babel and \<open>Js_Eval\<close> a big-step semantics of the expressions in them. Exceptions are values of a sum type, and a loop that may not
  end is a partial function into \<open>option\<close>, for which the theorems state that it returns.

  \<^bold>\<open>Digests.\<close> \<open>Md5_Spec\<close> is RFC 1321 on words; \<open>Md5_Script\<close>, \<open>Md5_Hmac\<close> and \<open>Md5_Api\<close> are locales on what the scripts have in
  common: sixteen statements per round, packing of bytes into words, printing. They are interpreted on six scripts: \<open>Md5_Wechat\<close>
  (\<^verbatim>\<open>wechat.js\<close>, with HMAC), \<open>Md5_Fkw\<close> (\<^verbatim>\<open>fkw.js\<close>), \<open>Md5_Getcdata\<close> (\<^verbatim>\<open>getcdata.js\<close>, the search for a preimage),
  \<open>Md5_Kugou\<close> (\<^verbatim>\<open>kg_mid.js\<close>), \<open>Md5_Yuanrenxue\<close> (\<^verbatim>\<open>1.js\<close>, a changed table), \<open>Md5_Youdao\<close> (addition by cases on sign bits and
  a conversion to UTF-8 of its own) and \<open>Qq_Md5\<close>. Each script is shown to compute the digest of the documented input; where it does not,
  the theorem says what it computes.

  \<^bold>\<open>Big numbers and RSA.\<close> \<open>Bigint_Base\<close>, \<open>Bigint_Mul\<close>, \<open>Bigint_Div\<close>, \<open>Bigint_Num\<close>, \<open>Bigint_Barrett\<close>, \<open>Bigint_Text\<close> and \<open>Rsa\<close>
  model the library in \<^verbatim>\<open>BigInt\<close> of the script for the site with trial orders: numbers as arrays of 16-bit digits of a fixed length \<open>N\<close>, so every
  fact bounds the operands by the room that the code reserves. Addition, multiplication, shifts, division with estimated digits, Barrett reduction and
  modular powers are exact on that domain. Two branches for negative numbers are wrong in the code and stay so in the model: the division of
  a negative dividend with at least as many bits as the divisor (\<open>biDivideModulo_negative_wrong\<close>) and the numeral of a negative number
  (\<open>biToString_negative_wrong\<close>). The encryption of the script is RSA with the padding of the script, and decryption undoes it.

  \<^bold>\<open>The login of QQ.\<close> \<open>Qq_Tea\<close> is the block cipher of \<^verbatim>\<open>QQ/js/pwd.js\<close> with its chaining over global variables and \<open>Qq_Login\<close> the
  packet that \<open>getPwd\<close> encrypts; a second login fails because the cipher overwrites functions. The RSA of that file is an argument.

  \<^bold>\<open>Company directory.\<close> \<open>Des_Tables\<close> and \<open>Des_Script\<close> are \<^verbatim>\<open>decode\<close>, \<^verbatim>\<open>s\<close> and \<^verbatim>\<open>getData\<close> of the script for the company directory:
  Base64, DES and triple DES on signed 32-bit integers with tables that join the selections with the permutations, ECB and CBC, three ways of
  padding. \<open>Des_Fips\<close> is FIPS 46-3 on lists of bits. \<open>Des_Block\<close> shows that a block cipher of this form inverts itself (a locale of Feistel
  networks for any round function), \<open>Des_Perm\<close>, \<open>Des_Schedule\<close> and \<open>Des_Round\<close> that permutations, round keys and round function are those of
  the standard, \<open>Des_Stream\<close> that the loop over the text is chaining (a locale for any block cipher), \<open>Des_Api\<close>, \<open>Des_Standard\<close> and \<open>Des_Known\<close>
  the whole functions. \<open>Js_Bytes\<close> has words as bytes for this cipher and that of the login.

  \<^bold>\<open>Translator.\<close> \<open>Baidu_Sign\<close> is the signature of a request to the translator of Baidu: the abridged text, its UTF-8 bytes and a hash
  written with strings of operators, which is the one-at-a-time hash of Jenkins; a text that mixes surrogate pairs with other
  characters raises.

  \<^bold>\<open>Memory search.\<close> \<open>Hook_Runtime\<close> is the store of assigned values and the search in it, \<open>Hook_Frames\<close> the search across frames by
  messages, a step relation in which messages arrive in any order, \<open>Hook_Proxy\<close> the proxy that injects hooks, with its cache on disk, whose
  meta file is a text with one line of JSON for each script, and the server for \<open>eval\<close> behind a body parser with a limit of 100 kilobytes;
  \<open>Hook_Inject\<close> has the visitors that insert the hooks.

  \<^bold>\<open>Obfuscation.\<close> \<open>Ast_Confound\<close>, \<open>Ast_Strings\<close> and \<open>Ast_Rename\<close> are the methods of \<^verbatim>\<open>all.js\<close> and of the exercises before it;
  \<open>Ast_Base64\<close> their encoders; \<open>Ast_Flatten\<close> the control-flow flattening and the two tools that undo it, against any semantics of
  statements with block scopes, in which the cases of a switch are a block that every turn of the loop opens anew, so that bodies with lexical
  declarations are excluded (\<open>flatten_breaks_let\<close>); \<open>Ast_Flower\<close> the removal of
  objects with texts and one-line functions, whose table shares its nodes with the tree that the traversal rewrites, and of constants and dead
  branches. A rewriting is right when the new code evaluates, or runs, as
  the old; where a tool changes the program the theorem shows how. The traversal, the generator, the scopes and the evaluation of Babel are arguments
  or the order of a list.

  \<^bold>\<open>Bounds.\<close> Lengths of messages stay below the limits that the scripts rely on for exact numbers; the digits of big numbers fit the fixed
  length; the search of \<^verbatim>\<open>getcdata.js\<close> has at most 1000 steps as in the code. No fuel is used.

  \<^bold>\<open>Not modelled.\<close> Code of other sites and copies of libraries (jsbn, CryptoJS, webpack bundles, the scripts behind captchas), the objects that imitate
  a browser, scripts that only call the interfaces of frida, Babel or the file system, and the random pool and RSA of one login. Floating-point numbers are not modelled: where
  a script divides, the quotient is truncated at once or the operands are exact, and numeric literals in syntax trees are integers.
\<close>

end
